(* ===== verification/DSWP_Prelude.thy ===== *)
theory DSWP_Prelude
  imports Main "HOL-Library.Word" "HOL-Library.Signed_Division" "HOL-Library.Finite_Map" "HOL-Library.Multiset"
begin

text \<open>
  Shared vocabulary of the development.
  \<^item> The outcome of a piece of C or C++ code: it returns a value, it blocks (a wait on a condition
    variable), it leaves the process through \<open>error\<close> of \<^verbatim>\<open>Utils.cpp\<close> (which prints the message and calls
    \<open>exit(1)\<close>), or it performs an access the language leaves undefined.
  \<^item> Checked reads and writes of arrays and vectors.
  \<^item> \<open>std::map\<close> with its default-inserting \<open>operator[]\<close>, over finite maps.
  \<^item> The collections of facts the component proofs share.
\<close>

named_theorems outcome_simps \<open>evaluation of the outcome monad\<close>
named_theorems array_simps \<open>checked array accesses\<close>

section \<open>Outcomes\<close>

datatype 'a outcome =
    Ok 'a
  | Blocked
  | Exit string
  | Undef

fun obind :: "'a outcome \<Rightarrow> ('a \<Rightarrow> 'b outcome) \<Rightarrow> 'b outcome" where
  "obind (Ok a) f = f a"
| "obind Blocked f = Blocked"
| "obind (Exit m) f = Exit m"
| "obind Undef f = Undef"

declare obind.simps [outcome_simps]

lemma obind_eq_Ok [outcome_simps]:
  "obind m f = Ok b \<longleftrightarrow> (\<exists>a. m = Ok a \<and> f a = Ok b)"
  by (cases m) auto

lemma obind_assoc: "obind (obind m f) g = obind m (\<lambda>a. obind (f a) g)"
  by (cases m) auto

lemma obind_cong [fundef_cong]:
  "m = m' \<Longrightarrow> (\<And>a. m' = Ok a \<Longrightarrow> f a = f' a) \<Longrightarrow> obind m f = obind m' f'"
  by (cases m') auto

text \<open>For evaluation: the continuation is simplified only once the first part is a value.\<close>

lemma obind_weak_cong: "m = m' \<Longrightarrow> obind m f = obind m' f"
  by simp

text \<open>A loop over a list whose body may leave the function: \<open>for (x : xs) s = f(s, x)\<close>.\<close>

fun ofold :: "('s \<Rightarrow> 'a \<Rightarrow> 's outcome) \<Rightarrow> 'a list \<Rightarrow> 's \<Rightarrow> 's outcome" where
  "ofold f [] s = Ok s"
| "ofold f (x # xs) s = obind (f s x) (ofold f xs)"

lemma ofold_append: "ofold f (xs @ ys) s = obind (ofold f xs s) (ofold f ys)"
proof (induction xs arbitrary: s)
  case (Cons x xs)
  then show ?case by (cases "f s x") simp_all
qed simp

text \<open>
  The invariant rule of such a loop: if the body succeeds and keeps the invariant, indexed by the
  part of the list already consumed, the loop succeeds and the invariant holds at its end.
\<close>

lemma ofold_invariant:
  assumes "I [] s"
    and "\<And>done x rest s. xs = done @ x # rest \<Longrightarrow> I done s \<Longrightarrow> \<exists>s'. f s x = Ok s' \<and> I (done @ [x]) s'"
  shows "\<exists>s'. ofold f xs s = Ok s' \<and> I xs s'"
proof -
  have "\<exists>s'. ofold f rest s = Ok s' \<and> I (done @ rest) s'"
    if "xs = done @ rest" "I done s" for "done" rest s
    using that
  proof (induction rest arbitrary: "done" s)
    case Nil
    then show ?case by simp
  next
    case (Cons x rest)
    from assms(2) [OF Cons.prems] obtain s1 where s1: "f s x = Ok s1" "I (done @ [x]) s1"
      by blast
    have "\<exists>s'. ofold f rest s1 = Ok s' \<and> I ((done @ [x]) @ rest) s'"
      using Cons.IH [of "done @ [x]" s1] Cons.prems(1) s1(2) by simp
    with s1 show ?case by simp
  qed
  from this [of "[]" xs s] assms(1) show ?thesis by simp
qed

text \<open>The rule for a loop that has succeeded.\<close>

lemma ofold_Ok_invariant:
  assumes "ofold f xs s = Ok s'" "I [] s"
    and step: "\<And>done x rest s s'. xs = done @ x # rest \<Longrightarrow> I done s \<Longrightarrow> f s x = Ok s' \<Longrightarrow> I (done @ [x]) s'"
  shows "I xs s'"
proof -
  have "I (done @ rest) s'" if "xs = done @ rest" "ofold f rest s = Ok s'" "I done s" for "done" rest s
    using that
  proof (induction rest arbitrary: "done" s)
    case (Cons x rest)
    then obtain s1 where s1: "f s x = Ok s1" "ofold f rest s1 = Ok s'" by (auto simp: obind_eq_Ok)
    from Cons.IH [of "done @ [x]" s1] s1 step [OF Cons.prems(1,3) s1(1)] Cons.prems(1) show ?case by simp
  qed simp
  from this [of "[]" xs s] assms(1,2) show ?thesis by simp
qed

lemma ofold_concat: "ofold f (concat xss) s = ofold (\<lambda>s xs. ofold f xs s) xss s"
proof (induction xss arbitrary: s)
  case (Cons xs xss)
  then show ?case by (cases "ofold f xs s") (simp_all add: ofold_append)
qed simp

lemma ofold_map: "ofold f (map g xs) s = ofold (\<lambda>s x. f s (g x)) xs s"
proof (induction xs arbitrary: s)
  case (Cons x xs)
  then show ?case by (cases "f s (g x)") simp_all
qed simp

text \<open>A loop that collects one result per element.\<close>

definition omap :: "('a \<Rightarrow> 'b outcome) \<Rightarrow> 'a list \<Rightarrow> 'b list outcome" where
  "omap f xs = ofold (\<lambda>ys x. obind (f x) (\<lambda>y. Ok (ys @ [y]))) xs []"

lemma omap_fold: "(\<And>x. x \<in> set xs \<Longrightarrow> f x = Ok (g x)) \<Longrightarrow>
    ofold (\<lambda>ys x. obind (f x) (\<lambda>y. Ok (ys @ [y]))) xs zs = Ok (zs @ map g xs)"
  by (induction xs arbitrary: zs) simp_all

lemma omap_Ok: "(\<And>x. x \<in> set xs \<Longrightarrow> f x = Ok (g x)) \<Longrightarrow> omap f xs = Ok (map g xs)"
  by (simp add: omap_def omap_fold)

lemma omap_cong [fundef_cong]: "xs = ys \<Longrightarrow> (\<And>x. x \<in> set ys \<Longrightarrow> f x = g x) \<Longrightarrow> omap f xs = omap g ys"
proof -
  assume "xs = ys" and *: "\<And>x. x \<in> set ys \<Longrightarrow> f x = g x"
  have "(\<And>x. x \<in> set ys \<Longrightarrow> f x = g x) \<Longrightarrow> ofold (\<lambda>ys x. obind (f x) (\<lambda>y. Ok (ys @ [y]))) ys zs =
      ofold (\<lambda>ys x. obind (g x) (\<lambda>y. Ok (ys @ [y]))) ys zs" for ys zs
  proof (induction ys arbitrary: zs)
    case (Cons y ys)
    then show ?case by (cases "g y") simp_all
  qed simp
  then show ?thesis using * \<open>xs = ys\<close> by (simp add: omap_def)
qed

section \<open>Arrays with checked indices\<close>

definition in_bounds :: "'a list \<Rightarrow> int \<Rightarrow> bool" where
  "in_bounds xs i \<longleftrightarrow> 0 \<le> i \<and> i < int (length xs)"

definition arr_get :: "'a list \<Rightarrow> int \<Rightarrow> 'a outcome" where
  "arr_get xs i = (if in_bounds xs i then Ok (xs ! nat i) else Undef)"

definition arr_set :: "'a list \<Rightarrow> int \<Rightarrow> 'a \<Rightarrow> 'a list outcome" where
  "arr_set xs i a = (if in_bounds xs i then Ok (xs[nat i := a]) else Undef)"

lemma in_bounds_nat [array_simps]: "in_bounds xs i \<Longrightarrow> nat i < length xs"
  by (auto simp: in_bounds_def)

lemma arr_get_Ok [array_simps]: "in_bounds xs i \<Longrightarrow> arr_get xs i = Ok (xs ! nat i)"
  by (simp add: arr_get_def)

lemma arr_set_Ok [array_simps]: "in_bounds xs i \<Longrightarrow> arr_set xs i a = Ok (xs[nat i := a])"
  by (simp add: arr_set_def)

lemma in_bounds_update [simp]: "in_bounds (xs[j := a]) i = in_bounds xs i"
  by (simp add: in_bounds_def)

text \<open>C's \<open>%\<close> and \<open>/\<close> truncate; on the non-negative values of this program they are \<open>mod\<close> and \<open>div\<close>.\<close>

lemma smod_nonneg: "0 \<le> (a::int) \<Longrightarrow> 0 < b \<Longrightarrow> a smod b = a mod b"
  by (cases "a = 0") (simp_all add: signed_modulo_int_def)

lemma sdiv_nonneg: "0 \<le> (a::int) \<Longrightarrow> 0 < b \<Longrightarrow> a sdiv b = a div b"
  by (cases "a = 0") (simp_all add: signed_divide_int_def)

lemma mod_wrap_inj:
  "0 \<le> i \<Longrightarrow> i < m \<Longrightarrow> 0 \<le> j \<Longrightarrow> j < m \<Longrightarrow> (h + i) mod m = (h + j) mod m \<Longrightarrow> i = (j::int)"
  by (metis add.commute add_left_cancel mod_add_cong mod_diff_left_eq add_diff_cancel_right' mod_pos_pos_trivial)

section \<open>Maps with a default-inserting subscript\<close>

text \<open>
  \<open>m[k]\<close> on a \<open>std::map\<close> inserts the default value of the element type when the key is absent and
  returns a reference. The inserted default is only observable through later reads of \<open>m[k]\<close>, which
  return that same default, so reading is modelled by a lookup with a default.
\<close>

definition sub :: "'v \<Rightarrow> ('k, 'v) fmap \<Rightarrow> 'k \<Rightarrow> 'v" where
  "sub d m k = (case fmlookup m k of None \<Rightarrow> d | Some v \<Rightarrow> v)"

lemma sub_empty [simp]: "sub d fmempty k = d"
  by (simp add: sub_def)

lemma sub_upd [simp]: "sub d (fmupd k v m) k' = (if k = k' then v else sub d m k')"
  by (simp add: sub_def)

lemma sub_notin: "k \<notin> fmdom' m \<Longrightarrow> sub d m k = d"
  by (simp add: sub_def fmdom'_notD)

section \<open>Lists\<close>

lemma distinct_concatI:
  "(\<And>k. k < length xss \<Longrightarrow> distinct (xss ! k)) \<Longrightarrow>
    (\<And>j k. j < length xss \<Longrightarrow> k < length xss \<Longrightarrow> j \<noteq> k \<Longrightarrow> set (xss ! j) \<inter> set (xss ! k) = {}) \<Longrightarrow>
    distinct (concat xss)"
proof (induction xss)
  case (Cons xs xss)
  have "distinct (concat xss)"
    using Cons.prems(1) [of "Suc k" for k] Cons.prems(2) [of "Suc j" "Suc k" for j k] by (intro Cons.IH) auto
  moreover have "set xs \<inter> set (concat xss) = {}"
    using Cons.prems(2) [of 0 "Suc k" for k] by (fastforce simp: in_set_conv_nth)
  ultimately show ?case using Cons.prems(1) [of 0] by simp
qed simp

lemma count_list_distinct: "distinct xs \<Longrightarrow> count_list xs x = (if x \<in> set xs then 1 else 0)"
  by (induction xs) auto

lemma mset_filter_split: "mset (filter P xs) + mset (filter (\<lambda>x. \<not> P x) xs) = mset xs"
  by (induction xs) auto

end
