(* ===== verification/Fifo_Interface.thy ===== *)
theory Fifo_Interface
  imports DSWP_Prelude
begin

text \<open>
  The interface between the runtime's queue and its users (\<^verbatim>\<open>runtime/simple_sync.c\<close> and, through it,
  the code the pass generates): a queue with a capacity, whose push blocks when it is full and whose
  pop blocks when it is empty. The abstract specification is a list; the client lemmas, among them
  the refinement of every sequence of operations, are proved once from the laws.
\<close>

section \<open>The abstract queue\<close>

definition spec_push :: "nat \<Rightarrow> 'a list \<Rightarrow> 'a \<Rightarrow> 'a list outcome" where
  "spec_push cap xs e = (if length xs < cap then Ok (xs @ [e]) else Blocked)"

fun spec_pop :: "'a list \<Rightarrow> ('a \<times> 'a list) outcome" where
  "spec_pop [] = Blocked"
| "spec_pop (x # xs) = Ok (x, xs)"

text \<open>A sequence of calls made by one thread, collecting what the pops return.\<close>

datatype 'a queue_op = Push 'a | Pop

fun fifo_run ::
  "('q \<Rightarrow> 'a \<Rightarrow> 'q outcome) \<Rightarrow> ('q \<Rightarrow> ('a \<times> 'q) outcome) \<Rightarrow> 'a queue_op list \<Rightarrow> 'q
    \<Rightarrow> ('a list \<times> 'q) outcome" where
  "fifo_run push pop [] q = Ok ([], q)"
| "fifo_run push pop (Push e # ops) q = obind (push q e) (fifo_run push pop ops)"
| "fifo_run push pop (Pop # ops) q =
     obind (pop q) (\<lambda>(e, q1). obind (fifo_run push pop ops q1) (\<lambda>(out, q2). Ok (e # out, q2)))"

section \<open>The interface\<close>

locale bounded_fifo =
  fixes push :: "'q \<Rightarrow> 'a \<Rightarrow> 'q outcome"
    and pop :: "'q \<Rightarrow> ('a \<times> 'q) outcome"
    and inv :: "'q \<Rightarrow> bool"
    and elems :: "'q \<Rightarrow> 'a list"
    and cap :: nat
  assumes elems_le_cap: "inv q \<Longrightarrow> length (elems q) \<le> cap"
    and push_room: "inv q \<Longrightarrow> length (elems q) < cap \<Longrightarrow>
      \<exists>q'. push q e = Ok q' \<and> inv q' \<and> elems q' = elems q @ [e]"
    and push_full: "inv q \<Longrightarrow> length (elems q) = cap \<Longrightarrow> push q e = Blocked"
    and pop_some: "inv q \<Longrightarrow> elems q \<noteq> [] \<Longrightarrow>
      \<exists>e q'. pop q = Ok (e, q') \<and> inv q' \<and> elems q = e # elems q'"
    and pop_none: "inv q \<Longrightarrow> elems q = [] \<Longrightarrow> pop q = Blocked"
begin

lemma push_refines:
  assumes "inv q"
  shows "map_outcome elems (push q e) = spec_push cap (elems q) e"
  using assms push_room [of q e] push_full [of q e] elems_le_cap [of q]
  by (cases "length (elems q) < cap") (auto simp: spec_push_def)

lemma pop_refines:
  assumes "inv q"
  shows "map_outcome (map_prod id elems) (pop q) = spec_pop (elems q)"
  using assms pop_some [of q] pop_none [of q] by (cases "elems q") auto

lemma push_inv: "inv q \<Longrightarrow> push q e = Ok q' \<Longrightarrow> inv q'"
  using push_room [of q e] push_full [of q e] elems_le_cap [of q]
  by (cases "length (elems q) < cap") auto

lemma pop_inv: "inv q \<Longrightarrow> pop q = Ok (e, q') \<Longrightarrow> inv q'"
  using pop_some [of q] pop_none [of q] by (cases "elems q") auto

text \<open>Every sequence of operations returns, blocks and leaves what the list does.\<close>

lemma run_refines:
  "inv q \<Longrightarrow> map_outcome (map_prod id elems) (fifo_run push pop ops q) =
    fifo_run (spec_push cap) spec_pop ops (elems q)"
proof (induction ops arbitrary: q)
  case Nil
  then show ?case by simp
next
  case (Cons op ops)
  show ?case
  proof (cases op)
    case (Push e)
    then show ?thesis
      using Cons push_refines [of q e] push_inv [of q e]
      by (cases "push q e") (auto dest: sym)
  next
    case Pop
    show ?thesis
    proof (cases "pop q")
      case (Ok r)
      obtain e q1 where r: "r = (e, q1)" by fastforce
      have "spec_pop (elems q) = Ok (e, elems q1)" "inv q1"
        using pop_refines [of q] pop_inv [of q e q1] Cons.prems Ok r by (auto dest: sym)
      then show ?thesis
        using Ok r Pop Cons.IH [of q1, symmetric]
        by (cases "fifo_run push pop ops q1") auto
    qed (use pop_refines [of q] Cons.prems Pop in \<open>auto dest: sym\<close>)
  qed
qed

text \<open>Pushing within the capacity never blocks and appends; popping returns oldest first.\<close>

lemma push_list:
  "inv q \<Longrightarrow> length (elems q) + length es \<le> cap \<Longrightarrow>
    \<exists>q'. ofold push es q = Ok q' \<and> inv q' \<and> elems q' = elems q @ es"
proof (induction es arbitrary: q)
  case Nil
  then show ?case by simp
next
  case (Cons e es)
  obtain q1 where "push q e = Ok q1" "inv q1" "elems q1 = elems q @ [e]"
    using push_room [of q e] Cons.prems by auto
  moreover have "length (elems q1) + length es \<le> cap"
    using Cons.prems calculation by simp
  ultimately show ?case using Cons.IH [of q1] by auto
qed

lemma push_overflow:
  assumes "inv q" "cap < length (elems q) + length es"
  shows "ofold push es q = Blocked"
  using assms
proof (induction es arbitrary: q)
  case Nil
  then show ?case using elems_le_cap [of q] by simp
next
  case (Cons e es)
  show ?case
  proof (cases "length (elems q) < cap")
    case True
    then obtain q1 where "push q e = Ok q1" "inv q1" "elems q1 = elems q @ [e]"
      using push_room [of q e] Cons.prems by auto
    then show ?thesis using Cons by simp
  next
    case False
    then show ?thesis using push_full [of q e] elems_le_cap [of q] Cons.prems by simp
  qed
qed

end

text \<open>The specification satisfies its own laws.\<close>

lemma spec_push_laws: "length xs < cap \<Longrightarrow> spec_push cap xs e = Ok (xs @ [e])"
  by (simp add: spec_push_def)

interpretation spec_fifo: bounded_fifo "spec_push cap" spec_pop "\<lambda>xs. length xs \<le> cap" "\<lambda>xs. xs" cap
  for cap :: nat
proof (unfold_locales, goal_cases)
  case (4 q)
  then show ?case by (cases q) auto
qed (auto simp: spec_push_def)

end
