(* ===== verification/Runtime_Queue.thy ===== *)
theory Runtime_Queue
  imports Fifo_Interface
begin

text \<open>
  The bounded queue of \<^verbatim>\<open>runtime/queue.c\<close>: the circular buffer as a record, \<open>queue_init\<close>, and the two
  operations as one thread sees them when it holds the mutex from start to end. A full (empty) queue
  makes \<open>queue_push\<close> (\<open>queue_pop\<close>) wait on a condition variable, which is the outcome \<open>Blocked\<close>.
  The interleaved behaviour, the mutex and the condition variables are in theory \<open>Runtime_Conc\<close>.
  The queue is shown to implement an abstract bounded FIFO (the locale \<open>bounded_fifo\<close>).
\<close>

type_synonym u64 = "64 word"

section \<open>The structure and its operations\<close>

definition QUEUE_MAXLEN :: int where
  "QUEUE_MAXLEN = 32"

record queue_t =
  arr :: "u64 list"
  head :: int
  tail :: int
  size :: int

text \<open>The storage of a \<open>static queue_t\<close>: all bytes zero.\<close>

definition queue_zero :: queue_t where
  "queue_zero = \<lparr>arr = replicate (nat QUEUE_MAXLEN) 0, head = 0, tail = 0, size = 0\<rparr>"

text \<open>\<open>queue_init\<close> resets the indices and leaves the buffer as it is.\<close>

definition queue_init :: "queue_t \<Rightarrow> queue_t" where
  "queue_init q = q\<lparr>head := 0, tail := 0, size := 0\<rparr>"

text \<open>The statements of \<open>queue_push\<close> and \<open>queue_pop\<close> that touch the structure, one by one.\<close>

definition push_store :: "queue_t \<Rightarrow> u64 \<Rightarrow> queue_t outcome" where
  "push_store q elem = obind (arr_set (arr q) (tail q) elem) (\<lambda>a. Ok (q\<lparr>arr := a\<rparr>))"

definition push_tail :: "queue_t \<Rightarrow> queue_t" where
  "push_tail q = q\<lparr>tail := (tail q + 1) smod QUEUE_MAXLEN\<rparr>"

definition push_size :: "queue_t \<Rightarrow> queue_t" where
  "push_size q = q\<lparr>size := size q + 1\<rparr>"

definition pop_read :: "queue_t \<Rightarrow> u64 outcome" where
  "pop_read q = arr_get (arr q) (head q)"

definition pop_head :: "queue_t \<Rightarrow> queue_t" where
  "pop_head q = q\<lparr>head := (head q + 1) smod QUEUE_MAXLEN\<rparr>"

definition pop_size :: "queue_t \<Rightarrow> queue_t" where
  "pop_size q = q\<lparr>size := size q - 1\<rparr>"

definition queue_push :: "queue_t \<Rightarrow> u64 \<Rightarrow> queue_t outcome" where
  "queue_push q elem =
     (if size q = QUEUE_MAXLEN then Blocked
      else obind (push_store q elem) (\<lambda>q1. Ok (push_size (push_tail q1))))"

definition queue_pop :: "queue_t \<Rightarrow> (u64 \<times> queue_t) outcome" where
  "queue_pop q =
     (if size q = 0 then Blocked
      else obind (pop_read q) (\<lambda>ret_val. Ok (ret_val, pop_size (pop_head q))))"

lemmas queue_stmt_defs =
  push_store_def push_tail_def push_size_def pop_read_def pop_head_def pop_size_def

section \<open>Invariant and contents\<close>

definition queue_inv :: "queue_t \<Rightarrow> bool" where
  "queue_inv q \<longleftrightarrow>
     length (arr q) = nat QUEUE_MAXLEN \<and> 0 \<le> head q \<and> head q < QUEUE_MAXLEN \<and>
     0 \<le> size q \<and> size q \<le> QUEUE_MAXLEN \<and> tail q = (head q + size q) mod QUEUE_MAXLEN"

definition slot :: "queue_t \<Rightarrow> int \<Rightarrow> nat" where
  "slot q i = nat ((head q + i) mod QUEUE_MAXLEN)"

text \<open>The abstract value: the elements from \<open>head\<close> on, oldest first.\<close>

definition contents :: "queue_t \<Rightarrow> u64 list" where
  "contents q = map (\<lambda>i. arr q ! slot q (int i)) [0..<nat (size q)]"

lemma slot_bound: "slot q i < nat QUEUE_MAXLEN"
  by (auto simp: slot_def QUEUE_MAXLEN_def)

lemma slot_inj:
  "0 \<le> i \<Longrightarrow> i < QUEUE_MAXLEN \<Longrightarrow> 0 \<le> j \<Longrightarrow> j < QUEUE_MAXLEN \<Longrightarrow> slot q i = slot q j \<Longrightarrow> i = j"
  using mod_wrap_inj [of i QUEUE_MAXLEN j "head q"]
  by (simp add: slot_def QUEUE_MAXLEN_def nat_eq_iff)

lemma length_contents: "length (contents q) = nat (size q)"
  by (simp add: contents_def)

lemma contents_nth: "i < nat (size q) \<Longrightarrow> contents q ! i = arr q ! slot q (int i)"
  by (simp add: contents_def)

lemma queue_inv_tail: "queue_inv q \<Longrightarrow> nat (tail q) = slot q (size q)"
  by (simp add: queue_inv_def slot_def)

lemma queue_inv_bounds:
  assumes "queue_inv q"
  shows "in_bounds (arr q) (head q)" and "in_bounds (arr q) (tail q)"
  using assms by (auto simp: queue_inv_def in_bounds_def QUEUE_MAXLEN_def)

text \<open>Writing at the tail of a queue that is not full leaves the contents alone.\<close>

lemma contents_store:
  assumes "queue_inv q" "size q < QUEUE_MAXLEN"
  shows "contents (q\<lparr>arr := (arr q)[nat (tail q) := e]\<rparr>) = contents q"
proof -
  have "nat (tail q) \<noteq> slot q (int i)" if "i < nat (size q)" for i
  proof -
    have "slot q (int i) \<noteq> slot q (size q)"
      using that assms(2) slot_inj [of "int i" "size q" q] by fastforce
    then show ?thesis using assms(1) by (simp add: queue_inv_tail not_sym)
  qed
  then show ?thesis by (auto simp: contents_def slot_def)
qed

text \<open>Increasing the size exposes the element written at the tail.\<close>

lemma contents_grow:
  assumes "0 \<le> size q"
  shows "contents (q\<lparr>tail := t, size := size q + 1\<rparr>) = contents q @ [arr q ! slot q (size q)]"
  using assms by (simp add: contents_def slot_def nat_add_distrib)

text \<open>Advancing the head and decreasing the size drops the oldest element.\<close>

lemma contents_shrink:
  assumes "0 < size q"
  shows "contents (q\<lparr>head := (head q + 1) mod QUEUE_MAXLEN, size := size q - 1\<rparr>) = tl (contents q)"
proof (rule nth_equalityI)
  show "length (contents (q\<lparr>head := (head q + 1) mod QUEUE_MAXLEN, size := size q - 1\<rparr>)) =
      length (tl (contents q))"
    using assms by (simp add: length_contents nat_diff_distrib)
next
  fix i
  assume "i < length (contents (q\<lparr>head := (head q + 1) mod QUEUE_MAXLEN, size := size q - 1\<rparr>))"
  then have i: "i < nat (size q - 1)" by (simp add: length_contents)
  have "((head q + 1) mod QUEUE_MAXLEN + int i) mod QUEUE_MAXLEN
      = (head q + int (Suc i)) mod QUEUE_MAXLEN"
    by (simp add: mod_add_left_eq add.assoc)
  then show "contents (q\<lparr>head := (head q + 1) mod QUEUE_MAXLEN, size := size q - 1\<rparr>) ! i
      = tl (contents q) ! i"
    using i assms by (simp add: contents_nth nth_tl length_contents slot_def)
qed

lemma contents_Cons:
  assumes "0 < size q"
  shows "contents q = arr q ! slot q 0 # tl (contents q)"
proof -
  have "contents q \<noteq> []" using assms length_contents [of q] by force
  moreover have "hd (contents q) = arr q ! slot q 0"
    using calculation assms contents_nth [of 0 q] by (simp add: hd_conv_nth)
  ultimately show ?thesis by (metis list.collapse)
qed

section \<open>Each operation on every branch\<close>

lemma queue_zero_inv: "queue_inv queue_zero" and queue_zero_contents: "contents queue_zero = []"
  by (auto simp: queue_inv_def queue_zero_def contents_def QUEUE_MAXLEN_def)

lemma queue_init_inv: "length (arr q) = nat QUEUE_MAXLEN \<Longrightarrow> queue_inv (queue_init q)"
  by (simp add: queue_inv_def queue_init_def QUEUE_MAXLEN_def)

lemma queue_init_contents: "contents (queue_init q) = []"
  by (simp add: queue_init_def contents_def)

lemma queue_push_full: "size q = QUEUE_MAXLEN \<Longrightarrow> queue_push q e = Blocked"
  by (simp add: queue_push_def)

text \<open>The statements of \<open>queue_push\<close>: the store, then the two index updates.\<close>

lemma push_store_ok:
  assumes "queue_inv q" "size q \<noteq> QUEUE_MAXLEN"
  shows "\<exists>q'. push_store q e = Ok q' \<and> queue_inv q' \<and> size q' = size q \<and> contents q' = contents q \<and>
    arr q' ! nat (tail q') = e"
proof -
  let ?q' = "q\<lparr>arr := (arr q)[nat (tail q) := e]\<rparr>"
  have b: "in_bounds (arr q) (tail q)" by (rule queue_inv_bounds(2) [OF assms(1)])
  then have "push_store q e = Ok ?q'" by (simp add: push_store_def array_simps outcome_simps)
  moreover have "contents ?q' = contents q"
    using assms contents_store [of q e] by (simp add: queue_inv_def)
  moreover have "queue_inv ?q'" using assms by (simp add: queue_inv_def)
  moreover have "arr ?q' ! nat (tail ?q') = e" using in_bounds_nat [OF b] by simp
  ultimately show ?thesis by auto
qed

lemma push_commit:
  assumes "queue_inv q" "size q \<noteq> QUEUE_MAXLEN" "arr q ! nat (tail q) = e"
  shows "queue_inv (push_size (push_tail q))"
    and "contents (push_size (push_tail q)) = contents q @ [e]"
proof -
  have q: "push_size (push_tail q) = q\<lparr>tail := (tail q + 1) mod QUEUE_MAXLEN, size := size q + 1\<rparr>"
    using assms(1) by (simp add: push_size_def push_tail_def smod_nonneg queue_inv_def QUEUE_MAXLEN_def)
  show "contents (push_size (push_tail q)) = contents q @ [e]"
    using contents_grow [of q] queue_inv_tail [OF assms(1)] assms(1,3)
    by (simp add: q) (simp add: queue_inv_def)
  show "queue_inv (push_size (push_tail q))"
    using assms(1,2) by (auto simp: q queue_inv_def mod_add_left_eq add.assoc)
qed

lemma queue_push_ok:
  assumes "queue_inv q" "size q \<noteq> QUEUE_MAXLEN"
  shows "\<exists>q'. queue_push q e = Ok q' \<and> queue_inv q' \<and> contents q' = contents q @ [e]"
proof -
  from push_store_ok [OF assms, of e] obtain q1 where
    q1: "push_store q e = Ok q1" "queue_inv q1" "size q1 = size q" "contents q1 = contents q"
      "arr q1 ! nat (tail q1) = e"
    by blast
  then show ?thesis
    using push_commit [of q1 e] assms(2) by (simp add: queue_push_def outcome_simps)
qed

lemma queue_pop_empty: "size q = 0 \<Longrightarrow> queue_pop q = Blocked"
  by (simp add: queue_pop_def)

lemma pop_read_ok:
  assumes "queue_inv q" "size q \<noteq> 0"
  shows "pop_read q = Ok (hd (contents q))"
proof -
  have "0 < size q" "nat (head q) = slot q 0" using assms by (auto simp: queue_inv_def slot_def)
  then show ?thesis
    using queue_inv_bounds(1) [OF assms(1)] arg_cong [OF contents_Cons, of q hd]
    by (simp add: pop_read_def array_simps)
qed

lemma pop_commit:
  assumes "queue_inv q" "size q \<noteq> 0"
  shows "queue_inv (pop_size (pop_head q))"
    and "contents (pop_size (pop_head q)) = tl (contents q)"
proof -
  have pos: "0 < size q" using assms by (auto simp: queue_inv_def)
  have q: "pop_size (pop_head q) = q\<lparr>head := (head q + 1) mod QUEUE_MAXLEN, size := size q - 1\<rparr>"
    using assms(1) by (simp add: pop_size_def pop_head_def smod_nonneg queue_inv_def QUEUE_MAXLEN_def)
  show "contents (pop_size (pop_head q)) = tl (contents q)"
    by (simp add: q contents_shrink [OF pos])
  show "queue_inv (pop_size (pop_head q))"
    using assms(1) pos by (auto simp: q queue_inv_def QUEUE_MAXLEN_def mod_add_left_eq)
qed

lemma queue_pop_ok:
  assumes "queue_inv q" "size q \<noteq> 0"
  shows "\<exists>e q'. queue_pop q = Ok (e, q') \<and> queue_inv q' \<and> contents q = e # contents q'"
proof -
  have "contents q \<noteq> []"
    using assms length_contents [of q] by (auto simp: queue_inv_def)
  then show ?thesis
    using assms pop_commit [OF assms] by (simp add: queue_pop_def pop_read_ok outcome_simps)
qed

section \<open>The queue implements the bounded FIFO\<close>

lemma contents_zero_iff: "queue_inv q \<Longrightarrow> contents q = [] \<longleftrightarrow> size q = 0"
  using length_contents [of q] by (cases "contents q") (auto simp: queue_inv_def)

interpretation rq: bounded_fifo queue_push queue_pop queue_inv contents "nat QUEUE_MAXLEN"
proof (unfold_locales, goal_cases)
  case (1 q)
  then show ?case by (auto simp: queue_inv_def length_contents intro: nat_mono)
next
  case (2 q e)
  then show ?case using queue_push_ok [of q e] by (auto simp: length_contents queue_inv_def)
next
  case (3 q e)
  then show ?case using queue_push_full [of q e] by (auto simp: length_contents queue_inv_def QUEUE_MAXLEN_def)
next
  case (4 q)
  then show ?case using queue_pop_ok [of q] contents_zero_iff [of q] by simp
next
  case (5 q)
  then show ?case using queue_pop_empty [of q] contents_zero_iff [of q] by simp
qed

section \<open>Properties\<close>

text \<open>
  C20. The circular buffer is a bounded FIFO: from any well-formed queue, every sequence of
  \<open>queue_push\<close> and \<open>queue_pop\<close> calls returns the same elements, blocks at the same call and leaves the
  same contents as the sequence on a list of at most \<open>QUEUE_MAXLEN\<close> elements; no access is out of bounds.
\<close>

theorem queue_refines_list:
  assumes "queue_inv q"
  shows "map_outcome (map_prod id contents) (fifo_run queue_push queue_pop ops q) =
    fifo_run (spec_push (nat QUEUE_MAXLEN)) spec_pop ops (contents q)"
  by (rule rq.run_refines [OF assms])

theorem queue_refines_list_witness:
  "map_outcome (map_prod id contents) (fifo_run queue_push queue_pop [Push 5, Push 6, Pop] queue_zero) =
    Ok ([5], [6])"
proof -
  have "fifo_run (spec_push 32) spec_pop [Push 5, Push 6, Pop] [] = Ok ([5 :: u64], [6])"
    by (simp add: spec_push_def)
  then show ?thesis
    using queue_refines_list [OF queue_zero_inv, of "[Push 5, Push 6, Pop]"]
    by (simp add: queue_zero_contents QUEUE_MAXLEN_def)
qed

text \<open>
  Capacity: after \<open>queue_init\<close>, up to \<open>QUEUE_MAXLEN\<close> pushes return and are all kept in order,
  whatever the buffer held before; one push more blocks.
\<close>

theorem queue_capacity:
  assumes "length (arr q) = nat QUEUE_MAXLEN"
  shows "(length es \<le> nat QUEUE_MAXLEN \<longrightarrow>
      (\<exists>q'. ofold queue_push es (queue_init q) = Ok q' \<and> queue_inv q' \<and> contents q' = es)) \<and>
    (nat QUEUE_MAXLEN < length es \<longrightarrow> ofold queue_push es (queue_init q) = Blocked)"
  using rq.push_list [of "queue_init q" es] rq.push_overflow [of "queue_init q" es] assms
  by (simp add: queue_init_inv queue_init_contents)

theorem queue_capacity_witness:
  "ofold queue_push (replicate 33 1) (queue_init queue_zero) = Blocked \<and>
   (\<exists>q'. ofold queue_push (replicate 32 1) (queue_init queue_zero) = Ok q' \<and> contents q' = replicate 32 1)"
proof -
  have len: "length (arr queue_zero) = nat QUEUE_MAXLEN" by (simp add: queue_zero_def)
  show ?thesis
    using queue_capacity [OF len, of "replicate 33 1"] queue_capacity [OF len, of "replicate 32 1"]
    by (auto simp: QUEUE_MAXLEN_def)
qed

end
