(* ===== verification/Runtime_Conc.thy ===== *)
theory Runtime_Conc
  imports Runtime_Queue
begin

text \<open>
  \<open>queue_push\<close> and \<open>queue_pop\<close> of \<^verbatim>\<open>runtime/queue.c\<close> called by any number of threads on one queue, at the
  granularity of single statements. A thread is the statement it is about to execute; the mutex is
  its owner. \<open>pthread_cond_wait\<close> releases the mutex and sleeps in one step and takes the mutex again
  before it returns; \<open>pthread_cond_signal\<close> wakes at least one of the sleeping threads, if there is
  one; a sleeping thread may also wake without a signal. The two lists \<open>pushed\<close> and \<open>popped\<close> are
  history, recorded where \<open>size\<close> changes; no step reads them.
\<close>

section \<open>States and steps\<close>

type_synonym tid = nat

datatype pc =
    Idle
  | PushLock u64 | PushTest u64 | PushWait u64 | PushRelock u64
  | PushStore u64 | PushTail u64 | PushSize u64 | PushSignal | PushUnlock
  | PopLock | PopTest | PopWait | PopRelock
  | PopRead | PopHead u64 | PopSize u64 | PopSignal u64 | PopUnlock u64

record sys =
  queue :: queue_t
  owner :: "tid option"
  pcs :: "tid \<Rightarrow> pc"
  pushed :: "u64 list"
  popped :: "u64 list"

definition init_sys :: "queue_t \<Rightarrow> sys" where
  "init_sys q = \<lparr>queue = queue_init q, owner = None, pcs = (\<lambda>_. Idle), pushed = [], popped = []\<rparr>"

definition goto :: "tid \<Rightarrow> pc \<Rightarrow> sys \<Rightarrow> sys" where
  "goto t c s = s\<lparr>pcs := (pcs s)(t := c)\<rparr>"

text \<open>\<open>wake W c\<close>: the threads of \<open>W\<close> leave their sleep and go on at \<open>c u\<close>.\<close>

definition wake :: "tid set \<Rightarrow> (pc \<Rightarrow> pc) \<Rightarrow> sys \<Rightarrow> sys" where
  "wake W c s = s\<lparr>pcs := (\<lambda>u. if u \<in> W then c (pcs s u) else pcs s u)\<rparr>"

fun woken :: "pc \<Rightarrow> pc" where
  "woken (PushWait e) = PushRelock e"
| "woken PopWait = PopRelock"
| "woken c = c"

fun push_waiting :: "pc \<Rightarrow> bool" where
  "push_waiting (PushWait e) = True"
| "push_waiting c = False"

definition push_waiters :: "sys \<Rightarrow> tid set" where
  "push_waiters s = {u. push_waiting (pcs s u)}"

definition pop_waiters :: "sys \<Rightarrow> tid set" where
  "pop_waiters s = {u. pcs s u = PopWait}"

text \<open>\<open>pthread_cond_signal\<close> on a variable with the given sleepers wakes \<open>W\<close>.\<close>

definition signals :: "tid set \<Rightarrow> tid set \<Rightarrow> bool" where
  "signals sleepers W \<longleftrightarrow> W \<subseteq> sleepers \<and> finite W \<and> (sleepers \<noteq> {} \<longrightarrow> W \<noteq> {})"

datatype label = Call tid | Spurious tid | Run tid

inductive push_step :: "sys \<Rightarrow> label \<Rightarrow> sys \<Rightarrow> bool" where
  call_push: "pcs s t = Idle \<Longrightarrow> push_step s (Call t) (goto t (PushLock e) s)"
| push_lock: "pcs s t = PushLock e \<Longrightarrow> owner s = None \<Longrightarrow>
    push_step s (Run t) (goto t (PushTest e) (s\<lparr>owner := Some t\<rparr>))"
| push_full: "pcs s t = PushTest e \<Longrightarrow> size (queue s) = QUEUE_MAXLEN \<Longrightarrow>
    push_step s (Run t) (goto t (PushWait e) (s\<lparr>owner := None\<rparr>))"
| push_relock: "pcs s t = PushRelock e \<Longrightarrow> owner s = None \<Longrightarrow>
    push_step s (Run t) (goto t (PushTest e) (s\<lparr>owner := Some t\<rparr>))"
| push_room: "pcs s t = PushTest e \<Longrightarrow> size (queue s) \<noteq> QUEUE_MAXLEN \<Longrightarrow>
    push_step s (Run t) (goto t (PushStore e) s)"
| push_store: "pcs s t = PushStore e \<Longrightarrow> push_store (queue s) e = Ok q \<Longrightarrow>
    push_step s (Run t) (goto t (PushTail e) (s\<lparr>queue := q\<rparr>))"
| push_tail: "pcs s t = PushTail e \<Longrightarrow>
    push_step s (Run t) (goto t (PushSize e) (s\<lparr>queue := push_tail (queue s)\<rparr>))"
| push_size: "pcs s t = PushSize e \<Longrightarrow>
    push_step s (Run t)
      (goto t PushSignal (s\<lparr>queue := push_size (queue s), pushed := pushed s @ [e]\<rparr>))"
| push_signal: "pcs s t = PushSignal \<Longrightarrow> signals (pop_waiters s) W \<Longrightarrow>
    push_step s (Run t) (goto t PushUnlock (wake W woken s))"
| push_unlock: "pcs s t = PushUnlock \<Longrightarrow>
    push_step s (Run t) (goto t Idle (s\<lparr>owner := None\<rparr>))"
| push_spurious: "pcs s t = PushWait e \<Longrightarrow>
    push_step s (Spurious t) (goto t (PushRelock e) s)"

inductive pop_step :: "sys \<Rightarrow> label \<Rightarrow> sys \<Rightarrow> bool" where
  call_pop: "pcs s t = Idle \<Longrightarrow> pop_step s (Call t) (goto t PopLock s)"
| pop_lock: "pcs s t = PopLock \<Longrightarrow> owner s = None \<Longrightarrow>
    pop_step s (Run t) (goto t PopTest (s\<lparr>owner := Some t\<rparr>))"
| pop_empty: "pcs s t = PopTest \<Longrightarrow> size (queue s) = 0 \<Longrightarrow>
    pop_step s (Run t) (goto t PopWait (s\<lparr>owner := None\<rparr>))"
| pop_relock: "pcs s t = PopRelock \<Longrightarrow> owner s = None \<Longrightarrow>
    pop_step s (Run t) (goto t PopTest (s\<lparr>owner := Some t\<rparr>))"
| pop_some: "pcs s t = PopTest \<Longrightarrow> size (queue s) \<noteq> 0 \<Longrightarrow>
    pop_step s (Run t) (goto t PopRead s)"
| pop_read: "pcs s t = PopRead \<Longrightarrow> pop_read (queue s) = Ok r \<Longrightarrow>
    pop_step s (Run t) (goto t (PopHead r) s)"
| pop_head: "pcs s t = PopHead r \<Longrightarrow>
    pop_step s (Run t) (goto t (PopSize r) (s\<lparr>queue := pop_head (queue s)\<rparr>))"
| pop_size: "pcs s t = PopSize r \<Longrightarrow>
    pop_step s (Run t)
      (goto t (PopSignal r) (s\<lparr>queue := pop_size (queue s), popped := popped s @ [r]\<rparr>))"
| pop_signal: "pcs s t = PopSignal r \<Longrightarrow> signals (push_waiters s) W \<Longrightarrow>
    pop_step s (Run t) (goto t (PopUnlock r) (wake W woken s))"
| pop_unlock: "pcs s t = PopUnlock r \<Longrightarrow>
    pop_step s (Run t) (goto t Idle (s\<lparr>owner := None\<rparr>))"
| pop_spurious: "pcs s t = PopWait \<Longrightarrow>
    pop_step s (Spurious t) (goto t PopRelock s)"

definition sys_step :: "sys \<Rightarrow> label \<Rightarrow> sys \<Rightarrow> bool" where
  "sys_step s l s' \<longleftrightarrow> push_step s l s' \<or> pop_step s l s'"

inductive reachable :: "queue_t \<Rightarrow> sys \<Rightarrow> bool" for q0 :: queue_t where
  start: "reachable q0 (init_sys q0)"
| step: "reachable q0 s \<Longrightarrow> sys_step s l s' \<Longrightarrow> reachable q0 s'"

lemma goto_fields [simp]:
  "queue (goto t c s) = queue s" "owner (goto t c s) = owner s"
  "pushed (goto t c s) = pushed s" "popped (goto t c s) = popped s"
  "pcs (goto t c s) = (pcs s)(t := c)"
  by (simp_all add: goto_def)

lemma wake_fields [simp]:
  "queue (wake W c s) = queue s" "owner (wake W c s) = owner s"
  "pushed (wake W c s) = pushed s" "popped (wake W c s) = popped s"
  "pcs (wake W c s) u = (if u \<in> W then c (pcs s u) else pcs s u)"
  by (simp_all add: wake_def)

section \<open>Mutual exclusion\<close>

text \<open>The statements executed while the mutex is held.\<close>

fun in_cs :: "pc \<Rightarrow> bool" where
  "in_cs (PushTest e) = True" | "in_cs (PushStore e) = True" | "in_cs (PushTail e) = True"
| "in_cs (PushSize e) = True" | "in_cs PushSignal = True" | "in_cs PushUnlock = True"
| "in_cs PopTest = True" | "in_cs PopRead = True" | "in_cs (PopHead r) = True"
| "in_cs (PopSize r) = True" | "in_cs (PopSignal r) = True" | "in_cs (PopUnlock r) = True"
| "in_cs c = False"

definition mutex_inv :: "sys \<Rightarrow> bool" where
  "mutex_inv s \<longleftrightarrow> (\<forall>t. in_cs (pcs s t) \<longleftrightarrow> owner s = Some t)"

lemma woken_in_cs [simp]: "in_cs (woken c) = in_cs c"
  by (cases c) auto

lemma mutex_goto:
  assumes "mutex_inv s" and "\<And>u. in_cs (pcs s1 u) = in_cs (pcs s u)"
    and "owner s1 = owner s \<and> in_cs c = in_cs (pcs s t) \<or>
      owner s = None \<and> owner s1 = Some t \<and> in_cs c \<or>
      in_cs (pcs s t) \<and> owner s1 = None \<and> \<not> in_cs c"
  shows "mutex_inv (goto t c s1)"
proof -
  have inv: "in_cs (pcs s u) \<longleftrightarrow> owner s = Some u" for u
    using assms(1) by (simp add: mutex_inv_def)
  have "in_cs (pcs (goto t c s1) u) \<longleftrightarrow> owner s1 = Some u" for u
    using assms(2) [of u] assms(3) inv [of u] inv [of t] by (cases "u = t") auto
  then show ?thesis by (simp add: mutex_inv_def)
qed

lemma push_step_mutex: "push_step s l s' \<Longrightarrow> mutex_inv s \<Longrightarrow> mutex_inv s'"
  by (induction rule: push_step.induct; erule mutex_goto) simp_all

lemma pop_step_mutex: "pop_step s l s' \<Longrightarrow> mutex_inv s \<Longrightarrow> mutex_inv s'"
  by (induction rule: pop_step.induct; erule mutex_goto) simp_all

lemma sys_step_mutex: "sys_step s l s' \<Longrightarrow> mutex_inv s \<Longrightarrow> mutex_inv s'"
  using push_step_mutex pop_step_mutex by (auto simp: sys_step_def)

lemma init_mutex: "mutex_inv (init_sys q0)"
  by (simp add: mutex_inv_def init_sys_def)

lemma reachable_mutex: "reachable q0 s \<Longrightarrow> mutex_inv s"
  by (induction rule: reachable.induct) (auto simp: init_mutex intro: sys_step_mutex)

section \<open>The data behind the mutex\<close>

text \<open>
  Between the operations the queue satisfies its invariant and holds what has been pushed and not
  yet popped. Inside an operation, what holds depends on the next statement of the thread that owns
  the mutex.
\<close>

definition stable :: "queue_t \<Rightarrow> u64 list \<Rightarrow> u64 list \<Rightarrow> bool" where
  "stable q pu po \<longleftrightarrow> queue_inv q \<and> pu = po @ contents q"

fun data_at :: "pc \<Rightarrow> queue_t \<Rightarrow> u64 list \<Rightarrow> u64 list \<Rightarrow> bool" where
  "data_at (PushStore e) q pu po \<longleftrightarrow> stable q pu po \<and> size q \<noteq> QUEUE_MAXLEN"
| "data_at (PushTail e) q pu po \<longleftrightarrow>
     stable q pu po \<and> size q \<noteq> QUEUE_MAXLEN \<and> arr q ! nat (tail q) = e"
| "data_at (PushSize e) q pu po \<longleftrightarrow>
     (\<exists>p. stable p pu po \<and> size p \<noteq> QUEUE_MAXLEN \<and> arr p ! nat (tail p) = e \<and> q = push_tail p)"
| "data_at PopRead q pu po \<longleftrightarrow> stable q pu po \<and> size q \<noteq> 0"
| "data_at (PopHead r) q pu po \<longleftrightarrow> stable q pu po \<and> size q \<noteq> 0 \<and> r = hd (contents q)"
| "data_at (PopSize r) q pu po \<longleftrightarrow>
     (\<exists>p. stable p pu po \<and> size p \<noteq> 0 \<and> r = hd (contents p) \<and> q = pop_head p)"
| "data_at (PopSignal r) q pu po \<longleftrightarrow> stable q pu po \<and> po \<noteq> [] \<and> last po = r"
| "data_at (PopUnlock r) q pu po \<longleftrightarrow> stable q pu po \<and> po \<noteq> [] \<and> last po = r"
| "data_at c q pu po \<longleftrightarrow> stable q pu po"

definition holder_pc :: "sys \<Rightarrow> pc" where
  "holder_pc s = (case owner s of None \<Rightarrow> Idle | Some t \<Rightarrow> pcs s t)"

definition data_inv :: "sys \<Rightarrow> bool" where
  "data_inv s \<longleftrightarrow> data_at (holder_pc s) (queue s) (pushed s) (popped s)"

text \<open>A statement of the owner: its own facts before, the facts of the next statement after.\<close>

lemma data_enter: "owner s = None \<Longrightarrow> data_inv s \<Longrightarrow> stable (queue s) (pushed s) (popped s)"
  by (simp add: data_inv_def holder_pc_def)

lemma data_own:
  "mutex_inv s \<Longrightarrow> data_inv s \<Longrightarrow> pcs s t = c \<Longrightarrow> in_cs c \<Longrightarrow>
    owner s = Some t \<and> data_at c (queue s) (pushed s) (popped s)"
  by (auto simp: mutex_inv_def data_inv_def holder_pc_def)

lemma data_goto_own:
  "owner s = Some t \<Longrightarrow> data_at c (queue s) (pushed s) (popped s) \<Longrightarrow> data_inv (goto t c s)"
  by (simp add: data_inv_def holder_pc_def)

lemma data_release:
  "owner s = None \<Longrightarrow> stable (queue s) (pushed s) (popped s) \<Longrightarrow> data_inv (goto t c s)"
  by (simp add: data_inv_def holder_pc_def)

lemma data_goto_other:
  "mutex_inv s \<Longrightarrow> data_inv s \<Longrightarrow> \<not> in_cs (pcs s t) \<Longrightarrow> data_inv (goto t c s)"
  by (auto simp: mutex_inv_def data_inv_def holder_pc_def split: option.splits)

lemma stable_store:
  "stable q pu po \<Longrightarrow> size q \<noteq> QUEUE_MAXLEN \<Longrightarrow> push_store q e = Ok q' \<Longrightarrow>
    stable q' pu po \<and> size q' \<noteq> QUEUE_MAXLEN \<and> arr q' ! nat (tail q') = e"
  using push_store_ok [of q e] by (auto simp: stable_def)

lemma stable_push:
  "stable q pu po \<Longrightarrow> size q \<noteq> QUEUE_MAXLEN \<Longrightarrow> arr q ! nat (tail q) = e \<Longrightarrow>
    stable (push_size (push_tail q)) (pu @ [e]) po"
  using push_commit [of q e] by (simp add: stable_def)

lemma stable_pop:
  assumes "stable q pu po" "size q \<noteq> 0" "r = hd (contents q)"
  shows "stable (pop_size (pop_head q)) pu (po @ [r])"
  using assms pop_commit [of q] contents_zero_iff [of q] by (simp add: stable_def)

lemma data_acquire:
  "owner s = None \<Longrightarrow> data_inv s \<Longrightarrow> \<forall>q pu po. data_at c q pu po = stable q pu po \<Longrightarrow>
    data_inv (goto t c (s\<lparr>owner := Some t\<rparr>))"
  by (rule data_goto_own) (simp_all add: data_enter)

lemma push_step_data:
  assumes "push_step s l s'" "mutex_inv s" "data_inv s"
  shows "data_inv s'"
  using assms(1)
proof (cases rule: push_step.cases)
  case (call_push t e)
  then show ?thesis using data_goto_other [OF assms(2,3)] by simp
next
  case (push_lock t e)
  then show ?thesis using data_acquire [of s "PushTest e"] assms(3) by simp
next
  case (push_full t e)
  then show ?thesis using data_own [OF assms(2,3), of t "PushTest e"] by (auto intro: data_release)
next
  case (push_relock t e)
  then show ?thesis using data_acquire [of s "PushTest e"] assms(3) by simp
next
  case (push_room t e)
  then show ?thesis using data_own [OF assms(2,3), of t "PushTest e"] by (auto intro: data_goto_own)
next
  case (push_store t e q)
  then show ?thesis
    using data_own [OF assms(2,3), of t "PushStore e"] stable_store [of "queue s" _ _ e q]
    by (auto intro: data_goto_own)
next
  case (push_tail t e)
  then show ?thesis using data_own [OF assms(2,3), of t "PushTail e"] by (auto intro!: data_goto_own)
next
  case (push_size t e)
  then show ?thesis
    using data_own [OF assms(2,3), of t "PushSize e"] stable_push by (auto intro!: data_goto_own)
next
  case (push_signal t W)
  then show ?thesis
    using data_own [OF assms(2,3), of t PushSignal] by (auto intro!: data_goto_own)
next
  case (push_unlock t)
  then show ?thesis using data_own [OF assms(2,3), of t PushUnlock] by (auto intro: data_release)
next
  case (push_spurious t e)
  then show ?thesis using data_goto_other [OF assms(2,3)] by simp
qed

lemma pop_step_data:
  assumes "pop_step s l s'" "mutex_inv s" "data_inv s"
  shows "data_inv s'"
  using assms(1)
proof (cases rule: pop_step.cases)
  case (call_pop t)
  then show ?thesis using data_goto_other [OF assms(2,3)] by simp
next
  case (pop_lock t)
  then show ?thesis using data_acquire [of s PopTest] assms(3) by simp
next
  case (pop_empty t)
  then show ?thesis using data_own [OF assms(2,3), of t PopTest] by (auto intro: data_release)
next
  case (pop_relock t)
  then show ?thesis using data_acquire [of s PopTest] assms(3) by simp
next
  case (pop_some t)
  then show ?thesis using data_own [OF assms(2,3), of t PopTest] by (auto intro: data_goto_own)
next
  case (pop_read t r)
  then show ?thesis
    using data_own [OF assms(2,3), of t PopRead] pop_read_ok [of "queue s"]
    by (auto intro!: data_goto_own simp: stable_def)
next
  case (pop_head t r)
  then show ?thesis using data_own [OF assms(2,3), of t "PopHead r"] by (auto intro!: data_goto_own)
next
  case (pop_size t r)
  then show ?thesis
    using data_own [OF assms(2,3), of t "PopSize r"] stable_pop by (auto intro!: data_goto_own)
next
  case (pop_signal t r W)
  then show ?thesis
    using data_own [OF assms(2,3), of t "PopSignal r"] by (auto intro!: data_goto_own)
next
  case (pop_unlock t r)
  then show ?thesis using data_own [OF assms(2,3), of t "PopUnlock r"] by (auto intro: data_release)
next
  case (pop_spurious t)
  then show ?thesis using data_goto_other [OF assms(2,3)] by simp
qed

lemma init_data: "length (arr q0) = nat QUEUE_MAXLEN \<Longrightarrow> data_inv (init_sys q0)"
  by (simp add: data_inv_def holder_pc_def init_sys_def stable_def queue_init_inv queue_init_contents)

lemma reachable_data:
  assumes "reachable q0 s" "length (arr q0) = nat QUEUE_MAXLEN"
  shows "data_inv s"
  using assms(1)
proof (induction rule: reachable.induct)
  case start
  show ?case by (rule init_data [OF assms(2)])
next
  case (step s l s')
  then show ?case
    using reachable_mutex [OF step.hyps(1)] push_step_data pop_step_data by (auto simp: sys_step_def)
qed

section \<open>Refinement: an atomic bounded FIFO\<close>

text \<open>
  The abstract queue holds what has been pushed and not popped. A step of a thread either leaves it
  alone or is exactly one push or pop of the specification.
\<close>

definition abs_queue :: "sys \<Rightarrow> u64 list" where
  "abs_queue s = drop (length (popped s)) (pushed s)"

lemma stable_abs:
  "stable q (pushed s) (popped s) \<Longrightarrow>
    abs_queue s = contents q \<and> pushed s = popped s @ abs_queue s \<and> length (abs_queue s) \<le> nat QUEUE_MAXLEN"
  using rq.elems_le_cap [of q] by (auto simp: stable_def abs_queue_def)

lemma data_at_stable: "data_at c q pu po \<Longrightarrow> \<exists>p. stable p pu po"
  by (cases c) auto

lemma data_inv_abs:
  assumes "data_inv s"
  shows "pushed s = popped s @ abs_queue s \<and> length (abs_queue s) \<le> nat QUEUE_MAXLEN"
proof -
  obtain p where "stable p (pushed s) (popped s)"
    using assms data_at_stable unfolding data_inv_def by blast
  from stable_abs [OF this] show ?thesis by blast
qed

lemma abs_queue_push:
  "pushed s = popped s @ xs \<Longrightarrow> abs_queue (s\<lparr>pushed := pushed s @ [e]\<rparr>) = xs @ [e]"
  by (simp add: abs_queue_def)

lemma abs_queue_pop:
  "pushed s = popped s @ r # xs \<Longrightarrow> abs_queue (s\<lparr>popped := popped s @ [r]\<rparr>) = xs"
  by (simp add: abs_queue_def)

lemma push_size_spec:
  assumes "mutex_inv s" "data_inv s" "pcs s t = PushSize e"
  shows "spec_push (nat QUEUE_MAXLEN) (abs_queue s) e = Ok (abs_queue (s\<lparr>pushed := pushed s @ [e]\<rparr>))"
proof -
  obtain p where p: "stable p (pushed s) (popped s)" "size p \<noteq> QUEUE_MAXLEN"
    using data_own [OF assms] by auto
  have abs: "abs_queue s = contents p" "pushed s = popped s @ contents p"
    using stable_abs [OF p(1)] by auto
  have "length (contents p) < nat QUEUE_MAXLEN"
    using p length_contents [of p] by (auto simp: stable_def queue_inv_def)
  then show ?thesis by (simp add: spec_push_def abs(1) abs_queue_push [OF abs(2)])
qed

lemma pop_size_spec:
  assumes "mutex_inv s" "data_inv s" "pcs s t = PopSize r"
  shows "spec_pop (abs_queue s) = Ok (r, abs_queue (s\<lparr>popped := popped s @ [r]\<rparr>))"
proof -
  obtain p where p: "stable p (pushed s) (popped s)" "size p \<noteq> 0" "r = hd (contents p)"
    using data_own [OF assms] by auto
  then have c: "contents p = r # tl (contents p)"
    using contents_zero_iff [of p] by (simp add: stable_def)
  have "abs_queue s = contents p" "pushed s = popped s @ r # tl (contents p)"
    using stable_abs [OF p(1)] c by auto
  then show ?thesis using c abs_queue_pop [of s r "tl (contents p)"] by (metis spec_pop.simps(2))
qed

lemma abs_queue_cong [simp]:
  "abs_queue (goto t c s) = abs_queue s" "abs_queue (wake W f s) = abs_queue s"
  "abs_queue (s\<lparr>owner := x\<rparr>) = abs_queue s" "abs_queue (s\<lparr>queue := q\<rparr>) = abs_queue s"
  by (simp_all add: abs_queue_def)

definition abstract_step :: "sys \<Rightarrow> sys \<Rightarrow> bool" where
  "abstract_step s s' \<longleftrightarrow>
     pushed s' = pushed s \<and> popped s' = popped s \<and> abs_queue s' = abs_queue s \<or>
     (\<exists>e. pushed s' = pushed s @ [e] \<and> popped s' = popped s \<and>
       spec_push (nat QUEUE_MAXLEN) (abs_queue s) e = Ok (abs_queue s')) \<or>
     (\<exists>r. pushed s' = pushed s \<and> popped s' = popped s @ [r] \<and>
       spec_pop (abs_queue s) = Ok (r, abs_queue s'))"

lemma push_step_abstract:
  "push_step s l s' \<Longrightarrow> mutex_inv s \<Longrightarrow> data_inv s \<Longrightarrow> abstract_step s s'"
proof (induction rule: push_step.induct)
  case (push_size s t e)
  then show ?case using push_size_spec [of s t e] by (simp add: abstract_step_def abs_queue_def)
qed (simp_all add: abstract_step_def)

lemma pop_step_abstract:
  "pop_step s l s' \<Longrightarrow> mutex_inv s \<Longrightarrow> data_inv s \<Longrightarrow> abstract_step s s'"
proof (induction rule: pop_step.induct)
  case (pop_size s t r)
  then show ?case using pop_size_spec [of s t r] by (simp add: abstract_step_def abs_queue_def)
qed (simp_all add: abstract_step_def)

section \<open>No wakeup is lost\<close>

text \<open>
  A thread inside \<open>queue_pop\<close> that is awake and has not taken its element yet, or a thread about to
  signal \<open>empty_cvar\<close>, will take an element or wake a sleeper. While some thread sleeps on
  \<open>empty_cvar\<close> there are at least as many of these as elements; dually for \<open>full_cvar\<close> and free slots.
\<close>

fun pop_credit :: "pc \<Rightarrow> bool" where
  "pop_credit PopLock = True" | "pop_credit PopTest = True" | "pop_credit PopRelock = True"
| "pop_credit PopRead = True" | "pop_credit (PopHead r) = True" | "pop_credit (PopSize r) = True"
| "pop_credit PushSignal = True" | "pop_credit c = False"

fun push_credit :: "pc \<Rightarrow> bool" where
  "push_credit (PushLock e) = True" | "push_credit (PushTest e) = True"
| "push_credit (PushRelock e) = True" | "push_credit (PushStore e) = True"
| "push_credit (PushTail e) = True" | "push_credit (PushSize e) = True"
| "push_credit (PopSignal r) = True" | "push_credit c = False"

definition number :: "(pc \<Rightarrow> bool) \<Rightarrow> (tid \<Rightarrow> pc) \<Rightarrow> int" where
  "number P f = int (card {t. P (f t)})"

definition finite_threads :: "(tid \<Rightarrow> pc) \<Rightarrow> bool" where
  "finite_threads f \<longleftrightarrow> finite {t. f t \<noteq> Idle}"

definition wake_inv :: "sys \<Rightarrow> bool" where
  "wake_inv s \<longleftrightarrow> finite_threads (pcs s) \<and>
     (pop_waiters s \<noteq> {} \<longrightarrow> size (queue s) \<le> number pop_credit (pcs s)) \<and>
     (push_waiters s \<noteq> {} \<longrightarrow> QUEUE_MAXLEN - size (queue s) \<le> number push_credit (pcs s))"

lemma finite_credit:
  "finite_threads f \<Longrightarrow> \<not> P Idle \<Longrightarrow> finite {t. P (f t)}"
  unfolding finite_threads_def by (erule rev_finite_subset) auto

lemma finite_threads_upd: "finite_threads f \<Longrightarrow> finite_threads (f(t := c))"
  unfolding finite_threads_def by (rule finite_subset [where B = "insert t {t. f t \<noteq> Idle}"]) auto

abbreviation credit :: "(pc \<Rightarrow> bool) \<Rightarrow> pc \<Rightarrow> int" where
  "credit P c \<equiv> (if P c then 1 else 0)"

lemma number_upd:
  assumes "finite_threads f" "\<not> P Idle"
  shows "number P (f(t := c)) = number P f + credit P c - credit P (f t)"
proof -
  define A where "A = {u. P (f u)} - {t}"
  have fin: "finite A" "t \<notin> A" using finite_credit [of f P] assms by (auto simp: A_def)
  have "{u. P (f u)} = (if P (f t) then insert t A else A)"
    and "{u. P ((f(t := c)) u)} = (if P c then insert t A else A)"
    by (auto simp: A_def)
  then have "int (card {u. P (f u)}) = int (card A) + credit P (f t)"
    and "int (card {u. P ((f(t := c)) u)}) = int (card A) + credit P c"
    using fin by simp_all
  then show ?thesis by (simp add: number_def)
qed

lemma number_nonneg: "0 \<le> number P f"
  by (simp add: number_def)

lemma waiters_goto:
  "pop_waiters (goto t c s) = (if c = PopWait then insert t (pop_waiters s) else pop_waiters s - {t})"
  "push_waiters (goto t c s) = (if push_waiting c then insert t (push_waiters s) else push_waiters s - {t})"
  by (auto simp: pop_waiters_def push_waiters_def)

text \<open>One thread moves on: what it hands over must match the change of the size.\<close>

lemma wake_goto:
  assumes inv: "wake_inv s" and pcs: "pcs s1 = pcs s"
    and pop: "c \<noteq> PopWait \<and>
        size (queue s1) - size (queue s) \<le> credit pop_credit c - credit pop_credit (pcs s t) \<or>
      c = PopWait \<and> size (queue s1) = 0"
    and push: "\<not> push_waiting c \<and>
        size (queue s) - size (queue s1) \<le> credit push_credit c - credit push_credit (pcs s t) \<or>
      push_waiting c \<and> size (queue s1) = QUEUE_MAXLEN"
  shows "wake_inv (goto t c s1)"
proof -
  have fin: "finite_threads (pcs s)" using inv by (simp add: wake_inv_def)
  have w: "pop_waiters s1 = pop_waiters s" "push_waiters s1 = push_waiters s"
    by (simp_all add: pop_waiters_def push_waiters_def pcs)
  have n: "number pop_credit ((pcs s)(t := c)) =
        number pop_credit (pcs s) + credit pop_credit c - credit pop_credit (pcs s t)"
      "number push_credit ((pcs s)(t := c)) =
        number push_credit (pcs s) + credit push_credit c - credit push_credit (pcs s t)"
    by (rule number_upd [OF fin], simp)+
  have "size (queue s1) \<le> number pop_credit ((pcs s)(t := c))"
    if "pop_waiters (goto t c s1) \<noteq> {}"
  proof (cases "c = PopWait")
    case True
    then show ?thesis using pop number_nonneg by simp
  next
    case False
    then have "pop_waiters s \<noteq> {}" using that w by (auto simp: waiters_goto)
    then show ?thesis using False pop n(1) inv unfolding wake_inv_def by linarith
  qed
  moreover have "QUEUE_MAXLEN - size (queue s1) \<le> number push_credit ((pcs s)(t := c))"
    if "push_waiters (goto t c s1) \<noteq> {}"
  proof (cases "push_waiting c")
    case True
    then show ?thesis using push number_nonneg by simp
  next
    case False
    then have "push_waiters s \<noteq> {}" using that w by (auto simp: waiters_goto)
    then show ?thesis using False push n(2) inv unfolding wake_inv_def by linarith
  qed
  ultimately show ?thesis
    using finite_threads_upd [OF fin] by (simp add: wake_inv_def pcs)
qed

text \<open>A signal: the signalling thread gives up its credit to the threads it wakes.\<close>

lemma woken_Idle [simp]: "woken c = Idle \<longleftrightarrow> c = Idle"
  by (cases c) auto

lemma finite_threads_wake: "finite_threads (pcs (wake W woken s)) = finite_threads (pcs s)"
  unfolding finite_threads_def by (rule arg_cong [where f = finite]) auto

lemma number_disjoint:
  assumes "finite W" "finite {t. P (f t)}" "W \<inter> {t. P (f t)} = {}" "{t. P (g t)} = {t. P (f t)} \<union> W"
  shows "number P g = number P f + int (card W)"
  using assms by (simp add: number_def card_Un_disjoint Int_commute)

lemma wake_pop_numbers:
  assumes "finite_threads (pcs s)" "finite W" "W \<subseteq> pop_waiters s"
  shows "number pop_credit (pcs (wake W woken s)) = number pop_credit (pcs s) + int (card W)"
    and "number push_credit (pcs (wake W woken s)) = number push_credit (pcs s)"
    and "push_waiters (wake W woken s) = push_waiters s"
    and "pop_waiters (wake W woken s) = pop_waiters s - W"
proof -
  have W: "t \<in> W \<Longrightarrow> pcs s t = PopWait" for t using assms(3) by (auto simp: pop_waiters_def)
  show "number pop_credit (pcs (wake W woken s)) = number pop_credit (pcs s) + int (card W)"
    by (rule number_disjoint [OF assms(2) finite_credit [OF assms(1)]]) (auto simp: W)
  have "push_credit (pcs (wake W woken s) t) = push_credit (pcs s t)" for t
    by (cases "t \<in> W") (auto simp: W)
  then show "number push_credit (pcs (wake W woken s)) = number push_credit (pcs s)"
    by (simp add: number_def)
  show "push_waiters (wake W woken s) = push_waiters s"
    by (auto simp: push_waiters_def W split: if_splits)
  show "pop_waiters (wake W woken s) = pop_waiters s - W"
    using W by (auto simp: pop_waiters_def split: if_splits)
qed

lemma wake_push_numbers:
  assumes "finite_threads (pcs s)" "finite W" "W \<subseteq> push_waiters s"
  shows "number push_credit (pcs (wake W woken s)) = number push_credit (pcs s) + int (card W)"
    and "number pop_credit (pcs (wake W woken s)) = number pop_credit (pcs s)"
    and "pop_waiters (wake W woken s) = pop_waiters s"
    and "push_waiters (wake W woken s) = push_waiters s - W"
proof -
  have W: "t \<in> W \<Longrightarrow> \<exists>e. pcs s t = PushWait e" for t
    using assms(3) by (cases "pcs s t") (auto simp: push_waiters_def)
  have P: "push_credit (pcs (wake W woken s) t) \<longleftrightarrow> push_credit (pcs s t) \<or> t \<in> W"
    "t \<in> W \<Longrightarrow> \<not> push_credit (pcs s t)" for t
    using W [of t] by auto
  show "number push_credit (pcs (wake W woken s)) = number push_credit (pcs s) + int (card W)"
    by (rule number_disjoint [OF assms(2) finite_credit [OF assms(1)]]) (use P in auto)
  have "pop_credit (pcs (wake W woken s) t) = pop_credit (pcs s t)" for t
    using W [of t] by auto
  then show "number pop_credit (pcs (wake W woken s)) = number pop_credit (pcs s)"
    by (simp add: number_def)
  have "pcs (wake W woken s) t = PopWait \<longleftrightarrow> pcs s t = PopWait" for t
    using W [of t] by auto
  then show "pop_waiters (wake W woken s) = pop_waiters s" by (simp add: pop_waiters_def)
  have "push_waiting (pcs (wake W woken s) t) \<longleftrightarrow> push_waiting (pcs s t) \<and> t \<notin> W" for t
    using W [of t] by auto
  then show "push_waiters (wake W woken s) = push_waiters s - W" by (auto simp: push_waiters_def)
qed

lemma card_signals: "signals A W \<Longrightarrow> A \<noteq> {} \<Longrightarrow> 1 \<le> int (card W)"
  using card_gt_0_iff [of W] by (auto simp: signals_def)

lemma push_signal_wake:
  assumes "wake_inv s" "pcs s t = PushSignal" "signals (pop_waiters s) W"
  shows "wake_inv (goto t PushUnlock (wake W woken s))"
proof -
  have fin: "finite_threads (pcs s)" "finite W" "W \<subseteq> pop_waiters s"
    using assms by (auto simp: wake_inv_def signals_def)
  then have fin': "finite_threads (pcs (wake W woken s))" by (simp only: finite_threads_wake)
  note n = wake_pop_numbers [OF fin]
  have t: "pcs (wake W woken s) t = PushSignal"
    using assms(2) fin(3) by (auto simp: pop_waiters_def)
  have "pop_waiters s \<noteq> {} \<longrightarrow> size (queue s) < number pop_credit (pcs s) + int (card W)"
    using assms(1) card_signals [OF assms(3)] unfolding wake_inv_def by force
  then show ?thesis
    using assms(1) finite_threads_upd [OF fin']
      number_upd [OF fin', of pop_credit t PushUnlock, unfolded t n]
      number_upd [OF fin', of push_credit t PushUnlock, unfolded t n]
    by (auto simp: wake_inv_def waiters_goto n)
qed

lemma pop_signal_wake:
  assumes "wake_inv s" "pcs s t = PopSignal r" "signals (push_waiters s) W"
  shows "wake_inv (goto t (PopUnlock r) (wake W woken s))"
proof -
  have fin: "finite_threads (pcs s)" "finite W" "W \<subseteq> push_waiters s"
    using assms by (auto simp: wake_inv_def signals_def)
  then have fin': "finite_threads (pcs (wake W woken s))" by (simp only: finite_threads_wake)
  note n = wake_push_numbers [OF fin]
  have t: "pcs (wake W woken s) t = PopSignal r"
    using assms(2) fin(3) by (auto simp: push_waiters_def)
  have "push_waiters s \<noteq> {} \<longrightarrow> QUEUE_MAXLEN - size (queue s) < number push_credit (pcs s) + int (card W)"
    using assms(1) card_signals [OF assms(3)] unfolding wake_inv_def by force
  then show ?thesis
    using assms(1) finite_threads_upd [OF fin']
      number_upd [OF fin', of pop_credit t "PopUnlock r", unfolded t n]
      number_upd [OF fin', of push_credit t "PopUnlock r", unfolded t n]
    by (auto simp: wake_inv_def waiters_goto n)
qed

lemma push_store_size: "push_store q e = Ok q' \<Longrightarrow> size q' = size q"
  by (auto simp: push_store_def outcome_simps)

lemma push_step_wake: "push_step s l s' \<Longrightarrow> wake_inv s \<Longrightarrow> wake_inv s'"
proof (induction rule: push_step.induct)
  case (push_signal s t W)
  then show ?case using push_signal_wake by blast
next
  case (push_store s t e q)
  then show ?case using push_store_size [OF push_store(2)] by (auto elim!: wake_goto)
qed (erule wake_goto; simp add: push_tail_def push_size_def)+

lemma pop_step_wake: "pop_step s l s' \<Longrightarrow> wake_inv s \<Longrightarrow> wake_inv s'"
proof (induction rule: pop_step.induct)
  case (pop_signal s t r W)
  then show ?case using pop_signal_wake by blast
qed (erule wake_goto; simp add: pop_head_def pop_size_def)+

lemma reachable_wake: "reachable q0 s \<Longrightarrow> wake_inv s"
proof (induction rule: reachable.induct)
  case start
  show ?case
    by (simp add: wake_inv_def init_sys_def finite_threads_def pop_waiters_def push_waiters_def)
next
  case (step s l s')
  then show ?case using push_step_wake pop_step_wake by (auto simp: sys_step_def)
qed

section \<open>Progress\<close>

text \<open>\<open>stuck s\<close>: no thread can execute its next statement.\<close>

definition stuck :: "sys \<Rightarrow> bool" where
  "stuck s \<longleftrightarrow> (\<forall>t s'. \<not> sys_step s (Run t) s')"

lemma signals_exist: "finite A \<Longrightarrow> signals A A"
  by (simp add: signals_def)

lemma finite_waiters: "wake_inv s \<Longrightarrow> finite (pop_waiters s) \<and> finite (push_waiters s)"
  using finite_credit [of "pcs s" "\<lambda>c. c = PopWait"] finite_credit [of "pcs s" push_waiting]
  by (simp add: wake_inv_def pop_waiters_def push_waiters_def)

text \<open>The owner of the mutex can always move on.\<close>

lemma cs_enabled:
  assumes "mutex_inv s" "data_inv s" "wake_inv s" "in_cs (pcs s t)"
  shows "\<exists>s'. sys_step s (Run t) s'"
proof (cases "pcs s t")
  case (PushStore e)
  then have "stable (queue s) (pushed s) (popped s) \<and> size (queue s) \<noteq> QUEUE_MAXLEN"
    using data_own [OF assms(1,2) PushStore] by simp
  then obtain q where "push_store (queue s) e = Ok q"
    using push_store_ok [of "queue s" e] by (auto simp: stable_def)
  then show ?thesis using push_step.push_store [OF PushStore] by (auto simp: sys_step_def)
next
  case PopRead
  then have "pop_read (queue s) = Ok (hd (contents (queue s)))"
    using data_own [OF assms(1,2) PopRead] pop_read_ok [of "queue s"] by (simp add: stable_def)
  then show ?thesis using pop_step.pop_read [OF PopRead] by (auto simp: sys_step_def)
next
  case PushSignal
  then show ?thesis
    using push_step.push_signal [OF PushSignal signals_exist] finite_waiters [OF assms(3)]
    by (auto simp: sys_step_def)
next
  case (PopSignal r)
  then show ?thesis
    using pop_step.pop_signal [OF PopSignal signals_exist] finite_waiters [OF assms(3)]
    by (auto simp: sys_step_def)
next
  case (PushTest e)
  then show ?thesis using push_full [OF PushTest] push_room [OF PushTest] by (auto simp: sys_step_def)
next
  case PopTest
  then show ?thesis using pop_empty [OF PopTest] pop_some [OF PopTest] by (auto simp: sys_step_def)
qed (use assms(4) in \<open>auto simp: sys_step_def intro: push_step.intros pop_step.intros\<close>)

lemma stuck_waiting:
  assumes "mutex_inv s" "data_inv s" "wake_inv s" "stuck s"
  shows "owner s = None" and "pcs s t = Idle \<or> pcs s t = PopWait \<or> push_waiting (pcs s t)"
proof -
  have cs: "\<not> in_cs (pcs s u)" for u
    using cs_enabled [OF assms(1-3), of u] assms(4) by (auto simp: stuck_def)
  then show own: "owner s = None"
    using assms(1) by (cases "owner s") (auto simp: mutex_inv_def)
  show "pcs s t = Idle \<or> pcs s t = PopWait \<or> push_waiting (pcs s t)"
  proof (rule ccontr)
    assume nw: "\<not> ?thesis"
    have "\<exists>s'. sys_step s (Run t) s'"
      using nw cs [of t] own
      by (cases "pcs s t") (auto simp: sys_step_def intro: push_step.intros pop_step.intros)
    with assms(4) show False by (auto simp: stuck_def)
  qed
qed

lemma stuck_no_credit:
  assumes "mutex_inv s" "data_inv s" "wake_inv s" "stuck s"
  shows "number pop_credit (pcs s) = 0" and "number push_credit (pcs s) = 0"
proof -
  have "\<not> pop_credit (pcs s t) \<and> \<not> push_credit (pcs s t)" for t
    using stuck_waiting(2) [OF assms, of t] by (cases "pcs s t") auto
  then show "number pop_credit (pcs s) = 0" "number push_credit (pcs s) = 0"
    by (simp_all add: number_def)
qed

lemma stuck_cases:
  assumes "mutex_inv s" "data_inv s" "wake_inv s" "stuck s"
  shows "(\<forall>t. pcs s t = Idle \<or> pcs s t = PopWait) \<and> (pop_waiters s \<noteq> {} \<longrightarrow> abs_queue s = []) \<or>
    (\<forall>t. pcs s t = Idle \<or> push_waiting (pcs s t)) \<and> length (abs_queue s) = nat QUEUE_MAXLEN"
proof -
  have st: "stable (queue s) (pushed s) (popped s)"
    using data_enter [OF stuck_waiting(1) [OF assms] assms(2)] .
  then have c: "contents (queue s) = abs_queue s" "queue_inv (queue s)"
    using stable_abs [OF st] by (simp_all add: stable_def)
  have e: "abs_queue s = []" if "pop_waiters s \<noteq> {}"
    using that assms(3) stuck_no_credit(1) [OF assms] contents_zero_iff [OF c(2)] c
    by (auto simp: wake_inv_def queue_inv_def)
  have f: "length (abs_queue s) = nat QUEUE_MAXLEN" if "push_waiters s \<noteq> {}"
    using that assms(3) stuck_no_credit(2) [OF assms] length_contents [of "queue s"] c
    by (auto simp: wake_inv_def queue_inv_def)
  show ?thesis
  proof (cases "push_waiters s = {}")
    case True
    then show ?thesis
      using stuck_waiting(2) [OF assms] e by (auto simp: push_waiters_def)
  next
    case False
    then have "pop_waiters s = {}" using e f by (force simp: QUEUE_MAXLEN_def)
    then show ?thesis
      using stuck_waiting(2) [OF assms] f [OF False] by (auto simp: pop_waiters_def)
  qed
qed

section \<open>Properties\<close>

inductive_cases run_pushE: "push_step s (Run t) s'"
inductive_cases run_popE: "pop_step s (Run t) s'"

lemma run_push: "reachable q0 s \<Longrightarrow> push_step s l s' \<Longrightarrow> reachable q0 s'"
  using reachable.step [of q0 s l s'] by (simp add: sys_step_def)

lemma run_pop: "reachable q0 s \<Longrightarrow> pop_step s l s' \<Longrightarrow> reachable q0 s'"
  using reachable.step [of q0 s l s'] by (simp add: sys_step_def)

text \<open>Two runs used as instances: thread 0 pushes 7 up to the signal; thread 0 pops and sleeps.\<close>

definition pushing_run :: "sys" where
  "pushing_run =
     (let s1 = goto 0 (PushTest 7) ((goto 0 (PushLock 7) (init_sys queue_zero))\<lparr>owner := Some 0\<rparr>);
          q = queue_zero\<lparr>arr := (arr queue_zero)[0 := 7]\<rparr>
      in s1\<lparr>queue := push_size (push_tail q), pcs := (\<lambda>_. Idle)(0 := PushSignal), pushed := [7]\<rparr>)"

lemma pushing_run_reachable: "reachable queue_zero pushing_run"
proof -
  have 1: "reachable queue_zero (goto 0 (PushLock 7) (init_sys queue_zero))"
    by (rule run_push [OF reachable.start call_push]) (simp add: init_sys_def)
  note 2 = run_push [OF 1 push_lock, of 0 7, simplified]
  note 3 = run_push [OF 2 push_room, of 0 7, simplified]
  note 4 = run_push [OF 3 push_store, of 0 7 "queue_zero\<lparr>arr := (arr queue_zero)[0 := 7]\<rparr>", simplified]
  note 5 = run_push [OF 4 push_tail, of 0 7, simplified]
  note 6 = run_push [OF 5 push_size, of 0 7, simplified]
  show ?thesis
    using 6
    by (simp add: pushing_run_def Let_def init_sys_def queue_init_def queue_zero_def QUEUE_MAXLEN_def
        push_store_def arr_set_def in_bounds_def goto_def outcome_simps push_size_def push_tail_def)
qed

text \<open>A thread that found the queue empty and sleeps.\<close>

definition sleeping_run :: "sys" where
  "sleeping_run = (init_sys queue_zero)\<lparr>pcs := (\<lambda>_. Idle)(0 := PopWait)\<rparr>"

lemma sleeping_run_reachable: "reachable queue_zero sleeping_run"
proof -
  have 1: "reachable queue_zero (goto 0 PopLock (init_sys queue_zero))"
    by (rule run_pop [OF reachable.start call_pop]) (simp add: init_sys_def)
  note 2 = run_pop [OF 1 pop_lock, of 0, simplified]
  note 3 = run_pop [OF 2 pop_empty, of 0, simplified]
  show ?thesis
    using 3 by (simp add: sleeping_run_def init_sys_def queue_init_def queue_zero_def goto_def)
qed

lemma sleeping_run_stuck: "stuck sleeping_run"
  unfolding stuck_def sys_step_def
  by (auto simp: sleeping_run_def init_sys_def elim!: run_pushE run_popE split: if_splits)

text \<open>
  C9. Mutual exclusion in \<open>queue_push\<close> and \<open>queue_pop\<close>: however the calls of any number of threads on
  one queue interleave, at most one thread is between taking and releasing the mutex, also after a
  wait on a condition variable that ended by a signal or spuriously.
\<close>

theorem mutual_exclusion:
  assumes "reachable q0 s" "in_cs (pcs s t)" "in_cs (pcs s u)"
  shows "t = u"
  using reachable_mutex [OF assms(1)] assms(2,3) by (auto simp: mutex_inv_def)

theorem mutual_exclusion_witness:
  "{u. in_cs (pcs pushing_run u)} = {0}"
proof -
  have "in_cs (pcs pushing_run 0)" by (simp add: pushing_run_def Let_def)
  then show ?thesis using mutual_exclusion [OF pushing_run_reachable] by blast
qed

text \<open>
  C7. First in, first out under concurrency: in every reachable state the elements popped so far are
  the first elements pushed, in the same order and each once; at most \<open>QUEUE_MAXLEN\<close> elements are
  inside; and the value a \<open>queue_pop\<close> is about to return is the last one taken out.
\<close>

theorem fifo_order:
  assumes "reachable q0 s" "length (arr q0) = nat QUEUE_MAXLEN"
  shows "(\<exists>inside. pushed s = popped s @ inside \<and> length inside \<le> nat QUEUE_MAXLEN) \<and>
    (\<forall>t r. pcs s t = PopUnlock r \<longrightarrow> popped s \<noteq> [] \<and> last (popped s) = r)"
  using data_inv_abs [OF reachable_data [OF assms]]
    data_own [OF reachable_mutex [OF assms(1)] reachable_data [OF assms]]
  by fastforce

theorem fifo_order_witness:
  "\<exists>inside. pushed pushing_run = popped pushing_run @ inside \<and> length inside \<le> 32 \<and> inside = [7]"
proof -
  have "length (arr queue_zero) = nat QUEUE_MAXLEN" by (simp add: queue_zero_def)
  from fifo_order [OF pushing_run_reachable this] show ?thesis
    by (auto simp: pushing_run_def init_sys_def Let_def QUEUE_MAXLEN_def)
qed

text \<open>
  C11. Refinement: every statement executed by any thread in any reachable state either leaves the
  abstract queue alone or is exactly one atomic push of a bounded FIFO of \<open>QUEUE_MAXLEN\<close> elements
  that has room, or exactly one pop of its oldest element.
\<close>

theorem steps_refine_fifo:
  assumes "reachable q0 s" "length (arr q0) = nat QUEUE_MAXLEN" "sys_step s l s'"
  shows "abstract_step s s'"
  using reachable_mutex [OF assms(1)] reachable_data [OF assms(1,2)] assms(3)
    push_step_abstract pop_step_abstract
  by (auto simp: sys_step_def)

theorem steps_refine_fifo_witness:
  "abstract_step pushing_run (goto 0 PushUnlock (wake {} woken pushing_run))"
proof -
  have len: "length (arr queue_zero) = nat QUEUE_MAXLEN" by (simp add: queue_zero_def)
  have "signals (pop_waiters pushing_run) {}"
    by (auto simp: signals_def pop_waiters_def pushing_run_def Let_def)
  then have "sys_step pushing_run (Run 0) (goto 0 PushUnlock (wake {} woken pushing_run))"
    using push_signal [of pushing_run 0 "{}"]
    by (simp add: sys_step_def) (simp add: pushing_run_def Let_def)
  then show ?thesis by (rule steps_refine_fifo [OF pushing_run_reachable len])
qed

text \<open>
  C10. No wakeup is lost: if no thread can execute its next statement, then either every thread
  that is inside the queue's operations waits for an element and there is none, or every one waits for
  room and the queue is full. In particular the threads never all sleep while there is work to do,
  whichever sleeper each \<open>pthread_cond_signal\<close> chooses.
\<close>

theorem no_lost_wakeup:
  assumes "reachable q0 s" "length (arr q0) = nat QUEUE_MAXLEN" "stuck s"
  shows "(\<forall>t. pcs s t = Idle \<or> pcs s t = PopWait) \<and> (pop_waiters s \<noteq> {} \<longrightarrow> abs_queue s = []) \<or>
    (\<forall>t. pcs s t = Idle \<or> push_waiting (pcs s t)) \<and> length (abs_queue s) = nat QUEUE_MAXLEN"
  using stuck_cases [OF reachable_mutex [OF assms(1)] reachable_data [OF assms(1,2)]
      reachable_wake [OF assms(1)] assms(3)] .

theorem no_lost_wakeup_witness:
  "pop_waiters sleeping_run \<noteq> {} \<and> stuck sleeping_run \<and> abs_queue sleeping_run = []"
proof -
  have len: "length (arr queue_zero) = nat QUEUE_MAXLEN" by (simp add: queue_zero_def)
  have "pop_waiters sleeping_run \<noteq> {}" "\<not> push_waiting (pcs sleeping_run 0)"
    "pcs sleeping_run 0 \<noteq> Idle"
    by (auto simp: pop_waiters_def sleeping_run_def split: if_splits)
  then show ?thesis
    using no_lost_wakeup [OF sleeping_run_reachable len sleeping_run_stuck] sleeping_run_stuck by blast
qed

end
