(* ===== verification/Simple_Sync.thy ===== *)
theory Simple_Sync
  imports Runtime_Queue
begin

text \<open>
  \<^verbatim>\<open>runtime/simple_sync.c\<close>: the functions the generated code calls. The two static arrays are the
  state; the calls of the operating system and of \<open>printf\<close> are recorded as effects, in order. What
  \<open>pthread_create\<close> stores into the thread table is a parameter. An index outside an array is
  undefined behaviour, as it is in the code, which checks none.
\<close>

type_synonym pthread_t = "64 word"

definition NUM_THREADS :: nat where "NUM_THREADS = 2"
definition NUM_QUEUES :: nat where "NUM_QUEUES = 256"

datatype 'f effect = Printed string | Created 'f u64 | Joined pthread_t

record 'f runtime =
  threads :: "pthread_t list"
  data_queues :: "queue_t list"
  effects :: "'f effect list"

definition runtime_zero :: "'f runtime" where
  "runtime_zero = \<lparr>threads = replicate NUM_THREADS 0, data_queues = replicate NUM_QUEUES queue_zero,
     effects = []\<rparr>"

section \<open>The operations\<close>

definition sync_produce :: "u64 \<Rightarrow> int \<Rightarrow> 'f runtime \<Rightarrow> 'f runtime outcome" where
  "sync_produce elem val_id st =
     obind (arr_get (data_queues st) val_id) (\<lambda>q.
     obind (queue_push q elem) (\<lambda>q'.
     obind (arr_set (data_queues st) val_id q') (\<lambda>qs. Ok (st\<lparr>data_queues := qs\<rparr>))))"

definition sync_consume :: "int \<Rightarrow> 'f runtime \<Rightarrow> (u64 \<times> 'f runtime) outcome" where
  "sync_consume val_id st =
     obind (arr_get (data_queues st) val_id) (\<lambda>q.
     obind (queue_pop q) (\<lambda>(ret_val, q').
     obind (arr_set (data_queues st) val_id q') (\<lambda>qs. Ok (ret_val, st\<lparr>data_queues := qs\<rparr>))))"

definition emit :: "'f effect \<Rightarrow> 'f runtime \<Rightarrow> 'f runtime" where
  "emit e st = st\<lparr>effects := effects st @ [e]\<rparr>"

definition sync_delegate ::
  "('f \<Rightarrow> u64 \<Rightarrow> pthread_t) \<Rightarrow> int \<Rightarrow> 'f \<Rightarrow> u64 \<Rightarrow> 'f runtime \<Rightarrow> 'f runtime outcome" where
  "sync_delegate create tid fp args st =
     (let st1 = emit (Printed (''create thread!'' @ [CHR 0x0A])) st in
      obind (arr_set (threads st1) tid (create fp args))
        (\<lambda>ts. Ok (emit (Created fp args) (st1\<lparr>threads := ts\<rparr>))))"

text \<open>The loop of \<open>sync_join\<close> over the thread table.\<close>

fun join_loop :: "pthread_t list \<Rightarrow> 'f runtime \<Rightarrow> 'f runtime" where
  "join_loop [] st = st"
| "join_loop (t # ts) st = join_loop ts (if t \<noteq> 0 then emit (Joined t) st else st)"

definition sync_join :: "'f runtime \<Rightarrow> 'f runtime" where
  "sync_join st = (let st1 = emit (Printed (''join'' @ [CHR 0x0A])) st in join_loop (take NUM_THREADS (threads st1)) st1)"

definition sync_init :: "'f runtime \<Rightarrow> 'f runtime" where
  "sync_init st = (let st1 = emit (Printed (''init'' @ [CHR 0x0A])) st in
     st1\<lparr>data_queues := map queue_init (take NUM_QUEUES (data_queues st1)) @ drop NUM_QUEUES (data_queues st1)\<rparr>)"

section \<open>The invariant and the channels\<close>

definition runtime_inv :: "'f runtime \<Rightarrow> bool" where
  "runtime_inv st \<longleftrightarrow> length (threads st) = NUM_THREADS \<and> length (data_queues st) = NUM_QUEUES \<and>
     (\<forall>q \<in> set (data_queues st). queue_inv q)"

definition channel :: "int \<Rightarrow> bool" where
  "channel c \<longleftrightarrow> 0 \<le> c \<and> c < int NUM_QUEUES"

definition chan :: "'f runtime \<Rightarrow> int \<Rightarrow> u64 list" where
  "chan st c = (if channel c then contents (data_queues st ! nat c) else [])"

lemma channel_bounds:
  "length (data_queues st) = NUM_QUEUES \<Longrightarrow> in_bounds (data_queues st) c = channel c"
  by (simp add: in_bounds_def channel_def)

lemma inv_queue:
  "runtime_inv st \<Longrightarrow> channel c \<Longrightarrow> queue_inv (data_queues st ! nat c)"
  using nth_mem [of "nat c" "data_queues st"] by (auto simp: runtime_inv_def channel_def)

lemma inv_update:
  assumes "runtime_inv st" "queue_inv q"
  shows "runtime_inv (st\<lparr>data_queues := (data_queues st)[nat c := q]\<rparr>)"
  using assms set_update_subset_insert [of "data_queues st" "nat c" q]
  by (auto simp: runtime_inv_def)

lemma chan_update:
  assumes "runtime_inv st" "channel c"
  shows "chan (st\<lparr>data_queues := (data_queues st)[nat c := q]\<rparr>) = (chan st)(c := contents q)"
  using assms by (auto simp: chan_def fun_eq_iff channel_def runtime_inv_def nth_list_update)

lemma sync_produce_unfold:
  assumes "runtime_inv st" "channel c"
  shows "sync_produce e c st = obind (queue_push (data_queues st ! nat c) e)
    (\<lambda>q. Ok (st\<lparr>data_queues := (data_queues st)[nat c := q]\<rparr>))"
  using assms by (simp add: sync_produce_def array_simps channel_bounds runtime_inv_def outcome_simps)

lemma sync_consume_unfold:
  assumes "runtime_inv st" "channel c"
  shows "sync_consume c st = obind (queue_pop (data_queues st ! nat c))
    (\<lambda>(e, q). Ok (e, st\<lparr>data_queues := (data_queues st)[nat c := q]\<rparr>))"
  using assms by (simp add: sync_consume_def array_simps channel_bounds runtime_inv_def outcome_simps)

section \<open>Refinement: one bounded FIFO per channel\<close>

datatype chan_op = Produce u64 int | Consume int

fun chan_run :: "chan_op list \<Rightarrow> 'f runtime \<Rightarrow> (u64 list \<times> 'f runtime) outcome" where
  "chan_run [] st = Ok ([], st)"
| "chan_run (Produce e c # ops) st = obind (sync_produce e c st) (chan_run ops)"
| "chan_run (Consume c # ops) st =
     obind (sync_consume c st) (\<lambda>(e, st1). obind (chan_run ops st1) (\<lambda>(out, st2). Ok (e # out, st2)))"

fun spec_chan_run :: "chan_op list \<Rightarrow> (int \<Rightarrow> u64 list) \<Rightarrow> (u64 list \<times> (int \<Rightarrow> u64 list)) outcome" where
  "spec_chan_run [] f = Ok ([], f)"
| "spec_chan_run (Produce e c # ops) f =
     (if channel c
      then obind (spec_push (nat QUEUE_MAXLEN) (f c) e) (\<lambda>xs. spec_chan_run ops (f(c := xs)))
      else Undef)"
| "spec_chan_run (Consume c # ops) f =
     (if channel c
      then obind (spec_pop (f c)) (\<lambda>(e, xs).
             obind (spec_chan_run ops (f(c := xs))) (\<lambda>(out, g). Ok (e # out, g)))
      else Undef)"

lemma sync_produce_bad: "runtime_inv st \<Longrightarrow> \<not> channel c \<Longrightarrow> sync_produce e c st = Undef"
  by (simp add: sync_produce_def arr_get_def channel_bounds runtime_inv_def)

lemma sync_consume_bad: "runtime_inv st \<Longrightarrow> \<not> channel c \<Longrightarrow> sync_consume c st = Undef"
  by (simp add: sync_consume_def arr_get_def channel_bounds runtime_inv_def)

lemma sync_produce_ok:
  assumes "runtime_inv st" "sync_produce e c st = Ok st'"
  shows "channel c \<and> runtime_inv st' \<and> effects st' = effects st \<and>
    spec_push (nat QUEUE_MAXLEN) (chan st c) e = Ok (chan st' c) \<and> chan st' = (chan st)(c := chan st' c)"
proof -
  have c: "channel c" using assms sync_produce_bad [of st c e] by force
  then obtain q where q: "queue_push (data_queues st ! nat c) e = Ok q"
    "st' = st\<lparr>data_queues := (data_queues st)[nat c := q]\<rparr>"
    using assms by (auto simp: sync_produce_unfold outcome_simps)
  have i: "queue_inv (data_queues st ! nat c)" by (rule inv_queue [OF assms(1) c])
  have "queue_inv q" by (rule rq.push_inv [OF i q(1)])
  moreover have "spec_push (nat QUEUE_MAXLEN) (contents (data_queues st ! nat c)) e = Ok (contents q)"
    using rq.push_refines [OF i, of e] q(1) by simp
  ultimately show ?thesis
    using c q(2) chan_update [OF assms(1) c] inv_update [OF assms(1)] by (simp add: chan_def)
qed

lemma sync_produce_blocked:
  assumes "runtime_inv st" "channel c"
  shows "sync_produce e c st = Blocked \<longleftrightarrow> spec_push (nat QUEUE_MAXLEN) (chan st c) e = Blocked"
    and "\<exists>st'. sync_produce e c st \<in> {Ok st', Blocked}"
  using rq.push_refines [OF inv_queue [OF assms], of e] assms
  by (cases "queue_push (data_queues st ! nat c) e";
      auto simp: sync_produce_unfold chan_def spec_push_def split: if_splits)+

lemma sync_consume_ok:
  assumes "runtime_inv st" "sync_consume c st = Ok (e, st')"
  shows "channel c \<and> runtime_inv st' \<and> effects st' = effects st \<and>
    spec_pop (chan st c) = Ok (e, chan st' c) \<and> chan st' = (chan st)(c := chan st' c)"
proof -
  have c: "channel c" using assms sync_consume_bad [of st c] by force
  then obtain q where q: "queue_pop (data_queues st ! nat c) = Ok (e, q)"
    "st' = st\<lparr>data_queues := (data_queues st)[nat c := q]\<rparr>"
    using assms by (auto simp: sync_consume_unfold outcome_simps)
  have i: "queue_inv (data_queues st ! nat c)" by (rule inv_queue [OF assms(1) c])
  have "queue_inv q" by (rule rq.pop_inv [OF i q(1)])
  moreover have "spec_pop (contents (data_queues st ! nat c)) = Ok (e, contents q)"
    using rq.pop_refines [OF i] q(1) by simp
  ultimately show ?thesis
    using c q(2) chan_update [OF assms(1) c] inv_update [OF assms(1)] by (simp add: chan_def)
qed

lemma sync_consume_blocked:
  assumes "runtime_inv st" "channel c"
  shows "sync_consume c st = Blocked \<longleftrightarrow> spec_pop (chan st c) = Blocked"
    and "\<exists>r. sync_consume c st \<in> {Ok r, Blocked}"
  using rq.pop_refines [OF inv_queue [OF assms]] assms
  by (cases "queue_pop (data_queues st ! nat c)"; cases "contents (data_queues st ! nat c)";
      auto simp: sync_consume_unfold chan_def)+

lemma chan_run_refines:
  "runtime_inv st \<Longrightarrow> map_outcome (map_prod id chan) (chan_run ops st) = spec_chan_run ops (chan st)"
proof (induction ops arbitrary: st)
  case Nil
  then show ?case by simp
next
  case (Cons op ops)
  show ?case
  proof (cases op)
    case (Produce e c)
    show ?thesis
    proof (cases "channel c")
      case True
      from sync_produce_blocked(2) [OF Cons.prems True, of e]
      consider st' where "sync_produce e c st = Ok st'" | "sync_produce e c st = Blocked" by auto
      then show ?thesis
      proof cases
        case (1 st')
        note ok = sync_produce_ok [OF Cons.prems 1]
        have "spec_chan_run (op # ops) (chan st) = spec_chan_run ops ((chan st)(c := chan st' c))"
          using ok True Produce by simp
        also have "(chan st)(c := chan st' c) = chan st'" using ok by metis
        finally show ?thesis using ok Cons.IH [of st'] 1 Produce by simp
      next
        case 2
        then show ?thesis using sync_produce_blocked(1) [OF Cons.prems True, of e] True Produce by simp
      qed
    qed (use sync_produce_bad [OF Cons.prems] Produce in simp)
  next
    case (Consume c)
    show ?thesis
    proof (cases "channel c")
      case True
      from sync_consume_blocked(2) [OF Cons.prems True]
      consider e st' where "sync_consume c st = Ok (e, st')" | "sync_consume c st = Blocked" by auto
      then show ?thesis
      proof cases
        case (1 e st')
        note ok = sync_consume_ok [OF Cons.prems 1]
        have "(chan st)(c := chan st' c) = chan st'" using ok by metis
        then show ?thesis
          using ok Cons.IH [of st', symmetric] 1 True Consume by (cases "chan_run ops st'") auto
      next
        case 2
        then show ?thesis using sync_consume_blocked(1) [OF Cons.prems True] True Consume by simp
      qed
    qed (use sync_consume_bad [OF Cons.prems] Consume in simp)
  qed
qed

section \<open>Initialisation, delegation, join\<close>

lemma runtime_zero_inv: "runtime_inv runtime_zero"
  by (simp add: runtime_inv_def runtime_zero_def queue_zero_inv)

lemma emit_inv [simp]: "runtime_inv (emit e st) = runtime_inv st"
  by (simp add: runtime_inv_def emit_def)

lemma sync_init_queues:
  assumes "runtime_inv st"
  shows "data_queues (sync_init st) = map queue_init (data_queues st)"
  using assms by (simp add: sync_init_def runtime_inv_def emit_def Let_def)

lemma sync_init_inv:
  assumes "runtime_inv st"
  shows "runtime_inv (sync_init st)" and "chan (sync_init st) = (\<lambda>_. [])"
proof -
  have "threads (sync_init st) = threads st" by (simp add: sync_init_def emit_def Let_def)
  moreover have "queue_inv (queue_init q)" if "q \<in> set (data_queues st)" for q
    using that assms queue_init_inv [of q] by (simp add: runtime_inv_def queue_inv_def)
  ultimately show "runtime_inv (sync_init st)"
    using assms by (auto simp: runtime_inv_def sync_init_queues)
  show "chan (sync_init st) = (\<lambda>_. [])"
    using assms
    by (auto simp: chan_def fun_eq_iff sync_init_queues channel_def runtime_inv_def queue_init_contents)
qed

lemma join_loop_effects:
  "effects (join_loop ts st) = effects st @ map Joined (filter (\<lambda>t. t \<noteq> 0) ts)"
  by (induction ts arbitrary: st) (auto simp: emit_def)

lemma join_loop_frame:
  "threads (join_loop ts st) = threads st \<and> data_queues (join_loop ts st) = data_queues st"
  by (induction ts arbitrary: st) (auto simp: emit_def)

lemma sync_delegate_ok:
  assumes "runtime_inv st" "0 \<le> tid" "tid < int NUM_THREADS"
  shows "\<exists>st'. sync_delegate create tid fp args st = Ok st' \<and> runtime_inv st' \<and>
    threads st' = (threads st)[nat tid := create fp args] \<and> data_queues st' = data_queues st \<and>
    effects st' = effects st @ [Printed (''create thread!'' @ [CHR 0x0A]), Created fp args]"
  using assms
  by (auto simp: sync_delegate_def emit_def Let_def runtime_inv_def arr_set_def in_bounds_def)

section \<open>Properties\<close>

text \<open>
  C21. The channels are independent bounded FIFOs: every sequence of \<open>sync_produce\<close> and \<open>sync_consume\<close>
  calls returns, blocks or runs into undefined behaviour exactly as on one list per channel number in
  0 to 255, and a channel is changed by calls with its own number only.
\<close>

theorem channels_refine_lists:
  assumes "runtime_inv st"
  shows "map_outcome (map_prod id chan) (chan_run ops st) = spec_chan_run ops (chan st)"
  by (rule chan_run_refines [OF assms])

theorem channels_refine_lists_witness:
  "map_outcome (map_prod id chan)
      (chan_run [Produce 7 3, Produce 8 4, Consume 3] (sync_init (runtime_zero :: unit runtime))) =
    Ok ([7], (\<lambda>_. [])(4 := [8]))"
proof -
  have "spec_chan_run [Produce 7 3, Produce 8 4, Consume 3] (\<lambda>_. []) =
      Ok ([7], (\<lambda>_. [])(3 := [], 4 := [8]))"
    by (simp add: spec_push_def channel_def NUM_QUEUES_def QUEUE_MAXLEN_def fun_upd_twist)
  moreover have "(\<lambda>_ :: int. [])(3 := [], 4 := [8]) = (\<lambda>_. [])(4 := [8 :: u64])" by auto
  ultimately show ?thesis
    using channels_refine_lists [OF sync_init_inv(1) [OF runtime_zero_inv],
        of "[Produce 7 3, Produce 8 4, Consume 3]"]
    by (simp only: sync_init_inv(2) [OF runtime_zero_inv])
qed

text \<open>
  C23. The channel number is not checked: a call with a number below 0 or from 256 on is undefined
  behaviour, and no call with a number in range is.
\<close>

theorem channel_bound:
  assumes "runtime_inv st"
  shows "(sync_produce e c st = Undef \<longleftrightarrow> \<not> channel c) \<and> (sync_consume c st = Undef \<longleftrightarrow> \<not> channel c)"
  using sync_produce_bad [OF assms] sync_consume_bad [OF assms]
    sync_produce_blocked(2) [OF assms, of c e] sync_consume_blocked(2) [OF assms, of c]
  by fastforce

theorem channel_bound_witness:
  "sync_produce 1 256 (runtime_zero :: unit runtime) = Undef \<and>
   sync_produce 1 255 (runtime_zero :: unit runtime) \<noteq> Undef"
  using channel_bound [of "runtime_zero :: unit runtime" 1 256, OF runtime_zero_inv]
    channel_bound [of "runtime_zero :: unit runtime" 1 255, OF runtime_zero_inv]
  by (simp add: channel_def NUM_QUEUES_def)

text \<open>
  C22. One parallel loop: \<open>sync_init\<close> empties every channel whatever ran before, the two calls of
  \<open>sync_delegate\<close> start both workers, and \<open>sync_join\<close> then waits for exactly these two threads, in
  order, provided the system hands out non-zero thread identifiers.
\<close>

theorem init_delegate_join:
  assumes "runtime_inv st" "create f0 a \<noteq> 0" "create f1 a \<noteq> 0"
  shows "\<exists>st1 st2. sync_delegate create 0 f0 a (sync_init st) = Ok st1 \<and>
    sync_delegate create 1 f1 a st1 = Ok st2 \<and> chan st2 = (\<lambda>_. []) \<and>
    effects (sync_join st2) = effects st2 @ [Printed (''join'' @ [CHR 0x0A]),
      Joined (create f0 a), Joined (create f1 a)]"
proof -
  have i: "runtime_inv (sync_init st)" by (rule sync_init_inv(1) [OF assms(1)])
  obtain st1 where 1: "sync_delegate create 0 f0 a (sync_init st) = Ok st1" "runtime_inv st1"
    "threads st1 = (threads (sync_init st))[0 := create f0 a]" "data_queues st1 = data_queues (sync_init st)"
    using sync_delegate_ok [OF i, of 0 create f0 a] by (auto simp: NUM_THREADS_def)
  obtain st2 where 2: "sync_delegate create 1 f1 a st1 = Ok st2" "runtime_inv st2"
    "threads st2 = (threads st1)[1 := create f1 a]" "data_queues st2 = data_queues st1"
    using sync_delegate_ok [OF 1(2), of 1 create f1 a] by (auto simp: NUM_THREADS_def)
  have "length (threads (sync_init st)) = 2" using i by (simp add: runtime_inv_def NUM_THREADS_def)
  then have ts: "threads st2 = [create f0 a, create f1 a]"
    using 1(3) 2(3) by (auto simp: length_Suc_conv numeral_2_eq_2)
  have "chan st2 = chan (sync_init st)" using 1(4) 2(4) by (simp add: chan_def fun_eq_iff)
  then show ?thesis
    using 1(1) 2(1) ts assms(2,3) sync_init_inv(2) [OF assms(1)]
    by (simp add: sync_join_def join_loop_effects emit_def Let_def NUM_THREADS_def)
qed

theorem init_delegate_join_witness:
  "\<exists>st1 st2. sync_delegate (\<lambda>f _. f) 0 11 0 (sync_init runtime_zero) = Ok st1 \<and>
    sync_delegate (\<lambda>f _. f) 1 12 0 st1 = Ok st2 \<and>
    Joined 12 \<in> set (effects (sync_join st2))"
  using init_delegate_join [OF runtime_zero_inv, of "\<lambda>f _. f" 11 0 12] by auto

end
