(* ===== verification/LLVM_IR.thy ===== *)
theory LLVM_IR
  imports DSWP_Prelude
begin

text \<open>
  The part of LLVM's intermediate representation the pass looks at: instructions, basic blocks and
  values are pointers, modelled by numbers; what the pass reads through them is a record. LLVM itself
  is not part of the repository: these types only name what \<^verbatim>\<open>DSWP.h\<close> and the \<^verbatim>\<open>DSWP_*.cpp\<close> files refer to,
  and the results of LLVM's analyses are parameters of the definitions that use them.
\<close>

type_synonym Inst = nat
type_synonym BB = nat

text \<open>The opcodes of \<open>Instruction::getOpcode\<close>.\<close>

datatype (plugins only: size code) Opcode =
    Ret | Br | Switch | IndirectBr | Invoke | Resume | Unreachable
  | Add | FAdd | Sub | FSub | Mul | FMul | UDiv | SDiv | FDiv | URem | SRem | FRem
  | Shl | LShr | AShr | And | Or | Xor
  | Alloca | Load | Store | GetElementPtr | Fence | AtomicCmpXchg | AtomicRMW
  | Trunc | ZExt | SExt | FPToUI | FPToSI | UIToFP | SIToFP | FPTrunc | FPExt
  | PtrToInt | IntToPtr | BitCast
  | ICmp | FCmp | PHI | Call | Select | UserOp1 | UserOp2 | VAArg
  | ExtractElement | InsertElement | ShuffleVector | ExtractValue | InsertValue | LandingPad

text \<open>\<open>isa<TerminatorInst>\<close>.\<close>

definition is_terminator :: "Opcode \<Rightarrow> bool" where
  "is_terminator c \<longleftrightarrow> c \<in> {Ret, Br, Switch, IndirectBr, Invoke, Resume, Unreachable}"

datatype Ty = VoidTy | IntegerTy nat | FloatTy | DoubleTy | OtherFPTy | PointerTy Ty | StructTy "Ty list"
  | FunTy "Ty list" Ty | OtherTy nat

fun isIntegerTy :: "Ty \<Rightarrow> bool" where
  "isIntegerTy (IntegerTy n) = True"
| "isIntegerTy t = False"

fun isPointerTy :: "Ty \<Rightarrow> bool" where
  "isPointerTy (PointerTy t) = True"
| "isPointerTy t = False"

definition isFloatingPointTy :: "Ty \<Rightarrow> bool" where
  "isFloatingPointTy t \<longleftrightarrow> t \<in> {FloatTy, DoubleTy, OtherFPTy}"

text \<open>
  Values: instructions, arguments of functions, integer constants of a width, other constants, blocks,
  functions, which are identified by their names, and the null and the undefined value of a type.
\<close>

datatype Value = VInst Inst | VArg nat | VInt nat int | VConst nat | VBlock BB | VFun string | VNull Ty | VUndef Ty

record instr =
  opcode :: Opcode
  ity :: Ty
  operands :: "Value list"
  succs :: "BB list"
  incoming :: "BB list"

text \<open>
  A function: its blocks in order, the instructions of each block, the block of each instruction, and
  for each instruction its use list (\<open>use_begin\<close> to \<open>use_end\<close>).
\<close>

record func_ir =
  code :: "Inst \<Rightarrow> instr"
  body :: "BB \<Rightarrow> Inst list"
  parent :: "Inst \<Rightarrow> BB"
  fblocks :: "BB list"
  uses :: "Inst \<Rightarrow> Value list"

text \<open>A natural loop as LLVM's \<open>Loop\<close> presents it.\<close>

record loop_ir =
  lheader :: BB
  lblocks :: "BB list"
  lpred :: "BB option"
  lexit :: "BB option"
  lexits :: "BB list"
  ldepth :: nat

definition contains :: "loop_ir \<Rightarrow> BB \<Rightarrow> bool" where
  "contains L b \<longleftrightarrow> b \<in> set (lblocks L)"

definition contains_inst :: "func_ir \<Rightarrow> loop_ir \<Rightarrow> Inst \<Rightarrow> bool" where
  "contains_inst F L i \<longleftrightarrow> contains L (parent F i)"

text \<open>The two nested loops over the blocks of the loop and the instructions of each block.\<close>

definition loop_insts :: "func_ir \<Rightarrow> loop_ir \<Rightarrow> Inst list" where
  "loop_insts F L = concat (map (body F) (lblocks L))"

definition opcode_of :: "func_ir \<Rightarrow> Inst \<Rightarrow> Opcode" where
  "opcode_of F i = opcode (code F i)"

text \<open>\<open>getTerminator\<close>: the last instruction of the block.\<close>

definition terminator :: "func_ir \<Rightarrow> BB \<Rightarrow> Inst" where
  "terminator F b = last (body F b)"

text \<open>
  What LLVM maintains: an instruction is in the list of exactly the block it names as its parent, once;
  blocks are listed once; a block ends in its only terminator.
\<close>

definition wf_func :: "func_ir \<Rightarrow> bool" where
  "wf_func F \<longleftrightarrow> distinct (fblocks F) \<and>
     (\<forall>b \<in> set (fblocks F). distinct (body F b) \<and> body F b \<noteq> [] \<and>
       (\<forall>i \<in> set (body F b). parent F i = b \<and>
         (is_terminator (opcode_of F i) \<longleftrightarrow> i = last (body F b))))"

definition wf_loop :: "func_ir \<Rightarrow> loop_ir \<Rightarrow> bool" where
  "wf_loop F L \<longleftrightarrow> distinct (lblocks L) \<and> set (lblocks L) \<subseteq> set (fblocks F) \<and> contains L (lheader L)"

lemma wf_func_parent: "wf_func F \<Longrightarrow> b \<in> set (fblocks F) \<Longrightarrow> i \<in> set (body F b) \<Longrightarrow> parent F i = b"
  by (auto simp: wf_func_def)

lemma loop_insts_iff:
  "i \<in> set (loop_insts F L) \<longleftrightarrow> (\<exists>b. contains L b \<and> i \<in> set (body F b))"
  by (auto simp: loop_insts_def contains_def)

lemma loop_insts_contains:
  "wf_func F \<Longrightarrow> wf_loop F L \<Longrightarrow> i \<in> set (loop_insts F L) \<Longrightarrow> contains_inst F L i"
  by (auto simp: loop_insts_iff contains_inst_def contains_def wf_loop_def dest: wf_func_parent)

lemma distinct_loop_insts:
  assumes "wf_func F" "wf_loop F L"
  shows "distinct (loop_insts F L)"
proof -
  have "distinct (concat (map (body F) bs))" if "distinct bs" "set bs \<subseteq> set (fblocks F)" for bs
    using that
  proof (induction bs)
    case (Cons b bs)
    have "set (body F b) \<inter> set (concat (map (body F) bs)) = {}"
    proof (rule ccontr)
      assume "\<not> ?thesis"
      then obtain i b' where i: "i \<in> set (body F b)" "b' \<in> set bs" "i \<in> set (body F b')" by auto
      then have "b = b'" using wf_func_parent [OF assms(1)] Cons.prems(2) by (metis list.set_intros(1) list.set_intros(2) subsetD)
      with i(2) Cons.prems(1) show False by simp
    qed
    then show ?case using Cons assms(1) by (auto simp: wf_func_def)
  qed simp
  then show ?thesis using assms(2) by (simp add: loop_insts_def wf_loop_def)
qed

end
