(* ===== verification/Dep_Graph.thy ===== *)
theory Dep_Graph
  imports LLVM_IR
begin

text \<open>
  The dependence graph of \<^verbatim>\<open>DSWP.h\<close> and \<^verbatim>\<open>DSWP_0.cpp\<close>: edges with a kind, the graph \<open>pdg\<close>, the reverse graph
  \<open>rev\<close>, the list \<open>allEdges\<close> of all edges in the order they were added, and \<open>addEdge\<close> and \<open>checkEdge\<close>.
  The invariant says that the three structures hold the same edges, each once. What the client (the
  computation of the components) relies on is the locale \<open>rev_graph\<close>, interpreted for every graph
  that \<open>addEdge\<close> builds.
\<close>

section \<open>Edges\<close>

datatype DType = REG | DTRUE | DANTI | DOUT | DSYN | CONTROL | CONTROL_LC

record Edge =
  eu :: Inst
  ev :: Inst
  dtype :: DType

text \<open>The constructor of \<open>Edge\<close>; \<open>operator==\<close> compares the three fields, which is equality of records.\<close>

definition mk_edge :: "Inst \<Rightarrow> Inst \<Rightarrow> DType \<Rightarrow> Edge" where
  "mk_edge u v d = \<lparr>eu = u, ev = v, dtype = d\<rparr>"

lemma mk_edge_sel [simp]: "eu (mk_edge u v d) = u" "ev (mk_edge u v d) = v" "dtype (mk_edge u v d) = d"
  by (simp_all add: mk_edge_def)

lemma mk_edge_eq [simp]: "mk_edge u v d = mk_edge u' v' d' \<longleftrightarrow> u = u' \<and> v = v' \<and> d = d'"
  by (simp add: mk_edge_def)

lemma mk_edge_collapse: "mk_edge (eu e) (ev e) (dtype e) = e"
  by (simp add: mk_edge_def)

section \<open>The graph\<close>

type_synonym edge_map = "(Inst, Edge list) fmap"

record dep_graph =
  pdg :: edge_map
  rev_graph_of :: edge_map
  allEdges :: "Edge list"

definition empty_graph :: dep_graph where
  "empty_graph = \<lparr>pdg = fmempty, rev_graph_of = fmempty, allEdges = []\<rparr>"

definition edges_at :: "edge_map \<Rightarrow> Inst \<Rightarrow> Edge list" where
  "edges_at m i = sub [] m i"

definition push_edge :: "Inst \<Rightarrow> Edge \<Rightarrow> edge_map \<Rightarrow> edge_map" where
  "push_edge i e m = fmupd i (edges_at m i @ [e]) m"

definition addEdge :: "Inst \<Rightarrow> Inst \<Rightarrow> DType \<Rightarrow> dep_graph \<Rightarrow> dep_graph" where
  "addEdge u v d g =
     (if mk_edge u v d \<in> set (edges_at (pdg g) u) then g
      else g\<lparr>pdg := push_edge u (mk_edge u v d) (pdg g),
             allEdges := allEdges g @ [mk_edge u v d],
             rev_graph_of := push_edge v (mk_edge v u d) (rev_graph_of g)\<rparr>)"

text \<open>
  \<open>checkEdge\<close> walks over the edges of \<open>u\<close> but compares its iterator with the end of the edges of \<open>v\<close>.
  When the two nodes differ the comparison never stops the walk: it returns at the first edge to
  \<open>v\<close> and otherwise runs past the end of the vector.
\<close>

fun check_walk :: "bool \<Rightarrow> Inst \<Rightarrow> Edge list \<Rightarrow> bool outcome" where
  "check_walk same v [] = (if same then Ok False else Undef)"
| "check_walk same v (e # es) = (if ev e = v then Ok True else check_walk same v es)"

definition checkEdge :: "Inst \<Rightarrow> Inst \<Rightarrow> dep_graph \<Rightarrow> bool outcome" where
  "checkEdge u v g = check_walk (u = v) v (edges_at (pdg g) u)"

lemma edges_at_push [simp]:
  "edges_at (push_edge i e m) j = (if i = j then edges_at m j @ [e] else edges_at m j)"
  by (simp add: push_edge_def edges_at_def)

lemma edges_at_empty [simp]: "edges_at fmempty i = []"
  by (simp add: edges_at_def)

lemma edges_at_notin: "i \<notin> fmdom' m \<Longrightarrow> edges_at m i = []"
  by (simp add: edges_at_def sub_notin)

section \<open>Invariant\<close>

definition has_edge :: "dep_graph \<Rightarrow> Inst \<Rightarrow> Inst \<Rightarrow> DType \<Rightarrow> bool" where
  "has_edge g u v d \<longleftrightarrow> mk_edge u v d \<in> set (edges_at (pdg g) u)"

text \<open>An adjacency map: the edges stored at a node start there, each once.\<close>

definition adj_inv :: "edge_map \<Rightarrow> bool" where
  "adj_inv m \<longleftrightarrow> (\<forall>i. distinct (edges_at m i) \<and> (\<forall>e \<in> set (edges_at m i). eu e = i))"

definition graph_inv :: "dep_graph \<Rightarrow> bool" where
  "graph_inv g \<longleftrightarrow> adj_inv (pdg g) \<and> adj_inv (rev_graph_of g) \<and> distinct (allEdges g) \<and>
     (\<forall>u v d. mk_edge v u d \<in> set (edges_at (rev_graph_of g) v) \<longleftrightarrow> has_edge g u v d) \<and>
     (\<forall>u v d. mk_edge u v d \<in> set (allEdges g) \<longleftrightarrow> has_edge g u v d)"

lemma empty_graph_inv: "graph_inv empty_graph"
  by (simp add: graph_inv_def adj_inv_def empty_graph_def has_edge_def)

lemma adj_inv_push:
  "adj_inv m \<Longrightarrow> eu e = i \<Longrightarrow> e \<notin> set (edges_at m i) \<Longrightarrow> adj_inv (push_edge i e m)"
  by (simp add: adj_inv_def)

lemma has_edge_addEdge:
  "has_edge (addEdge u v d g) u' v' d' \<longleftrightarrow> has_edge g u' v' d' \<or> (u' = u \<and> v' = v \<and> d' = d)"
  by (auto simp: has_edge_def addEdge_def)

lemma addEdge_new:
  "\<not> has_edge g u v d \<Longrightarrow> addEdge u v d g = g\<lparr>pdg := push_edge u (mk_edge u v d) (pdg g),
      allEdges := allEdges g @ [mk_edge u v d],
      rev_graph_of := push_edge v (mk_edge v u d) (rev_graph_of g)\<rparr>"
  by (simp add: addEdge_def has_edge_def)

lemma addEdge_inv:
  assumes "graph_inv g"
  shows "graph_inv (addEdge u v d g)"
proof (cases "has_edge g u v d")
  case True
  then show ?thesis using assms by (simp add: addEdge_def has_edge_def)
next
  case False
  then have new: "mk_edge u v d \<notin> set (edges_at (pdg g) u)"
      "mk_edge v u d \<notin> set (edges_at (rev_graph_of g) v)" "mk_edge u v d \<notin> set (allEdges g)"
    using assms by (simp_all add: graph_inv_def has_edge_def)
  have "mk_edge v' u' d' \<in> set (edges_at (rev_graph_of (addEdge u v d g)) v') \<longleftrightarrow>
      has_edge (addEdge u v d g) u' v' d'" for u' v' d'
    unfolding has_edge_addEdge using assms by (auto simp: addEdge_new [OF False] graph_inv_def)
  moreover have "mk_edge u' v' d' \<in> set (allEdges (addEdge u v d g)) \<longleftrightarrow>
      has_edge (addEdge u v d g) u' v' d'" for u' v' d'
    unfolding has_edge_addEdge using assms by (auto simp: addEdge_new [OF False] graph_inv_def)
  moreover have "adj_inv (pdg (addEdge u v d g))" "adj_inv (rev_graph_of (addEdge u v d g))"
      "distinct (allEdges (addEdge u v d g))"
    using assms new by (simp_all add: addEdge_new [OF False] graph_inv_def adj_inv_push)
  ultimately show ?thesis unfolding graph_inv_def by (intro conjI allI)
qed

text \<open>Adding an edge twice is adding it once.\<close>

lemma addEdge_idem: "addEdge u v d (addEdge u v d g) = addEdge u v d g"
  using has_edge_addEdge [of u v d g u v d] by (simp add: addEdge_def [of u v d "addEdge u v d g"] has_edge_def)

fun add_edges :: "(Inst \<times> Inst \<times> DType) list \<Rightarrow> dep_graph \<Rightarrow> dep_graph" where
  "add_edges [] g = g"
| "add_edges ((u, v, d) # es) g = add_edges es (addEdge u v d g)"

lemma add_edges_inv: "graph_inv g \<Longrightarrow> graph_inv (add_edges es g)"
  by (induction es g rule: add_edges.induct) (simp_all add: addEdge_inv)

lemma has_edge_add_edges:
  "has_edge (add_edges es g) u v d \<longleftrightarrow> has_edge g u v d \<or> (u, v, d) \<in> set es"
  by (induction es g rule: add_edges.induct) (auto simp: has_edge_addEdge)

lemma add_edges_append: "add_edges (es @ fs) g = add_edges fs (add_edges es g)"
  by (induction es g rule: add_edges.induct) simp_all

section \<open>Exactly these edges\<close>

text \<open>\<open>adds_edges R g g'\<close>: the code that led from \<open>g\<close> to \<open>g'\<close> added the edges of \<open>R\<close> and no others.\<close>

definition adds_edges :: "(Inst \<Rightarrow> Inst \<Rightarrow> DType \<Rightarrow> bool) \<Rightarrow> dep_graph \<Rightarrow> dep_graph \<Rightarrow> bool" where
  "adds_edges R g g' \<longleftrightarrow> (graph_inv g \<longrightarrow> graph_inv g') \<and>
     (\<forall>u v d. has_edge g' u v d \<longleftrightarrow> has_edge g u v d \<or> R u v d)"

lemma adds_edges_inv: "adds_edges R g g' \<Longrightarrow> graph_inv g \<Longrightarrow> graph_inv g'"
  by (simp add: adds_edges_def)

lemma adds_edges_iff: "adds_edges R g g' \<Longrightarrow> has_edge g' u v d \<longleftrightarrow> has_edge g u v d \<or> R u v d"
  by (simp add: adds_edges_def)

lemma adds_edges_cong: "adds_edges R g g' \<Longrightarrow> (\<And>u v d. R u v d \<longleftrightarrow> S u v d) \<Longrightarrow> adds_edges S g g'"
  by (simp add: adds_edges_def)

lemma adds_edges_refl: "(\<And>u v d. \<not> R u v d) \<Longrightarrow> adds_edges R g g"
  by (simp add: adds_edges_def)

lemma adds_edges_trans:
  "adds_edges R g g1 \<Longrightarrow> adds_edges S g1 g2 \<Longrightarrow> adds_edges (\<lambda>u v d. R u v d \<or> S u v d) g g2"
  by (simp add: adds_edges_def)

lemma adds_edges_addEdge: "adds_edges (\<lambda>u v d. u = a \<and> v = b \<and> d = c) g (addEdge a b c g)"
  by (simp add: adds_edges_def has_edge_addEdge addEdge_inv)

lemma adds_edges_fold:
  "(\<And>x g. x \<in> set xs \<Longrightarrow> adds_edges (R x) g (f x g)) \<Longrightarrow>
    adds_edges (\<lambda>u v d. \<exists>x \<in> set xs. R x u v d) g (fold f xs g)"
proof (induction xs arbitrary: g)
  case Nil
  then show ?case by (simp add: adds_edges_refl)
next
  case (Cons x xs)
  have "adds_edges (R x) g (f x g)" using Cons.prems by simp
  moreover have "adds_edges (\<lambda>u v d. \<exists>x \<in> set xs. R x u v d) (f x g) (fold f xs (f x g))"
    using Cons by simp
  ultimately show ?case by (auto intro: adds_edges_cong [OF adds_edges_trans])
qed

lemma adds_edges_ofold:
  "(\<And>x g. x \<in> set xs \<Longrightarrow> \<exists>g'. f g x = Ok g' \<and> adds_edges (R x) g g') \<Longrightarrow>
    \<exists>g'. ofold f xs g = Ok g' \<and> adds_edges (\<lambda>u v d. \<exists>x \<in> set xs. R x u v d) g g'"
proof (induction xs arbitrary: g)
  case Nil
  then show ?case by (simp add: adds_edges_refl)
next
  case (Cons x xs)
  obtain g1 where g1: "f g x = Ok g1" "adds_edges (R x) g g1" using Cons.prems [of x g] by auto
  have "\<exists>g'. ofold f xs g1 = Ok g' \<and> adds_edges (\<lambda>u v d. \<exists>x \<in> set xs. R x u v d) g1 g'"
    by (rule Cons.IH) (simp add: Cons.prems)
  then obtain g2 where "ofold f xs g1 = Ok g2" "adds_edges (\<lambda>u v d. \<exists>x \<in> set xs. R x u v d) g1 g2" by blast
  with g1 show ?case by (auto intro: adds_edges_cong [OF adds_edges_trans])
qed

section \<open>The interface to the graph algorithms\<close>

text \<open>The successors of a node in an adjacency map, and the edge relation.\<close>

definition targets :: "edge_map \<Rightarrow> Inst \<Rightarrow> Inst list" where
  "targets m i = map ev (edges_at m i)"

definition dep :: "edge_map \<Rightarrow> (Inst \<times> Inst) set" where
  "dep m = {(u, v). v \<in> set (targets m u)}"

text \<open>What the graph algorithms rely on: the second map holds the edges of the first, reversed.\<close>

locale rev_graph =
  fixes fwd :: edge_map and bwd :: edge_map
  assumes converse: "u \<in> set (targets bwd v) \<longleftrightarrow> v \<in> set (targets fwd u)"
begin

lemma bwd_dep: "dep bwd = (dep fwd)\<inverse>"
  by (auto simp: dep_def converse)

end

lemma adj_targets:
  assumes "adj_inv m"
  shows "v \<in> set (targets m u) \<longleftrightarrow> (\<exists>d. mk_edge u v d \<in> set (edges_at m u))"
proof
  assume "v \<in> set (targets m u)"
  then obtain e where e: "e \<in> set (edges_at m u)" "v = ev e" by (auto simp: targets_def)
  then have "mk_edge u v (dtype e) = e"
    using assms mk_edge_collapse [of e] by (auto simp: adj_inv_def)
  with e(1) show "\<exists>d. mk_edge u v d \<in> set (edges_at m u)" by metis
next
  assume "\<exists>d. mk_edge u v d \<in> set (edges_at m u)"
  then obtain d where "mk_edge u v d \<in> set (edges_at m u)" ..
  then have "ev (mk_edge u v d) \<in> set (targets m u)" unfolding targets_def by (metis image_eqI set_map)
  then show "v \<in> set (targets m u)" by simp
qed

lemma dep_has_edge: "graph_inv g \<Longrightarrow> (u, v) \<in> dep (pdg g) \<longleftrightarrow> (\<exists>d. has_edge g u v d)"
  by (simp add: graph_inv_def dep_def adj_targets has_edge_def)

lemma graph_inv_converse:
  "graph_inv g \<Longrightarrow> u \<in> set (targets (rev_graph_of g) v) \<longleftrightarrow> v \<in> set (targets (pdg g) u)"
  by (simp add: graph_inv_def adj_targets has_edge_def)

text \<open>Every graph that \<open>addEdge\<close> builds provides the interface.\<close>

interpretation built: rev_graph "pdg (add_edges es empty_graph)" "rev_graph_of (add_edges es empty_graph)"
  for es
  by unfold_locales (rule graph_inv_converse [OF add_edges_inv [OF empty_graph_inv]])

lemma graph_inv_rev_graph: "graph_inv g \<Longrightarrow> rev_graph (pdg g) (rev_graph_of g)"
  by unfold_locales (rule graph_inv_converse)

end
