(* ===== verification/Utils.thy ===== *)
theory Utils
  imports LLVM_IR
begin

text \<open>
  \<^verbatim>\<open>Utils.h\<close> and \<^verbatim>\<open>Utils.cpp\<close>: the decimal notation of an \<open>int\<close>, the source of fresh names, and the
  replacement of the operands of an instruction. \<open>error\<close>, which prints its message and calls \<open>exit(1)\<close>, is
  the outcome \<open>Exit\<close> of the prelude.
\<close>

section \<open>Decimal notation\<close>

text \<open>What \<open>ostream << int\<close> writes: the decimal digits, after a minus sign when negative.\<close>

definition digit :: "nat \<Rightarrow> char" where
  "digit d = char_of (48 + d)"

fun decimal :: "nat \<Rightarrow> string" where
  "decimal n = (if n < 10 then [digit n] else decimal (n div 10) @ [digit (n mod 10)])"

definition itoa :: "int \<Rightarrow> string" where
  "itoa i = (if i < 0 then CHR ''-'' # decimal (nat (- i)) else decimal (nat i))"

declare decimal.simps [simp del]

definition digit_value :: "char \<Rightarrow> nat" where
  "digit_value c = of_char c - 48"

definition undecimal :: "string \<Rightarrow> nat" where
  "undecimal cs = foldl (\<lambda>n c. 10 * n + digit_value c) 0 cs"

definition atoi :: "string \<Rightarrow> int" where
  "atoi cs = (case cs of [] \<Rightarrow> 0
    | c # ds \<Rightarrow> if c = CHR ''-'' then - int (undecimal ds) else int (undecimal cs))"

lemma digit_value_digit: "d < 10 \<Longrightarrow> digit_value (digit d) = d"
  by (simp add: digit_value_def digit_def)

lemma digit_code: "d < 10 \<Longrightarrow> (of_char (digit d) :: nat) = 48 + d"
  by (simp add: digit_def)

lemma undecimal_decimal: "undecimal (decimal n) = n"
proof (induction n rule: decimal.induct)
  case (1 n)
  show ?case
  proof (cases "n < 10")
    case True
    then show ?thesis by (simp add: decimal.simps [of n] undecimal_def digit_value_digit)
  next
    case False
    have "undecimal (decimal n) = 10 * undecimal (decimal (n div 10)) + digit_value (digit (n mod 10))"
      using False by (simp add: decimal.simps [of n] undecimal_def)
    also have "\<dots> = 10 * (n div 10) + n mod 10" using 1 False by (simp add: digit_value_digit)
    finally show ?thesis by simp
  qed
qed

text \<open>Every character is a digit, so a sign or a letter delimits a number.\<close>

definition is_digit :: "char \<Rightarrow> bool" where
  "is_digit c \<longleftrightarrow> 48 \<le> (of_char c :: nat) \<and> (of_char c :: nat) < 58"

lemma decimal_digits: "\<forall>c \<in> set (decimal n). is_digit c"
proof (induction n rule: decimal.induct)
  case (1 n)
  then show ?case by (subst decimal.simps) (auto simp: is_digit_def digit_code)
qed

lemma decimal_nonempty: "decimal n \<noteq> []"
  by (subst decimal.simps) simp

lemma atoi_itoa: "atoi (itoa i) = i"
proof (cases "i < 0")
  case True
  then show ?thesis by (simp add: atoi_def itoa_def undecimal_decimal)
next
  case False
  obtain c ds where c: "decimal (nat i) = c # ds" using decimal_nonempty by (cases "decimal (nat i)") auto
  then have "is_digit c" using decimal_digits [of "nat i"] by simp
  then have "c \<noteq> CHR ''-''" by (auto simp: is_digit_def)
  then show ?thesis
    using False c undecimal_decimal [of "nat i"] by (simp add: atoi_def itoa_def)
qed

lemma itoa_inject [simp]: "itoa i = itoa j \<longleftrightarrow> i = j"
  using atoi_itoa by metis

section \<open>Fresh names\<close>

text \<open>\<open>genId\<close> with the static counter \<open>id\<close>.\<close>

definition genId :: "int \<Rightarrow> string \<times> int" where
  "genId next = (''t'' @ itoa next, next + 1)"

fun gen_ids :: "nat \<Rightarrow> int \<Rightarrow> string list \<times> int" where
  "gen_ids 0 k = ([], k)"
| "gen_ids (Suc n) k = (let (x, k1) = genId k; (xs, k2) = gen_ids n k1 in (x # xs, k2))"

lemma gen_ids_range: "fst (gen_ids n k) = map (\<lambda>j. ''t'' @ itoa (k + int j)) [0..<n] \<and> snd (gen_ids n k) = k + int n"
proof (induction n arbitrary: k)
  case (Suc n)
  have "map (\<lambda>j. ''t'' @ itoa (k + 1 + int j)) [0..<n] = map (\<lambda>j. ''t'' @ itoa (k + int j)) [Suc 0..<Suc n]"
    by (simp add: map_Suc_upt [symmetric] o_def add.commute add.left_commute del: upt_Suc)
  then show ?case using Suc [of "k + 1"] by (simp add: genId_def split_beta Let_def upt_conv_Cons del: upt_Suc)
qed simp

section \<open>Replacement of operands\<close>

text \<open>
  Both versions of \<open>replaceUses\<close>: the operands of a PHI node are its incoming values. The map is a copy,
  so the defaults its subscript inserts are lost; a missing or null entry leaves the operand.
\<close>

definition replaceUses :: "(Value \<Rightarrow> Value option) \<Rightarrow> instr \<Rightarrow> instr" where
  "replaceUses repMap user =
     user\<lparr>operands := map (\<lambda>op. case repMap op of Some newArg \<Rightarrow> newArg | None \<Rightarrow> op) (operands user)\<rparr>"

lemma replaceUses_operands:
  "j < length (operands user) \<Longrightarrow>
    operands (replaceUses m user) ! j = (case m (operands user ! j) of Some v \<Rightarrow> v | None \<Rightarrow> operands user ! j)"
  by (simp add: replaceUses_def)

lemma replaceUses_frame:
  "opcode (replaceUses m user) = opcode user" "ity (replaceUses m user) = ity user"
  "succs (replaceUses m user) = succs user" "incoming (replaceUses m user) = incoming user"
  "length (operands (replaceUses m user)) = length (operands user)"
  by (simp_all add: replaceUses_def)

text \<open>
  The names \<open>genId\<close> hands out in one compilation are pairwise different: however many are drawn,
  from whatever value of the counter.
\<close>

theorem genId_fresh: "distinct (fst (gen_ids n k)) \<and> length (fst (gen_ids n k)) = n"
  using gen_ids_range [of n k] by (simp add: distinct_map inj_on_def)

text \<open>
  The number that \<open>itoa\<close> writes into a name or a message can be read back, for every \<open>int\<close>, negative ones
  included.
\<close>

theorem itoa_roundtrip: "atoi (itoa i) = i \<and> (itoa i = itoa j \<longleftrightarrow> i = j)"
  by (simp add: atoi_itoa)

end
