(* ===== verification/PDG_Data.thy ===== *)
theory PDG_Data
  imports Dep_Graph Utils
begin

text \<open>
  The first half of \<open>buildPDG\<close> in \<^verbatim>\<open>DSWP_1.cpp\<close>: the names of the instructions and the empty entries of the
  graph, then for every instruction of the loop its register dependences (from LLVM's use lists) and its
  memory dependences. LLVM's memory dependence and alias analyses are not part of the repository: their
  answers are the parameter \<open>A\<close> of the definitions. The call of \<open>error\<close> for an instruction whose location is
  not known is the outcome \<open>Exit\<close>.
\<close>

section \<open>What the analyses answer\<close>

text \<open>The states of \<open>MemDepResult\<close>; \<open>getInst\<close> is the null pointer but for the first two.\<close>

datatype MemDepResult = Def Inst | Clobber Inst | NonLocal | NonFuncLocal | Unknown

fun getInst :: "MemDepResult \<Rightarrow> Inst option" where
  "getInst (Def i) = Some i"
| "getInst (Clobber i) = Some i"
| "getInst r = None"

record 'l analyses =
  mayReadOrWriteMemory :: "Inst \<Rightarrow> bool"
  getDependency :: "Inst \<Rightarrow> MemDepResult"
  getNonLocalCallDependency :: "Inst \<Rightarrow> MemDepResult list"
  getLocation :: "Inst \<Rightarrow> 'l"
  getNonLocalPointerDependency :: "'l \<Rightarrow> bool \<Rightarrow> BB \<Rightarrow> MemDepResult list"

section \<open>Names and empty entries\<close>

record pdg_init =
  graph :: dep_graph
  dname :: "Inst \<Rightarrow> string"
  uid :: int

text \<open>\<open>pdg[inst]\<close> as a statement: an entry exists from now on.\<close>

definition touch :: "Inst \<Rightarrow> edge_map \<Rightarrow> edge_map" where
  "touch i m = fmupd i (edges_at m i) m"

text \<open>
  \<open>setName\<close> is LLVM's, which makes a name unique in its function: \<open>set_name i n\<close> is the name that the
  instruction then has.
\<close>

definition init_inst :: "func_ir \<Rightarrow> (Inst \<Rightarrow> string \<Rightarrow> string) \<Rightarrow> Inst \<Rightarrow> pdg_init \<Rightarrow> pdg_init" where
  "init_inst F set_name i st =
     (let (name, uid') = genId (uid st);
          name' = (if ity (code F i) = VoidTy then name else set_name i name);
          g = graph st in
      st\<lparr>uid := uid', dname := (dname st)(i := name'),
         graph := g\<lparr>pdg := touch i (pdg g), rev_graph_of := touch i (rev_graph_of g)\<rparr>\<rparr>)"

definition init_pdg :: "func_ir \<Rightarrow> loop_ir \<Rightarrow> (Inst \<Rightarrow> string \<Rightarrow> string) \<Rightarrow> pdg_init \<Rightarrow> pdg_init" where
  "init_pdg F L set_name st = fold (init_inst F set_name) (loop_insts F L) st"

section \<open>Register dependences\<close>

definition reg_dep :: "func_ir \<Rightarrow> loop_ir \<Rightarrow> Inst \<Rightarrow> Value \<Rightarrow> dep_graph \<Rightarrow> dep_graph" where
  "reg_dep F L inst use g =
     (case use of VInst user \<Rightarrow> if contains_inst F L user then addEdge inst user REG g else g | _ \<Rightarrow> g)"

definition reg_deps :: "func_ir \<Rightarrow> loop_ir \<Rightarrow> Inst \<Rightarrow> dep_graph \<Rightarrow> dep_graph" where
  "reg_deps F L inst g = fold (reg_dep F L inst) (uses F inst) g"

section \<open>Memory dependences\<close>

text \<open>The kinds of the edges added when the answer is a definition, in the order of the tests.\<close>

definition def_kinds :: "Opcode \<Rightarrow> Opcode \<Rightarrow> DType list" where
  "def_kinds c c_dep =
     (if c = Load then (if c_dep = Store then [DTRUE] else []) @ (if c_dep = Alloca then [DTRUE] else []) else []) @
     (if c = Store then (if c_dep = Load then [DANTI] else []) @ (if c_dep = Store then [DOUT] else []) @
        (if c_dep = Alloca then [DOUT] else []) else [])"

definition local_dep :: "func_ir \<Rightarrow> 'l analyses \<Rightarrow> Inst \<Rightarrow> dep_graph \<Rightarrow> dep_graph" where
  "local_dep F A inst g =
     (case getDependency A inst of
        Def d \<Rightarrow> fold (addEdge d inst) (def_kinds (opcode_of F inst) (opcode_of F d)) g
      | Clobber d \<Rightarrow> addEdge d inst DANTI g
      | _ \<Rightarrow> g)"

text \<open>One entry of the answers for a non-local dependence.\<close>

definition entry_dep :: "func_ir \<Rightarrow> loop_ir \<Rightarrow> Inst \<Rightarrow> MemDepResult \<Rightarrow> dep_graph \<Rightarrow> dep_graph" where
  "entry_dep F L inst r g =
     (case getInst r of None \<Rightarrow> g
      | Some d \<Rightarrow> if \<not> contains_inst F L d then g else addEdge d inst DANTI g)"

text \<open>The location of the access and whether it is a load; \<open>error\<close> for any other instruction.\<close>

definition mem_loc :: "func_ir \<Rightarrow> 'l analyses \<Rightarrow> Inst \<Rightarrow> ('l \<times> bool) outcome" where
  "mem_loc F A inst =
     (if opcode_of F inst = Load then Ok (getLocation A inst, True)
      else if opcode_of F inst = Store then Ok (getLocation A inst, False)
      else if opcode_of F inst = VAArg then Ok (getLocation A inst, True)
      else Exit ''aaaah exploding'')"

definition nonlocal_dep :: "func_ir \<Rightarrow> loop_ir \<Rightarrow> 'l analyses \<Rightarrow> Inst \<Rightarrow> dep_graph \<Rightarrow> dep_graph outcome" where
  "nonlocal_dep F L A inst g =
     (if getDependency A inst \<noteq> NonLocal then Ok g
      else if opcode_of F inst = Call
      then Ok (fold (entry_dep F L inst) (getNonLocalCallDependency A inst) g)
      else obind (mem_loc F A inst) (\<lambda>(loc, is_load).
        Ok (fold (entry_dep F L inst) (getNonLocalPointerDependency A loc is_load (parent F inst)) g)))"

text \<open>The body of the loop over the instructions, and the loop.\<close>

definition inst_deps :: "func_ir \<Rightarrow> loop_ir \<Rightarrow> 'l analyses \<Rightarrow> dep_graph \<Rightarrow> Inst \<Rightarrow> dep_graph outcome" where
  "inst_deps F L A g inst =
     (let g1 = reg_deps F L inst g in
      if \<not> mayReadOrWriteMemory A inst then Ok g1
      else nonlocal_dep F L A inst (local_dep F A inst g1))"

definition data_deps :: "func_ir \<Rightarrow> loop_ir \<Rightarrow> 'l analyses \<Rightarrow> dep_graph \<Rightarrow> dep_graph outcome" where
  "data_deps F L A g = ofold (inst_deps F L A) (loop_insts F L) g"

section \<open>The dependences, declaratively\<close>

definition reg_rel :: "func_ir \<Rightarrow> loop_ir \<Rightarrow> Inst \<Rightarrow> Inst \<Rightarrow> bool" where
  "reg_rel F L u v \<longleftrightarrow> VInst v \<in> set (uses F u) \<and> contains_inst F L v"

text \<open>The answers about the instruction \<open>v\<close> that are consulted.\<close>

definition entries :: "func_ir \<Rightarrow> 'l analyses \<Rightarrow> Inst \<Rightarrow> MemDepResult list" where
  "entries F A v =
     (if getDependency A v \<noteq> NonLocal then []
      else if opcode_of F v = Call then getNonLocalCallDependency A v
      else getNonLocalPointerDependency A (getLocation A v) (opcode_of F v \<noteq> Store) (parent F v))"

text \<open>
  What a definition means for the access that follows: read after write or after allocation is a true
  dependence, write after read an anti-dependence, write after write or after allocation an output dependence.
\<close>

definition def_table :: "(Opcode \<times> Opcode \<times> DType) set" where
  "def_table = {(Load, Store, DTRUE), (Load, Alloca, DTRUE), (Store, Load, DANTI), (Store, Store, DOUT),
     (Store, Alloca, DOUT)}"

lemma def_kinds_table: "d \<in> set (def_kinds c c') \<longleftrightarrow> (c, c', d) \<in> def_table"
  by (auto simp: def_kinds_def def_table_def)

definition mem_rel :: "func_ir \<Rightarrow> loop_ir \<Rightarrow> 'l analyses \<Rightarrow> Inst \<Rightarrow> Inst \<Rightarrow> DType \<Rightarrow> bool" where
  "mem_rel F L A u v d \<longleftrightarrow> mayReadOrWriteMemory A v \<and>
     (getDependency A v = Def u \<and> (opcode_of F v, opcode_of F u, d) \<in> def_table \<or>
      getDependency A v = Clobber u \<and> d = DANTI \<or>
      contains_inst F L u \<and> (\<exists>r \<in> set (entries F A v). getInst r = Some u) \<and> d = DANTI)"

definition data_rel :: "func_ir \<Rightarrow> loop_ir \<Rightarrow> 'l analyses \<Rightarrow> Inst \<Rightarrow> Inst \<Rightarrow> Inst \<Rightarrow> DType \<Rightarrow> bool" where
  "data_rel F L A i u v d \<longleftrightarrow> u = i \<and> d = REG \<and> reg_rel F L u v \<or> v = i \<and> mem_rel F L A u v d"

text \<open>The instruction for which the code gives up.\<close>

definition unknown_location :: "func_ir \<Rightarrow> 'l analyses \<Rightarrow> Inst \<Rightarrow> bool" where
  "unknown_location F A i \<longleftrightarrow> mayReadOrWriteMemory A i \<and> getDependency A i = NonLocal \<and>
     opcode_of F i \<notin> {Call, Load, Store, VAArg}"

section \<open>The graph that is built\<close>

lemma reg_deps_adds: "adds_edges (\<lambda>u v d. u = i \<and> d = REG \<and> reg_rel F L u v) g (reg_deps F L i g)"
proof -
  have "adds_edges (\<lambda>u v d. u = i \<and> d = REG \<and> x = VInst v \<and> contains_inst F L v) g (reg_dep F L i x g)" for x g
    by (cases x) (auto simp: reg_dep_def intro: adds_edges_refl adds_edges_cong [OF adds_edges_addEdge])
  then have "adds_edges (\<lambda>u v d. \<exists>x \<in> set (uses F i). u = i \<and> d = REG \<and> x = VInst v \<and> contains_inst F L v) g
      (reg_deps F L i g)"
    unfolding reg_deps_def by (rule adds_edges_fold)
  then show ?thesis by (rule adds_edges_cong) (auto simp: reg_rel_def)
qed

lemma local_dep_adds:
  "adds_edges (\<lambda>u v d. v = i \<and> (getDependency A v = Def u \<and> (opcode_of F v, opcode_of F u, d) \<in> def_table \<or>
     getDependency A v = Clobber u \<and> d = DANTI)) g (local_dep F A i g)"
proof (cases "getDependency A i")
  case (Def a)
  have "adds_edges (\<lambda>u v d. \<exists>c \<in> set (def_kinds (opcode_of F i) (opcode_of F a)). u = a \<and> v = i \<and> d = c) g (local_dep F A i g)"
    unfolding local_dep_def Def MemDepResult.case by (rule adds_edges_fold) (rule adds_edges_addEdge)
  then show ?thesis by (rule adds_edges_cong) (auto simp: Def def_kinds_table)
next
  case (Clobber a)
  have "adds_edges (\<lambda>u v d. u = a \<and> v = i \<and> d = DANTI) g (local_dep F A i g)"
    unfolding local_dep_def Clobber MemDepResult.case by (rule adds_edges_addEdge)
  then show ?thesis by (rule adds_edges_cong) (auto simp: Clobber)
qed (auto simp: local_dep_def intro: adds_edges_refl)

lemma entry_deps_adds:
  "adds_edges (\<lambda>u v d. v = i \<and> d = DANTI \<and> contains_inst F L u \<and> (\<exists>r \<in> set rs. getInst r = Some u)) g
    (fold (entry_dep F L i) rs g)"
proof -
  have "adds_edges (\<lambda>u v d. v = i \<and> d = DANTI \<and> contains_inst F L u \<and> getInst r = Some u) g (entry_dep F L i r g)" for r g
    by (cases "getInst r") (auto simp: entry_dep_def intro: adds_edges_refl adds_edges_cong [OF adds_edges_addEdge])
  then have "adds_edges (\<lambda>u v d. \<exists>r \<in> set rs. v = i \<and> d = DANTI \<and> contains_inst F L u \<and> getInst r = Some u) g
      (fold (entry_dep F L i) rs g)"
    by (rule adds_edges_fold)
  then show ?thesis by (rule adds_edges_cong) auto
qed

lemma nonlocal_dep_ok:
  assumes "\<not> (getDependency A i = NonLocal \<and> opcode_of F i \<notin> {Call, Load, Store, VAArg})"
  shows "nonlocal_dep F L A i g = Ok (fold (entry_dep F L i) (entries F A i) g)"
  using assms by (auto simp: nonlocal_dep_def entries_def mem_loc_def)

lemma inst_deps_ok:
  assumes "\<not> unknown_location F A i"
  shows "\<exists>g'. inst_deps F L A g i = Ok g' \<and> adds_edges (data_rel F L A i) g g'"
proof (cases "mayReadOrWriteMemory A i")
  case True
  let ?g = "fold (entry_dep F L i) (entries F A i) (local_dep F A i (reg_deps F L i g))"
  have "inst_deps F L A g i = Ok ?g"
    using True assms nonlocal_dep_ok [of A i F] by (simp add: inst_deps_def unknown_location_def Let_def)
  moreover have "adds_edges (data_rel F L A i) g ?g"
    by (rule adds_edges_cong [OF adds_edges_trans [OF reg_deps_adds adds_edges_trans [OF local_dep_adds entry_deps_adds]]])
      (use True in \<open>auto simp: data_rel_def mem_rel_def\<close>)
  ultimately show ?thesis by blast
next
  case False
  have "adds_edges (data_rel F L A i) g (reg_deps F L i g)"
    by (rule adds_edges_cong [OF reg_deps_adds]) (use False in \<open>auto simp: data_rel_def mem_rel_def\<close>)
  then show ?thesis using False by (simp add: inst_deps_def Let_def)
qed

lemma inst_deps_error: "unknown_location F A i \<Longrightarrow> inst_deps F L A g i = Exit ''aaaah exploding''"
  by (auto simp: inst_deps_def nonlocal_dep_def mem_loc_def unknown_location_def Let_def)

lemma data_deps_ok:
  assumes "\<forall>i \<in> set (loop_insts F L). \<not> unknown_location F A i"
  shows "\<exists>g'. data_deps F L A g = Ok g' \<and>
    adds_edges (\<lambda>u v d. \<exists>i \<in> set (loop_insts F L). data_rel F L A i u v d) g g'"
  unfolding data_deps_def by (rule adds_edges_ofold) (use assms inst_deps_ok in blast)

lemma data_deps_error:
  "\<exists>i \<in> set is. unknown_location F A i \<Longrightarrow> ofold (inst_deps F L A) is g = Exit ''aaaah exploding''"
proof (induction "is" arbitrary: g)
  case (Cons i "is")
  show ?case
  proof (cases "unknown_location F A i")
    case True
    then show ?thesis by (simp add: inst_deps_error)
  next
    case False
    then obtain g1 where "inst_deps F L A g i = Ok g1" using inst_deps_ok by blast
    then show ?thesis using Cons False by simp
  qed
qed simp

section \<open>The initialization\<close>

lemma edges_at_touch [simp]: "edges_at (touch i m) j = edges_at m j"
  by (simp add: touch_def edges_at_def)

lemma graph_inv_touch:
  "graph_inv (g\<lparr>pdg := touch i (pdg g), rev_graph_of := touch i (rev_graph_of g)\<rparr>) = graph_inv g"
  by (simp add: graph_inv_def adj_inv_def has_edge_def)

lemma init_inst_graph:
  "graph_inv (graph (init_inst F sn i st)) = graph_inv (graph st)"
  "has_edge (graph (init_inst F sn i st)) u v d = has_edge (graph st) u v d"
  by (simp_all add: init_inst_def Let_def split_beta graph_inv_touch) (simp add: has_edge_def)

lemma init_pdg_graph:
  "graph_inv (graph (init_pdg F L sn st)) = graph_inv (graph st) \<and>
    has_edge (graph (init_pdg F L sn st)) u v d = has_edge (graph st) u v d"
proof -
  have "graph_inv (graph (fold (init_inst F sn) is st)) = graph_inv (graph st) \<and>
      has_edge (graph (fold (init_inst F sn) is st)) u v d = has_edge (graph st) u v d" for "is"
    by (induction "is" arbitrary: st) (simp_all add: init_inst_graph)
  then show ?thesis by (simp add: init_pdg_def)
qed

text \<open>The names of the debug output: the counter's, or what LLVM made of them.\<close>

lemma init_names:
  assumes "distinct is"
  shows "uid (fold (init_inst F sn) is st) = uid st + int (length is) \<and>
    (\<forall>k < length is. dname (fold (init_inst F sn) is st) (is ! k) =
      (let n = ''t'' @ itoa (uid st + int k) in if ity (code F (is ! k)) = VoidTy then n else sn (is ! k) n)) \<and>
    (\<forall>i. i \<notin> set is \<longrightarrow> dname (fold (init_inst F sn) is st) i = dname st i)"
  using assms
proof (induction "is" arbitrary: st)
  case (Cons i "is")
  let ?st = "init_inst F sn i st"
  have f: "uid ?st = uid st + 1"
    "dname ?st = (dname st)(i := (let n = ''t'' @ itoa (uid st) in if ity (code F i) = VoidTy then n else sn i n))"
    by (simp_all add: init_inst_def genId_def Let_def)
  have IH: "uid (fold (init_inst F sn) is ?st) = uid ?st + int (length is)"
    "\<forall>k < length is. dname (fold (init_inst F sn) is ?st) (is ! k) =
      (let n = ''t'' @ itoa (uid ?st + int k) in if ity (code F (is ! k)) = VoidTy then n else sn (is ! k) n)"
    "\<forall>i. i \<notin> set is \<longrightarrow> dname (fold (init_inst F sn) is ?st) i = dname ?st i"
    using Cons.IH [of ?st] Cons.prems by simp_all
  have "dname (fold (init_inst F sn) is ?st) ((i # is) ! k) =
      (let n = ''t'' @ itoa (uid st + int k) in
       if ity (code F ((i # is) ! k)) = VoidTy then n else sn ((i # is) ! k) n)" if "k < length (i # is)" for k
  proof (cases k)
    case 0
    show ?thesis using IH(3) f(2) Cons.prems unfolding 0 by (simp add: Let_def)
  next
    case (Suc j)
    have "dname (fold (init_inst F sn) is ?st) (is ! j) =
        (let n = ''t'' @ itoa (uid ?st + int j) in if ity (code F (is ! j)) = VoidTy then n else sn (is ! j) n)"
      using IH(2) that Suc by simp
    then show ?thesis unfolding Suc f(1) by (simp add: add.commute add.left_commute Let_def)
  qed
  then show ?case using IH(1,3) f by simp
qed simp

end
