(* ===== verification/SCC_Search.thy ===== *)
theory SCC_Search
  imports Dep_Graph
begin

text \<open>
  \<^verbatim>\<open>DSWP_2.cpp\<close>: the strongly connected components of the dependence graph by two depth-first searches,
  and the graph of the components. The state is the fields of the pass the two searches write; a
  \<open>std::map\<close> that is only read through \<open>operator[]\<close> is a function with the default value.
  The recursion of both searches stops because every call marks an unvisited node of the finite map;
  no fuel is needed. This theory has the definitions and the facts about each search alone; theory
  \<open>SCC_Correct\<close> has the correctness of their combination.
\<close>

section \<open>State\<close>

record scc_state =
  used :: "Inst \<Rightarrow> bool"
  order :: "Inst list"
  sccNum :: nat
  sccId :: "Inst \<Rightarrow> nat"
  InstInSCC :: "Inst list list"
  scc_dependents :: "nat \<Rightarrow> nat list"
  scc_parents :: "nat \<Rightarrow> nat list"
  dag_added :: "nat \<times> nat \<Rightarrow> bool"

text \<open>The fields as \<open>clear\<close> leaves them.\<close>

definition scc_clear :: scc_state where
  "scc_clear = \<lparr>used = (\<lambda>_. False), order = [], sccNum = 0, sccId = (\<lambda>_. 0), InstInSCC = [],
     scc_dependents = (\<lambda>_. []), scc_parents = (\<lambda>_. []), dag_added = (\<lambda>_. False)\<rparr>"

definition mark :: "Inst \<Rightarrow> scc_state \<Rightarrow> scc_state" where
  "mark i s = s\<lparr>used := (used s)(i := True)\<rparr>"

section \<open>Termination measure\<close>

definition white :: "edge_map \<Rightarrow> scc_state \<Rightarrow> nat" where
  "white m s = card {i \<in> fmdom' m. \<not> used s i}"

lemma finite_white: "finite {i \<in> fmdom' m. \<not> used s i}"
  by simp

lemma white_antimono:
  "(\<And>i. used s i \<Longrightarrow> used s' i) \<Longrightarrow> white m s' \<le> white m s"
  unfolding white_def by (rule card_mono) auto

lemma white_mark_less:
  assumes "i \<in> fmdom' m" "\<not> used s i"
  shows "white m (mark i s) < white m s"
  unfolding white_def by (rule psubset_card_mono) (use assms in \<open>auto simp: mark_def\<close>)

lemma white_mark_le: "white m (mark i s) \<le> white m s"
  by (rule white_antimono) (simp add: mark_def)

section \<open>The forward search\<close>

function (sequential)
  dfs_forward :: "edge_map \<Rightarrow> Inst \<Rightarrow> scc_state \<Rightarrow> scc_state" and
  forward_edges :: "edge_map \<Rightarrow> Edge list \<Rightarrow> scc_state \<Rightarrow> scc_state"
where
  "dfs_forward m i s =
     (let s1 = forward_edges m (edges_at m i) (mark i s)
      in s1\<lparr>order := order s1 @ [i]\<rparr>)"
| "forward_edges m [] s = s"
| "forward_edges m (e # es) s =
     (if \<not> used s (ev e) then forward_edges m es (dfs_forward m (ev e) s)
      else forward_edges m es s)"
  by pat_completeness auto

lemma forward_used_mono:
  "dfs_forward_forward_edges_dom (Inl (m, i, s)) \<Longrightarrow> used s x \<Longrightarrow> used (dfs_forward m i s) x"
  "dfs_forward_forward_edges_dom (Inr (m, es, s)) \<Longrightarrow> used s x \<Longrightarrow> used (forward_edges m es s) x"
proof (induction rule: dfs_forward_forward_edges.pinduct)
  case (1 m i s)
  then show ?case by (simp add: dfs_forward.psimps Let_def mark_def)
next
  case (2 m s)
  then show ?case by (simp add: forward_edges.psimps)
next
  case (3 m e es s)
  then show ?case by (simp add: forward_edges.psimps)
qed

termination dfs_forward
proof (relation "measures [
    \<lambda>x. case x of Inl (m, i, s) \<Rightarrow> white m (mark i s) | Inr (m, es, s) \<Rightarrow> white m s,
    \<lambda>x. case x of Inl (m, i, s) \<Rightarrow> 2 * length (edges_at m i) + 1 | Inr (m, es, s) \<Rightarrow> 2 * length es]",
    goal_cases)
  case (3 m e es s)
  then show ?case
  proof (cases "ev e \<in> fmdom' m")
    case True
    then show ?thesis using white_mark_less [OF True 3] by simp
  next
    case False
    then show ?thesis using white_mark_le [of m "ev e" s] by (simp add: edges_at_notin le_less)
  qed
next
  case (4 m e es s)
  then have "white m (dfs_forward m (ev e) s) \<le> white m s"
    by (intro white_antimono forward_used_mono(1))
  then show ?case by auto
qed auto

section \<open>The reverse search\<close>

text \<open>An edge to a node visited before: an edge of the graph of components, unless known.\<close>

definition dag_edge :: "Inst \<Rightarrow> scc_state \<Rightarrow> scc_state" where
  "dag_edge nxt s =
     (let u = sccId s nxt in
      if u = sccNum s then s
      else if \<not> dag_added s (u, sccNum s)
      then s\<lparr>scc_dependents := (scc_dependents s)(u := scc_dependents s u @ [sccNum s]),
             scc_parents := (scc_parents s)(sccNum s := scc_parents s (sccNum s) @ [u]),
             dag_added := (dag_added s)((u, sccNum s) := True)\<rparr>
      else s)"

text \<open>The end of \<open>dfs_reverse\<close>; the caller has pushed the vector \<open>InstInSCC[sccNum]\<close>.\<close>

definition assign_scc :: "Inst \<Rightarrow> scc_state \<Rightarrow> scc_state" where
  "assign_scc i s = s\<lparr>sccId := (sccId s)(i := sccNum s),
     InstInSCC := (InstInSCC s)[sccNum s := InstInSCC s ! sccNum s @ [i]]\<rparr>"

function (sequential)
  dfs_reverse :: "edge_map \<Rightarrow> Inst \<Rightarrow> scc_state \<Rightarrow> scc_state" and
  reverse_edges :: "edge_map \<Rightarrow> Edge list \<Rightarrow> scc_state \<Rightarrow> scc_state"
where
  "dfs_reverse m i s = assign_scc i (reverse_edges m (edges_at m i) (mark i s))"
| "reverse_edges m [] s = s"
| "reverse_edges m (e # es) s =
     (if \<not> used s (ev e) then reverse_edges m es (dfs_reverse m (ev e) s)
      else reverse_edges m es (dag_edge (ev e) s))"
  by pat_completeness auto

lemma dag_edge_frame [simp]:
  "used (dag_edge n s) = used s" "order (dag_edge n s) = order s" "sccNum (dag_edge n s) = sccNum s"
  "sccId (dag_edge n s) = sccId s" "InstInSCC (dag_edge n s) = InstInSCC s"
  by (simp_all add: dag_edge_def Let_def)

lemma assign_scc_fields [simp]:
  "used (assign_scc i s) = used s" "order (assign_scc i s) = order s"
  "sccNum (assign_scc i s) = sccNum s" "sccId (assign_scc i s) = (sccId s)(i := sccNum s)"
  "dag_added (assign_scc i s) = dag_added s" "scc_parents (assign_scc i s) = scc_parents s"
  "scc_dependents (assign_scc i s) = scc_dependents s"
  "InstInSCC (assign_scc i s) = (InstInSCC s)[sccNum s := InstInSCC s ! sccNum s @ [i]]"
  by (simp_all add: assign_scc_def)

lemma mark_fields [simp]:
  "used (mark i s) = (used s)(i := True)" "order (mark i s) = order s" "sccNum (mark i s) = sccNum s"
  "sccId (mark i s) = sccId s" "InstInSCC (mark i s) = InstInSCC s" "dag_added (mark i s) = dag_added s"
  "scc_parents (mark i s) = scc_parents s" "scc_dependents (mark i s) = scc_dependents s"
  by (simp_all add: mark_def)

lemma reverse_used_mono:
  "dfs_reverse_reverse_edges_dom (Inl (m, i, s)) \<Longrightarrow> used s x \<Longrightarrow> used (dfs_reverse m i s) x"
  "dfs_reverse_reverse_edges_dom (Inr (m, es, s)) \<Longrightarrow> used s x \<Longrightarrow> used (reverse_edges m es s) x"
proof (induction rule: dfs_reverse_reverse_edges.pinduct)
  case (1 m i s)
  then show ?case by (simp add: dfs_reverse.psimps)
next
  case (2 m s)
  then show ?case by (simp add: reverse_edges.psimps)
next
  case (3 m e es s)
  then show ?case by (simp add: reverse_edges.psimps)
qed

lemma white_cong: "used s' = used s \<Longrightarrow> white m s' = white m s"
  by (simp add: white_def)

termination dfs_reverse
proof (relation "measures [
    \<lambda>x. case x of Inl (m, i, s) \<Rightarrow> white m (mark i s) | Inr (m, es, s) \<Rightarrow> white m s,
    \<lambda>x. case x of Inl (m, i, s) \<Rightarrow> 2 * length (edges_at m i) + 1 | Inr (m, es, s) \<Rightarrow> 2 * length es]",
    goal_cases)
  case (3 m e es s)
  then show ?case
  proof (cases "ev e \<in> fmdom' m")
    case True
    then show ?thesis using white_mark_less [OF True 3] by simp
  next
    case False
    then show ?thesis using white_mark_le [of m "ev e" s] by (simp add: edges_at_notin le_less)
  qed
next
  case (4 m e es s)
  then have "white m (dfs_reverse m (ev e) s) \<le> white m s"
    by (intro white_antimono reverse_used_mono(1))
  then show ?case by auto
next
  case (5 m e es s)
  then show ?case using white_cong [of "dag_edge (ev e) s" s m] by simp
qed auto

declare dfs_forward.simps [simp del] dfs_reverse.simps [simp del]

section \<open>The driver\<close>

definition forward_visit :: "edge_map \<Rightarrow> Inst \<Rightarrow> scc_state \<Rightarrow> scc_state" where
  "forward_visit m i s = (if \<not> used s i then dfs_forward m i s else s)"

definition reverse_visit :: "edge_map \<Rightarrow> Inst \<Rightarrow> scc_state \<Rightarrow> scc_state" where
  "reverse_visit m i s =
     (if \<not> used s i
      then let s1 = dfs_reverse m i (s\<lparr>InstInSCC := InstInSCC s @ [[]]\<rparr>)
           in s1\<lparr>sccNum := sccNum s1 + 1\<rparr>
      else s)"

definition findSCC :: "edge_map \<Rightarrow> edge_map \<Rightarrow> Inst list \<Rightarrow> scc_state \<Rightarrow> scc_state" where
  "findSCC fwd bwd insts s =
     (let s1 = fold (forward_visit fwd) insts (s\<lparr>used := (\<lambda>_. False)\<rparr>);
          s2 = s1\<lparr>used := (\<lambda>_. False), dag_added := (\<lambda>_. False), sccNum := 0, InstInSCC := []\<rparr>
      in fold (reverse_visit bwd) (rev (order s1)) s2)"

end
