(* ===== verification/SCC_Forward.thy ===== *)
theory SCC_Forward
  imports SCC_Search
begin

text \<open>
  What the forward search of \<^verbatim>\<open>DSWP_2.cpp\<close> leaves in \<open>list\<close> (here \<open>order\<close>): every node it visits, once,
  in an order of finishing with the property the second search needs: for every listed node \<open>x\<close> and
  every node \<open>y\<close> that depends on \<open>x\<close>, some node of the component of \<open>x\<close> is listed at or after \<open>y\<close>.
\<close>

section \<open>What a search adds\<close>

text \<open>\<open>adds s s' N\<close>: the search visited and finished exactly the new nodes \<open>N\<close>.\<close>

definition adds :: "scc_state \<Rightarrow> scc_state \<Rightarrow> Inst list \<Rightarrow> bool" where
  "adds s s' N \<longleftrightarrow> order s' = order s @ N \<and> distinct N \<and>
     (\<forall>x. used s' x \<longleftrightarrow> used s x \<or> x \<in> set N) \<and> (\<forall>x \<in> set N. \<not> used s x)"

lemma adds_refl: "adds s s []"
  by (simp add: adds_def)

lemma adds_trans: "adds s s1 N1 \<Longrightarrow> adds s1 s2 N2 \<Longrightarrow> adds s s2 (N1 @ N2)"
  by (auto simp: adds_def)

lemma adds_finish:
  assumes "adds (mark i s) s1 N" "\<not> used s i"
  shows "adds s (s1\<lparr>order := order s1 @ [i]\<rparr>) (N @ [i])"
  using assms by (auto simp: adds_def split: if_splits)

lemma dep_edges: "e \<in> set (edges_at m i) \<Longrightarrow> (i, ev e) \<in> dep m"
  by (auto simp: dep_def targets_def)

lemma forward_adds:
  "\<not> used s i \<Longrightarrow> \<exists>N. adds s (dfs_forward m i s) (N @ [i]) \<and> (\<forall>n \<in> set N. (i, n) \<in> (dep m)\<^sup>*)"
  "\<exists>N. adds s (forward_edges m es s) N \<and> (\<forall>n \<in> set N. \<exists>e \<in> set es. (ev e, n) \<in> (dep m)\<^sup>*) \<and>
    (\<forall>e \<in> set es. used (forward_edges m es s) (ev e))"
proof (induction m i s and m es s rule: dfs_forward_forward_edges.induct)
  case (1 m i s)
  then obtain N where N: "adds (mark i s) (forward_edges m (edges_at m i) (mark i s)) N"
    "\<forall>n \<in> set N. \<exists>e \<in> set (edges_at m i). (ev e, n) \<in> (dep m)\<^sup>*"
    by blast
  then have "\<forall>n \<in> set N. (i, n) \<in> (dep m)\<^sup>*"
    by (meson converse_rtrancl_into_rtrancl dep_edges)
  with adds_finish [OF N(1) "1.prems"] show ?case
    by (auto simp: dfs_forward.simps Let_def)
next
  case (2 m s)
  then show ?case using adds_refl by auto
next
  case (3 m e es s)
  show ?case
  proof (cases "used s (ev e)")
    case True
    then obtain N where N: "adds s (forward_edges m es s) N"
      "\<forall>n \<in> set N. \<exists>e \<in> set es. (ev e, n) \<in> (dep m)\<^sup>*" "\<forall>e \<in> set es. used (forward_edges m es s) (ev e)"
      using "3.IH"(3) by blast
    then have "used (forward_edges m es s) (ev e)" using True by (simp add: adds_def)
    with N True show ?thesis by auto
  next
    case False
    let ?s1 = "dfs_forward m (ev e) s"
    obtain N1 where N1: "adds s ?s1 (N1 @ [ev e])" "\<forall>n \<in> set N1. (ev e, n) \<in> (dep m)\<^sup>*"
      using "3.IH"(1) False by blast
    obtain N2 where N2: "adds ?s1 (forward_edges m es ?s1) N2"
      "\<forall>n \<in> set N2. \<exists>e \<in> set es. (ev e, n) \<in> (dep m)\<^sup>*"
      "\<forall>e \<in> set es. used (forward_edges m es ?s1) (ev e)"
      using "3.IH"(2) False by blast
    have "used (forward_edges m es ?s1) (ev e)" using N1(1) N2(1) by (simp add: adds_def)
    moreover have "\<forall>n \<in> set ((N1 @ [ev e]) @ N2). \<exists>e \<in> set (e # es). (ev e, n) \<in> (dep m)\<^sup>*"
      using N1(2) N2(2) by auto
    ultimately show ?thesis
      using adds_trans [OF N1(1) N2(1)] N2(3) False
      by (intro exI [of _ "(N1 @ [ev e]) @ N2"]) auto
  qed
qed

section \<open>The order of finishing\<close>

text \<open>\<open>upto xs y z\<close>: \<open>y\<close> is listed at or before \<open>z\<close>.\<close>

definition upto :: "'a list \<Rightarrow> 'a \<Rightarrow> 'a \<Rightarrow> bool" where
  "upto xs y z \<longleftrightarrow> (\<exists>as bs. xs = as @ z # bs \<and> (y = z \<or> y \<in> set as))"

lemma upto_append: "upto xs y z \<Longrightarrow> upto (xs @ ys) y z"
  unfolding upto_def by (metis append_Cons append_assoc)

lemma upto_last: "y \<in> set (xs @ [z]) \<Longrightarrow> upto (xs @ [z]) y z"
  by (auto simp: upto_def)

lemma upto_mem: "upto xs y z \<Longrightarrow> y \<in> set xs \<and> z \<in> set xs"
  by (auto simp: upto_def)

lemma upto_split:
  assumes "upto xs r z" "xs = as @ r # bs" "distinct xs"
  shows "z = r \<or> z \<in> set bs"
proof -
  obtain cs ds where "xs = cs @ z # ds" "r = z \<or> r \<in> set cs" using assms(1) by (auto simp: upto_def)
  with assms(2,3) show ?thesis by (auto simp: append_eq_append_conv2 append_eq_Cons_conv Cons_eq_append_conv)
qed

text \<open>Visited and not yet finished: the nodes on the recursion stack.\<close>

definition gray :: "scc_state \<Rightarrow> Inst set" where
  "gray s = {x. used s x} - set (order s)"

definition avoid :: "edge_map \<Rightarrow> Inst set \<Rightarrow> (Inst \<times> Inst) set" where
  "avoid m G = {(a, b) \<in> dep m. a \<notin> G \<and> b \<notin> G}"

definition connected :: "edge_map \<Rightarrow> Inst \<Rightarrow> Inst \<Rightarrow> bool" where
  "connected m x y \<longleftrightarrow> (x, y) \<in> (dep m)\<^sup>* \<and> (y, x) \<in> (dep m)\<^sup>*"

definition order_inv :: "edge_map \<Rightarrow> scc_state \<Rightarrow> bool" where
  "order_inv m s \<longleftrightarrow> set (order s) \<subseteq> {x. used s x} \<and>
     (\<forall>x \<in> set (order s). \<forall>y. (x, y) \<in> dep m \<longrightarrow> used s y) \<and>
     (\<forall>x \<in> set (order s). \<forall>y. (x, y) \<in> (avoid m (gray s))\<^sup>* \<longrightarrow>
        (\<exists>z. connected m x z \<and> upto (order s) y z))"

lemma avoid_mono: "G \<subseteq> H \<Longrightarrow> (avoid m H)\<^sup>* \<subseteq> (avoid m G)\<^sup>*"
  by (rule rtrancl_mono) (auto simp: avoid_def)

lemma avoid_dep: "(avoid m G)\<^sup>* \<subseteq> (dep m)\<^sup>*"
  by (rule rtrancl_mono) (auto simp: avoid_def)

lemma avoid_empty: "avoid m {} = dep m"
  by (auto simp: avoid_def)

text \<open>A path that avoids \<open>G\<close> also avoids \<open>i\<close>, or passes through it.\<close>

lemma avoid_split:
  "(x, y) \<in> (avoid m G)\<^sup>* \<Longrightarrow>
    (x, y) \<in> (avoid m (insert i G))\<^sup>* \<or> (x, i) \<in> (avoid m G)\<^sup>* \<and> (i, y) \<in> (avoid m G)\<^sup>*"
proof (induction rule: rtrancl_induct)
  case base
  then show ?case by simp
next
  case (step y z)
  show ?case
  proof (cases "(x, y) \<in> (avoid m (insert i G))\<^sup>* \<and> y \<noteq> i \<and> z \<noteq> i")
    case True
    with step.hyps(2) have "(y, z) \<in> avoid m (insert i G)" by (auto simp: avoid_def)
    with True show ?thesis by (meson rtrancl.rtrancl_into_rtrancl)
  next
    case False
    then show ?thesis
      using step by (metis rtrancl.rtrancl_into_rtrancl rtrancl.rtrancl_refl)
  qed
qed

text \<open>Finished nodes lead to finished or gray nodes only.\<close>

lemma closed_path:
  assumes "order_inv m s" "(x, y) \<in> (avoid m (gray s))\<^sup>*" "x \<in> set (order s)"
  shows "y \<in> set (order s)"
  using assms(2,3)
proof (induction rule: rtrancl_induct)
  case (step y z)
  then have "used s z" "z \<notin> gray s"
    using assms(1) unfolding order_inv_def avoid_def by auto
  then show ?case by (simp add: gray_def)
qed

lemma order_inv_mark: "order_inv m s \<Longrightarrow> order_inv m (mark i s)"
  using avoid_mono [of "gray s" "gray (mark i s)" m]
  unfolding order_inv_def by (auto simp: gray_def subset_iff)

text \<open>The node \<open>i\<close> finishes after everything it leads to.\<close>

lemma order_finish:
  assumes inv: "order_inv m s" and new: "\<not> used s i" and add: "adds (mark i s) s1 N"
    and inv1: "order_inv m s1" and reach: "\<forall>n \<in> set N. (i, n) \<in> (dep m)\<^sup>*"
    and closed: "\<forall>y. (i, y) \<in> dep m \<longrightarrow> used s1 y"
  shows "order_inv m (s1\<lparr>order := order s1 @ [i]\<rparr>)"
proof -
  let ?s2 = "s1\<lparr>order := order s1 @ [i]\<rparr>"
  have o: "order s1 = order s @ N" "used s1 i" using add by (auto simp: adds_def)
  have notin: "i \<notin> set (order s1)"
    using add inv new by (auto simp: adds_def order_inv_def)
  have gray1: "gray s1 = insert i (gray s)" and gray2: "gray ?s2 = gray s"
    using add inv new notin by (auto simp: gray_def adds_def order_inv_def split: if_splits)
  have sub: "set (order ?s2) \<subseteq> {x. used ?s2 x}" using inv1 o by (auto simp: order_inv_def)
  have cl: "\<forall>x \<in> set (order ?s2). \<forall>y. (x, y) \<in> dep m \<longrightarrow> used ?s2 y"
    using inv1 closed by (auto simp: order_inv_def)
  have "\<exists>z. connected m x z \<and> upto (order ?s2) y z"
    if x: "x \<in> set (order ?s2)" and path: "(x, y) \<in> (avoid m (gray ?s2))\<^sup>*" for x y
  proof (cases "(x, y) \<in> (avoid m (gray s1))\<^sup>* \<and> x \<in> set (order s1)")
    case True
    then obtain z where "connected m x z" "upto (order s1) y z"
      using inv1 unfolding order_inv_def by blast
    then show ?thesis using upto_append by fastforce
  next
    case False
    then have thru: "(x, i) \<in> (avoid m (gray s))\<^sup>*" "(i, y) \<in> (avoid m (gray s))\<^sup>*"
      using avoid_split [of x y m "gray s" i] path x gray1 gray2 by auto
    have "x \<notin> set (order s)"
      using closed_path [OF inv thru(1)] inv new by (auto simp: order_inv_def)
    then have "(i, x) \<in> (dep m)\<^sup>*" using x o(1) reach by auto
    then have conn: "connected m x i" using thru(1) avoid_dep by (auto simp: connected_def)
    have "y \<in> set (order ?s2)"
      using thru(2)
    proof (induction rule: rtrancl_induct)
      case (step y z)
      then have "used s1 z" "z \<notin> gray ?s2"
        using cl gray2 by (auto simp: avoid_def)
      then show ?case by (simp add: gray_def)
    qed simp
    then have "upto (order ?s2) y i" using upto_last [of y "order s1" i] by simp
    with conn show ?thesis by blast
  qed
  with sub cl show ?thesis unfolding order_inv_def by blast
qed

lemma forward_order_inv:
  "\<not> used s i \<Longrightarrow> order_inv m s \<Longrightarrow> order_inv m (dfs_forward m i s)"
  "order_inv m s \<Longrightarrow> order_inv m (forward_edges m es s)"
proof (induction m i s and m es s rule: dfs_forward_forward_edges.induct)
  case (1 m i s)
  let ?s1 = "forward_edges m (edges_at m i) (mark i s)"
  obtain N where N: "adds (mark i s) ?s1 N"
    "\<forall>n \<in> set N. \<exists>e \<in> set (edges_at m i). (ev e, n) \<in> (dep m)\<^sup>*"
    "\<forall>e \<in> set (edges_at m i). used ?s1 (ev e)"
    using forward_adds(2) by blast
  have "\<forall>n \<in> set N. (i, n) \<in> (dep m)\<^sup>*"
    using N(2) by (meson converse_rtrancl_into_rtrancl dep_edges)
  moreover have "\<forall>y. (i, y) \<in> dep m \<longrightarrow> used ?s1 y"
    using N(3) by (auto simp: dep_def targets_def)
  ultimately show ?case
    using order_finish [OF "1.prems"(2,1) N(1)] "1.IH" order_inv_mark [OF "1.prems"(2)]
    by (simp add: dfs_forward.simps Let_def)
qed simp_all

text \<open>The driver visits every instruction of the loop.\<close>

lemma forward_visit_adds:
  "\<exists>N. adds s (forward_visit m i s) N \<and> used (forward_visit m i s) i \<and>
    (\<forall>n \<in> set N. (i, n) \<in> (dep m)\<^sup>*)"
proof (cases "used s i")
  case True
  then show ?thesis using adds_refl [of s] by (intro exI [of _ "[]"]) (simp add: forward_visit_def)
next
  case False
  then obtain N where N: "adds s (dfs_forward m i s) (N @ [i])" "\<forall>n \<in> set N. (i, n) \<in> (dep m)\<^sup>*"
    using forward_adds(1) by blast
  moreover have "used (dfs_forward m i s) i" using N(1) by (simp add: adds_def)
  ultimately show ?thesis
    using False by (intro exI [of _ "N @ [i]"]) (auto simp: forward_visit_def)
qed

lemma forward_visit_inv: "order_inv m s \<Longrightarrow> order_inv m (forward_visit m i s)"
  by (simp add: forward_visit_def forward_order_inv)

lemma forward_loop:
  "order_inv m s \<Longrightarrow> \<exists>N. adds s (fold (forward_visit m) is s) N \<and>
    order_inv m (fold (forward_visit m) is s) \<and> (\<forall>i \<in> set is. used (fold (forward_visit m) is s) i) \<and>
    (\<forall>n \<in> set N. \<exists>i \<in> set is. (i, n) \<in> (dep m)\<^sup>*)"
proof (induction "is" arbitrary: s)
  case Nil
  then show ?case using adds_refl by auto
next
  case (Cons i "is")
  let ?s1 = "forward_visit m i s"
  obtain N1 where N1: "adds s ?s1 N1" "used ?s1 i" "\<forall>n \<in> set N1. (i, n) \<in> (dep m)\<^sup>*"
    using forward_visit_adds by blast
  obtain N2 where N2: "adds ?s1 (fold (forward_visit m) is ?s1) N2"
    "order_inv m (fold (forward_visit m) is ?s1)"
    "\<forall>i \<in> set is. used (fold (forward_visit m) is ?s1) i"
    "\<forall>n \<in> set N2. \<exists>i \<in> set is. (i, n) \<in> (dep m)\<^sup>*"
    using Cons.IH [OF forward_visit_inv [OF Cons.prems]] by blast
  have "used (fold (forward_visit m) is ?s1) i" using N1(2) N2(1) by (simp add: adds_def)
  then show ?case
    using adds_trans [OF N1(1) N2(1)] N1(3) N2 by (intro exI [of _ "N1 @ N2"]) auto
qed

text \<open>The order the forward search hands over, when it starts from an empty list.\<close>

definition finish_order :: "edge_map \<Rightarrow> Inst list \<Rightarrow> Inst list \<Rightarrow> bool" where
  "finish_order m is xs \<longleftrightarrow> distinct xs \<and> set xs = (dep m)\<^sup>* `` set is \<and>
     (\<forall>x \<in> set xs. \<forall>y. (x, y) \<in> (dep m)\<^sup>* \<longrightarrow> (\<exists>z. connected m x z \<and> upto xs y z))"

lemma forward_finish_order:
  assumes "order s = []"
  shows "finish_order m is (order (fold (forward_visit m) is (s\<lparr>used := (\<lambda>_. False)\<rparr>)))"
proof -
  let ?s0 = "s\<lparr>used := (\<lambda>_. False)\<rparr>" and ?s1 = "fold (forward_visit m) is (s\<lparr>used := (\<lambda>_. False)\<rparr>)"
  have "order_inv m ?s0" using assms by (simp add: order_inv_def)
  then obtain N where N: "adds ?s0 ?s1 N" "order_inv m ?s1" "\<forall>i \<in> set is. used ?s1 i"
    "\<forall>n \<in> set N. \<exists>i \<in> set is. (i, n) \<in> (dep m)\<^sup>*"
    using forward_loop by blast
  have o: "order ?s1 = N" "distinct N" "gray ?s1 = {}" "\<forall>x. used ?s1 x = (x \<in> set N)"
    using N(1) assms by (auto simp: adds_def gray_def)
  have "y \<in> set N" if "(x, y) \<in> (dep m)\<^sup>*" "x \<in> set is" for x y
    using closed_path [OF N(2), of x y] that N(3) o by (simp add: avoid_empty)
  then have "set N = (dep m)\<^sup>* `` set is" using N(4) by auto
  moreover have "\<forall>x \<in> set N. \<forall>y. (x, y) \<in> (dep m)\<^sup>* \<longrightarrow> (\<exists>z. connected m x z \<and> upto N y z)"
    using N(2) o by (simp add: order_inv_def avoid_empty)
  ultimately show ?thesis using o by (simp add: finish_order_def)
qed

end
