(* ===== verification/Block_Order.thy ===== *)
theory Block_Order
  imports SCC_Forward
begin

text \<open>
  \<open>dfsVisit\<close> of \<^verbatim>\<open>DSWP_1.cpp\<close> and its driver in \<open>buildPDG\<close>: the blocks of the loop in the order in which a
  depth-first search over the control flow inside the loop finishes them. The search is the same
  algorithm as \<open>dfs_forward\<close> of \<^verbatim>\<open>DSWP_2.cpp\<close>, over another graph; a simulation lemma carries over what theory
  \<open>SCC_Forward\<close> proves.
\<close>

section \<open>The search\<close>

definition block_succs :: "func_ir \<Rightarrow> BB \<Rightarrow> BB list" where
  "block_succs F b = succs (code F (terminator F b))"

function (sequential)
  dfsVisit :: "func_ir \<Rightarrow> loop_ir \<Rightarrow> BB \<Rightarrow> BB set \<times> BB list \<Rightarrow> BB set \<times> BB list" and
  visit_succs :: "func_ir \<Rightarrow> loop_ir \<Rightarrow> BB list \<Rightarrow> BB set \<times> BB list \<Rightarrow> BB set \<times> BB list"
where
  "dfsVisit F L b (vis, ord) =
     (let (vis', ord') = visit_succs F L (block_succs F b) (insert b vis, ord) in (vis', ord' @ [b]))"
| "visit_succs F L [] st = st"
| "visit_succs F L (s # ss) st =
     (if contains L s \<and> s \<notin> fst st then visit_succs F L ss (dfsVisit F L s st)
      else visit_succs F L ss st)"
  by pat_completeness auto

lemma dfsVisit_mono:
  "dfsVisit_visit_succs_dom (Inl (F, L, b, st)) \<Longrightarrow> fst st \<subseteq> fst (dfsVisit F L b st)"
  "dfsVisit_visit_succs_dom (Inr (F, L, ss, st)) \<Longrightarrow> fst st \<subseteq> fst (visit_succs F L ss st)"
proof (induction rule: dfsVisit_visit_succs.pinduct)
  case (1 F L b vis ord)
  then show ?case by (auto simp: dfsVisit.psimps split: prod.split)
next
  case (2 F L st)
  then show ?case by (simp add: visit_succs.psimps)
next
  case (3 F L s ss st)
  then show ?case by (auto simp: visit_succs.psimps)
qed

definition unvisited :: "loop_ir \<Rightarrow> BB set \<Rightarrow> nat" where
  "unvisited L vis = card (set (lblocks L) - vis)"

lemma unvisited_antimono: "vis \<subseteq> vis' \<Longrightarrow> unvisited L vis' \<le> unvisited L vis"
  unfolding unvisited_def by (rule card_mono) auto

lemma unvisited_insert: "contains L b \<Longrightarrow> b \<notin> vis \<Longrightarrow> unvisited L (insert b vis) < unvisited L vis"
  unfolding unvisited_def contains_def by (rule psubset_card_mono) auto

termination dfsVisit
proof (relation "measures [
    \<lambda>x. case x of Inl (F, L, b, st) \<Rightarrow> unvisited L (insert b (fst st)) | Inr (F, L, ss, st) \<Rightarrow> unvisited L (fst st),
    \<lambda>x. case x of Inl (F, L, b, st) \<Rightarrow> 2 * length (block_succs F b) + 1 | Inr (F, L, ss, st) \<Rightarrow> 2 * length ss]",
    goal_cases)
  case (3 F L s ss st)
  then show ?case using unvisited_insert [of L s "fst st"] by simp
next
  case (4 F L s ss st)
  then have "unvisited L (fst (dfsVisit F L s st)) \<le> unvisited L (fst st)"
    by (intro unvisited_antimono dfsVisit_mono(1))
  then show ?case by auto
qed auto

declare dfsVisit.simps [simp del]

text \<open>The driver: \<open>bb_ordered\<close> of \<open>buildPDG\<close>.\<close>

definition order_step :: "func_ir \<Rightarrow> loop_ir \<Rightarrow> BB \<Rightarrow> BB set \<times> BB list \<Rightarrow> BB set \<times> BB list" where
  "order_step F L b st = (if b \<notin> fst st then dfsVisit F L b st else st)"

definition bb_ordered :: "func_ir \<Rightarrow> loop_ir \<Rightarrow> BB list" where
  "bb_ordered F L = snd (fold (order_step F L) (lblocks L) ({}, []))"

section \<open>Simulation by the search over an edge map\<close>

text \<open>The control flow inside the loop as an edge map.\<close>

definition loop_succs :: "func_ir \<Rightarrow> loop_ir \<Rightarrow> BB \<Rightarrow> BB list" where
  "loop_succs F L b = filter (contains L) (block_succs F b)"

definition flow_map :: "func_ir \<Rightarrow> loop_ir \<Rightarrow> edge_map" where
  "flow_map F L = fmap_of_list (map (\<lambda>b. (b, map (\<lambda>s. mk_edge b s CONTROL) (loop_succs F L b))) (lblocks L))"

lemma edges_at_flow:
  "contains L b \<Longrightarrow> edges_at (flow_map F L) b = map (\<lambda>s. mk_edge b s CONTROL) (loop_succs F L b)"
  by (auto simp: edges_at_def sub_def flow_map_def fmlookup_of_list contains_def map_of_map_restrict
      map_of_eq_None_iff split: option.split)

definition sim :: "BB set \<times> BB list \<Rightarrow> scc_state \<Rightarrow> bool" where
  "sim st s \<longleftrightarrow> fst st = {x. used s x} \<and> snd st = order s"

lemma visit_sim:
  "contains L b \<Longrightarrow> sim st s \<Longrightarrow> sim (dfsVisit F L b st) (dfs_forward (flow_map F L) b s)"
  "sim st s \<Longrightarrow> sim (visit_succs F L ss st)
    (forward_edges (flow_map F L) (map (\<lambda>t. mk_edge p t CONTROL) (filter (contains L) ss)) s)"
proof (induction F L b st and F L ss st arbitrary: s and s p rule: dfsVisit_visit_succs.induct)
  case (1 F L b vis ord)
  have m: "sim (insert b vis, ord) (mark b s)" using "1.prems"(2) by (auto simp: sim_def)
  have "sim (visit_succs F L (block_succs F b) (insert b vis, ord))
      (forward_edges (flow_map F L) (edges_at (flow_map F L) b) (mark b s))"
    using "1.IH" [OF m, of b] edges_at_flow [OF "1.prems"(1)] by (simp add: loop_succs_def)
  then show ?case
    by (simp add: dfsVisit.simps dfs_forward.simps sim_def Let_def split_beta)
next
  case (2 F L st)
  then show ?case by simp
next
  case (3 F L t ss st)
  show ?case
  proof (cases "contains L t")
    case True
    have u: "used s t \<longleftrightarrow> t \<in> fst st" using "3.prems" by (auto simp: sim_def)
    show ?thesis
    proof (cases "t \<in> fst st")
      case True
      then show ?thesis using "3.IH"(3) [OF _ "3.prems"] u \<open>contains L t\<close> by simp
    next
      case False
      then show ?thesis
        using "3.IH"(2) [OF _ "3.IH"(1) [OF _ _ "3.prems"]] u \<open>contains L t\<close> by simp
    qed
  next
    case False
    then show ?thesis using "3.IH"(3) [OF _ "3.prems"] by simp
  qed
qed

lemma driver_sim:
  "set bs \<subseteq> set (lblocks L) \<Longrightarrow> sim st s \<Longrightarrow>
    sim (fold (order_step F L) bs st) (fold (forward_visit (flow_map F L)) bs s)"
proof (induction bs arbitrary: st s)
  case (Cons b bs)
  have "sim (order_step F L b st) (forward_visit (flow_map F L) b s)"
    using Cons.prems visit_sim(1) [of L b st s F]
    by (auto simp: order_step_def forward_visit_def contains_def sim_def)
  then show ?case using Cons by simp
qed simp

lemma bb_ordered_sim:
  "bb_ordered F L = order (fold (forward_visit (flow_map F L)) (lblocks L) (scc_clear\<lparr>used := (\<lambda>_. False)\<rparr>))"
proof -
  have "sim ({}, []) (scc_clear\<lparr>used := (\<lambda>_. False)\<rparr>)" by (simp add: sim_def scc_clear_def)
  from driver_sim [OF order_refl this] show ?thesis by (simp add: bb_ordered_def sim_def)
qed

section \<open>What the order is\<close>

lemma dep_flow: "contains L b \<Longrightarrow> (b, t) \<in> dep (flow_map F L) \<longleftrightarrow> t \<in> set (loop_succs F L b)"
  by (auto simp: dep_def targets_def edges_at_flow image_iff)

lemma reach_flow:
  "(dep (flow_map F L))\<^sup>* `` set (lblocks L) = set (lblocks L)"
proof -
  have "y \<in> set (lblocks L)" if "(x, y) \<in> (dep (flow_map F L))\<^sup>*" "x \<in> set (lblocks L)" for x y
    using that
  proof (induction rule: rtrancl_induct)
    case (step y z)
    then have "contains L y" by (simp add: contains_def)
    with step(2) have "contains L z" by (simp add: dep_flow loop_succs_def)
    then show ?case by (simp add: contains_def)
  qed
  then show ?thesis by auto
qed

lemma bb_ordered_finish: "finish_order (flow_map F L) (lblocks L) (bb_ordered F L)"
  unfolding bb_ordered_sim by (rule forward_finish_order) (simp add: scc_clear_def)

lemma bb_ordered_set: "distinct (bb_ordered F L)" "set (bb_ordered F L) = set (lblocks L)"
  using bb_ordered_finish [of F L] reach_flow [of F L] by (simp_all add: finish_order_def)

text \<open>When every block is reached from the first one, the first one is finished last.\<close>

lemma first_block_last:
  assumes first: "lblocks L = h # bs"
    and reach: "\<forall>b \<in> set (lblocks L). (h, b) \<in> (dep (flow_map F L))\<^sup>*"
  shows "\<exists>ord. bb_ordered F L = ord @ [h]"
proof -
  let ?m = "flow_map F L"
  let ?s0 = "scc_clear\<lparr>used := (\<lambda>_. False)\<rparr>"
  let ?s1 = "dfs_forward ?m h ?s0"
  obtain N where N: "adds ?s0 ?s1 (N @ [h])"
    using forward_adds(1) [of ?s0 h ?m] by auto
  have "order_inv ?m ?s0" by (simp add: order_inv_def scc_clear_def)
  then have inv: "order_inv ?m ?s1" by (rule forward_order_inv(1) [rotated]) simp
  have o: "order ?s1 = N @ [h]" "gray ?s1 = {}" "\<forall>x. used ?s1 x \<longleftrightarrow> x \<in> set (N @ [h])"
    using N by (auto simp: adds_def gray_def scc_clear_def)
  have all: "used ?s1 b" if "b \<in> set (lblocks L)" for b
    using closed_path [OF inv, of h b] reach that o by (simp add: avoid_empty)
  have "fold (forward_visit ?m) bs s = s" if "\<forall>b \<in> set bs. used s b" for s bs
    using that by (induction bs) (simp_all add: forward_visit_def)
  then have "fold (forward_visit ?m) bs ?s1 = ?s1" using all first by simp
  then have "order (fold (forward_visit ?m) (lblocks L) ?s0) = N @ [h]"
    using first o(1) by (simp add: forward_visit_def)
  then show ?thesis unfolding bb_ordered_sim by blast
qed

end
