(* ===== verification/Peeled_CFG.thy ===== *)
theory Peeled_CFG
  imports Block_Order
begin

text \<open>
  The peeled control flow graph of \<open>buildPDG\<close> in \<^verbatim>\<open>DSWP_1.cpp\<close>: two copies of every block of the loop, for the
  first iteration and for the later ones, and one exit block. An edge of the loop to a block that is
  not later in the order leaves the first copy for the second. LLVM creates the blocks of a dummy
  function; here the copies of the block \<open>b\<close> are \<open>Top b\<close> and \<open>Bottom b\<close>, and a terminator is the list of its
  successors, the default of the switch first.
\<close>

section \<open>The tables\<close>

datatype dblock = Top BB | Bottom BB | ExitBlock

record peel_tables =
  dummylist :: "dblock list"
  realtodummy :: "BB \<Rightarrow> (dblock \<times> dblock) option"
  dummytoreal :: "dblock \<Rightarrow> BB option"
  instnum :: "BB \<Rightarrow> nat"
  next_num :: nat

definition no_tables :: peel_tables where
  "no_tables = \<lparr>dummylist = [], realtodummy = (\<lambda>_. None), dummytoreal = (\<lambda>_. None), instnum = (\<lambda>_. 0), next_num = 0\<rparr>"

definition add_dummies :: "BB \<Rightarrow> peel_tables \<Rightarrow> peel_tables" where
  "add_dummies b t = t\<lparr>dummylist := dummylist t @ [Top b, Bottom b],
     realtodummy := (realtodummy t)(b \<mapsto> (Top b, Bottom b)),
     dummytoreal := (dummytoreal t)(Top b \<mapsto> b, Bottom b \<mapsto> b),
     instnum := (instnum t)(b := next_num t), next_num := next_num t + 1\<rparr>"

text \<open>The loop runs over \<open>bb_ordered\<close> from its end.\<close>

definition peel_tables_of :: "func_ir \<Rightarrow> loop_ir \<Rightarrow> peel_tables" where
  "peel_tables_of F L = fold add_dummies (rev (bb_ordered F L)) no_tables"

section \<open>The exits of the loop\<close>

text \<open>LLVM's predecessors of a block.\<close>

definition preds :: "func_ir \<Rightarrow> BB \<Rightarrow> BB list" where
  "preds F b = filter (\<lambda>p. b \<in> set (block_succs F p)) (fblocks F)"

definition returnblocks :: "func_ir \<Rightarrow> loop_ir \<Rightarrow> BB set" where
  "returnblocks F L = fold (\<lambda>bbend blocks. fold (\<lambda>p blocks. if contains L p then insert p blocks else blocks)
     (preds F bbend) blocks) (lexits L) {}"

section \<open>The terminators of the copies\<close>

text \<open>\<open>CreateSwitch\<close> with a default, or none yet; \<open>addCase\<close>.\<close>

definition add_case :: "dblock \<Rightarrow> dblock list option \<Rightarrow> dblock list option" where
  "add_case dest sw = Some ((case sw of None \<Rightarrow> [dest] | Some ts \<Rightarrow> ts) @ [dest])"

definition dest1 :: "peel_tables \<Rightarrow> BB \<Rightarrow> BB \<Rightarrow> dblock" where
  "dest1 t b s = (let (top, bottom) = the (realtodummy t s) in
     if instnum t s \<le> instnum t b then bottom else top)"

definition dest2 :: "peel_tables \<Rightarrow> BB \<Rightarrow> dblock" where
  "dest2 t s = snd (the (realtodummy t s))"

text \<open>One successor of the real block: a case in both switches when it is inside the loop.\<close>

definition add_succ ::
  "loop_ir \<Rightarrow> peel_tables \<Rightarrow> BB \<Rightarrow> BB \<Rightarrow> dblock list option \<times> dblock list option \<Rightarrow>
    dblock list option \<times> dblock list option" where
  "add_succ L t b s sw =
     (if contains L s then (add_case (dest1 t b s) (fst sw), add_case (dest2 t s) (snd sw)) else sw)"

definition switches ::
  "func_ir \<Rightarrow> loop_ir \<Rightarrow> peel_tables \<Rightarrow> BB \<Rightarrow> dblock list option \<times> dblock list option" where
  "switches F L t b =
     (let exit_switch = (if b \<in> returnblocks F L then Some [ExitBlock, ExitBlock] else None)
      in fold (add_succ L t b) (block_succs F b) (exit_switch, exit_switch))"

text \<open>The terminator of every dummy block; \<open>None\<close> is a block that was left without one.\<close>

definition add_terminators ::
  "func_ir \<Rightarrow> loop_ir \<Rightarrow> peel_tables \<Rightarrow> BB \<Rightarrow> (dblock \<Rightarrow> dblock list option) \<Rightarrow> dblock \<Rightarrow> dblock list option" where
  "add_terminators F L t b flow =
     (let (top, bottom) = the (realtodummy t b); (sw1, sw2) = switches F L t b
      in flow(top := sw1, bottom := sw2))"

definition dummy_flow :: "func_ir \<Rightarrow> loop_ir \<Rightarrow> dblock \<Rightarrow> dblock list option" where
  "dummy_flow F L = fold (add_terminators F L (peel_tables_of F L)) (rev (bb_ordered F L)) ((\<lambda>_. None)(ExitBlock := Some []))"

section \<open>What the tables hold\<close>

lemma add_dummies_fields [simp]:
  "dummylist (add_dummies b t) = dummylist t @ [Top b, Bottom b]"
  "realtodummy (add_dummies b t) = (realtodummy t)(b \<mapsto> (Top b, Bottom b))"
  "dummytoreal (add_dummies b t) = (dummytoreal t)(Top b \<mapsto> b, Bottom b \<mapsto> b)"
  "instnum (add_dummies b t) = (instnum t)(b := next_num t)" "next_num (add_dummies b t) = next_num t + 1"
  by (simp_all add: add_dummies_def)

lemma fold_tables:
  "dummylist (fold add_dummies bs t) = dummylist t @ concat (map (\<lambda>b. [Top b, Bottom b]) bs)"
  "realtodummy (fold add_dummies bs t) b = (if b \<in> set bs then Some (Top b, Bottom b) else realtodummy t b)"
  "next_num (fold add_dummies bs t) = next_num t + length bs"
  by (induction bs arbitrary: t) auto

lemma fold_dummytoreal:
  "dummytoreal (fold add_dummies bs t) d =
    (case d of Top b \<Rightarrow> if b \<in> set bs then Some b else dummytoreal t d
      | Bottom b \<Rightarrow> if b \<in> set bs then Some b else dummytoreal t d | ExitBlock \<Rightarrow> dummytoreal t d)"
  by (induction bs arbitrary: t) (auto split: dblock.split)

lemma fold_instnum_other: "b \<notin> set bs \<Longrightarrow> instnum (fold add_dummies bs t) b = instnum t b"
  by (induction bs arbitrary: t) auto

lemma fold_instnum:
  "distinct bs \<Longrightarrow> k < length bs \<Longrightarrow> instnum (fold add_dummies bs t) (bs ! k) = next_num t + k"
proof (induction bs arbitrary: t k)
  case (Cons c bs)
  then show ?case by (cases k) (auto simp: fold_instnum_other)
qed simp

lemma tables:
  "contains L b \<Longrightarrow> realtodummy (peel_tables_of F L) b = Some (Top b, Bottom b)"
  "contains L b \<Longrightarrow> dummytoreal (peel_tables_of F L) (Top b) = Some b"
  "contains L b \<Longrightarrow> dummytoreal (peel_tables_of F L) (Bottom b) = Some b"
  "set (dummylist (peel_tables_of F L)) = Top ` set (lblocks L) \<union> Bottom ` set (lblocks L)"
  using bb_ordered_set(2) [of F L]
  by (auto simp: peel_tables_of_def fold_tables fold_dummytoreal no_tables_def contains_def)

text \<open>The numbers: the position in the reverse of the order.\<close>

lemma instnum_rev:
  "k < length (bb_ordered F L) \<Longrightarrow> instnum (peel_tables_of F L) (rev (bb_ordered F L) ! k) = k"
  using fold_instnum [of "rev (bb_ordered F L)" k no_tables] bb_ordered_set(1) [of F L]
  by (simp add: peel_tables_of_def no_tables_def)

lemma returnblocks_iff:
  "b \<in> returnblocks F L \<longleftrightarrow> contains L b \<and> (\<exists>e \<in> set (lexits L). b \<in> set (preds F e))"
proof -
  have inner: "b \<in> fold (\<lambda>p blocks. if contains L p then insert p blocks else blocks) ps B \<longleftrightarrow>
      b \<in> B \<or> contains L b \<and> b \<in> set ps" for ps B
    by (induction ps arbitrary: B) auto
  have "b \<in> fold (\<lambda>bbend blocks. fold (\<lambda>p blocks. if contains L p then insert p blocks else blocks)
      (preds F bbend) blocks) es B \<longleftrightarrow> b \<in> B \<or> contains L b \<and> (\<exists>e \<in> set es. b \<in> set (preds F e))" for es B
    by (induction es arbitrary: B) (auto simp: inner)
  then show ?thesis by (simp add: returnblocks_def)
qed

section \<open>The flow of the copies\<close>

definition first_copy :: "peel_tables \<Rightarrow> BB \<Rightarrow> BB \<Rightarrow> dblock" where
  "first_copy t b s = (if instnum t s \<le> instnum t b then Bottom s else Top s)"

lemma dest_copies:
  "contains L s \<Longrightarrow> dest1 (peel_tables_of F L) b s = first_copy (peel_tables_of F L) b s"
  "contains L s \<Longrightarrow> dest2 (peel_tables_of F L) s = Bottom s"
  by (simp_all add: dest1_def dest2_def first_copy_def tables)

lemma fold_add_succ:
  "fst (fold (add_succ L t b) ss sw) = fold add_case (map (dest1 t b) (filter (contains L) ss)) (fst sw)"
  "snd (fold (add_succ L t b) ss sw) = fold add_case (map (dest2 t) (filter (contains L) ss)) (snd sw)"
  by (induction ss arbitrary: sw) (simp_all add: add_succ_def)

lemma fold_add_case:
  "fold add_case ds (Some ts) = Some (ts @ ds)"
  "fold add_case ds None = (case ds of [] \<Rightarrow> None | d # _ \<Rightarrow> Some (d # ds))"
proof -
  show some: "fold add_case ds (Some ts) = Some (ts @ ds)" for ds ts
    by (induction ds arbitrary: ts) (simp_all add: add_case_def)
  show "fold add_case ds None = (case ds of [] \<Rightarrow> None | d # _ \<Rightarrow> Some (d # ds))"
    by (cases ds) (simp_all add: add_case_def some)
qed

text \<open>The terminator of a copy whose successors inside the loop are the copies \<open>ds\<close>.\<close>

definition terminator_of :: "bool \<Rightarrow> dblock list \<Rightarrow> dblock list option" where
  "terminator_of exits ds = (if exits then Some ([ExitBlock, ExitBlock] @ ds)
     else case ds of [] \<Rightarrow> None | d # _ \<Rightarrow> Some (d # ds))"

lemma switches_copies:
  "switches F L (peel_tables_of F L) b =
    (terminator_of (b \<in> returnblocks F L) (map (first_copy (peel_tables_of F L) b) (loop_succs F L b)),
     terminator_of (b \<in> returnblocks F L) (map Bottom (loop_succs F L b)))"
proof -
  have maps: "map (dest1 (peel_tables_of F L) b) (loop_succs F L b) = map (first_copy (peel_tables_of F L) b) (loop_succs F L b)"
    "map (dest2 (peel_tables_of F L)) (loop_succs F L b) = map Bottom (loop_succs F L b)"
    by (auto simp: loop_succs_def dest_copies)
  have "switches F L (peel_tables_of F L) b =
      (terminator_of (b \<in> returnblocks F L) (map (dest1 (peel_tables_of F L) b) (loop_succs F L b)),
       terminator_of (b \<in> returnblocks F L) (map (dest2 (peel_tables_of F L)) (loop_succs F L b)))"
    by (simp add: switches_def Let_def prod_eq_iff fold_add_succ loop_succs_def [symmetric] fold_add_case
      terminator_of_def)
  then show ?thesis by (simp only: maps)
qed

lemma fold_terminators:
  assumes "\<forall>b \<in> set bs. contains L b" "distinct bs"
  shows "fold (add_terminators F L (peel_tables_of F L)) bs flow d =
    (case d of Top b \<Rightarrow> if b \<in> set bs then fst (switches F L (peel_tables_of F L) b) else flow d
      | Bottom b \<Rightarrow> if b \<in> set bs then snd (switches F L (peel_tables_of F L) b) else flow d
      | ExitBlock \<Rightarrow> flow d)"
  using assms
  by (induction bs arbitrary: flow)
    (auto simp: add_terminators_def tables split_beta split: dblock.split)

lemma dummy_flow_eq:
  "contains L b \<Longrightarrow> dummy_flow F L (Top b) =
    terminator_of (b \<in> returnblocks F L) (map (first_copy (peel_tables_of F L) b) (loop_succs F L b))"
  "contains L b \<Longrightarrow> dummy_flow F L (Bottom b) =
    terminator_of (b \<in> returnblocks F L) (map Bottom (loop_succs F L b))"
  "dummy_flow F L ExitBlock = Some []"
  using bb_ordered_set [of F L]
  by (simp_all add: dummy_flow_def fold_terminators contains_def switches_copies)

lemma dummy_flow_outside: "\<not> contains L b \<Longrightarrow> dummy_flow F L (Top b) = None \<and> dummy_flow F L (Bottom b) = None"
  using bb_ordered_set [of F L] by (simp add: dummy_flow_def fold_terminators contains_def)

text \<open>The edges of the peeled graph.\<close>

definition dflow :: "func_ir \<Rightarrow> loop_ir \<Rightarrow> (dblock \<times> dblock) set" where
  "dflow F L = {(x, y). \<exists>ts. dummy_flow F L x = Some ts \<and> y \<in> set ts}"

lemma terminator_of_targets:
  "(\<exists>ts. terminator_of exits ds = Some ts \<and> y \<in> set ts) \<longleftrightarrow> exits \<and> y = ExitBlock \<or> y \<in> set ds"
  by (cases ds) (auto simp: terminator_of_def)

lemma dflow_iff:
  "(Top b, y) \<in> dflow F L \<longleftrightarrow> contains L b \<and> (b \<in> returnblocks F L \<and> y = ExitBlock \<or>
    (\<exists>s \<in> set (loop_succs F L b). y = first_copy (peel_tables_of F L) b s))"
  "(Bottom b, y) \<in> dflow F L \<longleftrightarrow> contains L b \<and> (b \<in> returnblocks F L \<and> y = ExitBlock \<or>
    (\<exists>s \<in> set (loop_succs F L b). y = Bottom s))"
  "(ExitBlock, y) \<notin> dflow F L"
  by (cases "contains L b";
      auto simp: dflow_def dummy_flow_eq dummy_flow_outside terminator_of_targets image_iff)+

lemma dummy_flow_some:
  "contains L b \<Longrightarrow> b \<in> returnblocks F L \<or> loop_succs F L b \<noteq> [] \<Longrightarrow>
    \<exists>ts ts'. dummy_flow F L (Top b) = Some ts \<and> dummy_flow F L (Bottom b) = Some ts'"
  by (cases "loop_succs F L b") (auto simp: dummy_flow_eq terminator_of_def)

text \<open>The first copy alone has no cycle.\<close>

lemma top_increases:
  "(Top b, Top c) \<in> dflow F L \<Longrightarrow> instnum (peel_tables_of F L) b < instnum (peel_tables_of F L) c"
  by (auto simp: dflow_iff first_copy_def split: if_splits)

text \<open>An edge back to a first block that reaches all others leaves the first copy.\<close>

lemma header_first:
  assumes "lblocks L = h # bs" "\<forall>b \<in> set (lblocks L). (h, b) \<in> (dep (flow_map F L))\<^sup>*"
  shows "(Top b, Top h) \<notin> dflow F L"
proof -
  obtain ord where "bb_ordered F L = ord @ [h]" using first_block_last [OF assms] by blast
  then have "instnum (peel_tables_of F L) h = 0" using instnum_rev [of 0 F L] by simp
  then show ?thesis using top_increases [of b h F L] by auto
qed

end
