(* ===== verification/Control_Dep.thy ===== *)
theory Control_Dep
  imports Peeled_CFG
begin

text \<open>
  The control dependences of \<open>buildPDG\<close> in \<^verbatim>\<open>DSWP_1.cpp\<close>: for every edge of the peeled graph the walk up the
  post-dominator tree from the target to the nearest common post-dominator of both ends, with an edge of
  the dependence graph from the branch to every instruction of the blocks on the way. The post-dominator
  tree is LLVM's: the functions \<open>ip\<close> (\<open>getIDom\<close>) and \<open>nc\<close> (\<open>findNearestCommonDominator\<close>) are parameters, and
  \<open>postdom_tree\<close> states what LLVM documents of them. The walk has no bound of its own: it is a partial
  function, \<open>None\<close> when it does not end.
\<close>

section \<open>The walk\<close>

definition add_control :: "func_ir \<Rightarrow> BB \<Rightarrow> BB \<Rightarrow> dep_graph \<Rightarrow> dep_graph" where
  "add_control F realblock realdepblock g =
     fold (\<lambda>inst. addEdge (terminator F realblock) inst CONTROL) (body F realdepblock) g"

text \<open>
  One round: the block of the node is a copy of a real one (or the walk dereferences a null pointer), and
  the next node is the parent, which is the null pointer at the root.
\<close>

partial_function (option) control_walk ::
  "func_ir \<Rightarrow> (dblock \<Rightarrow> BB option) \<Rightarrow> (dblock \<Rightarrow> dblock option) \<Rightarrow> BB \<Rightarrow> dblock option \<Rightarrow> dblock \<Rightarrow> dep_graph \<Rightarrow>
    dep_graph outcome option" where
  "control_walk F real ip realblock dn n g =
     (if Some n = dn \<or> n = ExitBlock then Some (Ok g)
      else case real n of None \<Rightarrow> Some Undef
        | Some realdepblock \<Rightarrow>
          (case ip n of None \<Rightarrow> Some Undef
           | Some n' \<Rightarrow> control_walk F real ip realblock dn n' (add_control F realblock realdepblock g)))"

text \<open>A walk that does not end blocks the pass.\<close>

definition run_walk :: "'a outcome option \<Rightarrow> 'a outcome" where
  "run_walk r = (case r of None \<Rightarrow> Blocked | Some o' \<Rightarrow> o')"

definition control_succ ::
  "func_ir \<Rightarrow> (dblock \<Rightarrow> BB option) \<Rightarrow> (dblock \<Rightarrow> dblock option) \<Rightarrow> (dblock \<Rightarrow> dblock \<Rightarrow> dblock option) \<Rightarrow>
    dblock \<Rightarrow> dep_graph \<Rightarrow> dblock \<Rightarrow> dep_graph outcome" where
  "control_succ F real ip nc d g bsucc =
     (case real d of None \<Rightarrow> Undef
      | Some realblock \<Rightarrow> run_walk (control_walk F real ip realblock (nc d bsucc) bsucc g))"

text \<open>All successors of one dummy block, which must have a terminator.\<close>

definition control_block ::
  "func_ir \<Rightarrow> loop_ir \<Rightarrow> (dblock \<Rightarrow> dblock option) \<Rightarrow> (dblock \<Rightarrow> dblock \<Rightarrow> dblock option) \<Rightarrow>
    dep_graph \<Rightarrow> dblock \<Rightarrow> dep_graph outcome" where
  "control_block F L ip nc g d =
     (case dummy_flow F L d of None \<Rightarrow> Undef
      | Some ts \<Rightarrow> ofold (control_succ F (dummytoreal (peel_tables_of F L)) ip nc d) ts g)"

definition control_deps ::
  "func_ir \<Rightarrow> loop_ir \<Rightarrow> (dblock \<Rightarrow> dblock option) \<Rightarrow> (dblock \<Rightarrow> dblock \<Rightarrow> dblock option) \<Rightarrow> dep_graph \<Rightarrow>
    dep_graph outcome" where
  "control_deps F L ip nc g = ofold (control_block F L ip nc) (dummylist (peel_tables_of F L)) g"

section \<open>Post-dominance\<close>

text \<open>\<open>y\<close> post-dominates \<open>x\<close>: every path of the peeled graph from \<open>x\<close> to the exit goes through \<open>y\<close>.\<close>

definition avoiding :: "func_ir \<Rightarrow> loop_ir \<Rightarrow> dblock \<Rightarrow> (dblock \<times> dblock) set" where
  "avoiding F L y = {(a, b) \<in> dflow F L. a \<noteq> y \<and> b \<noteq> y}"

definition postdominates :: "func_ir \<Rightarrow> loop_ir \<Rightarrow> dblock \<Rightarrow> dblock \<Rightarrow> bool" where
  "postdominates F L y x \<longleftrightarrow> y = x \<or> y = ExitBlock \<or> (x, ExitBlock) \<notin> (avoiding F L y)\<^sup>*"

definition parent_rel :: "(dblock \<Rightarrow> dblock option) \<Rightarrow> (dblock \<times> dblock) set" where
  "parent_rel ip = {(n, n'). ip n = Some n'}"

definition dummies :: "loop_ir \<Rightarrow> dblock set" where
  "dummies L = insert ExitBlock (Top ` set (lblocks L) \<union> Bottom ` set (lblocks L))"

text \<open>
  What LLVM promises of its tree: the ancestors of a block are the blocks that post-dominate it, the exit
  is the root, and the nearest common post-dominator is the lowest common ancestor.
\<close>

definition postdom_tree ::
  "func_ir \<Rightarrow> loop_ir \<Rightarrow> (dblock \<Rightarrow> dblock option) \<Rightarrow> (dblock \<Rightarrow> dblock \<Rightarrow> dblock option) \<Rightarrow> bool" where
  "postdom_tree F L ip nc \<longleftrightarrow> ip ExitBlock = None \<and>
     (\<forall>x \<in> dummies L. \<forall>y. (x, y) \<in> (parent_rel ip)\<^sup>* \<longleftrightarrow> y \<in> dummies L \<and> postdominates F L y x) \<and>
     (\<forall>x \<in> dummies L. \<forall>y \<in> dummies L. \<exists>z. nc x y = Some z \<and> (x, z) \<in> (parent_rel ip)\<^sup>* \<and>
        (y, z) \<in> (parent_rel ip)\<^sup>* \<and>
        (\<forall>w. (x, w) \<in> (parent_rel ip)\<^sup>* \<longrightarrow> (y, w) \<in> (parent_rel ip)\<^sup>* \<longrightarrow> (z, w) \<in> (parent_rel ip)\<^sup>*))"

section \<open>Chains of parents\<close>

lemma parent_rel_fun: "(n, a) \<in> parent_rel ip \<Longrightarrow> (n, b) \<in> parent_rel ip \<Longrightarrow> a = b"
  by (simp add: parent_rel_def)

lemma chain_step:
  "(n, n') \<in> parent_rel ip \<Longrightarrow> (n, w) \<in> (parent_rel ip)\<^sup>* \<Longrightarrow> w = n \<or> (n', w) \<in> (parent_rel ip)\<^sup>*"
  by (metis converse_rtranclE parent_rel_fun)

text \<open>A node that reaches the root is on no cycle.\<close>

lemma chain_acyclic:
  assumes "ip ExitBlock = None" "(n, ExitBlock) \<in> (parent_rel ip)\<^sup>*"
  shows "(n, n) \<notin> (parent_rel ip)\<^sup>+"
  using assms(2)
proof (induction rule: converse_rtrancl_induct)
  case base
  then show ?case using assms(1) by (auto simp: parent_rel_def dest: tranclD)
next
  case (step n n')
  show ?case
  proof
    assume "(n, n) \<in> (parent_rel ip)\<^sup>+"
    then obtain m where "(n, m) \<in> parent_rel ip" "(m, n) \<in> (parent_rel ip)\<^sup>*" by (blast dest: tranclD)
    then have "(n', n) \<in> (parent_rel ip)\<^sup>*" using parent_rel_fun [OF step.hyps(1)] by blast
    then have "(n', n') \<in> (parent_rel ip)\<^sup>+" using step.hyps(1) by (rule rtrancl_into_trancl1)
    with step.IH show False ..
  qed
qed

lemma chain_antisym:
  assumes "ip ExitBlock = None" "(n, ExitBlock) \<in> (parent_rel ip)\<^sup>*"
    and "(n, z) \<in> (parent_rel ip)\<^sup>*" "(z, n) \<in> (parent_rel ip)\<^sup>*"
  shows "n = z"
proof (rule ccontr)
  assume "n \<noteq> z"
  then have "(n, z) \<in> (parent_rel ip)\<^sup>+" using assms(3) by (simp add: rtrancl_eq_or_trancl)
  then have "(n, n) \<in> (parent_rel ip)\<^sup>+" using assms(4) by (rule trancl_rtrancl_trancl)
  with chain_acyclic [OF assms(1,2)] show False ..
qed

section \<open>The edges of one walk\<close>

text \<open>The control dependences of the branch of \<open>b\<close> on the real blocks of the dummy blocks \<open>P\<close>.\<close>

definition control_edges ::
  "func_ir \<Rightarrow> (dblock \<Rightarrow> BB option) \<Rightarrow> BB \<Rightarrow> (dblock \<Rightarrow> bool) \<Rightarrow> Inst \<Rightarrow> Inst \<Rightarrow> DType \<Rightarrow> bool" where
  "control_edges F real b P u v d \<longleftrightarrow> u = terminator F b \<and> d = CONTROL \<and>
     (\<exists>y c. P y \<and> real y = Some c \<and> v \<in> set (body F c))"

lemma control_edges_insert:
  assumes "real n = Some c" "\<And>y. P y \<longleftrightarrow> y = n \<or> Q y"
  shows "u = terminator F b \<and> v \<in> set (body F c) \<and> d = CONTROL \<or> control_edges F real b Q u v d \<longleftrightarrow>
    control_edges F real b P u v d"
proof -
  have "(\<exists>y c. P y \<and> real y = Some c \<and> v \<in> set (body F c)) \<longleftrightarrow>
      v \<in> set (body F c) \<or> (\<exists>y c. Q y \<and> real y = Some c \<and> v \<in> set (body F c))"
    using assms(1) unfolding assms(2) by (metis option.inject)
  then show ?thesis unfolding control_edges_def by blast
qed

lemma add_control_adds:
  "adds_edges (\<lambda>u v d. u = terminator F b \<and> v \<in> set (body F c) \<and> d = CONTROL) g (add_control F b c g)"
  unfolding add_control_def
  by (rule adds_edges_cong [OF adds_edges_fold [OF adds_edges_addEdge]]) auto

lemma walk_correct:
  assumes root: "ip ExitBlock = None" and up: "(n, ExitBlock) \<in> (parent_rel ip)\<^sup>*"
    and z: "(n, z) \<in> (parent_rel ip)\<^sup>*"
    and copies: "\<And>y. (n, y) \<in> (parent_rel ip)\<^sup>* \<Longrightarrow> y = ExitBlock \<or> real y \<noteq> None"
  shows "\<exists>g'. control_walk F real ip b (Some z) n g = Some (Ok g') \<and>
    adds_edges (control_edges F real b (\<lambda>y. (n, y) \<in> (parent_rel ip)\<^sup>* \<and> (z, y) \<notin> (parent_rel ip)\<^sup>*)) g g'"
  using up z copies
proof (induction arbitrary: g rule: converse_rtrancl_induct)
  case base
  then have "z = ExitBlock" using root by (auto simp: parent_rel_def elim: converse_rtranclE)
  then show ?case by (subst control_walk.simps) (auto intro: adds_edges_refl simp: control_edges_def)
next
  case (step n n')
  show ?case
  proof (cases "n = z")
    case True
    then show ?thesis by (subst control_walk.simps) (auto intro: adds_edges_refl simp: control_edges_def)
  next
    case False
    let ?P = "\<lambda>n y. (n, y) \<in> (parent_rel ip)\<^sup>* \<and> (z, y) \<notin> (parent_rel ip)\<^sup>*"
    have ip: "ip n = Some n'" and ne: "n \<noteq> ExitBlock"
      using step.hyps(1) root by (auto simp: parent_rel_def)
    then obtain c where c: "real n = Some c" using step.prems(2) [of n] by auto
    have z': "(n', z) \<in> (parent_rel ip)\<^sup>*" using chain_step [OF step.hyps(1) step.prems(1)] False by auto
    have "\<And>y. (n', y) \<in> (parent_rel ip)\<^sup>* \<Longrightarrow> y = ExitBlock \<or> real y \<noteq> None"
      using step.prems(2) step.hyps(1) by (meson converse_rtrancl_into_rtrancl)
    then obtain g' where g': "control_walk F real ip b (Some z) n' (add_control F b c g) = Some (Ok g')"
      "adds_edges (control_edges F real b (?P n')) (add_control F b c g) g'"
      using step.IH [OF z'] by blast
    have up: "(n, ExitBlock) \<in> (parent_rel ip)\<^sup>*" using step.hyps by (rule converse_rtrancl_into_rtrancl)
    have "(z, n) \<notin> (parent_rel ip)\<^sup>*" using chain_antisym [OF root up step.prems(1)] False by blast
    then have P: "?P n y \<longleftrightarrow> y = n \<or> ?P n' y" for y
      using chain_step [OF step.hyps(1)] step.hyps(1) by (blast intro: converse_rtrancl_into_rtrancl)
    have "adds_edges (control_edges F real b (?P n)) g g'"
      by (rule adds_edges_cong [OF adds_edges_trans [OF add_control_adds g'(2)]],
        rule control_edges_insert [where real = real and n = n and Q = "?P n'", OF c], rule P)
    moreover have "control_walk F real ip b (Some z) n g = Some (Ok g')"
      using g'(1) c ip ne False by (subst control_walk.simps) simp
    ultimately show ?thesis by blast
  qed
qed

section \<open>All walks\<close>

text \<open>The copies that are control dependent on the copy \<open>x\<close>, for its successor \<open>s\<close>.\<close>

definition controlled :: "func_ir \<Rightarrow> loop_ir \<Rightarrow> dblock \<Rightarrow> dblock \<Rightarrow> dblock \<Rightarrow> bool" where
  "controlled F L x s y \<longleftrightarrow> y \<in> dummies L \<and> postdominates F L y s \<and> \<not> postdominates F L y x"

lemma dummy_real: "y \<in> dummies L \<Longrightarrow> y = ExitBlock \<or> dummytoreal (peel_tables_of F L) y \<noteq> None"
  by (auto simp: dummies_def tables contains_def)

lemma control_succ_correct:
  assumes tree: "postdom_tree F L ip nc" and x: "x \<in> dummies L" and s: "s \<in> dummies L"
    and b: "dummytoreal (peel_tables_of F L) x = Some b"
  shows "\<exists>g'. control_succ F (dummytoreal (peel_tables_of F L)) ip nc x g s = Ok g' \<and>
    adds_edges (control_edges F (dummytoreal (peel_tables_of F L)) b (controlled F L x s)) g g'"
proof -
  let ?R = "(parent_rel ip)\<^sup>*" and ?real = "dummytoreal (peel_tables_of F L)"
  have root: "ip ExitBlock = None" using tree by (simp add: postdom_tree_def)
  have anc: "(a, y) \<in> ?R \<longleftrightarrow> y \<in> dummies L \<and> postdominates F L y a" if "a \<in> dummies L" for a y
    using tree that unfolding postdom_tree_def by blast
  obtain z where z: "nc x s = Some z" "(x, z) \<in> ?R" "(s, z) \<in> ?R"
    "\<forall>w. (x, w) \<in> ?R \<longrightarrow> (s, w) \<in> ?R \<longrightarrow> (z, w) \<in> ?R"
    using tree x s unfolding postdom_tree_def by blast
  have up: "(s, ExitBlock) \<in> ?R" using anc [OF s] by (simp add: dummies_def postdominates_def)
  have "\<And>y. (s, y) \<in> ?R \<Longrightarrow> y = ExitBlock \<or> ?real y \<noteq> None" using anc [OF s] dummy_real by blast
  then obtain g' where g': "control_walk F ?real ip b (Some z) s g = Some (Ok g')"
    "adds_edges (control_edges F ?real b (\<lambda>y. (s, y) \<in> ?R \<and> (z, y) \<notin> ?R)) g g'"
    using walk_correct [OF root up z(3)] by blast
  have "(s, y) \<in> ?R \<and> (z, y) \<notin> ?R \<longleftrightarrow> controlled F L x s y" for y
  proof -
    have "(s, y) \<in> ?R \<Longrightarrow> (z, y) \<in> ?R \<longleftrightarrow> (x, y) \<in> ?R" using z(2,4) by (meson rtrancl_trans)
    then show ?thesis using anc [OF s] anc [OF x] unfolding controlled_def by blast
  qed
  then have "(\<lambda>y. (s, y) \<in> ?R \<and> (z, y) \<notin> ?R) = controlled F L x s" by blast
  then show ?thesis using g' b z(1) by (simp add: control_succ_def run_walk_def)
qed

lemma dflow_dummies: "(x, s) \<in> dflow F L \<Longrightarrow> x \<in> dummies L \<and> s \<in> dummies L"
  by (cases x) (auto simp: dflow_iff dummies_def first_copy_def loop_succs_def contains_def)

lemma control_block_correct:
  assumes tree: "postdom_tree F L ip nc" and ts: "dummy_flow F L x = Some ts"
    and b: "dummytoreal (peel_tables_of F L) x = Some b"
  shows "\<exists>g'. control_block F L ip nc g x = Ok g' \<and>
    adds_edges (\<lambda>u v d. \<exists>s. (x, s) \<in> dflow F L \<and>
      control_edges F (dummytoreal (peel_tables_of F L)) b (controlled F L x s) u v d) g g'"
proof -
  let ?real = "dummytoreal (peel_tables_of F L)"
  have d: "x \<in> dummies L \<and> s \<in> dummies L" if "s \<in> set ts" for s
    using dflow_dummies [of x s F L] that ts by (simp add: dflow_def)
  have "\<exists>g'. ofold (control_succ F ?real ip nc x) ts g = Ok g' \<and>
      adds_edges (\<lambda>u v d. \<exists>s \<in> set ts. control_edges F ?real b (controlled F L x s) u v d) g g'"
    by (rule adds_edges_ofold) (use control_succ_correct [OF tree _ _ b] d in blast)
  moreover have "(x, s) \<in> dflow F L \<longleftrightarrow> s \<in> set ts" for s using ts by (simp add: dflow_def)
  ultimately show ?thesis using ts by (simp add: control_block_def Bex_def)
qed

text \<open>The control dependences of the loop, declaratively: over both copies of both blocks.\<close>

definition copies :: "BB \<Rightarrow> dblock set" where
  "copies b = {Top b, Bottom b}"

definition control_rel :: "func_ir \<Rightarrow> loop_ir \<Rightarrow> Inst \<Rightarrow> Inst \<Rightarrow> DType \<Rightarrow> bool" where
  "control_rel F L u v d \<longleftrightarrow> d = CONTROL \<and>
     (\<exists>b c. contains L b \<and> contains L c \<and> u = terminator F b \<and> v \<in> set (body F c) \<and>
       (\<exists>x \<in> copies b. \<exists>s. (x, s) \<in> dflow F L \<and>
         (\<exists>y \<in> copies c. postdominates F L y s \<and> \<not> postdominates F L y x)))"

definition branches_inside :: "func_ir \<Rightarrow> loop_ir \<Rightarrow> bool" where
  "branches_inside F L \<longleftrightarrow> (\<forall>b \<in> set (lblocks L). b \<in> returnblocks F L \<or> loop_succs F L b \<noteq> [])"

lemma dummytoreal_iff: "dummytoreal (peel_tables_of F L) x = Some b \<longleftrightarrow> contains L b \<and> x \<in> copies b"
  using bb_ordered_set(2) [of F L]
  by (auto simp: peel_tables_of_def fold_dummytoreal no_tables_def contains_def copies_def split: dblock.splits if_splits)

lemma copies_dummies: "contains L b \<Longrightarrow> x \<in> copies b \<Longrightarrow> x \<in> dummies L"
  by (auto simp: copies_def dummies_def contains_def)

lemma control_deps_correct:
  assumes tree: "postdom_tree F L ip nc" and inside: "branches_inside F L"
  shows "\<exists>g'. control_deps F L ip nc g = Ok g' \<and> adds_edges (control_rel F L) g g'"
proof -
  let ?real = "dummytoreal (peel_tables_of F L)"
  let ?R = "\<lambda>x u v d. \<exists>b. ?real x = Some b \<and> (\<exists>s. (x, s) \<in> dflow F L \<and>
      control_edges F ?real b (controlled F L x s) u v d)"
  have step: "\<exists>g'. control_block F L ip nc g x = Ok g' \<and> adds_edges (?R x) g g'"
    if x: "x \<in> set (dummylist (peel_tables_of F L))" for x g
  proof -
    obtain b where b: "contains L b" "x \<in> copies b" using x by (auto simp: tables copies_def contains_def)
    then have real: "?real x = Some b" by (simp add: dummytoreal_iff)
    have "b \<in> returnblocks F L \<or> loop_succs F L b \<noteq> []"
      using inside b(1) by (simp add: branches_inside_def contains_def)
    then obtain ts where ts: "dummy_flow F L x = Some ts"
      using dummy_flow_some [OF b(1)] b(2) by (auto simp: copies_def)
    show ?thesis using control_block_correct [OF tree ts real, of g] real by simp
  qed
  have "\<exists>g'. control_deps F L ip nc g = Ok g' \<and>
      adds_edges (\<lambda>u v d. \<exists>x \<in> set (dummylist (peel_tables_of F L)). ?R x u v d) g g'"
    unfolding control_deps_def by (rule adds_edges_ofold) (rule step)
  then obtain g' where g': "control_deps F L ip nc g = Ok g'"
    "adds_edges (\<lambda>u v d. \<exists>x \<in> set (dummylist (peel_tables_of F L)). ?R x u v d) g g'" by blast
  have "(\<exists>x \<in> set (dummylist (peel_tables_of F L)). ?R x u v d) \<longleftrightarrow> control_rel F L u v d" for u v d
  proof
    assume "\<exists>x \<in> set (dummylist (peel_tables_of F L)). ?R x u v d"
    then obtain x b s where "contains L b" "x \<in> copies b" "(x, s) \<in> dflow F L"
      "control_edges F ?real b (controlled F L x s) u v d"
      by (auto simp: dummytoreal_iff)
    then show "control_rel F L u v d"
      unfolding control_edges_def controlled_def control_rel_def dummytoreal_iff by blast
  next
    assume "control_rel F L u v d"
    then obtain b c x s y where *: "d = CONTROL" "contains L b" "contains L c" "u = terminator F b"
      "v \<in> set (body F c)" "x \<in> copies b" "(x, s) \<in> dflow F L" "y \<in> copies c"
      "postdominates F L y s" "\<not> postdominates F L y x"
      unfolding control_rel_def by blast
    have "x \<in> set (dummylist (peel_tables_of F L))" using *(2,6) by (auto simp: tables copies_def contains_def)
    moreover have "controlled F L x s y" using copies_dummies [OF *(3,8)] *(9,10) by (simp add: controlled_def)
    ultimately show "\<exists>x \<in> set (dummylist (peel_tables_of F L)). ?R x u v d"
      using * unfolding control_edges_def dummytoreal_iff by blast
  qed
  with g' show ?thesis using adds_edges_cong by blast
qed

end
