(* ===== verification/SCC_Reverse.thy ===== *)
theory SCC_Reverse
  imports SCC_Search
begin

text \<open>
  What the reverse search of \<^verbatim>\<open>DSWP_2.cpp\<close> does from one root: it visits what reaches the root through
  unvisited nodes, gives all of it the current component number, and records the edges that enter
  the component in the graph of components.
\<close>

section \<open>What a search assigns\<close>

definition assigns :: "scc_state \<Rightarrow> scc_state \<Rightarrow> Inst list \<Rightarrow> bool" where
  "assigns s s' N \<longleftrightarrow> distinct N \<and> (\<forall>x. used s' x \<longleftrightarrow> used s x \<or> x \<in> set N) \<and>
     (\<forall>x \<in> set N. \<not> used s x) \<and> sccNum s' = sccNum s \<and>
     (\<forall>x. sccId s' x = (if x \<in> set N then sccNum s else sccId s x)) \<and>
     length (InstInSCC s') = length (InstInSCC s) \<and>
     (sccNum s < length (InstInSCC s) \<longrightarrow>
       InstInSCC s' = (InstInSCC s)[sccNum s := InstInSCC s ! sccNum s @ N])"

lemma assigns_refl: "assigns s s []"
  by (simp add: assigns_def)

lemma assigns_trans: "assigns s s1 N1 \<Longrightarrow> assigns s1 s2 N2 \<Longrightarrow> assigns s s2 (N1 @ N2)"
  unfolding assigns_def by (auto simp: disjoint_iff)

lemma assigns_dag_edge: "assigns (dag_edge n s) s' N \<Longrightarrow> assigns s s' N"
  by (simp add: assigns_def)

lemma assigns_finish:
  assumes "assigns (mark i s) s1 N" "\<not> used s i"
  shows "assigns s (assign_scc i s1) (N @ [i])"
  using assms unfolding assigns_def by (auto split: if_splits)

definition closed_under :: "edge_map \<Rightarrow> (Inst \<Rightarrow> bool) \<Rightarrow> Inst list \<Rightarrow> bool" where
  "closed_under m U N \<longleftrightarrow> (\<forall>n \<in> set N. \<forall>e \<in> set (edges_at m n). U (ev e))"

lemma dep_edge: "e \<in> set (edges_at m i) \<Longrightarrow> (i, ev e) \<in> dep m"
  by (auto simp: dep_def targets_def)

lemma reverse_assigns:
  "\<not> used s i \<Longrightarrow> \<exists>N. assigns s (dfs_reverse m i s) (N @ [i]) \<and>
    closed_under m (used (dfs_reverse m i s)) (N @ [i]) \<and> (\<forall>n \<in> set N. (i, n) \<in> (dep m)\<^sup>*)"
  "\<exists>N. assigns s (reverse_edges m es s) N \<and> closed_under m (used (reverse_edges m es s)) N \<and>
    (\<forall>n \<in> set N. \<exists>e \<in> set es. (ev e, n) \<in> (dep m)\<^sup>*) \<and>
    (\<forall>e \<in> set es. used (reverse_edges m es s) (ev e))"
proof (induction m i s and m es s rule: dfs_reverse_reverse_edges.induct)
  case (1 m i s)
  let ?s1 = "reverse_edges m (edges_at m i) (mark i s)"
  obtain N where N: "assigns (mark i s) ?s1 N" "closed_under m (used ?s1) N"
    "\<forall>n \<in> set N. \<exists>e \<in> set (edges_at m i). (ev e, n) \<in> (dep m)\<^sup>*"
    "\<forall>e \<in> set (edges_at m i). used ?s1 (ev e)"
    using "1.IH" by blast
  have "\<forall>n \<in> set N. (i, n) \<in> (dep m)\<^sup>*"
    using N(3) by (meson converse_rtrancl_into_rtrancl dep_edge)
  moreover have "closed_under m (used ?s1) (N @ [i])"
    using N(2,4) by (auto simp: closed_under_def)
  ultimately show ?case
    using assigns_finish [OF N(1) "1.prems"] by (auto simp: dfs_reverse.simps)
next
  case (2 m s)
  show ?case using assigns_refl [of s] by (intro exI [of _ "[]"]) (simp add: closed_under_def)
next
  case (3 m e es s)
  show ?case
  proof (cases "used s (ev e)")
    case True
    let ?s1 = "dag_edge (ev e) s"
    obtain N where N: "assigns ?s1 (reverse_edges m es ?s1) N"
      "closed_under m (used (reverse_edges m es ?s1)) N"
      "\<forall>n \<in> set N. \<exists>e \<in> set es. (ev e, n) \<in> (dep m)\<^sup>*"
      "\<forall>e \<in> set es. used (reverse_edges m es ?s1) (ev e)"
      using "3.IH"(3) True by blast
    have "used (reverse_edges m es ?s1) (ev e)" using N(1) True by (simp add: assigns_def)
    with N True assigns_dag_edge [OF N(1)] show ?thesis by auto
  next
    case False
    let ?s1 = "dfs_reverse m (ev e) s"
    obtain N1 where N1: "assigns s ?s1 (N1 @ [ev e])" "closed_under m (used ?s1) (N1 @ [ev e])"
      "\<forall>n \<in> set N1. (ev e, n) \<in> (dep m)\<^sup>*"
      using "3.IH"(1) False by blast
    obtain N2 where N2: "assigns ?s1 (reverse_edges m es ?s1) N2"
      "closed_under m (used (reverse_edges m es ?s1)) N2"
      "\<forall>n \<in> set N2. \<exists>e \<in> set es. (ev e, n) \<in> (dep m)\<^sup>*"
      "\<forall>e \<in> set es. used (reverse_edges m es ?s1) (ev e)"
      using "3.IH"(2) False by blast
    have up: "used ?s1 x \<Longrightarrow> used (reverse_edges m es ?s1) x" for x
      using N2(1) by (simp add: assigns_def)
    have "used (reverse_edges m es ?s1) (ev e)" using N1(1) up by (simp add: assigns_def)
    moreover have "closed_under m (used (reverse_edges m es ?s1)) ((N1 @ [ev e]) @ N2)"
      using N1(2) N2(2) up by (auto simp: closed_under_def)
    moreover have "\<forall>n \<in> set ((N1 @ [ev e]) @ N2). \<exists>e \<in> set (e # es). (ev e, n) \<in> (dep m)\<^sup>*"
      using N1(3) N2(3) by auto
    ultimately show ?thesis
      using assigns_trans [OF N1(1) N2(1)] N2(4) False
      by (intro exI [of _ "(N1 @ [ev e]) @ N2"]) auto
  qed
qed

section \<open>The graph of components\<close>

text \<open>A fact every statement of the search keeps is kept by the search.\<close>

lemma reverse_keeps:
  assumes "\<And>i s. P s \<Longrightarrow> P (mark i s)" "\<And>i s. P s \<Longrightarrow> P (assign_scc i s)" "\<And>n s. P s \<Longrightarrow> P (dag_edge n s)"
  shows "P s \<Longrightarrow> P (dfs_reverse m i s)" and "P s \<Longrightarrow> P (reverse_edges m es s)"
proof (induction m i s and m es s rule: dfs_reverse_reverse_edges.induct)
  case (1 m i s)
  then show ?case using assms by (simp add: dfs_reverse.simps)
qed (simp_all add: assms)

definition dag_lists :: "scc_state \<Rightarrow> bool" where
  "dag_lists s \<longleftrightarrow> (\<forall>u v. (v \<in> set (scc_dependents s u) \<longleftrightarrow> dag_added s (u, v)) \<and>
     (u \<in> set (scc_parents s v) \<longleftrightarrow> dag_added s (u, v))) \<and>
     (\<forall>u. distinct (scc_dependents s u)) \<and> (\<forall>v. distinct (scc_parents s v))"

lemma dag_lists_dag_edge: "dag_lists s \<Longrightarrow> dag_lists (dag_edge n s)"
  unfolding dag_lists_def dag_edge_def Let_def by auto

lemma reverse_dag_lists: "dag_lists s \<Longrightarrow> dag_lists (dfs_reverse m i s)"
  by (rule reverse_keeps(1) [of dag_lists]) (simp_all add: dag_lists_dag_edge, simp_all add: dag_lists_def)

lemma reverse_dag_mono:
  "dag_added s p \<Longrightarrow> dag_added (dfs_reverse m i s) p"
  "dag_added s p \<Longrightarrow> dag_added (reverse_edges m es s) p"
  by (rule reverse_keeps [of "\<lambda>s. dag_added s p"]; simp add: dag_edge_def Let_def)+

text \<open>
  The entries of the graph of components made while component \<open>k\<close> is searched. \<open>B\<close> is what was
  visited before the root and \<open>cid\<close> its components. A visited node that is still on the
  recursion stack has no component yet and reads as 0, so besides the edges that enter the component
  from \<open>B\<close> there can be an entry for the pair of 0 and \<open>k\<close>, caused by an edge inside the component.
\<close>

definition dag_cause :: "edge_map \<Rightarrow> Inst set \<Rightarrow> (Inst \<Rightarrow> nat) \<Rightarrow> (Inst \<Rightarrow> bool) \<Rightarrow> nat \<Rightarrow> bool" where
  "dag_cause m B cid U u \<longleftrightarrow> (\<exists>x y. (y, x) \<in> dep m \<and> y \<notin> B \<and> U y \<and> U x \<and>
     (x \<in> B \<and> u = cid x \<or> x \<notin> B \<and> u = 0))"

definition dag_inv ::
  "edge_map \<Rightarrow> Inst set \<Rightarrow> (Inst \<Rightarrow> nat) \<Rightarrow> nat \<Rightarrow> (nat \<times> nat \<Rightarrow> bool) \<Rightarrow> scc_state \<Rightarrow> bool" where
  "dag_inv m B cid k D s \<longleftrightarrow> sccNum s = k \<and> (\<forall>x \<in> B. used s x \<and> sccId s x = cid x) \<and>
     (\<forall>x. x \<notin> B \<longrightarrow> sccId s x = 0 \<or> sccId s x = k) \<and>
     (\<forall>u v. dag_added s (u, v) \<longrightarrow> D (u, v) \<or> v = k \<and> u \<noteq> k \<and> dag_cause m B cid (used s) u)"

lemma dag_cause_mono:
  "dag_cause m B cid U u \<Longrightarrow> (\<And>x. U x \<Longrightarrow> V x) \<Longrightarrow> dag_cause m B cid V u"
  unfolding dag_cause_def by blast

lemma dag_cause_mark: "dag_cause m B cid U u \<Longrightarrow> dag_cause m B cid (U(i := True)) u"
  by (erule dag_cause_mono) simp

lemma dag_inv_mark: "dag_inv m B cid k D s \<Longrightarrow> dag_inv m B cid k D (mark i s)"
  unfolding dag_inv_def by (auto intro!: dag_cause_mark)

lemma dag_inv_assign: "dag_inv m B cid k D s \<Longrightarrow> i \<notin> B \<Longrightarrow> dag_inv m B cid k D (assign_scc i s)"
  unfolding dag_inv_def by auto

lemma dag_inv_dag_edge:
  assumes "dag_inv m B cid k D s" "(i, n) \<in> dep m" "i \<notin> B" "used s i" "used s n"
  shows "dag_inv m B cid k D (dag_edge n s)"
proof -
  let ?u = "sccId s n"
  have "dag_cause m B cid (used s) ?u" if "?u \<noteq> k"
    using assms that unfolding dag_cause_def dag_inv_def by (metis (full_types))
  moreover have "dag_added (dag_edge n s) p \<longleftrightarrow> dag_added s p \<or> (?u \<noteq> sccNum s \<and> p = (?u, sccNum s))" for p
    by (auto simp: dag_edge_def Let_def)
  ultimately show ?thesis using assms(1) unfolding dag_inv_def by auto
qed

lemma reverse_dag_inv:
  "\<not> used s i \<Longrightarrow> dag_inv m B cid k D s \<Longrightarrow> dag_inv m B cid k D (dfs_reverse m i s)"
  "(\<And>e. e \<in> set es \<Longrightarrow> (j, ev e) \<in> dep m) \<Longrightarrow> j \<notin> B \<Longrightarrow> used s j \<Longrightarrow> dag_inv m B cid k D s \<Longrightarrow>
    dag_inv m B cid k D (reverse_edges m es s)"
proof (induction m i s and m es s arbitrary: and j rule: dfs_reverse_reverse_edges.induct)
  case (1 m i s)
  then have "i \<notin> B" by (auto simp: dag_inv_def)
  then have "dag_inv m B cid k D (reverse_edges m (edges_at m i) (mark i s))"
    using "1.IH" [of i] dep_edge dag_inv_mark [OF "1.prems"(2)] by simp
  then show ?case using dag_inv_assign \<open>i \<notin> B\<close> by (simp add: dfs_reverse.simps)
next
  case (2 m s)
  then show ?case by simp
next
  case (3 m e es s)
  show ?case
  proof (cases "used s (ev e)")
    case True
    then show ?thesis
      using "3.IH"(3) [of j] "3.prems" dag_inv_dag_edge [of m B cid k D s j "ev e"] by simp
  next
    case False
    then have "used (dfs_reverse m (ev e) s) j"
      using reverse_assigns(1) [of s "ev e" m] "3.prems"(3) by (auto simp: assigns_def)
    then show ?thesis
      using "3.IH"(1) [OF False] "3.IH"(2) [OF False, of j] "3.prems" False by simp
  qed
qed

text \<open>No edge that enters the component is missed.\<close>

definition dag_entered ::
  "Inst set \<Rightarrow> (Inst \<Rightarrow> nat) \<Rightarrow> nat \<Rightarrow> scc_state \<Rightarrow> Edge list \<Rightarrow> bool" where
  "dag_entered B cid k s es \<longleftrightarrow>
     (\<forall>e \<in> set es. ev e \<in> B \<longrightarrow> cid (ev e) \<noteq> k \<longrightarrow> dag_added s (cid (ev e), k))"

definition dag_complete ::
  "edge_map \<Rightarrow> Inst set \<Rightarrow> (Inst \<Rightarrow> nat) \<Rightarrow> nat \<Rightarrow> scc_state \<Rightarrow> scc_state \<Rightarrow> bool" where
  "dag_complete m B cid k s s' \<longleftrightarrow>
     (\<forall>n. used s' n \<and> \<not> used s n \<longrightarrow> dag_entered B cid k s' (edges_at m n))"

lemma dag_entered_mono:
  "dag_entered B cid k s es \<Longrightarrow> (\<And>p. dag_added s p \<Longrightarrow> dag_added s' p) \<Longrightarrow> dag_entered B cid k s' es"
  unfolding dag_entered_def by blast

lemma dag_complete_trans:
  assumes "dag_complete m B cid k s s1" "dag_complete m B cid k s1 s2"
    and "\<And>p. dag_added s1 p \<Longrightarrow> dag_added s2 p"
  shows "dag_complete m B cid k s s2"
  using assms dag_entered_mono [of B cid k s1 _ s2] unfolding dag_complete_def by blast

lemma dag_edge_enters:
  assumes "dag_inv m B cid k D s" "n \<in> B" "cid n \<noteq> k"
  shows "dag_added (dag_edge n s) (cid n, k)"
  using assms by (auto simp: dag_edge_def dag_inv_def Let_def)

lemma reverse_dag_complete:
  "\<not> used s i \<Longrightarrow> dag_inv m B cid k D s \<Longrightarrow> dag_complete m B cid k s (dfs_reverse m i s)"
  "(\<And>e. e \<in> set es \<Longrightarrow> (j, ev e) \<in> dep m) \<Longrightarrow> j \<notin> B \<Longrightarrow> used s j \<Longrightarrow> dag_inv m B cid k D s \<Longrightarrow>
    dag_complete m B cid k s (reverse_edges m es s) \<and> dag_entered B cid k (reverse_edges m es s) es"
proof (induction m i s and m es s arbitrary: and j rule: dfs_reverse_reverse_edges.induct)
  case (1 m i s)
  then have "i \<notin> B" by (auto simp: dag_inv_def)
  then have "dag_complete m B cid k (mark i s) (reverse_edges m (edges_at m i) (mark i s)) \<and>
      dag_entered B cid k (reverse_edges m (edges_at m i) (mark i s)) (edges_at m i)"
    using "1.IH" [of i] dep_edge dag_inv_mark [OF "1.prems"(2)] by simp
  then have "dag_entered B cid k (reverse_edges m (edges_at m i) (mark i s)) (edges_at m n)"
    if "used (reverse_edges m (edges_at m i) (mark i s)) n" "\<not> used s n" for n
    using that by (cases "n = i") (auto simp: dag_complete_def)
  then show ?case
    unfolding dag_complete_def dag_entered_def dfs_reverse.simps assign_scc_fields by blast
next
  case (2 m s)
  then show ?case by (simp add: dag_complete_def dag_entered_def)
next
  case (3 m e es s)
  show ?case
  proof (cases "used s (ev e)")
    case True
    let ?s1 = "dag_edge (ev e) s"
    have "dag_inv m B cid k D ?s1" using dag_inv_dag_edge 3(4-7) True by (meson list.set_intros(1))
    then have "dag_complete m B cid k ?s1 (reverse_edges m es ?s1) \<and>
        dag_entered B cid k (reverse_edges m es ?s1) es"
      using "3.IH"(3) [of j] "3.prems" True by simp
    moreover have "ev e \<in> B \<Longrightarrow> cid (ev e) \<noteq> k \<Longrightarrow> dag_added (reverse_edges m es ?s1) (cid (ev e), k)"
      using dag_edge_enters [OF "3.prems"(4)] reverse_dag_mono(2) by blast
    ultimately show ?thesis using True by (auto simp: dag_complete_def dag_entered_def)
  next
    case False
    let ?s1 = "dfs_reverse m (ev e) s"
    have j: "used ?s1 j"
      using reverse_assigns(1) [OF False, of m] "3.prems"(3) by (auto simp: assigns_def)
    have "dag_complete m B cid k ?s1 (reverse_edges m es ?s1) \<and>
        dag_entered B cid k (reverse_edges m es ?s1) es"
      using "3.IH"(2) [OF False, of j] "3.prems" j reverse_dag_inv(1) [OF False "3.prems"(4)] by simp
    moreover have "dag_complete m B cid k s ?s1" using "3.IH"(1) [OF False False] "3.prems"(4) by blast
    moreover have "ev e \<notin> B" using False "3.prems"(4) by (auto simp: dag_inv_def)
    ultimately show ?thesis
      using False dag_complete_trans reverse_dag_mono(2) by (auto simp: dag_entered_def)
  qed
qed

text \<open>
  An edge inside the component always leaves its entry: the first node of a closed set \<open>C\<close> of nodes that the search
  finishes has an edge to a node of \<open>C\<close>, and that node is still on the stack.
\<close>

definition inner_edges :: "edge_map \<Rightarrow> Inst set \<Rightarrow> Inst set \<Rightarrow> bool" where
  "inner_edges m B C \<longleftrightarrow> (\<forall>n \<in> C. (\<exists>e \<in> set (edges_at m n). ev e \<in> C) \<and> (\<forall>e \<in> set (edges_at m n). ev e \<in> B \<union> C))"

definition unfinished :: "Inst set \<Rightarrow> nat \<Rightarrow> scc_state \<Rightarrow> bool" where
  "unfinished B k s \<longleftrightarrow> sccNum s = k \<and> 0 < k \<and> (\<forall>x \<in> B. used s x) \<and> (\<forall>x. x \<notin> B \<longrightarrow> sccId s x = 0)"

lemma unfinished_frame [simp]:
  "unfinished B k s \<Longrightarrow> unfinished B k (mark i s)" "unfinished B k (dag_edge n s) = unfinished B k s"
  by (simp_all add: unfinished_def)

lemma reverse_inner_edge:
  "inner_edges m B C \<Longrightarrow> B \<inter> C = {} \<Longrightarrow> i \<in> C \<Longrightarrow> unfinished B k s \<Longrightarrow> dag_added (dfs_reverse m i s) (0, k)"
  "inner_edges m B C \<Longrightarrow> B \<inter> C = {} \<Longrightarrow> \<forall>e \<in> set es. ev e \<in> B \<union> C \<Longrightarrow> \<exists>e \<in> set es. ev e \<in> C \<Longrightarrow>
    unfinished B k s \<Longrightarrow> dag_added (reverse_edges m es s) (0, k)"
proof (induction m i s and m es s rule: dfs_reverse_reverse_edges.induct)
  case (1 m i s)
  then show ?case by (simp add: dfs_reverse.simps inner_edges_def)
next
  case (2 m s)
  then show ?case by simp
next
  case (3 m e es s)
  show ?case
  proof (cases "used s (ev e)")
    case True
    show ?thesis
    proof (cases "ev e \<in> C")
      case True
      then have "sccId s (ev e) = 0" "sccNum s = k" "k \<noteq> 0" using "3.prems"(2,5) by (auto simp: unfinished_def)
      then have "dag_added (dag_edge (ev e) s) (0, k)" by (simp add: dag_edge_def Let_def)
      then show ?thesis using \<open>used s (ev e)\<close> by (simp add: reverse_dag_mono(2))
    next
      case False
      then show ?thesis using "3.IH"(3) \<open>used s (ev e)\<close> "3.prems" by auto
    qed
  next
    case False
    then have "ev e \<in> C" using "3.prems"(3,5) by (auto simp: unfinished_def)
    then have "dag_added (dfs_reverse m (ev e) s) (0, k)" using "3.IH"(1) False "3.prems"(1,2,5) by blast
    then show ?thesis using False by (simp add: reverse_dag_mono(2))
  qed
qed

end
