(* ===== verification/SCC_Correct.thy ===== *)
theory SCC_Correct
  imports SCC_Forward SCC_Reverse
begin

text \<open>
  \<open>findSCC\<close> of \<^verbatim>\<open>DSWP_2.cpp\<close> computes the strongly connected components of the dependence graph, numbered in
  a topological order, and the graph of components. The proof is an induction over the reverse
  search's loop, inside the locale \<open>rev_graph\<close>: all it uses of the two maps is that one is the
  converse of the other.
\<close>

section \<open>The invariant of the loop of the reverse search\<close>

text \<open>What is numbered so far: a set of nodes closed under predecessors, partitioned correctly.\<close>

definition visited :: "scc_state \<Rightarrow> Inst set" where
  "visited s = {x. used s x}"

definition pred_closed :: "edge_map \<Rightarrow> Inst set \<Rightarrow> bool" where
  "pred_closed m B \<longleftrightarrow> (\<forall>x y. (x, y) \<in> dep m \<longrightarrow> y \<in> B \<longrightarrow> x \<in> B)"

definition partition_inv :: "edge_map \<Rightarrow> scc_state \<Rightarrow> bool" where
  "partition_inv m s \<longleftrightarrow>
     (\<forall>x \<in> visited s. sccId s x < sccNum s) \<and> (\<forall>x. x \<notin> visited s \<longrightarrow> sccId s x = 0) \<and>
     (\<forall>x \<in> visited s. \<forall>y \<in> visited s. sccId s x = sccId s y \<longleftrightarrow> connected m x y) \<and>
     (\<forall>x \<in> visited s. \<forall>y \<in> visited s. (x, y) \<in> dep m \<longrightarrow> sccId s x \<le> sccId s y)"

definition members_inv :: "scc_state \<Rightarrow> bool" where
  "members_inv s \<longleftrightarrow> length (InstInSCC s) = sccNum s \<and>
     (\<forall>i < sccNum s. InstInSCC s ! i \<noteq> [] \<and> distinct (InstInSCC s ! i) \<and>
       set (InstInSCC s ! i) = {x \<in> visited s. sccId s x = i})"

text \<open>
  The cause of an edge of the graph of components: a dependence between the two components; or, for
  component 0 only, a dependence inside the later component. Every cause has its edge.
\<close>

definition crossing :: "edge_map \<Rightarrow> Inst set \<Rightarrow> (Inst \<Rightarrow> nat) \<Rightarrow> nat \<Rightarrow> nat \<Rightarrow> bool" where
  "crossing m B cid u v \<longleftrightarrow> (\<exists>x \<in> B. \<exists>y \<in> B. (x, y) \<in> dep m \<and> cid x = u \<and> cid y = v)"

definition dag_state_inv :: "edge_map \<Rightarrow> scc_state \<Rightarrow> bool" where
  "dag_state_inv m s \<longleftrightarrow> dag_lists s \<and>
     (\<forall>u v. dag_added s (u, v) \<longrightarrow> u < v \<and> v < sccNum s \<and>
       (crossing m (visited s) (sccId s) u v \<or> u = 0 \<and> crossing m (visited s) (sccId s) v v)) \<and>
     (\<forall>u v. u \<noteq> v \<longrightarrow> crossing m (visited s) (sccId s) u v \<longrightarrow> dag_added s (u, v)) \<and>
     (\<forall>v. 0 < v \<longrightarrow> crossing m (visited s) (sccId s) v v \<longrightarrow> dag_added s (0, v))"

definition scc_inv :: "edge_map \<Rightarrow> scc_state \<Rightarrow> bool" where
  "scc_inv m s \<longleftrightarrow> pred_closed m (visited s) \<and> partition_inv m s \<and> members_inv s \<and> dag_state_inv m s"

lemma pred_closed_path: "pred_closed m B \<Longrightarrow> (x, y) \<in> (dep m)\<^sup>* \<Longrightarrow> y \<in> B \<Longrightarrow> x \<in> B"
  by (rotate_tac 1, induction rule: converse_rtrancl_induct) (auto simp: pred_closed_def)

lemma connected_sym: "connected m x y \<Longrightarrow> connected m y x"
  by (simp add: connected_def)

lemma connected_refl: "connected m x x"
  by (simp add: connected_def)

lemma connected_trans: "connected m x y \<Longrightarrow> connected m y z \<Longrightarrow> connected m x z"
  by (auto simp: connected_def intro: rtrancl_trans)

section \<open>One root\<close>

text \<open>The state after one root: its component has the next number.\<close>

definition extends :: "edge_map \<Rightarrow> edge_map \<Rightarrow> scc_state \<Rightarrow> Inst set \<Rightarrow> scc_state \<Rightarrow> bool" where
  "extends fwd bwd s C s' \<longleftrightarrow> finite C \<and> C \<noteq> {} \<and> C \<inter> visited s = {} \<and> visited s' = visited s \<union> C \<and>
     sccNum s' = sccNum s + 1 \<and> (\<forall>x. sccId s' x = (if x \<in> C then sccNum s else sccId s x)) \<and>
     (\<exists>M. M \<noteq> [] \<and> distinct M \<and> set M = C \<and> (length (InstInSCC s) = sccNum s \<longrightarrow> InstInSCC s' = InstInSCC s @ [M])) \<and>
     (\<forall>y \<in> C. \<forall>x. (x, y) \<in> dep fwd \<longrightarrow> x \<in> visited s' \<and>
        (x \<in> visited s \<longrightarrow> sccId s x \<noteq> sccNum s \<longrightarrow> dag_added s' (sccId s x, sccNum s))) \<and>
     (\<forall>p. dag_added s p \<longrightarrow> dag_added s' p) \<and> (dag_lists s \<longrightarrow> dag_lists s')"

lemma extends_partition:
  assumes "extends fwd bwd s {y. connected fwd r y} s'" "pred_closed fwd (visited s)" "partition_inv fwd s"
  shows "partition_inv fwd s'"
proof -
  let ?C = "{y. connected fwd r y}" and ?B = "visited s"
  have v: "visited s' = ?B \<union> ?C" "?C \<inter> ?B = {}" "sccNum s' = sccNum s + 1"
    and i: "sccId s' x = (if x \<in> ?C then sccNum s else sccId s x)" for x
    using assms(1) by (simp_all add: extends_def)
  have old: "x \<in> ?B \<Longrightarrow> sccId s x < sccNum s" for x
    using assms(3) by (simp add: partition_inv_def)
  have cross: "x \<in> ?B \<Longrightarrow> y \<in> ?C \<Longrightarrow> \<not> connected fwd x y \<and> \<not> connected fwd y x" for x y
    using v(2) connected_trans connected_sym by blast
  have "sccId s' x < sccNum s'" if "x \<in> visited s'" for x
    using that old [of x] by (auto simp: v i)
  moreover have "sccId s' x = 0" if "x \<notin> visited s'" for x
    using that assms(3) by (auto simp: v i partition_inv_def)
  moreover have "sccId s' x = sccId s' y \<longleftrightarrow> connected fwd x y" if "x \<in> visited s'" "y \<in> visited s'" for x y
  proof -
    consider "x \<in> ?C" "y \<in> ?C" | "x \<in> ?B" "y \<in> ?B" | "x \<in> ?B" "y \<in> ?C" | "x \<in> ?C" "y \<in> ?B"
      using \<open>x \<in> visited s'\<close> \<open>y \<in> visited s'\<close> v(1) by blast
    then show ?thesis
    proof cases
      case 1
      then have "connected fwd x y" using connected_trans connected_sym by blast
      then show ?thesis using 1 by (simp add: i)
    next
      case 2
      then have "x \<notin> ?C" "y \<notin> ?C" using v(2) by blast+
      then show ?thesis using 2 assms(3) by (auto simp: i partition_inv_def)
    next
      case 3
      then have "x \<notin> ?C" using v(2) by blast
      then show ?thesis using 3 cross [OF 3] old [of x] by (auto simp: i)
    next
      case 4
      then have "y \<notin> ?C" using v(2) by blast
      then show ?thesis using 4 cross [OF 4(2,1)] old [of y] by (auto simp: i)
    qed
  qed
  moreover have "sccId s' x \<le> sccId s' y"
    if e: "x \<in> visited s'" "y \<in> visited s'" "(x, y) \<in> dep fwd" for x y
  proof (cases "y \<in> ?C")
    case True
    then show ?thesis using e(1) old [of x] by (auto simp: i v(1) intro: less_imp_le)
  next
    case False
    then have y: "y \<in> ?B" using e(2) v(1) by blast
    then have x: "x \<in> ?B" using e(3) assms(2) by (auto simp: pred_closed_def)
    then have "x \<notin> ?C" using v(2) by blast
    with False x y e(3) assms(3) show ?thesis by (auto simp: i partition_inv_def)
  qed
  ultimately show ?thesis unfolding partition_inv_def by blast
qed

lemma extends_members:
  assumes "extends fwd bwd s C s'" "members_inv s" "partition_inv fwd s"
  shows "members_inv s'"
proof -
  have l: "length (InstInSCC s) = sccNum s" using assms(2) by (simp add: members_inv_def)
  with assms(1) obtain M where M: "M \<noteq> []" "distinct M" "set M = C" "InstInSCC s' = InstInSCC s @ [M]"
    unfolding extends_def by blast
  have v: "visited s' = visited s \<union> C" "C \<inter> visited s = {}" "sccNum s' = sccNum s + 1"
    and i: "sccId s' x = (if x \<in> C then sccNum s else sccId s x)" for x
    using assms(1) by (simp_all add: extends_def)
  have old: "x \<in> visited s \<Longrightarrow> sccId s x < sccNum s" for x
    using assms(3) by (simp add: partition_inv_def)
  have "InstInSCC s' ! k \<noteq> [] \<and> distinct (InstInSCC s' ! k) \<and>
      set (InstInSCC s' ! k) = {x \<in> visited s'. sccId s' x = k}" if k: "k < sccNum s'" for k
  proof (cases "k = sccNum s")
    case True
    then have "{x \<in> visited s'. sccId s' x = k} = C" by (auto simp: v(1) i dest: old)
    then show ?thesis using True M l by (simp add: nth_append)
  next
    case False
    then have "{x \<in> visited s'. sccId s' x = k} = {x \<in> visited s. sccId s x = k}"
      using v(2) by (auto simp: v(1) i)
    then show ?thesis using False k l M(4) assms(2) v(3) by (simp add: members_inv_def nth_append)
  qed
  then show ?thesis using l M(4) v(3) by (simp add: members_inv_def)
qed

lemma extends_pred_closed:
  "extends fwd bwd s C s' \<Longrightarrow> pred_closed fwd (visited s) \<Longrightarrow> pred_closed fwd (visited s')"
  unfolding extends_def pred_closed_def by blast

lemma crossing_mono:
  assumes "crossing m B cid u v" "B \<subseteq> B'" "\<And>x. x \<in> B \<Longrightarrow> cid' x = cid x"
  shows "crossing m B' cid' u v"
  using assms unfolding crossing_def by (metis subsetD)

lemma extends_dag:
  assumes ext: "extends fwd bwd s C s'" and closed: "pred_closed fwd (visited s)"
    and part: "partition_inv fwd s" and dag: "dag_state_inv fwd s"
    and cause: "\<forall>u v. dag_added s' (u, v) \<longrightarrow> dag_added s (u, v) \<or> v = sccNum s \<and> u \<noteq> sccNum s \<and>
      (\<exists>x \<in> visited s'. \<exists>y \<in> C. (x, y) \<in> dep fwd \<and> (x \<in> visited s \<and> u = sccId s x \<or> x \<in> C \<and> u = 0))"
    and inner: "0 < sccNum s \<Longrightarrow> \<exists>x \<in> C. \<exists>y \<in> C. (x, y) \<in> dep fwd \<Longrightarrow> dag_added s' (0, sccNum s)"
  shows "dag_state_inv fwd s'"
proof -
  have v: "visited s' = visited s \<union> C" "C \<inter> visited s = {}" "sccNum s' = sccNum s + 1"
    and i: "sccId s' x = (if x \<in> C then sccNum s else sccId s x)" for x
    using ext by (simp_all add: extends_def)
  have mono: "dag_added s p \<Longrightarrow> dag_added s' p" for p
    using ext unfolding extends_def by blast
  have enter: "y \<in> C \<Longrightarrow> (x, y) \<in> dep fwd \<Longrightarrow> x \<in> visited s \<Longrightarrow> sccId s x \<noteq> sccNum s \<Longrightarrow>
      dag_added s' (sccId s x, sccNum s)" for x y
    using ext by (simp add: extends_def)
  have i': "x \<in> visited s \<Longrightarrow> sccId s' x = sccId s x" for x using i v(2) by auto
  have old: "x \<in> visited s \<Longrightarrow> sccId s x < sccNum s" for x
    using part by (simp add: partition_inv_def)
  have cm: "crossing fwd (visited s) (sccId s) u w \<Longrightarrow> crossing fwd (visited s') (sccId s') u w" for u w
    by (erule crossing_mono) (auto simp: v(1) i')
  have sound: "u < w \<and> w < sccNum s' \<and> (crossing fwd (visited s') (sccId s') u w \<or>
      u = 0 \<and> crossing fwd (visited s') (sccId s') w w)" if a: "dag_added s' (u, w)" for u w
  proof (cases "dag_added s (u, w)")
    case True
    then have "u < w" "w < sccNum s" "crossing fwd (visited s) (sccId s) u w \<or>
        u = 0 \<and> crossing fwd (visited s) (sccId s) w w"
      using dag unfolding dag_state_inv_def by blast+
    then show ?thesis using cm v(3) by auto
  next
    case False
    with cause a obtain x y where w: "w = sccNum s" "u \<noteq> sccNum s" and xy: "y \<in> C" "(x, y) \<in> dep fwd"
      "x \<in> visited s \<and> u = sccId s x \<or> x \<in> C \<and> u = 0"
      by blast
    have y: "sccId s' y = w" "y \<in> visited s'" using xy(1) w by (simp_all add: i v(1))
    from xy(3) show ?thesis
    proof
      assume x: "x \<in> visited s \<and> u = sccId s x"
      then have "crossing fwd (visited s') (sccId s') u w"
        using xy(2) y i' v(1) unfolding crossing_def by blast
      then show ?thesis using x old w v(3) by auto
    next
      assume x: "x \<in> C \<and> u = 0"
      then have "crossing fwd (visited s') (sccId s') w w"
        using xy(2) y v(1) i w(1) unfolding crossing_def by (metis UnI2)
      then show ?thesis using x w v(3) by auto
    qed
  qed
  have complete: "dag_added s' (u, w)"
    if c: "crossing fwd (visited s') (sccId s') u w" and ne: "u \<noteq> w" for u w
  proof -
    obtain x y where xy: "x \<in> visited s'" "y \<in> visited s'" "(x, y) \<in> dep fwd" "sccId s' x = u" "sccId s' y = w"
      using c by (auto simp: crossing_def)
    show ?thesis
    proof (cases "y \<in> C")
      case True
      then have w: "w = sccNum s" using xy(5) i by simp
      then have "x \<notin> C" using xy(4) ne i by auto
      then have x: "x \<in> visited s" "u = sccId s x" using xy(1,4) v(1) i by auto
      then show ?thesis using enter [OF True xy(3)] w ne by simp
    next
      case False
      then have y: "y \<in> visited s" using xy(2) v(1) by blast
      then have x: "x \<in> visited s" using xy(3) closed by (auto simp: pred_closed_def)
      have "crossing fwd (visited s) (sccId s) u w"
        using x y xy(3,4,5) i' unfolding crossing_def by metis
      then show ?thesis using dag ne mono unfolding dag_state_inv_def by blast
    qed
  qed
  have lists: "dag_lists s'" using ext dag by (simp add: extends_def dag_state_inv_def)
  have loops: "dag_added s' (0, w)" if c: "crossing fwd (visited s') (sccId s') w w" and w: "0 < w" for w
  proof -
    obtain x y where xy: "x \<in> visited s'" "y \<in> visited s'" "(x, y) \<in> dep fwd" "sccId s' x = w" "sccId s' y = w"
      using c by (auto simp: crossing_def)
    show ?thesis
    proof (cases "w = sccNum s")
      case True
      then have "x \<in> C" "y \<in> C" using xy(1,2,4,5) old i' v(1) by (metis UnE less_irrefl)+
      then have "\<exists>x \<in> C. \<exists>y \<in> C. (x, y) \<in> dep fwd" using xy(3) by blast
      then show ?thesis using inner w True by simp
    next
      case False
      then have "x \<in> visited s" "y \<in> visited s" using xy(1,2,4,5) i v(1) by (metis UnE)+
      then have "crossing fwd (visited s) (sccId s) w w"
        using xy(3-5) i' unfolding crossing_def by metis
      then show ?thesis using dag w mono unfolding dag_state_inv_def by blast
    qed
  qed
  from sound complete lists loops show ?thesis unfolding dag_state_inv_def by blast
qed

context rev_graph
begin

text \<open>The nodes visited from the root are exactly its component.\<close>

lemma component_of_root:
  assumes fin: "finish_order fwd is xs" and within: "\<forall>(x, y) \<in> dep fwd. x \<in> set is"
    and split: "xs = as @ r # bs" "set bs \<subseteq> visited s" and new: "r \<notin> visited s"
    and closed: "pred_closed fwd (visited s)"
    and srch: "assigns s s1 (N @ [r])" "closed_under bwd (used s1) (N @ [r])"
      "\<forall>n \<in> set N. (r, n) \<in> (dep bwd)\<^sup>*"
  shows "set (N @ [r]) = {y. connected fwd r y}"
proof (intro set_eqI iffI)
  fix y
  assume y: "y \<in> set (N @ [r])"
  then have "(r, y) \<in> (dep bwd)\<^sup>*" using srch(3) by auto
  then have yr: "(y, r) \<in> (dep fwd)\<^sup>*" by (simp add: bwd_dep rtrancl_converse)
  then have "y = r \<or> y \<in> set is" using within by (metis (no_types, lifting) case_prodD converse_rtranclE)
  then have "y \<in> set xs" using fin split(1) by (auto simp: finish_order_def)
  then obtain z where z: "connected fwd y z" "upto xs r z"
    using fin yr unfolding finish_order_def by blast
  have "z = r \<or> z \<in> set bs" using upto_split [OF z(2) split(1)] fin by (simp add: finish_order_def)
  moreover have "z \<notin> set bs"
  proof
    assume "z \<in> set bs"
    then have "y \<in> visited s"
      using pred_closed_path [OF closed] z(1) split(2) by (auto simp: connected_def)
    with y srch(1) show False unfolding assigns_def visited_def by blast
  qed
  ultimately show "y \<in> {y. connected fwd r y}" using z(1) connected_sym by auto
next
  fix y
  assume "y \<in> {y. connected fwd r y}"
  then have c: "(r, y) \<in> (dep fwd)\<^sup>*" "(y, r) \<in> (dep fwd)\<^sup>*" by (auto simp: connected_def)
  have y: "y \<notin> visited s" using pred_closed_path [OF closed c(1)] new by blast
  have "(r, y) \<in> (dep bwd)\<^sup>*" using c(2) by (simp add: bwd_dep rtrancl_converse)
  then have "y \<in> visited s \<or> y \<in> set (N @ [r])"
  proof (induction rule: rtrancl_induct)
    case (step y z)
    then consider "y \<in> visited s" | "y \<in> set (N @ [r])" by blast
    then show ?case
    proof cases
      case 1
      have "(z, y) \<in> dep fwd" using step.hyps(2) by (simp add: bwd_dep)
      then show ?thesis using closed 1 by (auto simp: pred_closed_def)
    next
      case 2
      then have "used s1 z"
        using srch(2) step.hyps(2) by (auto simp: closed_under_def dep_def targets_def)
      then show ?thesis using srch(1) unfolding assigns_def visited_def by blast
    qed
  qed simp
  with y show "y \<in> set (N @ [r])" by blast
qed

text \<open>With one edge inside the component every node of it has an edge inside it.\<close>

lemma component_inner_edges:
  assumes "connected fwd r x" "connected fwd r y" "(x, y) \<in> dep fwd"
    and "\<And>n p. connected fwd r n \<Longrightarrow> (p, n) \<in> dep fwd \<Longrightarrow> p \<in> B \<union> {y. connected fwd r y}"
  shows "inner_edges bwd B {y. connected fwd r y}"
proof -
  have step: "e \<in> set (edges_at bwd n) \<Longrightarrow> (ev e, n) \<in> dep fwd" for e n
    using dep_edge [of e bwd n] by (simp add: bwd_dep)
  have "\<exists>p. (p, n) \<in> dep fwd \<and> connected fwd r p" if n: "connected fwd r n" for n
  proof (cases "n = y")
    case True
    then show ?thesis using assms(1,3) by blast
  next
    case False
    have c: "connected fwd y n" using connected_trans [OF connected_sym [OF assms(2)] n] .
    then have "(y, n) \<in> (dep fwd)\<^sup>*" by (simp add: connected_def)
    then obtain p where p: "(y, p) \<in> (dep fwd)\<^sup>*" "(p, n) \<in> dep fwd" using False by (metis rtranclE)
    have "(n, p) \<in> (dep fwd)\<^sup>*" using c p(1) unfolding connected_def by (meson rtrancl_trans)
    then have "connected fwd n p" using p(2) unfolding connected_def by blast
    then show ?thesis using p(2) connected_trans [OF n] by blast
  qed
  moreover have "\<exists>e \<in> set (edges_at bwd n). ev e = p" if "(p, n) \<in> dep fwd" for p n
  proof -
    have "(n, p) \<in> dep bwd" using that by (simp add: bwd_dep)
    then show ?thesis by (auto simp: dep_def targets_def)
  qed
  ultimately show ?thesis using assms(4) step unfolding inner_edges_def by blast
qed

text \<open>One root: the search from it extends the state by its component.\<close>

lemma reverse_visit_extends:
  assumes fin: "finish_order fwd is xs" and within: "\<forall>(x, y) \<in> dep fwd. x \<in> set is"
    and split: "xs = as @ r # bs" "set bs \<subseteq> visited s" and new: "\<not> used s r" and inv: "scc_inv fwd s"
  shows "scc_inv fwd (reverse_visit bwd r s) \<and> visited (reverse_visit bwd r s) = visited s \<union> {y. connected fwd r y}"
proof -
  let ?s0 = "s\<lparr>InstInSCC := InstInSCC s @ [[]]\<rparr>" and ?C = "{y. connected fwd r y}"
  let ?s1 = "dfs_reverse bwd r ?s0" and ?s' = "reverse_visit bwd r s"
  let ?B = "visited s" and ?k = "sccNum s"
  have s': "?s' = ?s1\<lparr>sccNum := sccNum ?s1 + 1\<rparr>" using new by (simp add: reverse_visit_def Let_def)
  have B0: "visited ?s0 = ?B" by (simp add: visited_def)
  have r: "\<not> used ?s0 r" "r \<notin> visited ?s0" using new by (simp_all add: visited_def)
  have closed: "pred_closed fwd ?B" and part: "partition_inv fwd s" and mem: "members_inv s"
    and dag: "dag_state_inv fwd s"
    using inv by (simp_all add: scc_inv_def)
  obtain N where N: "assigns ?s0 ?s1 (N @ [r])" "closed_under bwd (used ?s1) (N @ [r])"
    "\<forall>n \<in> set N. (r, n) \<in> (dep bwd)\<^sup>*"
    using reverse_assigns(1) [OF r(1)] by blast
  have C: "set (N @ [r]) = ?C"
    using component_of_root [OF fin within split(1) _ r(2) _ N] split(2) closed by (simp add: B0)
  have a: "distinct (N @ [r])" "used ?s1 x \<longleftrightarrow> used s x \<or> x \<in> ?C" "x \<in> ?C \<Longrightarrow> \<not> used s x" "sccNum ?s1 = ?k"
    "sccId ?s1 x = (if x \<in> ?C then ?k else sccId s x)" for x
    using N(1) unfolding assigns_def C by auto
  have m: "length (InstInSCC s) = ?k \<Longrightarrow> InstInSCC ?s1 = InstInSCC s @ [N @ [r]]"
    using N(1) by (simp add: assigns_def nth_append list_update_append)
  have di0: "dag_inv bwd ?B (sccId s) ?k (dag_added s) ?s0"
    using part by (auto simp: dag_inv_def partition_inv_def visited_def)
  have di: "dag_inv bwd ?B (sccId s) ?k (dag_added s) ?s1" by (rule reverse_dag_inv(1) [OF r(1) di0])
  have dc: "dag_complete bwd ?B (sccId s) ?k ?s0 ?s1" by (rule reverse_dag_complete(1) [OF r(1) di0])
  have v: "visited ?s' = ?B \<union> ?C" using a(2) by (auto simp: s' visited_def)
  have enter: "x \<in> visited ?s' \<and> (x \<in> ?B \<longrightarrow> sccId s x \<noteq> ?k \<longrightarrow> dag_added ?s1 (sccId s x, ?k))"
    if y: "y \<in> ?C" and xy: "(x, y) \<in> dep fwd" for x y
  proof -
    have "(y, x) \<in> dep bwd" using xy by (simp add: bwd_dep)
    then obtain e where e: "e \<in> set (edges_at bwd y)" "ev e = x" by (auto simp: dep_def targets_def)
    then have "used ?s1 x" using N(2) y unfolding closed_under_def C by blast
    moreover have "dag_entered ?B (sccId s) ?k ?s1 (edges_at bwd y)"
      using dc a(2,3) [of y] y unfolding dag_complete_def by simp
    ultimately show ?thesis using e unfolding dag_entered_def by (auto simp: s' visited_def)
  qed
  have lists: "dag_lists s \<Longrightarrow> dag_lists ?s'"
    using reverse_dag_lists [of ?s0 bwd r] by (simp add: s' dag_lists_def)
  have mono: "dag_added s p \<Longrightarrow> dag_added ?s1 p" for p
    using reverse_dag_mono(1) [of ?s0 p bwd r] by simp
  have disj: "?C \<inter> ?B = {}" using a(3) unfolding visited_def by blast
  have finC: "finite ?C" unfolding C [symmetric] by simp
  have memM: "\<exists>M. M \<noteq> [] \<and> distinct M \<and> set M = ?C \<and>
      (length (InstInSCC s) = ?k \<longrightarrow> InstInSCC ?s' = InstInSCC s @ [M])"
    using a(1) C m by (intro exI [of _ "N @ [r]"]) (simp add: s')
  have ext: "extends fwd bwd s ?C ?s'"
    unfolding extends_def
  proof (intro conjI)
    show "?C \<noteq> {}" using connected_refl by blast
    show "sccNum ?s' = sccNum s + 1" using a(4) by (simp add: s')
    show "\<forall>x. sccId ?s' x = (if x \<in> ?C then sccNum s else sccId s x)" using a(5) by (simp add: s')
    show "\<forall>y \<in> ?C. \<forall>x. (x, y) \<in> dep fwd \<longrightarrow> x \<in> visited ?s' \<and>
        (x \<in> visited s \<longrightarrow> sccId s x \<noteq> sccNum s \<longrightarrow> dag_added ?s' (sccId s x, sccNum s))"
      using enter by (simp add: s')
    show "\<forall>p. dag_added s p \<longrightarrow> dag_added ?s' p" using mono by (simp add: s')
  qed (use finC disj v memM lists in blast)+
  have cause: "\<forall>u w. dag_added ?s' (u, w) \<longrightarrow> dag_added s (u, w) \<or> w = ?k \<and> u \<noteq> ?k \<and>
      (\<exists>x \<in> visited ?s'. \<exists>y \<in> ?C. (x, y) \<in> dep fwd \<and> (x \<in> ?B \<and> u = sccId s x \<or> x \<in> ?C \<and> u = 0))"
  proof (intro allI impI)
    fix u w
    assume "dag_added ?s' (u, w)"
    then have "dag_added s (u, w) \<or> w = ?k \<and> u \<noteq> ?k \<and> dag_cause bwd ?B (sccId s) (used ?s1) u"
      using di unfolding dag_inv_def by (simp add: s')
    then show "dag_added s (u, w) \<or> w = ?k \<and> u \<noteq> ?k \<and>
      (\<exists>x \<in> visited ?s'. \<exists>y \<in> ?C. (x, y) \<in> dep fwd \<and> (x \<in> ?B \<and> u = sccId s x \<or> x \<in> ?C \<and> u = 0))"
    proof
      assume h: "w = ?k \<and> u \<noteq> ?k \<and> dag_cause bwd ?B (sccId s) (used ?s1) u"
      then obtain x y where xy: "(y, x) \<in> dep bwd" "y \<notin> ?B" "used ?s1 y" "used ?s1 x"
        "x \<in> ?B \<and> u = sccId s x \<or> x \<notin> ?B \<and> u = 0"
        unfolding dag_cause_def by blast
      have "y \<in> ?C" using xy(2,3) a(2) unfolding visited_def by blast
      moreover have "(x, y) \<in> dep fwd" using xy(1) by (simp add: bwd_dep)
      moreover have "x \<in> visited ?s'" "x \<notin> ?B \<longrightarrow> x \<in> ?C" using xy(4) a(2) v unfolding visited_def by blast+
      ultimately show ?thesis using h xy(5) by blast
    qed simp
  qed
  have inner: "dag_added ?s' (0, ?k)" if k: "0 < ?k" and e: "\<exists>x \<in> ?C. \<exists>y \<in> ?C. (x, y) \<in> dep fwd"
  proof -
    have "inner_edges bwd ?B ?C" using e enter v by (auto intro: component_inner_edges)
    moreover have "unfinished ?B ?k ?s0" using k part by (auto simp: unfinished_def partition_inv_def visited_def)
    ultimately have "dag_added ?s1 (0, ?k)" using reverse_inner_edge(1) disj connected_refl by (metis Int_commute mem_Collect_eq)
    then show ?thesis by (simp add: s')
  qed
  show ?thesis
    unfolding scc_inv_def
    using v extends_pred_closed [OF ext closed] extends_partition [OF ext closed part]
      extends_members [OF ext mem part] extends_dag [OF ext closed part dag cause inner]
    by blast
qed

text \<open>The loop over the list from its end: what it has passed is visited.\<close>

lemma reverse_loop:
  assumes fin: "finish_order fwd is xs" and within: "\<forall>(x, y) \<in> dep fwd. x \<in> set is"
  shows "xs = as @ bs \<Longrightarrow> set bs \<subseteq> visited s \<Longrightarrow> visited s \<subseteq> set xs \<Longrightarrow> scc_inv fwd s \<Longrightarrow>
    scc_inv fwd (fold (reverse_visit bwd) (rev as) s) \<and>
    visited (fold (reverse_visit bwd) (rev as) s) = set xs"
proof (induction as arbitrary: bs s rule: rev_induct)
  case Nil
  then show ?case by auto
next
  case (snoc r as)
  let ?s' = "reverse_visit bwd r s"
  have xs: "xs = as @ r # bs" using snoc.prems(1) by simp
  have "scc_inv fwd ?s' \<and> insert r (visited s) \<subseteq> visited ?s' \<and> visited ?s' \<subseteq> set xs"
  proof (cases "used s r")
    case True
    then show ?thesis using snoc.prems by (simp add: reverse_visit_def visited_def)
  next
    case False
    have "y \<in> set xs" if "connected fwd r y" for y
    proof -
      have "r \<in> (dep fwd)\<^sup>* `` set is" using fin xs unfolding finish_order_def by (metis in_set_conv_decomp)
      then have "y \<in> (dep fwd)\<^sup>* `` set is"
        using that unfolding connected_def by (blast intro: rtrancl_trans)
      then show ?thesis using fin by (simp add: finish_order_def)
    qed
    then show ?thesis
      using reverse_visit_extends [OF fin within xs snoc.prems(2) False snoc.prems(4)] connected_refl [of fwd r]
        snoc.prems(3) by auto
  qed
  then have s': "scc_inv fwd ?s'" "set (r # bs) \<subseteq> visited ?s'" "visited ?s' \<subseteq> set xs"
    using snoc.prems(2) by auto
  show ?case using snoc.IH [OF xs s'(2,3,1)] by simp
qed

end

end
