(* ===== verification/SCC_Result.thy ===== *)
theory SCC_Result
  imports SCC_Correct
begin

text \<open>
  The result of \<open>findSCC\<close> of \<^verbatim>\<open>DSWP_2.cpp\<close> from the fields as \<open>clear\<close> leaves them, on any graph that satisfies
  the invariant of \<open>addEdge\<close> and whose edges connect instructions of the loop: the properties that the
  later steps rely on, for every graph.
\<close>

section \<open>The result satisfies the invariant\<close>

definition edges_within :: "dep_graph \<Rightarrow> Inst list \<Rightarrow> bool" where
  "edges_within g is \<longleftrightarrow> (\<forall>u v. (u, v) \<in> dep (pdg g) \<longrightarrow> u \<in> set is \<and> v \<in> set is)"

text \<open>The state \<open>findSCC\<close> leaves for the loop with the instructions \<open>is\<close>.\<close>

definition scc_of :: "dep_graph \<Rightarrow> Inst list \<Rightarrow> scc_state" where
  "scc_of g is = findSCC (pdg g) (rev_graph_of g) is scc_clear"

lemma reach_within:
  assumes "edges_within g is"
  shows "(dep (pdg g))\<^sup>* `` set is = set is"
proof -
  have "y \<in> set is" if "(x, y) \<in> (dep (pdg g))\<^sup>*" "x \<in> set is" for x y
    using that by (induction rule: rtrancl_induct) (use assms in \<open>auto simp: edges_within_def\<close>)
  then show ?thesis by auto
qed

lemma forward_keeps:
  "scc_dependents (dfs_forward m i s) = scc_dependents s \<and> scc_parents (dfs_forward m i s) = scc_parents s \<and>
    sccId (dfs_forward m i s) = sccId s"
  "scc_dependents (forward_edges m es s) = scc_dependents s \<and> scc_parents (forward_edges m es s) = scc_parents s \<and>
    sccId (forward_edges m es s) = sccId s"
  by (induction m i s and m es s rule: dfs_forward_forward_edges.induct)
    (simp_all add: dfs_forward.simps Let_def)

lemma forward_loop_keeps:
  "scc_dependents (fold (forward_visit m) is s) = scc_dependents s \<and>
    scc_parents (fold (forward_visit m) is s) = scc_parents s \<and> sccId (fold (forward_visit m) is s) = sccId s"
  by (induction "is" arbitrary: s) (simp_all add: forward_visit_def forward_keeps)

lemma scc_of_inv:
  assumes g: "graph_inv g" and w: "edges_within g is"
  shows "scc_inv (pdg g) (scc_of g is) \<and> visited (scc_of g is) = set is"
proof -
  let ?s0 = "scc_clear\<lparr>used := (\<lambda>_. False)\<rparr>"
  let ?s1 = "fold (forward_visit (pdg g)) is ?s0"
  let ?s2 = "?s1\<lparr>used := (\<lambda>_. False), dag_added := (\<lambda>_. False), sccNum := 0, InstInSCC := []\<rparr>"
  have fin: "finish_order (pdg g) is (order ?s1)"
    using forward_finish_order [of scc_clear] by (simp add: scc_clear_def)
  have xs: "set (order ?s1) = set is" using fin reach_within [OF w] by (simp add: finish_order_def)
  have within: "\<forall>(x, y) \<in> dep (pdg g). x \<in> set is" using w by (auto simp: edges_within_def)
  have "scc_dependents ?s2 = (\<lambda>_. [])" "scc_parents ?s2 = (\<lambda>_. [])" "sccId ?s2 = (\<lambda>_. 0)" "visited ?s2 = {}"
    using forward_loop_keeps [of "pdg g" "is" ?s0] by (simp_all add: scc_clear_def visited_def)
  then have "scc_inv (pdg g) ?s2"
    by (simp add: scc_inv_def pred_closed_def partition_inv_def members_inv_def dag_state_inv_def
      dag_lists_def crossing_def)
  then have "scc_inv (pdg g) (fold (reverse_visit (rev_graph_of g)) (rev (order ?s1)) ?s2) \<and>
      visited (fold (reverse_visit (rev_graph_of g)) (rev (order ?s1)) ?s2) = set (order ?s1)"
    using rev_graph.reverse_loop [OF graph_inv_rev_graph [OF g] fin within, of "order ?s1" "[]" ?s2]
    by (simp add: \<open>visited ?s2 = {}\<close>)
  then show ?thesis by (simp add: scc_of_def findSCC_def Let_def xs)
qed

lemma scc_of_partition:
  assumes "graph_inv g" "edges_within g is"
  shows "partition_inv (pdg g) (scc_of g is)" "members_inv (scc_of g is)" "dag_state_inv (pdg g) (scc_of g is)"
    "visited (scc_of g is) = set is"
  using scc_of_inv [OF assms] by (simp_all add: scc_inv_def)

text \<open>A graph that \<open>addEdge\<close> builds has only the nodes it was given.\<close>

lemma has_edge_built: "has_edge (add_edges es empty_graph) u v d \<longleftrightarrow> (u, v, d) \<in> set es"
  by (simp add: has_edge_add_edges) (simp add: has_edge_def empty_graph_def)

lemma built_within:
  "(\<And>u v d. (u, v, d) \<in> set es \<Longrightarrow> u \<in> set is \<and> v \<in> set is) \<Longrightarrow> edges_within (add_edges es empty_graph) is"
  unfolding edges_within_def dep_has_edge [OF add_edges_inv [OF empty_graph_inv]] has_edge_built by blast

text \<open>A graph for the witnesses: a cycle of 1 and 2 that feeds 3; node 0 is isolated.\<close>

definition small_graph :: dep_graph where
  "small_graph = add_edges [(1, 2, REG), (2, 1, DTRUE), (2, 3, REG)] empty_graph"

lemma small_graph_inv: "graph_inv small_graph"
  unfolding small_graph_def by (rule add_edges_inv [OF empty_graph_inv])

lemma small_graph_within: "edges_within small_graph [1, 2, 3, 0]"
  unfolding small_graph_def by (rule built_within) auto

lemma small_edges:
  "has_edge small_graph u v d \<longleftrightarrow> (u, v, d) \<in> {(1, 2, REG), (2, 1, DTRUE), (2, 3, REG)}"
  unfolding small_graph_def has_edge_built by simp

lemmas scc_run = scc_of_def findSCC_def forward_visit_def reverse_visit_def dfs_forward.simps dfs_reverse.simps
  small_graph_def addEdge_def empty_graph_def push_edge_def edges_at_def sub_def mk_edge_def scc_clear_def
  mark_def dag_edge_def assign_scc_def Let_def

lemma small_run:
  "InstInSCC (scc_of small_graph [1, 2, 3, 0]) = [[0], [2, 1], [3]]"
  by (simp add: scc_run)

section \<open>Properties\<close>

text \<open>
  C5. Two instructions of the loop get the same component number exactly if each depends on the other:
  \<open>findSCC\<close> computes the strongly connected components.
\<close>

theorem scc_equivalence:
  assumes "graph_inv g" "edges_within g is" "x \<in> set is" "y \<in> set is"
  shows "sccId (scc_of g is) x = sccId (scc_of g is) y \<longleftrightarrow>
    (x, y) \<in> (dep (pdg g))\<^sup>* \<and> (y, x) \<in> (dep (pdg g))\<^sup>*"
  using scc_of_partition(1,4) [OF assms(1,2)] assms(3,4) unfolding partition_inv_def connected_def by blast

theorem scc_equivalence_witness:
  "(2, 1) \<in> (dep (pdg small_graph))\<^sup>* \<and> (1, 2) \<in> (dep (pdg small_graph))\<^sup>* \<and>
   \<not> ((2, 3) \<in> (dep (pdg small_graph))\<^sup>* \<and> (3, 2) \<in> (dep (pdg small_graph))\<^sup>*)"
proof -
  have "sccId (scc_of small_graph [1, 2, 3, 0]) 2 = 1" "sccId (scc_of small_graph [1, 2, 3, 0]) 1 = 1"
    "sccId (scc_of small_graph [1, 2, 3, 0]) 3 = 2"
    by (simp_all add: scc_run)
  then show ?thesis
    using scc_equivalence [OF small_graph_inv small_graph_within, of 2 1]
      scc_equivalence [OF small_graph_inv small_graph_within, of 2 3] by simp
qed

text \<open>
  C13. The components are numbered in a topological order: an instruction's component number is at most
  that of every instruction that depends on it.
\<close>

theorem scc_topological:
  assumes "graph_inv g" "edges_within g is" "has_edge g u v d"
  shows "sccId (scc_of g is) u \<le> sccId (scc_of g is) v"
proof -
  have "(u, v) \<in> dep (pdg g)" using assms(3) dep_has_edge [OF assms(1)] by blast
  then show ?thesis
    using scc_of_partition(1,4) [OF assms(1,2)] assms(2) unfolding partition_inv_def edges_within_def by blast
qed

theorem scc_topological_witness:
  "sccId (scc_of small_graph [1, 2, 3, 0]) 2 \<le> sccId (scc_of small_graph [1, 2, 3, 0]) 3"
  using scc_topological [OF small_graph_inv small_graph_within, of 2 3 REG]
  by (simp add: small_edges)

text \<open>
  C14. \<open>InstInSCC\<close> has one entry per component, none empty, and the entries list every instruction of
  the loop exactly once, under its component number.
\<close>

theorem scc_members:
  assumes "graph_inv g" "edges_within g is" "distinct is"
  shows "length (InstInSCC (scc_of g is)) = sccNum (scc_of g is) \<and> [] \<notin> set (InstInSCC (scc_of g is)) \<and>
    mset (concat (InstInSCC (scc_of g is))) = mset is \<and>
    (\<forall>k < sccNum (scc_of g is). \<forall>x \<in> set (InstInSCC (scc_of g is) ! k). sccId (scc_of g is) x = k)"
proof -
  let ?s = "scc_of g is" and ?I = "InstInSCC (scc_of g is)"
  have l: "length ?I = sccNum ?s"
    and m: "k < length ?I \<Longrightarrow> ?I ! k \<noteq> [] \<and> distinct (?I ! k) \<and> set (?I ! k) = {x \<in> set is. sccId ?s x = k}" for k
    using scc_of_partition(2,4) [OF assms(1,2)] by (auto simp: members_inv_def)
  have ne: "[] \<notin> set ?I" using m by (metis in_set_conv_nth)
  have "set (?I ! j) \<inter> set (?I ! k) = {}" if "j < length ?I" "k < length ?I" "j \<noteq> k" for j k
    using m [OF that(1)] m [OF that(2)] that(3) by auto
  then have "distinct (concat ?I)"
    using m by (intro distinct_concatI) auto
  moreover have "set (concat ?I) = set is"
  proof
    show "set (concat ?I) \<subseteq> set is" proof
      fix x
      assume "x \<in> set (concat ?I)"
      then obtain M where "M \<in> set ?I" "x \<in> set M" by auto
      then obtain k where "k < length ?I" "x \<in> set (?I ! k)" by (metis in_set_conv_nth)
      then show "x \<in> set is" using m [of k] by blast
    qed
    show "set is \<subseteq> set (concat ?I)"
    proof
      fix x
      assume x: "x \<in> set is"
      then have "sccId ?s x < length ?I"
        using scc_of_partition(1,4) [OF assms(1,2)] l unfolding partition_inv_def by simp
      then show "x \<in> set (concat ?I)" using m [of "sccId ?s x"] x by (auto intro!: bexI [of _ "?I ! sccId ?s x"])
    qed
  qed
  ultimately have "mset (concat ?I) = mset is" using assms(3) set_eq_iff_mset_eq_distinct by blast
  with l ne m show ?thesis by auto
qed

theorem scc_members_witness:
  "mset (concat (InstInSCC (scc_of small_graph [1, 2, 3, 0]))) = mset [1, 2, 3, 0] \<and>
   InstInSCC (scc_of small_graph [1, 2, 3, 0]) = [[0], [2, 1], [3]]"
  using scc_members [OF small_graph_inv small_graph_within] small_run by simp



text \<open>
  C24. The graph of components exactly: \<open>v\<close> is listed among the dependents of \<open>u\<close>, once, and \<open>u\<close> among the parents of
  \<open>v\<close>, if \<open>u < v\<close> and an instruction of \<open>v\<close> depends on one of \<open>u\<close>, and besides, with no such dependence, if \<open>u\<close> is
  component 0 and there is a dependence inside \<open>v\<close>. The second case is a defect: the search reads the number of an
  instruction that is still on its stack, which is the default 0, so every later component with a cycle gets component 0 as
  a parent. All edges lead to larger numbers, so the graph still has no cycle.
\<close>

theorem dag_edges_exact:
  assumes "graph_inv g" "edges_within g is"
  shows "set (scc_dependents (scc_of g is) u) = {v. u < v \<and>
      ((\<exists>x y d. has_edge g x y d \<and> sccId (scc_of g is) x = u \<and> sccId (scc_of g is) y = v) \<or>
       u = 0 \<and> (\<exists>x y d. has_edge g x y d \<and> sccId (scc_of g is) x = v \<and> sccId (scc_of g is) y = v))} \<and>
    set (scc_parents (scc_of g is) v) = {u. v \<in> set (scc_dependents (scc_of g is) u)} \<and>
    distinct (scc_dependents (scc_of g is) u) \<and> distinct (scc_parents (scc_of g is) v)"
proof -
  let ?s = "scc_of g is"
  have D: "dag_state_inv (pdg g) ?s" by (rule scc_of_partition(3) [OF assms])
  have c: "crossing (pdg g) (visited ?s) (sccId ?s) a b \<longleftrightarrow>
      (\<exists>x y d. has_edge g x y d \<and> sccId ?s x = a \<and> sccId ?s y = b)" for a b
    using assms(2) unfolding crossing_def scc_of_partition(4) [OF assms] edges_within_def dep_has_edge [OF assms(1)] by blast
  have lists: "dag_lists ?s" using D by (simp add: dag_state_inv_def)
  have "dag_added ?s (a, b) \<longleftrightarrow> a < b \<and> (crossing (pdg g) (visited ?s) (sccId ?s) a b \<or>
      a = 0 \<and> crossing (pdg g) (visited ?s) (sccId ?s) b b)" (is "?l \<longleftrightarrow> ?r") for a b
  proof
    show "?l \<Longrightarrow> ?r" using D unfolding dag_state_inv_def by blast
    assume r: ?r
    show ?l
    proof (cases "crossing (pdg g) (visited ?s) (sccId ?s) a b")
      case True
      then show ?thesis using r D less_imp_neq [of a b] unfolding dag_state_inv_def by blast
    next
      case False
      then show ?thesis using r D unfolding dag_state_inv_def by blast
    qed
  qed
  moreover have "set (scc_dependents ?s u) = {b. dag_added ?s (u, b)}" "set (scc_parents ?s v) = {a. dag_added ?s (a, v)}"
    "v \<in> set (scc_dependents ?s a) \<longleftrightarrow> dag_added ?s (a, v)" "distinct (scc_dependents ?s u)" "distinct (scc_parents ?s v)" for a
    using lists unfolding dag_lists_def by blast+
  ultimately show ?thesis by (simp only: c simp_thms)
qed

text \<open>In the small graph component 0 is an isolated instruction, and component 1, a cycle, is listed among its dependents.\<close>

theorem dag_edges_exact_witness:
  "set (scc_dependents (scc_of small_graph [1, 2, 3, 0]) 0) = {1} \<and>
   InstInSCC (scc_of small_graph [1, 2, 3, 0]) ! 0 = [0] \<and> (\<forall>v d. \<not> has_edge small_graph 0 v d)"
proof -
  define s where "s = scc_of small_graph [1, 2, 3, 0]"
  have i: "sccId s 1 = 1" "sccId s 2 = 1" "sccId s 3 = 2" by (simp_all add: s_def scc_run)
  have e: "(\<exists>x y d. has_edge small_graph x y d \<and> sccId s x = a \<and> sccId s y = b) \<longleftrightarrow> (a, b) \<in> {(1, 1), (1, 2)}" for a b
    using i unfolding small_edges by force
  have "set (scc_dependents s 0) = {v. 0 < v \<and> ((0::nat, v) \<in> {(1, 1), (1, 2)} \<or> 0 = (0::nat) \<and> (v, v) \<in> {(1, 1), (1, 2)})}"
    using dag_edges_exact [OF small_graph_inv small_graph_within, of 0 0, THEN conjunct1, folded s_def, unfolded e] .
  then show ?thesis using small_run by (auto simp: s_def small_edges)
qed

end
