(* ===== verification/Small_Loop.thy ===== *)
theory Small_Loop
  imports LLVM_IR
begin

text \<open>
  A counting loop for the witnesses of the theories that follow: block 1 holds the PHI node 10, the addition
  11 of an argument that feeds it, and the branch 12 back to the block or to the exit block 2, which returns
  the sum.
\<close>

definition small_func :: func_ir where
  "small_func = \<lparr>
     code = (\<lambda>i. \<lparr>opcode = (if i = 10 then PHI else if i = 11 then Add else if i = 20 then Ret else Br),
        ity = (if i \<in> {10, 11} then IntegerTy 32 else VoidTy),
        operands = (if i = 10 then [VConst 0, VInst 11] else if i = 11 then [VInst 10, VArg 0] else if i = 20 then [VInst 11] else []),
        succs = (if i = 5 then [1] else if i = 12 then [1, 2] else []),
        incoming = (if i = 10 then [0, 1] else [])\<rparr>),
     body = (\<lambda>b. if b = 0 then [5] else if b = 1 then [10, 11, 12] else if b = 2 then [20] else []),
     parent = (\<lambda>i. if i = 5 then 0 else if i \<in> {10, 11, 12} then 1 else if i = 20 then 2 else 9),
     fblocks = [0, 1, 2],
     uses = (\<lambda>i. if i = 10 then [VInst 11] else if i = 11 then [VInst 10, VInst 20] else [])\<rparr>"

definition small_loop :: loop_ir where
  "small_loop = \<lparr>lheader = 1, lblocks = [1], lpred = Some 0, lexit = Some 2, lexits = [2], ldepth = 1\<rparr>"

lemma small_contains: "contains small_loop b \<longleftrightarrow> b = 1"
  by (simp add: contains_def small_loop_def)

lemma small_insts: "loop_insts small_func small_loop = [10, 11, 12]"
  by (simp add: loop_insts_def small_func_def small_loop_def)

end
