(* ===== verification/PDG_Build.thy ===== *)
theory PDG_Build
  imports PDG_Data Control_Dep SCC_Result Small_Loop
begin

text \<open>
  \<open>buildPDG\<close> of \<^verbatim>\<open>DSWP_1.cpp\<close> as a whole: initialization, data dependences, control dependences. The properties
  say exactly which edges the graph has, when the construction gives up, and that the graph is fit for
  the computation of the components. A small loop, with its post-dominator tree, is the witness.
\<close>

section \<open>The construction\<close>

text \<open>The \<open>assert\<close> on the order of the blocks is \<open>Undef\<close> when it fails.\<close>

definition buildPDG ::
  "func_ir \<Rightarrow> loop_ir \<Rightarrow> (Inst \<Rightarrow> string \<Rightarrow> string) \<Rightarrow> 'l analyses \<Rightarrow> (dblock \<Rightarrow> dblock option) \<Rightarrow>
    (dblock \<Rightarrow> dblock \<Rightarrow> dblock option) \<Rightarrow> pdg_init \<Rightarrow> pdg_init outcome" where
  "buildPDG F L set_name A ip nc st =
     (let st1 = init_pdg F L set_name st in
      obind (data_deps F L A (graph st1)) (\<lambda>g1.
      if bb_ordered F L = [] then Undef
      else obind (control_deps F L ip nc g1) (\<lambda>g2. Ok (st1\<lparr>graph := g2\<rparr>))))"

definition pdg_rel :: "func_ir \<Rightarrow> loop_ir \<Rightarrow> 'l analyses \<Rightarrow> Inst \<Rightarrow> Inst \<Rightarrow> DType \<Rightarrow> bool" where
  "pdg_rel F L A u v d \<longleftrightarrow> u \<in> set (loop_insts F L) \<and> d = REG \<and> reg_rel F L u v \<or>
     v \<in> set (loop_insts F L) \<and> mem_rel F L A u v d \<or> control_rel F L u v d"

definition all_known :: "func_ir \<Rightarrow> loop_ir \<Rightarrow> 'l analyses \<Rightarrow> bool" where
  "all_known F L A \<longleftrightarrow> (\<forall>i \<in> set (loop_insts F L). \<not> unknown_location F A i)"

text \<open>
  What LLVM guarantees: an instruction is listed in its parent block, and the answer of
  \<open>getDependency\<close> is an instruction of the same block.
\<close>

definition attached :: "func_ir \<Rightarrow> loop_ir \<Rightarrow> bool" where
  "attached F L \<longleftrightarrow> lblocks L \<noteq> [] \<and> (\<forall>b. contains L b \<longrightarrow> body F b \<noteq> [] \<and> (\<forall>i \<in> set (body F b). parent F i = b)) \<and>
     (\<forall>i. contains L (parent F i) \<longrightarrow> i \<in> set (body F (parent F i)))"

definition block_local :: "func_ir \<Rightarrow> 'l analyses \<Rightarrow> bool" where
  "block_local F A \<longleftrightarrow> (\<forall>v u. getDependency A v = Def u \<or> getDependency A v = Clobber u \<longrightarrow> parent F u = parent F v)"

lemma loop_insts_contains_iff: "attached F L \<Longrightarrow> i \<in> set (loop_insts F L) \<longleftrightarrow> contains_inst F L i"
  unfolding loop_insts_iff contains_inst_def attached_def by auto

lemma terminator_in_loop: "attached F L \<Longrightarrow> contains L b \<Longrightarrow> terminator F b \<in> set (loop_insts F L)"
  by (auto simp: loop_insts_iff terminator_def attached_def)

lemma buildPDG_ok:
  assumes "attached F L" "all_known F L A" "postdom_tree F L ip nc" "branches_inside F L"
  shows "\<exists>st'. buildPDG F L sn A ip nc st = Ok st' \<and> adds_edges (pdg_rel F L A) (graph st) (graph st')"
proof -
  let ?st1 = "init_pdg F L sn st"
  obtain g1 where g1: "data_deps F L A (graph ?st1) = Ok g1"
    "adds_edges (\<lambda>u v d. \<exists>i \<in> set (loop_insts F L). data_rel F L A i u v d) (graph ?st1) g1"
    using data_deps_ok assms(2) unfolding all_known_def by blast
  obtain g2 where g2: "control_deps F L ip nc g1 = Ok g2" "adds_edges (control_rel F L) g1 g2"
    using control_deps_correct [OF assms(3,4)] by blast
  have "bb_ordered F L \<noteq> []" using bb_ordered_set(2) [of F L] assms(1) by (auto simp: attached_def)
  then have "buildPDG F L sn A ip nc st = Ok (?st1\<lparr>graph := g2\<rparr>)"
    using g1(1) g2(1) by (simp add: buildPDG_def Let_def)
  moreover have "adds_edges (\<lambda>u v d. False) (graph st) (graph ?st1)"
    using init_pdg_graph [of F L sn st] by (simp add: adds_edges_def)
  then have "adds_edges (pdg_rel F L A) (graph st) g2"
    by (rule adds_edges_cong [OF adds_edges_trans [OF _ adds_edges_trans [OF g1(2) g2(2)]]])
      (auto simp: pdg_rel_def data_rel_def)
  ultimately show ?thesis by simp
qed

lemma pdg_rel_within:
  assumes "attached F L" "block_local F A" "pdg_rel F L A u v d"
  shows "u \<in> set (loop_insts F L) \<and> v \<in> set (loop_insts F L)"
proof -
  note iff = loop_insts_contains_iff [OF assms(1)]
  from assms(3) consider "u \<in> set (loop_insts F L)" "reg_rel F L u v" | "v \<in> set (loop_insts F L)" "mem_rel F L A u v d"
    | "control_rel F L u v d"
    unfolding pdg_rel_def by blast
  then show ?thesis
  proof cases
    case 1
    then show ?thesis by (simp add: iff reg_rel_def)
  next
    case 2
    then have "contains_inst F L u \<or> parent F u = parent F v"
      using assms(2) unfolding mem_rel_def block_local_def by blast
    then show ?thesis using 2(1) by (auto simp: iff contains_inst_def)
  next
    case 3
    then show ?thesis
      using terminator_in_loop [OF assms(1)] unfolding control_rel_def loop_insts_iff by blast
  qed
qed

text \<open>From an empty graph the construction yields what \<open>findSCC\<close> needs.\<close>

lemma buildPDG_fit:
  assumes "attached F L" "all_known F L A" "postdom_tree F L ip nc" "branches_inside F L" "block_local F A"
    and "graph st = empty_graph" "buildPDG F L sn A ip nc st = Ok st'"
  shows "graph_inv (graph st') \<and> edges_within (graph st') (loop_insts F L) \<and>
    (\<forall>u v d. has_edge (graph st') u v d \<longleftrightarrow> pdg_rel F L A u v d)"
proof -
  have a: "adds_edges (pdg_rel F L A) empty_graph (graph st')"
    using buildPDG_ok [OF assms(1-4), of sn st] assms(6,7) by auto
  then have inv: "graph_inv (graph st')" using adds_edges_inv [OF a] empty_graph_inv by blast
  have "\<not> has_edge empty_graph u v d" for u v d by (simp add: has_edge_def empty_graph_def)
  then have iff: "has_edge (graph st') u v d \<longleftrightarrow> pdg_rel F L A u v d" for u v d
    using adds_edges_iff [OF a] by simp
  moreover have "edges_within (graph st') (loop_insts F L)"
    unfolding edges_within_def dep_has_edge [OF inv] iff using pdg_rel_within [OF assms(1,5)] by blast
  ultimately show ?thesis using inv by blast
qed

section \<open>The analyses of the small loop\<close>

definition no_memory :: "unit analyses" where
  "no_memory = \<lparr>mayReadOrWriteMemory = (\<lambda>_. False), getDependency = (\<lambda>_. Unknown),
     getNonLocalCallDependency = (\<lambda>_. []), getLocation = (\<lambda>_. ()),
     getNonLocalPointerDependency = (\<lambda>_ _ _. [])\<rparr>"

definition small_ip :: "dblock \<Rightarrow> dblock option" where
  "small_ip x = (if x = Top 1 \<or> x = Bottom 1 then Some ExitBlock else None)"

definition small_nc :: "dblock \<Rightarrow> dblock \<Rightarrow> dblock option" where
  "small_nc x y = Some (if x = y then x else ExitBlock)"

lemma small_attached: "attached small_func small_loop"
  unfolding attached_def small_contains
  by (simp add: small_loop_def small_func_def)

lemma small_known: "all_known small_func small_loop no_memory" "block_local small_func no_memory"
  by (simp_all add: all_known_def unknown_location_def block_local_def no_memory_def)

lemma small_succs: "loop_succs small_func small_loop 1 = [1]"
  by (simp add: loop_succs_def block_succs_def small_contains terminator_def)
    (simp add: small_func_def small_contains)

lemma small_return: "1 \<in> returnblocks small_func small_loop"
  unfolding returnblocks_iff small_contains
  by (simp add: small_loop_def preds_def block_succs_def terminator_def small_func_def)

lemma small_branches: "branches_inside small_func small_loop"
  using small_return by (simp add: branches_inside_def small_loop_def)

lemma small_dummies: "dummies small_loop = {ExitBlock, Top 1, Bottom 1}"
  by (auto simp: dummies_def small_loop_def)

text \<open>The tree is the same for every function that has this loop.\<close>

lemma one_block_postdominates:
  assumes r: "1 \<in> returnblocks F small_loop"
  shows "x \<in> dummies small_loop \<Longrightarrow> y \<in> dummies small_loop \<Longrightarrow>
    postdominates F small_loop y x \<longleftrightarrow> y = x \<or> y = ExitBlock"
proof -
  assume x: "x \<in> dummies small_loop" and y: "y \<in> dummies small_loop"
  show ?thesis
  proof (cases "x = ExitBlock")
    case True
    then show ?thesis by (auto simp: postdominates_def)
  next
    case False
    then have "(x, ExitBlock) \<in> dflow F small_loop"
      using x r by (auto simp: small_dummies dflow_iff small_contains)
    then have "y \<noteq> x \<Longrightarrow> y \<noteq> ExitBlock \<Longrightarrow> (x, ExitBlock) \<in> (avoiding F small_loop y)\<^sup>*"
      by (intro r_into_rtrancl) (simp add: avoiding_def)
    then show ?thesis by (auto simp: postdominates_def)
  qed
qed

lemma small_chain:
  "(x, y) \<in> (parent_rel small_ip)\<^sup>* \<longleftrightarrow> y = x \<or> (x = Top 1 \<or> x = Bottom 1) \<and> y = ExitBlock"
proof
  assume "(x, y) \<in> (parent_rel small_ip)\<^sup>*"
  then show "y = x \<or> (x = Top 1 \<or> x = Bottom 1) \<and> y = ExitBlock"
    by (induction rule: converse_rtrancl_induct) (auto simp: parent_rel_def small_ip_def split: if_splits)
next
  assume "y = x \<or> (x = Top 1 \<or> x = Bottom 1) \<and> y = ExitBlock"
  then show "(x, y) \<in> (parent_rel small_ip)\<^sup>*"
    by (auto simp: parent_rel_def small_ip_def)
qed

lemma one_block_tree:
  assumes r: "1 \<in> returnblocks F small_loop"
  shows "postdom_tree F small_loop small_ip small_nc"
proof -
  have "(x, y) \<in> (parent_rel small_ip)\<^sup>* \<longleftrightarrow> y \<in> dummies small_loop \<and> postdominates F small_loop y x"
    if "x \<in> dummies small_loop" for x y
    using one_block_postdominates [OF r that] that by (auto simp: small_chain small_dummies)
  moreover have "\<exists>z. small_nc x y = Some z \<and> (x, z) \<in> (parent_rel small_ip)\<^sup>* \<and> (y, z) \<in> (parent_rel small_ip)\<^sup>* \<and>
      (\<forall>w. (x, w) \<in> (parent_rel small_ip)\<^sup>* \<longrightarrow> (y, w) \<in> (parent_rel small_ip)\<^sup>* \<longrightarrow> (z, w) \<in> (parent_rel small_ip)\<^sup>*)"
    if "x \<in> dummies small_loop" "y \<in> dummies small_loop" for x y
    using that by (auto simp: small_nc_def small_chain small_dummies)
  ultimately show ?thesis unfolding postdom_tree_def by (simp add: small_ip_def)
qed

lemmas small_postdominates = one_block_postdominates [OF small_return] and small_tree = one_block_tree [OF small_return]

section \<open>Properties\<close>

text \<open>
  C17. \<open>buildPDG\<close> computes exactly the dependences: on a loop whose memory instructions all have a known
  location it returns, it keeps the invariant of the graph, and there is an edge exactly for a use of a
  register inside the loop, a memory dependence that the analyses report, and a control dependence
  between blocks of the peeled graph in the sense of post-dominance.
\<close>

theorem pdg_edges:
  assumes "attached F L" "all_known F L A" "postdom_tree F L ip nc" "branches_inside F L"
    and "graph st = empty_graph"
  shows "\<exists>st'. buildPDG F L set_name A ip nc st = Ok st' \<and> graph_inv (graph st') \<and>
    (\<forall>u v d. has_edge (graph st') u v d \<longleftrightarrow> pdg_rel F L A u v d)"
proof -
  obtain st' where st': "buildPDG F L set_name A ip nc st = Ok st'" "adds_edges (pdg_rel F L A) empty_graph (graph st')"
    using buildPDG_ok [OF assms(1-4), of set_name st] assms(5) by auto
  moreover have "\<not> has_edge empty_graph u v d" for u v d by (simp add: has_edge_def empty_graph_def)
  ultimately show ?thesis
    using adds_edges_inv [OF st'(2) empty_graph_inv] adds_edges_iff [OF st'(2)] by auto
qed

text \<open>The edges of the small loop.\<close>

lemma small_controlled:
  "control_rel small_func small_loop u v d \<longleftrightarrow> d = CONTROL \<and> u = 12 \<and> v \<in> {10, 11, 12}"
proof
  assume "control_rel small_func small_loop u v d"
  then show "d = CONTROL \<and> u = 12 \<and> v \<in> {10, 11, 12}"
    unfolding control_rel_def small_contains by (auto simp: terminator_def small_func_def)
next
  assume a: "d = CONTROL \<and> u = 12 \<and> v \<in> {10, 11, 12}"
  have flow: "(Top 1, Bottom 1) \<in> dflow small_func small_loop"
    using small_succs by (simp add: dflow_iff small_contains first_copy_def)
  have "postdominates small_func small_loop (Bottom 1) (Bottom 1)" by (simp add: postdominates_def)
  moreover have "\<not> postdominates small_func small_loop (Bottom 1) (Top 1)"
    by (subst small_postdominates) (simp_all add: small_dummies)
  moreover have "u = terminator small_func 1" "v \<in> set (body small_func 1)"
    using a by (auto simp: terminator_def small_func_def)
  ultimately show "control_rel small_func small_loop u v d"
    using a flow unfolding control_rel_def small_contains by (auto simp: copies_def)
qed

lemma small_pdg:
  "pdg_rel small_func small_loop no_memory u v d \<longleftrightarrow>
    (u, v, d) \<in> {(10, 11, REG), (11, 10, REG), (12, 10, CONTROL), (12, 11, CONTROL), (12, 12, CONTROL)}"
proof -
  have "reg_rel small_func small_loop u v \<longleftrightarrow> (u, v) \<in> {(10, 11), (11, 10)}"
    by (auto simp: reg_rel_def contains_inst_def small_contains small_func_def)
  moreover have "\<not> mem_rel small_func small_loop no_memory u v d" by (simp add: mem_rel_def no_memory_def)
  ultimately show ?thesis unfolding pdg_rel_def small_controlled small_insts by auto
qed

definition small_start :: pdg_init where
  "small_start = \<lparr>graph = empty_graph, dname = (\<lambda>_. []), uid = 0\<rparr>"

theorem pdg_edges_witness:
  "\<exists>st'. buildPDG small_func small_loop (\<lambda>_ n. n) no_memory small_ip small_nc small_start = Ok st' \<and>
    has_edge (graph st') 10 11 REG \<and> has_edge (graph st') 12 12 CONTROL \<and> \<not> has_edge (graph st') 10 12 CONTROL"
  using pdg_edges [OF small_attached small_known(1) small_tree small_branches, of small_start "\<lambda>_ n. n"]
  by (auto simp: small_pdg small_start_def)

text \<open>
  C25. The only way the construction of the data dependences fails: it calls \<open>error\<close> exactly when some
  instruction of the loop accesses memory non-locally and is no call, load, store or variadic read.
\<close>

theorem data_deps_failure:
  "(data_deps F L A g = Exit ''aaaah exploding'' \<longleftrightarrow> \<not> all_known F L A) \<and>
   ((\<exists>g'. data_deps F L A g = Ok g') \<longleftrightarrow> all_known F L A)"
proof (cases "all_known F L A")
  case True
  then obtain g' where "data_deps F L A g = Ok g'" using data_deps_ok unfolding all_known_def by blast
  with True show ?thesis by simp
next
  case False
  then have "data_deps F L A g = Exit ''aaaah exploding''"
    using data_deps_error [of "loop_insts F L" F A L g] by (auto simp: all_known_def data_deps_def)
  with False show ?thesis by simp
qed

end
