(* ===== verification/Thread_Partition.thy ===== *)
theory Thread_Partition
  imports SCC_Search Utils
begin

text \<open>
  \<^verbatim>\<open>DSWP_3.cpp\<close>: the latency of an instruction, and the partition of the components over the threads by a
  greedy schedule that takes the candidate of largest latency from a priority queue. \<open>std::priority_queue\<close>
  does not say which of several largest elements it returns: the choice is the parameter \<open>tie\<close> of the
  definitions, and every statement holds for each choice. Accesses to the vectors are checked: an index
  outside them is \<open>Undef\<close>, a call of \<open>error\<close> is \<open>Exit\<close> with its message. The schedule needs no fuel: each
  round assigns a component, or takes an entry of an assigned one from the queue.
\<close>

section \<open>Latencies\<close>

definition latency_table :: "(Opcode \<times> int) list" where
  "latency_table =
    [(Ret, 1), (Br, 0), (Switch, 0),
     (Add, 1), (FAdd, 4), (Sub, 1), (FSub, 4), (Mul, 3), (FMul, 4),
     (UDiv, 17), (SDiv, 17), (FDiv, 24), (URem, 17), (SRem, 17), (FRem, 24),
     (Shl, 7), (LShr, 7), (AShr, 7), (And, 1), (Or, 1), (Xor, 1),
     (ExtractElement, 0), (InsertElement, 0), (ShuffleVector, 0), (ExtractValue, 0), (InsertValue, 0),
     (Alloca, 2), (Load, 2), (Store, 2), (Fence, 0), (AtomicCmpXchg, 0), (AtomicRMW, 0), (GetElementPtr, 1),
     (Trunc, 1), (ZExt, 1), (SExt, 1), (FPTrunc, 4), (FPExt, 4), (FPToUI, 4), (FPToSI, 4),
     (UIToFP, 4), (SIToFP, 4), (PtrToInt, 2), (IntToPtr, 2), (BitCast, 1),
     (ICmp, 1), (FCmp, 1), (PHI, 1), (Select, 0), (Call, 50), (VAArg, 0), (LandingPad, 0)]"

definition getLatency :: "Opcode \<Rightarrow> int" where
  "getLatency c = (case map_of latency_table c of Some cost \<Rightarrow> cost | None \<Rightarrow> 1)"

lemma getLatency_bounds: "0 \<le> getLatency c" "getLatency c \<le> 50"
proof -
  have "\<forall>p \<in> set latency_table. 0 \<le> snd p \<and> snd p \<le> 50" by (simp add: latency_table_def)
  then show "0 \<le> getLatency c" "getLatency c \<le> 50"
    by (auto simp: getLatency_def split: option.split dest!: map_of_SomeD)
qed

section \<open>The queue of candidates\<close>

record QNode =
  qu :: nat
  latency :: int

text \<open>\<open>operator<\<close> compares the latencies only: a preorder.\<close>

instantiation QNode_ext :: (type) preorder
begin

definition less_QNode_ext :: "'a QNode_scheme \<Rightarrow> 'a QNode_scheme \<Rightarrow> bool" where
  "x < y \<longleftrightarrow> latency x < latency y"

definition less_eq_QNode_ext :: "'a QNode_scheme \<Rightarrow> 'a QNode_scheme \<Rightarrow> bool" where
  "x \<le> y \<longleftrightarrow> latency x \<le> latency y"

instance
  by standard (auto simp: less_QNode_ext_def less_eq_QNode_ext_def)

end

definition maximal :: "QNode list \<Rightarrow> QNode list" where
  "maximal q = [n \<leftarrow> q. \<forall>m \<in> set q. \<not> n < m]"

definition pq_top :: "(QNode list \<Rightarrow> nat) \<Rightarrow> QNode list \<Rightarrow> QNode" where
  "pq_top tie q = maximal q ! (tie q mod length (maximal q))"

definition pq_pop :: "(QNode list \<Rightarrow> nat) \<Rightarrow> QNode list \<Rightarrow> QNode list" where
  "pq_pop tie q = remove1 (pq_top tie q) q"

text \<open>What the schedule relies on.\<close>

locale priority_queue =
  fixes top :: "QNode list \<Rightarrow> QNode" and pop :: "QNode list \<Rightarrow> QNode list"
  assumes top_mem: "q \<noteq> [] \<Longrightarrow> top q \<in> set q"
    and top_max: "n \<in> set q \<Longrightarrow> \<not> top q < n"
    and pop_mset: "q \<noteq> [] \<Longrightarrow> mset q = add_mset (top q) (mset (pop q))"
begin

lemma pop_length: "q \<noteq> [] \<Longrightarrow> length q = Suc (length (pop q))"
  using pop_mset [of q] by (metis size_add_mset size_mset)

lemma pop_set: "q \<noteq> [] \<Longrightarrow> set q = insert (top q) (set (pop q))"
  using pop_mset [of q] by (metis set_mset_add_mset_insert set_mset_mset)

lemma pop_distinct:
  assumes "q \<noteq> []" "distinct (map qu q)"
  shows "distinct (map qu (pop q)) \<and> qu (top q) \<notin> qu ` set (pop q)"
proof -
  have "mset (map qu q) = mset (map qu (top q # pop q))" using pop_mset [OF assms(1)] by simp
  then have "distinct (map qu (top q # pop q))" using assms(2) by (metis mset_eq_imp_distinct_iff)
  then show ?thesis by auto
qed

lemma top_latency: "n \<in> set q \<Longrightarrow> latency n \<le> latency (top q)"
  using top_max [of n q] by (simp add: less_QNode_ext_def not_less)

end

lemma maximal_nonempty:
  assumes "q \<noteq> []"
  shows "maximal q \<noteq> []"
proof -
  obtain n where "n \<in> set q" "\<forall>m \<in> set q. latency m \<le> latency n"
    using assms Max_in [of "latency ` set q"] Max_ge [of "latency ` set q"] by fastforce
  then show ?thesis by (force simp: maximal_def filter_empty_conv less_QNode_ext_def)
qed

lemma pq_top_maximal: "q \<noteq> [] \<Longrightarrow> pq_top tie q \<in> set (maximal q)"
  using maximal_nonempty [of q] by (simp add: pq_top_def)

interpretation pq: priority_queue "pq_top tie" "pq_pop tie" for tie
proof
  fix q :: "QNode list" and n
  show "q \<noteq> [] \<Longrightarrow> pq_top tie q \<in> set q" using pq_top_maximal [of q tie] by (auto simp: maximal_def)
  then show "q \<noteq> [] \<Longrightarrow> mset q = add_mset (pq_top tie q) (mset (pq_pop tie q))"
    by (simp add: pq_pop_def)
  show "n \<in> set q \<Longrightarrow> \<not> pq_top tie q < n"
  proof -
    assume n: "n \<in> set q"
    then have "pq_top tie q \<in> set (maximal q)" using pq_top_maximal by (metis list.set(1) empty_iff)
    then show ?thesis using n by (simp add: maximal_def)
  qed
qed

section \<open>The schedule\<close>

definition MAX_THREAD :: nat where
  "MAX_THREAD = 2"

record part_state =
  assigned :: "int list"
  candidates :: "QNode list"
  estLatency :: "int list"

text \<open>The loop over the parents of a component, left at the first that is not assigned.\<close>

fun can_sched :: "int list \<Rightarrow> nat list \<Rightarrow> bool outcome" where
  "can_sched asg [] = Ok True"
| "can_sched asg (k # ks) = obind (arr_get asg (int k)) (\<lambda>a. if a < 0 then Ok False else can_sched asg ks)"

text \<open>One dependent component: it becomes a candidate when all its parents are assigned.\<close>

definition try_push ::
  "(nat \<Rightarrow> nat list) \<Rightarrow> int list \<Rightarrow> int list \<Rightarrow> QNode list \<Rightarrow> nat \<Rightarrow> QNode list outcome" where
  "try_push par lat asg q v =
     obind (arr_get asg (int v)) (\<lambda>a.
       if a = - 2
       then obind (can_sched asg (par v)) (\<lambda>c.
         if c then obind (arr_get lat (int v)) (\<lambda>l. Ok (q @ [\<lparr>qu = v, latency = l\<rparr>]))
         else Ok q)
       else Ok q)"

text \<open>The body of the \<open>while\<close> loop up to the check of the load balance.\<close>

definition schedule_top ::
  "(QNode list \<Rightarrow> nat) \<Rightarrow> (nat \<Rightarrow> nat list) \<Rightarrow> (nat \<Rightarrow> nat list) \<Rightarrow> int list \<Rightarrow> nat \<Rightarrow> part_state \<Rightarrow>
    part_state outcome" where
  "schedule_top tie deps par lat i s =
     (let top = pq_top tie (candidates s); q = pq_pop tie (candidates s) in
      obind (arr_set (assigned s) (int (qu top)) (int i)) (\<lambda>asg.
      obind (arr_get (estLatency s) (int i)) (\<lambda>e.
      obind (arr_set (estLatency s) (int i) (e + latency top)) (\<lambda>est.
      obind (ofold (try_push par lat asg) (deps (qu top)) q) (\<lambda>q'.
      Ok \<lparr>assigned = asg, candidates = q', estLatency = est\<rparr>)))))"

text \<open>
  Why the \<open>while\<close> loop ends, on every input: a round either assigns a component that was not assigned,
  or takes an entry of an assigned component from the queue; it only adds entries of unassigned ones.
\<close>

definition unassigned :: "int list \<Rightarrow> nat" where
  "unassigned asg = length (filter (\<lambda>a. a = - 2) asg)"

definition stale :: "part_state \<Rightarrow> nat" where
  "stale s = length (filter (\<lambda>n. assigned s ! qu n \<noteq> - 2) (candidates s))"

lemma can_sched_Ok:
  "can_sched asg ks = Ok c \<Longrightarrow> c \<longleftrightarrow> (\<forall>k \<in> set ks. 0 \<le> asg ! k)"
  by (induction asg ks rule: can_sched.induct) (auto simp: outcome_simps arr_get_def split: if_splits)

lemma try_push_Ok:
  assumes "try_push par lat asg q v = Ok q'"
  shows "q' = (if asg ! v = - 2 \<and> (\<forall>k \<in> set (par v). 0 \<le> asg ! k) then q @ [\<lparr>qu = v, latency = lat ! v\<rparr>] else q)"
  using assms can_sched_Ok [of asg "par v"]
  by (auto simp: try_push_def outcome_simps arr_get_def split: if_splits)

definition ready :: "(nat \<Rightarrow> nat list) \<Rightarrow> int list \<Rightarrow> nat \<Rightarrow> bool" where
  "ready par asg v \<longleftrightarrow> asg ! v = - 2 \<and> (\<forall>k \<in> set (par v). 0 \<le> asg ! k)"

lemma push_all_Ok:
  "ofold (try_push par lat asg) vs q = Ok q' \<Longrightarrow>
    q' = q @ map (\<lambda>v. \<lparr>qu = v, latency = lat ! v\<rparr>) (filter (ready par asg) vs)"
proof (induction vs arbitrary: q)
  case (Cons v vs)
  then obtain q1 where q1: "try_push par lat asg q v = Ok q1" "ofold (try_push par lat asg) vs q1 = Ok q'"
    by (auto simp: outcome_simps)
  then show ?case using try_push_Ok [OF q1(1)] Cons.IH [OF q1(2)] by (auto simp: ready_def)
qed simp

lemma unassigned_update:
  "k < length asg \<Longrightarrow> asg ! k = - 2 \<Longrightarrow> unassigned (asg[k := int i]) < unassigned asg"
proof (induction asg arbitrary: k)
  case (Cons a asg)
  then show ?case by (cases k) (auto simp: unassigned_def)
qed simp

lemma unassigned_same:
  "k < length asg \<Longrightarrow> asg ! k \<noteq> - 2 \<Longrightarrow> unassigned (asg[k := int i]) = unassigned asg"
proof (induction asg arbitrary: k)
  case (Cons a asg)
  then show ?case by (cases k) (auto simp: unassigned_def)
qed simp

lemma schedule_top_Ok:
  assumes "schedule_top tie deps par lat i s = Ok s'"
  shows "let u = qu (pq_top tie (candidates s)) in
    u < length (assigned s) \<and> assigned s' = (assigned s)[u := int i] \<and>
    i < length (estLatency s) \<and>
    estLatency s' = (estLatency s)[i := estLatency s ! i + latency (pq_top tie (candidates s))] \<and>
    candidates s' = pq_pop tie (candidates s) @
      map (\<lambda>v. \<lparr>qu = v, latency = lat ! v\<rparr>) (filter (ready par (assigned s')) (deps u))"
  using assms push_all_Ok
  by (fastforce simp: schedule_top_def Let_def outcome_simps arr_set_def arr_get_def in_bounds_def split: if_splits)

lemma schedule_top_decreases:
  assumes ok: "schedule_top tie deps par lat i s = Ok s'" and ne: "candidates s \<noteq> []"
  shows "unassigned (assigned s') < unassigned (assigned s) \<or>
    unassigned (assigned s') = unassigned (assigned s) \<and> stale s' < stale s"
proof (cases "assigned s ! qu (pq_top tie (candidates s)) = - 2")
  case True
  then show ?thesis using schedule_top_Ok [OF ok] unassigned_update by (simp add: Let_def)
next
  case False
  let ?top = "pq_top tie (candidates s)"
  let ?stale = "\<lambda>n. assigned s ! qu n \<noteq> - 2"
  note f = schedule_top_Ok [OF ok, unfolded Let_def]
  have same: "assigned s' ! k \<noteq> - 2 \<longleftrightarrow> assigned s ! k \<noteq> - 2" for k
    using f False by (cases "k = qu ?top") auto
  have "mset (candidates s) = add_mset ?top (mset (pq_pop tie (candidates s)))"
    by (rule pq.pop_mset [OF ne])
  then have "size (filter_mset ?stale (mset (candidates s))) =
      size (filter_mset ?stale (add_mset ?top (mset (pq_pop tie (candidates s)))))"
    by simp
  then have "stale s = Suc (length (filter ?stale (pq_pop tie (candidates s))))"
    using False by (simp add: stale_def size_mset [symmetric] mset_filter [symmetric] del: size_mset mset_filter)
  moreover have "stale s' = length (filter ?stale (pq_pop tie (candidates s)))"
    using f same by (simp add: stale_def filter_map o_def ready_def)
  ultimately show ?thesis using f False unassigned_same by simp
qed

text \<open>The \<open>while\<close> loop of thread \<open>i\<close>.\<close>

function fill_thread ::
  "(QNode list \<Rightarrow> nat) \<Rightarrow> (nat \<Rightarrow> nat list) \<Rightarrow> (nat \<Rightarrow> nat list) \<Rightarrow> int list \<Rightarrow> int \<Rightarrow> nat \<Rightarrow> part_state \<Rightarrow>
    part_state outcome" where
  "fill_thread tie deps par lat aver i s =
     (if candidates s = [] then Ok s
      else obind (schedule_top tie deps par lat i s) (\<lambda>s'.
        obind (arr_get (estLatency s') (int i)) (\<lambda>e.
        if aver \<le> e \<and> i \<noteq> MAX_THREAD - 1 then Ok s'
        else fill_thread tie deps par lat aver i s')))"
  by pat_completeness auto

termination
  by (relation "measures [\<lambda>(tie, deps, par, lat, aver, i, s). unassigned (assigned s),
      \<lambda>(tie, deps, par, lat, aver, i, s). stale s]")
    (auto dest: schedule_top_decreases)

declare fill_thread.simps [simp del]

section \<open>The partition\<close>

text \<open>The two sums over the instructions of the loop.\<close>

definition add_latency ::
  "(Inst \<Rightarrow> Opcode) \<Rightarrow> (Inst \<Rightarrow> nat) \<Rightarrow> int list \<times> int \<Rightarrow> Inst \<Rightarrow> (int list \<times> int) outcome" where
  "add_latency opc sid acc i =
     obind (arr_get (fst acc) (int (sid i))) (\<lambda>l.
     obind (arr_set (fst acc) (int (sid i)) (l + getLatency (opc i))) (\<lambda>lat.
     Ok (lat, snd acc + getLatency (opc i))))"

text \<open>The last loop: the \<open>part\<close> arrays, or \<open>error\<close> with the component that has no thread.\<close>

definition add_part :: "int list \<Rightarrow> nat list list \<Rightarrow> nat \<Rightarrow> nat list list outcome" where
  "add_part asg parts i =
     obind (arr_get asg (int i)) (\<lambda>a.
       if a < 0 \<or> int MAX_THREAD \<le> a
       then Exit (''scc '' @ itoa (int i) @ '' assigned to '' @ itoa a)
       else obind (arr_get parts a) (\<lambda>p. arr_set parts a (p @ [i])))"

record partition =
  sccLatency :: "int list"
  thread_of :: "int list"
  part :: "nat list list"
  load :: "int list"

definition initial_candidates :: "(nat \<Rightarrow> nat list) \<Rightarrow> int list \<Rightarrow> nat \<Rightarrow> QNode list" where
  "initial_candidates par lat n = map (\<lambda>c. \<lparr>qu = c, latency = lat ! c\<rparr>) (filter (\<lambda>c. par c = []) [0..<n])"

definition threadPartition ::
  "(QNode list \<Rightarrow> nat) \<Rightarrow> (Inst \<Rightarrow> Opcode) \<Rightarrow> Inst list \<Rightarrow> scc_state \<Rightarrow> partition outcome" where
  "threadPartition tie opc is s =
     obind (ofold (add_latency opc (sccId s)) is (replicate (sccNum s) 0, 0)) (\<lambda>(lat, total).
     let aver = total sdiv int MAX_THREAD;
         s0 = \<lparr>assigned = replicate (sccNum s) (- 2),
               candidates = initial_candidates (scc_parents s) lat (sccNum s),
               estLatency = replicate MAX_THREAD 0\<rparr> in
     obind (ofold (\<lambda>st i. fill_thread tie (scc_dependents s) (scc_parents s) lat aver i st) [0..<MAX_THREAD] s0) (\<lambda>st.
     obind (ofold (add_part (assigned st)) [0..<sccNum s] (replicate MAX_THREAD [])) (\<lambda>parts.
     Ok \<lparr>sccLatency = lat, thread_of = assigned st, part = parts, load = estLatency st\<rparr>)))"

section \<open>Lookups\<close>

text \<open>
  The thread of an instruction. The cast of a value that is no instruction yields the null pointer,
  for which the map \<open>sccId\<close> has the default 0.
\<close>

definition getInstAssigned :: "int list \<Rightarrow> (Inst \<Rightarrow> nat) \<Rightarrow> Value \<Rightarrow> int outcome" where
  "getInstAssigned asg sid v = arr_get asg (case v of VInst i \<Rightarrow> int (sid i) | _ \<Rightarrow> 0)"

text \<open>
  The thread of an instruction of a generated function, through \<open>newToOld\<close>; a value without an old
  instruction is the null pointer, on which the cast is undefined.
\<close>

definition getNewInstAssigned ::
  "func_ir \<Rightarrow> (Value \<Rightarrow> Value option) \<Rightarrow> int list \<Rightarrow> (Inst \<Rightarrow> nat) \<Rightarrow> Value \<Rightarrow> int outcome" where
  "getNewInstAssigned F newToOld asg sid v =
     (if (case v of VInst i \<Rightarrow> is_terminator (opcode_of F i) | _ \<Rightarrow> False) then Exit ''cannot be term''
      else case newToOld v of Some old \<Rightarrow> getInstAssigned asg sid old | None \<Rightarrow> Undef)"

end
