(* ===== verification/Partition_Correct.thy ===== *)
theory Partition_Correct
  imports Thread_Partition
begin

text \<open>
  The schedule of \<^verbatim>\<open>DSWP_3.cpp\<close> on an acyclic graph of components: the invariant of the \<open>while\<close> loop and what
  it gives at the end. The invariant says that the queue holds exactly the components whose parents are
  all assigned, each once, that a component is never assigned to an earlier thread than a parent, and
  that \<open>estLatency\<close> is the latency of what is assigned.
\<close>

section \<open>The invariant\<close>

definition dag_ok :: "nat \<Rightarrow> (nat \<Rightarrow> nat list) \<Rightarrow> (nat \<Rightarrow> nat list) \<Rightarrow> bool" where
  "dag_ok n deps par \<longleftrightarrow> (\<forall>u v. v \<in> set (deps u) \<longleftrightarrow> u \<in> set (par v)) \<and>
     (\<forall>u v. v \<in> set (deps u) \<longrightarrow> u < v \<and> v < n) \<and> (\<forall>u. distinct (deps u))"

definition range_inv :: "nat \<Rightarrow> nat \<Rightarrow> int list \<Rightarrow> bool" where
  "range_inv n i asg \<longleftrightarrow> length asg = n \<and> (\<forall>k < n. asg ! k = - 2 \<or> 0 \<le> asg ! k \<and> asg ! k \<le> int i)"

definition queue_inv :: "nat \<Rightarrow> (nat \<Rightarrow> nat list) \<Rightarrow> int list \<Rightarrow> int list \<Rightarrow> QNode list \<Rightarrow> bool" where
  "queue_inv n par lat asg q \<longleftrightarrow> distinct (map qu q) \<and> (\<forall>c \<in> set q. latency c = lat ! qu c) \<and>
     (\<forall>v. v \<in> qu ` set q \<longleftrightarrow> v < n \<and> ready par asg v)"

definition mono_inv :: "(nat \<Rightarrow> nat list) \<Rightarrow> int list \<Rightarrow> bool" where
  "mono_inv deps asg \<longleftrightarrow> (\<forall>u v. v \<in> set (deps u) \<longrightarrow> 0 \<le> asg ! v \<longrightarrow> 0 \<le> asg ! u \<and> asg ! u \<le> asg ! v)"

definition load_inv :: "nat \<Rightarrow> int list \<Rightarrow> int list \<Rightarrow> int list \<Rightarrow> bool" where
  "load_inv n lat asg est \<longleftrightarrow> length est = MAX_THREAD \<and>
     (\<forall>t < MAX_THREAD. est ! t = (\<Sum>k | k < n \<and> asg ! k = int t. lat ! k))"

definition sched_inv ::
  "nat \<Rightarrow> (nat \<Rightarrow> nat list) \<Rightarrow> (nat \<Rightarrow> nat list) \<Rightarrow> int list \<Rightarrow> nat \<Rightarrow> part_state \<Rightarrow> bool" where
  "sched_inv n deps par lat i s \<longleftrightarrow> range_inv n i (assigned s) \<and> queue_inv n par lat (assigned s) (candidates s) \<and>
     mono_inv deps (assigned s) \<and> load_inv n lat (assigned s) (estLatency s)"

lemma range_inv_step: "range_inv n i asg \<Longrightarrow> range_inv n i (asg[u := int i])"
  unfolding range_inv_def by (cases "u < n") (auto simp: nth_list_update)

lemma mono_inv_step:
  assumes dag: "dag_ok n deps par" and r: "range_inv n i asg" and m: "mono_inv deps asg"
    and u: "ready par asg u" "u < n"
  shows "mono_inv deps (asg[u := int i])"
proof -
  have "0 \<le> asg[u := int i] ! x \<and> asg[u := int i] ! x \<le> asg[u := int i] ! y"
    if e: "y \<in> set (deps x)" and y: "0 \<le> asg[u := int i] ! y" for x y
  proof -
    have lt: "x < y" "y < n" "x \<in> set (par y)" using dag e by (auto simp: dag_ok_def)
    show ?thesis
    proof (cases "y = u")
      case True
      then have "0 \<le> asg ! x" "asg ! x \<noteq> - 2" using u lt(3) by (auto simp: ready_def)
      moreover have "x < n" using lt by simp
      then have "asg ! x = - 2 \<or> asg ! x \<le> int i" using r unfolding range_inv_def by blast
      ultimately show ?thesis using True lt u(2) r by (simp add: range_inv_def)
    next
      case False
      then have "0 \<le> asg ! x" "asg ! x \<le> asg ! y" using m e y by (auto simp: mono_inv_def)
      moreover have "x \<noteq> u" using calculation(1) u(1) by (auto simp: ready_def)
      ultimately show ?thesis using False by simp
    qed
  qed
  then show ?thesis by (simp add: mono_inv_def)
qed

lemma load_inv_step:
  assumes l: "load_inv n lat asg est" and "length asg = n" "u < n" "asg ! u = - 2" "i < MAX_THREAD"
  shows "load_inv n lat (asg[u := int i]) (est[i := est ! i + lat ! u])"
proof -
  have "est[i := est ! i + lat ! u] ! t = (\<Sum>k | k < n \<and> asg[u := int i] ! k = int t. lat ! k)"
    if t: "t < MAX_THREAD" for t
  proof (cases "t = i")
    case True
    have "{k. k < n \<and> asg[u := int i] ! k = int t} = insert u {k. k < n \<and> asg ! k = int i}"
      using assms True by (auto simp: nth_list_update)
    moreover have "u \<notin> {k. k < n \<and> asg ! k = int i}" using assms(4) by simp
    ultimately show ?thesis using l True t by (simp add: load_inv_def)
  next
    case False
    then have "{k. k < n \<and> asg[u := int i] ! k = int t} = {k. k < n \<and> asg ! k = int t}"
      using assms by (auto simp: nth_list_update)
    then show ?thesis using l False t by (simp add: load_inv_def)
  qed
  then show ?thesis using l by (simp add: load_inv_def)
qed

text \<open>The queue after a round: the entry is gone, the components that became ready are new.\<close>

lemma queue_inv_step:
  assumes dag: "dag_ok n deps par" and q: "queue_inv n par lat asg q" and len: "length asg = n"
    and top: "set q = insert c q0" "c \<notin> q0" "q0 = set p" "distinct (map qu p)" "qu c \<notin> qu ` q0"
  shows "queue_inv n par lat (asg[qu c := int i])
    (p @ map (\<lambda>v. \<lparr>qu = v, latency = lat ! v\<rparr>) (filter (ready par (asg[qu c := int i])) (deps (qu c))))"
proof -
  let ?u = "qu c" and ?asg = "asg[qu c := int i]"
  let ?new = "filter (ready par ?asg) (deps ?u)"
  have u: "?u < n" "ready par asg ?u" using q top(1) by (auto simp: queue_inv_def)
  have rd: "ready par ?asg v \<longleftrightarrow> v \<noteq> ?u \<and> (if v \<in> set (deps ?u) then asg ! v = - 2 \<and> (\<forall>k \<in> set (par v) - {?u}. 0 \<le> asg ! k)
      else ready par asg v)" if "v < n" for v
    using that u len dag unfolding ready_def dag_ok_def
    by (auto simp: nth_list_update)
  have notin: "v \<notin> qu ` q0" if "v \<in> set (deps ?u)" for v
  proof
    assume "v \<in> qu ` q0"
    then have "ready par asg v" using q top(1) by (auto simp: queue_inv_def)
    then have "0 \<le> asg ! ?u" using that dag by (auto simp: ready_def dag_ok_def)
    then show False using u by (simp add: ready_def)
  qed
  have "distinct (map qu p @ ?new)" using dag notin top(3,4) by (auto simp: dag_ok_def)
  moreover have "v \<in> qu ` q0 \<union> set ?new \<longleftrightarrow> v < n \<and> ready par ?asg v" for v
  proof (cases "v \<in> set (deps ?u)")
    case True
    then show ?thesis using notin dag by (auto simp: dag_ok_def)
  next
    case False
    have "v \<in> qu ` q0 \<longleftrightarrow> v \<in> qu ` set q \<and> v \<noteq> ?u" 
      unfolding top(1) image_insert using top(5) by blast
    then show ?thesis using False rd [of v] q by (auto simp: queue_inv_def)
  qed
  moreover have "\<forall>c \<in> q0. latency c = lat ! qu c" using q top(1) by (auto simp: queue_inv_def)
  ultimately show ?thesis using top(3) by (auto simp: queue_inv_def o_def image_Un image_image)
qed

section \<open>The loop\<close>

lemma can_sched_total: "\<forall>k \<in> set ks. k < length asg \<Longrightarrow> \<exists>c. can_sched asg ks = Ok c"
  by (induction asg ks rule: can_sched.induct) (auto simp: arr_get_def in_bounds_def)

lemma push_all_total:
  "(\<And>v. v \<in> set vs \<Longrightarrow> v < length asg \<and> v < length lat \<and> (\<forall>k \<in> set (par v). k < length asg)) \<Longrightarrow>
    \<exists>q'. ofold (try_push par lat asg) vs q = Ok q'"
proof (induction vs arbitrary: q)
  case (Cons v vs)
  have "\<exists>c. can_sched asg (par v) = Ok c" using Cons.prems [of v] by (intro can_sched_total) simp
  then have "\<exists>q1. try_push par lat asg q v = Ok q1"
    using Cons.prems [of v] by (auto simp: try_push_def arr_get_def in_bounds_def)
  then show ?case using Cons by fastforce
qed simp

lemma schedule_top_step:
  assumes dag: "dag_ok n deps par" and inv: "sched_inv n deps par lat i s" and lat: "length lat = n"
    and i: "i < MAX_THREAD" and ne: "candidates s \<noteq> []"
  shows "\<exists>s'. schedule_top tie deps par lat i s = Ok s' \<and> sched_inv n deps par lat i s' \<and>
    estLatency s' = (estLatency s)[i := estLatency s ! i + lat ! qu (pq_top tie (candidates s))] \<and>
    qu (pq_top tie (candidates s)) < n"
proof -
  let ?c = "pq_top tie (candidates s)" and ?p = "pq_pop tie (candidates s)"
  let ?asg = "(assigned s)[qu ?c := int i]"
  have r: "range_inv n i (assigned s)" and q: "queue_inv n par lat (assigned s) (candidates s)"
    and m: "mono_inv deps (assigned s)" and l: "load_inv n lat (assigned s) (estLatency s)"
    using inv by (simp_all add: sched_inv_def)
  have len: "length (assigned s) = n" "length (estLatency s) = MAX_THREAD"
    using r l by (simp_all add: range_inv_def load_inv_def)
  have c: "?c \<in> set (candidates s)" by (rule pq.top_mem [OF ne])
  then have u: "qu ?c < n" "ready par (assigned s) (qu ?c)" "latency ?c = lat ! qu ?c"
    using q by (auto simp: queue_inv_def)
  have "\<exists>q'. ofold (try_push par lat ?asg) (deps (qu ?c)) ?p = Ok q'"
  proof (rule push_all_total)
    fix v
    assume v: "v \<in> set (deps (qu ?c))"
    then have "v < n" "\<forall>k \<in> set (par v). k < v" using dag unfolding dag_ok_def by blast+
    then show "v < length ?asg \<and> v < length lat \<and> (\<forall>k \<in> set (par v). k < length ?asg)"
      using len lat by auto
  qed
  then obtain s' where s': "schedule_top tie deps par lat i s = Ok s'"
    using u len i by (auto simp: schedule_top_def arr_set_def arr_get_def in_bounds_def Let_def)
  note f = schedule_top_Ok [OF s', unfolded Let_def]
  have dist: "distinct (map qu (candidates s))" using q by (simp add: queue_inv_def)
  have "queue_inv n par lat ?asg (candidates s')"
    using queue_inv_step [OF dag q len(1) pq.pop_set [OF ne] _ refl] pq.pop_distinct [OF ne dist] f by auto
  moreover have "load_inv n lat ?asg (estLatency s')"
    using load_inv_step [OF l len(1) u(1) _ i] u(2,3) f by (simp add: ready_def)
  ultimately have "sched_inv n deps par lat i s'"
    using range_inv_step [OF r] mono_inv_step [OF dag r m u(2,1)] f by (simp add: sched_inv_def)
  with s' u f show ?thesis by auto
qed

text \<open>The loop of one thread: it leaves with an empty queue, or with the load at the average.\<close>

lemma fill_thread_inv:
  assumes "dag_ok n deps par" "length lat = n" "i < MAX_THREAD" "\<forall>k < n. lat ! k \<le> B" "0 \<le> B"
    and "sched_inv n deps par lat i s" "estLatency s ! i \<le> aver \<or> i = MAX_THREAD - 1"
  shows "\<exists>s'. fill_thread tie deps par lat aver i s = Ok s' \<and> sched_inv n deps par lat i s' \<and>
      (candidates s' = [] \<or> i \<noteq> MAX_THREAD - 1 \<and> aver \<le> estLatency s' ! i) \<and>
      (estLatency s' ! i \<le> aver + B \<or> i = MAX_THREAD - 1) \<and>
      (\<forall>t. t \<noteq> i \<longrightarrow> estLatency s' ! t = estLatency s ! t)"
  using assms
proof (induction tie deps par lat aver i s rule: fill_thread.induct)
  case (1 tie deps par lat aver i s)
  show ?case
  proof (cases "candidates s = []")
    case True
    then show ?thesis using 1 by (subst fill_thread.simps) auto
  next
    case False
    let ?u = "qu (pq_top tie (candidates s))"
    obtain s1 where s1: "schedule_top tie deps par lat i s = Ok s1" "sched_inv n deps par lat i s1"
      "estLatency s1 = (estLatency s)[i := estLatency s ! i + lat ! ?u]" "?u < n"
      using schedule_top_step "1.prems" False by blast
    let ?e = "estLatency s1 ! i"
    have len: "length (estLatency s) = MAX_THREAD" "length (estLatency s1) = MAX_THREAD"
      using "1.prems"(6) s1(2) by (simp_all add: sched_inv_def load_inv_def)
    have get: "arr_get (estLatency s1) (int i) = Ok ?e"
      using len "1.prems"(3) by (simp add: arr_get_def in_bounds_def)
    have eq: "fill_thread tie deps par lat aver i s =
        (if aver \<le> ?e \<and> i \<noteq> MAX_THREAD - 1 then Ok s1 else fill_thread tie deps par lat aver i s1)"
      using False s1(1) get by (subst fill_thread.simps) simp
    have "?e = estLatency s ! i + lat ! ?u" using s1(3) len "1.prems"(3) by simp
    then have e: "?e \<le> aver + B \<or> i = MAX_THREAD - 1"
      using "1.prems"(4,7) s1(4) by fastforce
    have other: "\<forall>t. t \<noteq> i \<longrightarrow> estLatency s1 ! t = estLatency s ! t" using s1(3) by simp
    show ?thesis
    proof (cases "aver \<le> ?e \<and> i \<noteq> MAX_THREAD - 1")
      case True
      then show ?thesis using eq s1(2) e other by auto
    next
      case False
      then have "?e \<le> aver \<or> i = MAX_THREAD - 1" by auto
      then show ?thesis
        using "1.IH" [OF \<open>candidates s \<noteq> []\<close> s1(1) get False "1.prems"(1-5) s1(2)] eq False other by auto
    qed
  qed
qed

text \<open>An empty queue means that every component is assigned: a first one left would be ready.\<close>

lemma empty_queue_all_assigned:
  assumes dag: "dag_ok n deps par" and inv: "sched_inv n deps par lat i s" and empty: "candidates s = []"
  shows "\<forall>k < n. 0 \<le> assigned s ! k \<and> assigned s ! k \<le> int i"
proof (intro allI impI)
  fix k
  assume "k < n"
  then show "0 \<le> assigned s ! k \<and> assigned s ! k \<le> int i"
  proof (induction k rule: less_induct)
    case (less k)
    have "\<forall>p \<in> set (par k). p < k" using dag unfolding dag_ok_def by blast
    then have "\<forall>p \<in> set (par k). 0 \<le> assigned s ! p" using less by auto
    moreover have "\<not> ready par (assigned s) k"
      using inv less.prems empty unfolding sched_inv_def queue_inv_def by auto
    ultimately have "assigned s ! k \<noteq> - 2" by (simp add: ready_def)
    then show ?case using inv less.prems unfolding sched_inv_def range_inv_def by blast
  qed
qed

lemma sched_inv_next: "sched_inv n deps par lat i s \<Longrightarrow> sched_inv n deps par lat (Suc i) s"
  unfolding sched_inv_def range_inv_def by fastforce

lemma initial_inv:
  assumes dag: "dag_ok n deps par" and lat: "length lat = n"
  shows "sched_inv n deps par lat 0 \<lparr>assigned = replicate n (- 2),
    candidates = initial_candidates par lat n, estLatency = replicate MAX_THREAD 0\<rparr>"
proof -
  have "ready par (replicate n (- 2)) v \<longleftrightarrow> par v = []" if "v < n" for v
  proof -
    have "\<forall>k \<in> set (par v). k < n" using dag that unfolding dag_ok_def by (meson order.strict_trans)
    then show ?thesis using that by (cases "par v") (auto simp: ready_def)
  qed
  then have "queue_inv n par lat (replicate n (- 2)) (initial_candidates par lat n)"
    by (auto simp: queue_inv_def initial_candidates_def o_def image_image)
  moreover have "mono_inv deps (replicate n (- 2))"
    using dag unfolding mono_inv_def dag_ok_def by fastforce
  moreover have "(\<Sum>k | k < n \<and> replicate n (- 2) ! k = int t. lat ! k) = 0" for t
    by (rule sum.neutral) auto
  then have "load_inv n lat (replicate n (- 2)) (replicate MAX_THREAD 0)" by (simp add: load_inv_def)
  ultimately show ?thesis by (simp add: sched_inv_def range_inv_def)
qed

text \<open>Both threads.\<close>

lemma schedule_result:
  assumes dag: "dag_ok n deps par" and lat: "length lat = n" and B: "\<forall>k < n. 0 \<le> lat ! k \<and> lat ! k \<le> B"
    and "0 \<le> B" "0 \<le> aver" "aver \<le> (\<Sum>k < n. lat ! k)"
  shows "\<exists>st. ofold (\<lambda>st i. fill_thread tie deps par lat aver i st) [0..<MAX_THREAD]
      \<lparr>assigned = replicate n (- 2), candidates = initial_candidates par lat n,
       estLatency = replicate MAX_THREAD 0\<rparr> = Ok st \<and>
    length (assigned st) = n \<and> (\<forall>k < n. 0 \<le> assigned st ! k \<and> assigned st ! k < int MAX_THREAD) \<and>
    mono_inv deps (assigned st) \<and> load_inv n lat (assigned st) (estLatency st) \<and>
    aver \<le> estLatency st ! 0 \<and> estLatency st ! 0 \<le> aver + B"
proof -
  let ?s0 = "\<lparr>assigned = replicate n (- 2), candidates = initial_candidates par lat n,
       estLatency = replicate MAX_THREAD 0\<rparr>"
  have B': "\<forall>k < n. lat ! k \<le> B" using B by blast
  have "estLatency ?s0 ! 0 \<le> aver" using assms(5) by (simp add: MAX_THREAD_def)
  then obtain s1 where s1: "fill_thread tie deps par lat aver 0 ?s0 = Ok s1" "sched_inv n deps par lat 0 s1"
    "candidates s1 = [] \<or> aver \<le> estLatency s1 ! 0" "estLatency s1 ! 0 \<le> aver + B"
    using fill_thread_inv [OF dag lat _ B' assms(4) initial_inv [OF dag lat], of aver tie]
    by (auto simp: MAX_THREAD_def)
  obtain s2 where s2: "fill_thread tie deps par lat aver 1 s1 = Ok s2" "sched_inv n deps par lat 1 s2"
    "candidates s2 = []" "estLatency s2 ! 0 = estLatency s1 ! 0"
    using fill_thread_inv [OF dag lat _ B' assms(4), of 1 s1 aver tie] sched_inv_next [OF s1(2)]
    by (auto simp: MAX_THREAD_def)
  have "aver \<le> estLatency s1 ! 0"
  proof (cases "candidates s1 = []")
    case True
    then have "\<forall>k < n. assigned s1 ! k = 0"
      using empty_queue_all_assigned [OF dag s1(2)] by force
    then have "{k. k < n \<and> assigned s1 ! k = 0} = {..<n}" by auto
    then have "estLatency s1 ! 0 = (\<Sum>k < n. lat ! k)"
      using s1(2) by (simp add: sched_inv_def load_inv_def MAX_THREAD_def)
    then show ?thesis using assms(6) by simp
  next
    case False
    then show ?thesis using s1(3) by blast
  qed
  moreover have "\<forall>k < n. 0 \<le> assigned s2 ! k \<and> assigned s2 ! k < int MAX_THREAD"
    using empty_queue_all_assigned [OF dag s2(2,3)] by (auto simp: MAX_THREAD_def)
  moreover have "ofold (\<lambda>st i. fill_thread tie deps par lat aver i st) [0..<MAX_THREAD] ?s0 = Ok s2"
    using s1(1) s2(1) by (simp add: MAX_THREAD_def numeral_2_eq_2)
  ultimately show ?thesis
    using s1(4) s2(2,4) by (auto simp: sched_inv_def range_inv_def)
qed

section \<open>The sums and the part arrays\<close>

lemma add_latency_all:
  "(\<forall>i \<in> set is. sid i < length lat) \<Longrightarrow> \<exists>lat'.
    ofold (add_latency opc sid) is (lat, t) = Ok (lat', t + (\<Sum>i \<leftarrow> is. getLatency (opc i))) \<and>
    length lat' = length lat \<and>
    (\<forall>k < length lat. lat' ! k = lat ! k + (\<Sum>i \<leftarrow> filter (\<lambda>i. sid i = k) is. getLatency (opc i)))"
proof (induction "is" arbitrary: lat t)
  case (Cons i "is")
  let ?lat = "lat[sid i := lat ! sid i + getLatency (opc i)]"
  have "add_latency opc sid (lat, t) i = Ok (?lat, t + getLatency (opc i))"
    using Cons.prems by (simp add: add_latency_def arr_get_def arr_set_def in_bounds_def)
  moreover obtain lat' where "ofold (add_latency opc sid) is (?lat, t + getLatency (opc i)) =
      Ok (lat', t + getLatency (opc i) + (\<Sum>i \<leftarrow> is. getLatency (opc i)))"
    "length lat' = length ?lat"
    "\<forall>k < length ?lat. lat' ! k = ?lat ! k + (\<Sum>i \<leftarrow> filter (\<lambda>i. sid i = k) is. getLatency (opc i))"
    using Cons.IH [of ?lat "t + getLatency (opc i)"] Cons.prems by auto
  ultimately show ?case using Cons.prems by (intro exI [of _ lat']) (auto simp: nth_list_update)
qed simp

lemma latency_total:
  fixes sid :: "'a \<Rightarrow> nat" and n :: nat
  shows "(\<forall>i \<in> set is. sid i < n) \<Longrightarrow>
    (\<Sum>k < n. \<Sum>i \<leftarrow> filter (\<lambda>i. sid i = k) is. f i) = (\<Sum>i \<leftarrow> is. f i :: int)"
proof (induction "is")
  case (Cons i "is")
  have "(\<Sum>i \<leftarrow> filter (\<lambda>i. sid i = k) (i # is). f i) =
      (if k = sid i then f i else 0) + (\<Sum>i \<leftarrow> filter (\<lambda>i. sid i = k) is. f i)" for k
    by simp
  moreover have "(\<Sum>k < n. if k = sid i then f i else 0) = f i"
    by (subst sum.delta) (use Cons.prems in auto)
  ultimately show ?case using Cons by (simp only: sum.distrib) simp
qed simp

lemma add_part_all:
  assumes "\<forall>k < n. 0 \<le> asg ! k \<and> asg ! k < int MAX_THREAD" "length asg = n" "m \<le> n"
  shows "ofold (add_part asg) [0..<m] (replicate MAX_THREAD []) =
    Ok (map (\<lambda>t. filter (\<lambda>k. asg ! k = int t) [0..<m]) [0..<MAX_THREAD])"
  using assms(3)
proof (induction m)
  case 0
  then show ?case by (simp add: map_replicate_trivial [symmetric] list_eq_iff_nth_eq)
next
  case (Suc m)
  let ?p = "map (\<lambda>t. filter (\<lambda>k. asg ! k = int t) [0..<m]) [0..<MAX_THREAD]"
  let ?t = "nat (asg ! m)"
  have "m < n" using Suc.prems by simp
  then have "0 \<le> asg ! m \<and> asg ! m < int MAX_THREAD" using assms(1) by blast
  then have m: "0 \<le> asg ! m" "asg ! m < int MAX_THREAD" "m < length asg" "?t < MAX_THREAD"
    using assms(2) Suc.prems by auto
  then have "add_part asg ?p m = Ok (?p[?t := ?p ! ?t @ [m]])"
    by (simp add: add_part_def arr_get_def arr_set_def in_bounds_def)
  moreover have "?p[?t := ?p ! ?t @ [m]] =
      map (\<lambda>t. filter (\<lambda>k. asg ! k = int t) [0..<Suc m]) [0..<MAX_THREAD]"
    using m by (intro nth_equalityI) (auto simp: nth_list_update)
  ultimately show ?case using Suc by (simp add: ofold_append outcome_simps)
qed

end
