(* ===== verification/Partition_Result.thy ===== *)
theory Partition_Result
  imports SCC_Result Partition_Correct
begin

text \<open>
  \<open>threadPartition\<close> of \<^verbatim>\<open>DSWP_3.cpp\<close> run on the components that \<open>findSCC\<close> leaves, for every dependence graph of
  the loop and every way the priority queue breaks ties: it never reaches \<open>error\<close>, every component gets
  one thread, dependences only go from a thread to itself or a later one, and the load of the first thread
  is at least the average. The last section has the two lookups the code generation uses.
\<close>

section \<open>The composition with findSCC\<close>

lemma dag_ok_scc:
  assumes "graph_inv g" "edges_within g is"
  shows "dag_ok (sccNum (scc_of g is)) (scc_dependents (scc_of g is)) (scc_parents (scc_of g is))"
proof -
  let ?s = "scc_of g is"
  have D: "dag_state_inv (pdg g) ?s" by (rule scc_of_partition(3) [OF assms])
  then have l: "dag_lists ?s" by (simp add: dag_state_inv_def)
  have "v \<in> set (scc_dependents ?s u) \<longleftrightarrow> dag_added ?s (u, v)" "u \<in> set (scc_parents ?s v) \<longleftrightarrow> dag_added ?s (u, v)"
    "distinct (scc_dependents ?s u)" for u v
    using l unfolding dag_lists_def by blast+
  moreover have "dag_added ?s (u, v) \<Longrightarrow> u < v \<and> v < sccNum ?s" for u v
    using D unfolding dag_state_inv_def by blast
  ultimately show ?thesis unfolding dag_ok_def by simp
qed

lemma sccId_less: "graph_inv g \<Longrightarrow> edges_within g is \<Longrightarrow> i \<in> set is \<Longrightarrow> sccId (scc_of g is) i < sccNum (scc_of g is)"
  using scc_of_partition(1,4) unfolding partition_inv_def by blast

lemma sum_by_class:
  fixes sid :: "'a \<Rightarrow> nat" and f :: "'a \<Rightarrow> int"
  assumes "\<forall>i \<in> set is. sid i < n"
  shows "(\<Sum>k | k < n \<and> P k. \<Sum>i \<leftarrow> filter (\<lambda>i. sid i = k) is. f i) = (\<Sum>i \<leftarrow> filter (\<lambda>i. P (sid i)) is. f i)"
  using assms
proof (induction "is")
  case (Cons i "is")
  have "(\<Sum>k | k < n \<and> P k. \<Sum>j \<leftarrow> filter (\<lambda>j. sid j = k) (i # is). f j) =
      (\<Sum>k | k < n \<and> P k. (if k = sid i then f i else 0) + (\<Sum>j \<leftarrow> filter (\<lambda>j. sid j = k) is. f j))"
    by (rule sum.cong) auto
  also have "\<dots> = (if P (sid i) then f i else 0) + (\<Sum>j \<leftarrow> filter (\<lambda>j. P (sid j)) is. f j)"
    using Cons by (simp add: sum.distrib sum.delta)
  finally show ?case by simp
qed simp

text \<open>The latency of the instructions of a thread.\<close>

definition thread_load :: "(Inst \<Rightarrow> Opcode) \<Rightarrow> Inst list \<Rightarrow> (Inst \<Rightarrow> nat) \<Rightarrow> int list \<Rightarrow> nat \<Rightarrow> int" where
  "thread_load opc is sid asg t = (\<Sum>i \<leftarrow> filter (\<lambda>i. asg ! sid i = int t) is. getLatency (opc i))"

definition total_latency :: "(Inst \<Rightarrow> Opcode) \<Rightarrow> Inst list \<Rightarrow> int" where
  "total_latency opc is = (\<Sum>i \<leftarrow> is. getLatency (opc i))"

definition partition_ok ::
  "(Inst \<Rightarrow> Opcode) \<Rightarrow> Inst list \<Rightarrow> scc_state \<Rightarrow> partition \<Rightarrow> bool" where
  "partition_ok opc is s p \<longleftrightarrow> length (thread_of p) = sccNum s \<and>
     (\<forall>k < sccNum s. 0 \<le> thread_of p ! k \<and> thread_of p ! k < int MAX_THREAD) \<and>
     mono_inv (scc_dependents s) (thread_of p) \<and>
     part p = map (\<lambda>t. filter (\<lambda>k. thread_of p ! k = int t) [0..<sccNum s]) [0..<MAX_THREAD] \<and>
     (\<forall>t < MAX_THREAD. load p ! t = thread_load opc is (sccId s) (thread_of p) t) \<and>
     (\<forall>k < sccNum s. sccLatency p ! k = (\<Sum>i \<leftarrow> filter (\<lambda>i. sccId s i = k) is. getLatency (opc i))) \<and>
     total_latency opc is div 2 \<le> load p ! 0 \<and>
     (\<forall>B \<ge> 0. (\<forall>k < sccNum s. sccLatency p ! k \<le> B) \<longrightarrow> load p ! 0 \<le> total_latency opc is div 2 + B)"

lemma sum_list_nonneg': "(\<And>x. 0 \<le> f x) \<Longrightarrow> 0 \<le> (\<Sum>x \<leftarrow> xs. f x :: int)"
  by (induction xs) simp_all

lemma threadPartition_ok:
  assumes dag: "dag_ok (sccNum s) (scc_dependents s) (scc_parents s)"
    and ids: "\<forall>i \<in> set is. sccId s i < sccNum s"
  shows "\<exists>p. threadPartition tie opc is s = Ok p \<and> partition_ok opc is s p"
proof -
  let ?n = "sccNum s" and ?total = "total_latency opc is"
  let ?lat = "\<lambda>k. \<Sum>i \<leftarrow> filter (\<lambda>i. sccId s i = k) is. getLatency (opc i)"
  obtain lat where lat: "ofold (add_latency opc (sccId s)) is (replicate ?n 0, 0) = Ok (lat, ?total)"
    "length lat = ?n" "\<forall>k < ?n. lat ! k = ?lat k"
    using add_latency_all [of "is" "sccId s" "replicate ?n 0" opc 0] ids by (auto simp: total_latency_def)
  have pos: "0 \<le> ?lat k" for k by (rule sum_list_nonneg') (rule getLatency_bounds)
  have total: "(\<Sum>k < ?n. lat ! k) = ?total"
    using latency_total [OF ids] lat(3) by (simp add: total_latency_def)
  have "0 \<le> ?total" unfolding total_latency_def by (rule sum_list_nonneg') (rule getLatency_bounds)
  then have aver: "0 \<le> ?total div 2" "?total div 2 \<le> (\<Sum>k < ?n. lat ! k)" "?total sdiv int MAX_THREAD = ?total div 2"
    using total by (auto simp: MAX_THREAD_def sdiv_nonneg)
  let ?s0 = "\<lparr>assigned = replicate ?n (- 2), candidates = initial_candidates (scc_parents s) lat ?n,
       estLatency = replicate MAX_THREAD 0\<rparr>"
  have run: "\<exists>st. ofold (\<lambda>st i. fill_thread tie (scc_dependents s) (scc_parents s) lat (?total div 2) i st) [0..<MAX_THREAD] ?s0 = Ok st \<and>
      length (assigned st) = ?n \<and> (\<forall>k < ?n. 0 \<le> assigned st ! k \<and> assigned st ! k < int MAX_THREAD) \<and>
      mono_inv (scc_dependents s) (assigned st) \<and> load_inv ?n lat (assigned st) (estLatency st) \<and>
      ?total div 2 \<le> estLatency st ! 0 \<and> estLatency st ! 0 \<le> ?total div 2 + B"
    if "0 \<le> B" "\<forall>k < ?n. lat ! k \<le> B" for B
    by (rule schedule_result [OF dag lat(2)]) (use that pos lat(3) aver in auto)
  have le: "\<forall>k < ?n. lat ! k \<le> ?total"
    using total pos lat(3) member_le_sum [of _ "{..<?n}" "\<lambda>k. lat ! k"] by auto
  obtain st where st: "ofold (\<lambda>st i. fill_thread tie (scc_dependents s) (scc_parents s) lat (?total div 2) i st) [0..<MAX_THREAD] ?s0 = Ok st"
    "length (assigned st) = ?n" "\<forall>k < ?n. 0 \<le> assigned st ! k \<and> assigned st ! k < int MAX_THREAD"
    "mono_inv (scc_dependents s) (assigned st)" "load_inv ?n lat (assigned st) (estLatency st)"
    "?total div 2 \<le> estLatency st ! 0"
    using run [OF \<open>0 \<le> ?total\<close> le] by blast
  have upper: "estLatency st ! 0 \<le> ?total div 2 + B" if "0 \<le> B" "\<forall>k < ?n. lat ! k \<le> B" for B
    using run [OF that] st(1) by auto
  let ?parts = "map (\<lambda>t. filter (\<lambda>k. assigned st ! k = int t) [0..<?n]) [0..<MAX_THREAD]"
  let ?p = "\<lparr>sccLatency = lat, thread_of = assigned st, part = ?parts, load = estLatency st\<rparr>"
  have "threadPartition tie opc is s = Ok ?p"
    using lat(1) aver(3) st(1) add_part_all [OF st(3,2) order_refl]
    by (simp add: threadPartition_def Let_def)
  moreover have "estLatency st ! t = thread_load opc is (sccId s) (assigned st) t" if "t < MAX_THREAD" for t
  proof -
    have "estLatency st ! t = (\<Sum>k | k < ?n \<and> assigned st ! k = int t. lat ! k)"
      using st(5) that by (simp add: load_inv_def)
    also have "\<dots> = (\<Sum>k | k < ?n \<and> assigned st ! k = int t. ?lat k)" using lat(3) by (intro sum.cong) auto
    also have "\<dots> = thread_load opc is (sccId s) (assigned st) t"
      unfolding thread_load_def by (rule sum_by_class [where P = "\<lambda>k. assigned st ! k = int t", OF ids])
    finally show ?thesis .
  qed
  then have "partition_ok opc is s ?p"
    unfolding partition_ok_def using st(2-4,6) lat(3) upper by simp
  ultimately show ?thesis by blast
qed

lemma sum_two_classes:
  "(\<forall>i \<in> set is. a i = 0 \<or> a i = 1) \<Longrightarrow>
    (\<Sum>i \<leftarrow> filter (\<lambda>i. a i = 0) is. f i) + (\<Sum>i \<leftarrow> filter (\<lambda>i. a i = 1) is. f i) = (\<Sum>i \<leftarrow> is. f i :: int)"
  for a :: "'a \<Rightarrow> int"
  by (induction "is") auto

lemma partition_of_scc:
  assumes "graph_inv g" "edges_within g is"
  shows "\<exists>p. threadPartition tie opc is (scc_of g is) = Ok p \<and> partition_ok opc is (scc_of g is) p"
  by (rule threadPartition_ok [OF dag_ok_scc [OF assms]]) (use sccId_less [OF assms] in blast)

lemma partition_of_scc_ok:
  "graph_inv g \<Longrightarrow> edges_within g is \<Longrightarrow> threadPartition tie opc is (scc_of g is) = Ok p \<Longrightarrow>
    partition_ok opc is (scc_of g is) p"
  using partition_of_scc [of g "is" tie opc] by auto

text \<open>Dependences never lead to an earlier thread.\<close>

lemma partition_of_scc_pipeline:
  assumes "graph_inv g" "edges_within g is" "threadPartition tie opc is (scc_of g is) = Ok p"
    and "has_edge g u v d"
  shows "\<exists>a b. getInstAssigned (thread_of p) (sccId (scc_of g is)) (VInst u) = Ok a \<and>
    getInstAssigned (thread_of p) (sccId (scc_of g is)) (VInst v) = Ok b \<and> 0 \<le> a \<and> a \<le> b \<and> b < int MAX_THREAD"
proof -
  let ?s = "scc_of g is"
  have ok: "partition_ok opc is ?s p" by (rule partition_of_scc_ok [OF assms(1-3)])
  have "(u, v) \<in> dep (pdg g)" using assms(4) dep_has_edge [OF assms(1)] by blast
  then have "u \<in> set is" "v \<in> set is" using assms(2) unfolding edges_within_def by blast+
  then have lt: "sccId ?s u < sccNum ?s" "sccId ?s v < sccNum ?s" using sccId_less [OF assms(1,2)] by blast+
  then have r: "0 \<le> thread_of p ! sccId ?s v" "thread_of p ! sccId ?s v < int MAX_THREAD"
    "0 \<le> thread_of p ! sccId ?s u" "length (thread_of p) = sccNum ?s"
    using ok by (simp_all add: partition_ok_def)
  have "thread_of p ! sccId ?s u \<le> thread_of p ! sccId ?s v"
  proof (cases "sccId ?s u = sccId ?s v")
    case False
    have "crossing (pdg g) (visited ?s) (sccId ?s) (sccId ?s u) (sccId ?s v)"
      using \<open>(u, v) \<in> dep (pdg g)\<close> \<open>u \<in> set is\<close> \<open>v \<in> set is\<close> scc_of_partition(4) [OF assms(1,2)]
      unfolding crossing_def by blast
    then have "sccId ?s v \<in> set (scc_dependents ?s (sccId ?s u))"
      using False scc_of_partition(3) [OF assms(1,2)] unfolding dag_state_inv_def dag_lists_def by blast
    then show ?thesis using ok r(1) unfolding partition_ok_def mono_inv_def by blast
  qed simp
  with r lt show ?thesis by (auto simp: getInstAssigned_def arr_get_def in_bounds_def)
qed

section \<open>The run of the witnesses\<close>

lemma getLatency_run: "getLatency Add = 1" "getLatency Call = 50"
  by (simp_all add: getLatency_def latency_table_def)

lemma fill_thread_empty: "candidates s = [] \<Longrightarrow> fill_thread tie deps par lat aver i s = Ok s"
  by (subst fill_thread.simps) simp

lemma fill_thread_next:
  "candidates s \<noteq> [] \<Longrightarrow> fill_thread tie deps par lat aver i s =
    obind (schedule_top tie deps par lat i s) (\<lambda>s'.
        obind (arr_get (estLatency s') (int i)) (\<lambda>e.
        if aver \<le> e \<and> i \<noteq> MAX_THREAD - 1 then Ok s'
        else fill_thread tie deps par lat aver i s'))"
  by (subst fill_thread.simps) simp

lemmas partition_run = threadPartition_def add_latency_def arr_get_def arr_set_def in_bounds_def MAX_THREAD_def
  initial_candidates_def fill_thread_empty fill_thread_next schedule_top_def try_push_def pq_top_def pq_pop_def maximal_def
  add_part_def less_QNode_ext_def signed_divide_int_def getLatency_run Let_def upt_rec numeral_2_eq_2 numeral_3_eq_3

text \<open>The first thread gets the isolated instruction and the cycle, the second one the rest.\<close>

lemma small_scc:
  "sccNum (scc_of small_graph [1, 2, 3, 0]) = 3" "sccId (scc_of small_graph [1, 2, 3, 0]) 0 = 0"
  "sccId (scc_of small_graph [1, 2, 3, 0]) 1 = 1" "sccId (scc_of small_graph [1, 2, 3, 0]) 2 = 1"
  "sccId (scc_of small_graph [1, 2, 3, 0]) 3 = 2" "scc_dependents (scc_of small_graph [1, 2, 3, 0]) 0 = [1]"
  "scc_dependents (scc_of small_graph [1, 2, 3, 0]) 1 = [2]" "scc_dependents (scc_of small_graph [1, 2, 3, 0]) 2 = []"
  "scc_parents (scc_of small_graph [1, 2, 3, 0]) 0 = []" "scc_parents (scc_of small_graph [1, 2, 3, 0]) 1 = [0]"
  "scc_parents (scc_of small_graph [1, 2, 3, 0]) 2 = [1]"
  by (simp_all add: scc_run)

lemma small_partition:
  "threadPartition (\<lambda>_. 0) (\<lambda>_. Add) [1, 2, 3, 0] (scc_of small_graph [1, 2, 3, 0]) =
    Ok \<lparr>sccLatency = [1, 2, 1], thread_of = [0, 0, 1], part = [[0, 1], [2]], load = [3, 1]\<rparr>"
proof -
  define s where "s = scc_of small_graph [1, 2, 3, 0]"
  have "sccNum s = 3" "sccId s 0 = 0" "sccId s 1 = 1" "sccId s 2 = 1" "sccId s 3 = 2"
    "scc_dependents s 0 = [1]" "scc_dependents s 1 = [2]" "scc_dependents s 2 = []"
    "scc_parents s 0 = []" "scc_parents s 1 = [0]" "scc_parents s 2 = [1]"
    unfolding s_def by (rule small_scc)+
  then have "threadPartition (\<lambda>_. 0) (\<lambda>_. Add) [1, 2, 3, 0] s =
    Ok \<lparr>sccLatency = [1, 2, 1], thread_of = [0, 0, 1], part = [[0, 1], [2]], load = [3, 1]\<rparr>"
    by (simp add: partition_run cong: obind_weak_cong)
  then show ?thesis by (simp add: s_def)
qed

section \<open>Properties\<close>

text \<open>
  C8. \<open>threadPartition\<close> always returns: on every dependence graph of the loop it neither reaches its call of
  \<open>error\<close> nor accesses a vector out of bounds, and the \<open>part\<close> arrays of the threads list every component
  exactly once, under the thread the component is assigned to.
\<close>

theorem partition_total:
  assumes "graph_inv g" "edges_within g is"
  shows "\<exists>p. threadPartition tie opc is (scc_of g is) = Ok p \<and> length (part p) = MAX_THREAD \<and>
    mset (concat (part p)) = mset [0..<sccNum (scc_of g is)] \<and>
    (\<forall>t < MAX_THREAD. \<forall>k \<in> set (part p ! t). thread_of p ! k = int t)"
proof -
  obtain p where p: "threadPartition tie opc is (scc_of g is) = Ok p" "partition_ok opc is (scc_of g is) p"
    using partition_of_scc [OF assms] by blast
  let ?n = "sccNum (scc_of g is)"
  have part: "part p = [filter (\<lambda>k. thread_of p ! k = 0) [0..<?n], filter (\<lambda>k. thread_of p ! k = 1) [0..<?n]]"
    using p(2) by (simp add: partition_ok_def MAX_THREAD_def numeral_2_eq_2)
  have "\<forall>k < ?n. 0 \<le> thread_of p ! k \<and> thread_of p ! k < 2"
    using p(2) by (simp add: partition_ok_def MAX_THREAD_def)
  then have "filter (\<lambda>k. thread_of p ! k = 1) [0..<?n] = filter (\<lambda>k. \<not> thread_of p ! k = 0) [0..<?n]"
    by (intro filter_cong) force+
  then have "mset (concat (part p)) = mset (filter (\<lambda>k. thread_of p ! k = 0) [0..<?n]) +
      mset (filter (\<lambda>k. \<not> thread_of p ! k = 0) [0..<?n])"
    unfolding part by (simp only: concat.simps append_Nil2 mset_append)
  then have "mset (concat (part p)) = mset [0..<?n]" by (simp only: mset_filter_split)
  then show ?thesis using p(1) part by (auto simp: MAX_THREAD_def less_2_cases_iff)
qed

theorem partition_total_witness:
  "\<exists>p. threadPartition (\<lambda>_. 0) (\<lambda>_. Add) [1, 2, 3, 0] (scc_of small_graph [1, 2, 3, 0]) = Ok p \<and>
    length (part p) = 2"
  using partition_total [OF small_graph_inv small_graph_within, of "\<lambda>_. 0" "\<lambda>_. Add"]
  by (auto simp: MAX_THREAD_def)

text \<open>
  C6. The threads form a pipeline: an instruction that depends on another one, through a register, memory
  or control, is assigned to the same thread or to a later one. So no value ever has to be sent back.
\<close>

theorem partition_pipeline:
  assumes "graph_inv g" "edges_within g is" "threadPartition tie opc is (scc_of g is) = Ok p"
    and "has_edge g u v d"
  shows "\<exists>a b. getInstAssigned (thread_of p) (sccId (scc_of g is)) (VInst u) = Ok a \<and>
    getInstAssigned (thread_of p) (sccId (scc_of g is)) (VInst v) = Ok b \<and> 0 \<le> a \<and> a \<le> b \<and> b < int MAX_THREAD"
  by (rule partition_of_scc_pipeline [OF assms])

theorem partition_pipeline_witness:
  "\<exists>p a b. threadPartition (\<lambda>_. 0) (\<lambda>_. Add) [1, 2, 3, 0] (scc_of small_graph [1, 2, 3, 0]) = Ok p \<and>
    getInstAssigned (thread_of p) (sccId (scc_of small_graph [1, 2, 3, 0])) (VInst 2) = Ok a \<and>
    getInstAssigned (thread_of p) (sccId (scc_of small_graph [1, 2, 3, 0])) (VInst 3) = Ok b \<and> a \<le> b"
proof -
  obtain p where p: "threadPartition (\<lambda>_. 0) (\<lambda>_. Add) [1, 2, 3, 0] (scc_of small_graph [1, 2, 3, 0]) = Ok p"
    using partition_of_scc [OF small_graph_inv small_graph_within] by blast
  then show ?thesis
    using partition_pipeline [OF small_graph_inv small_graph_within p, of 2 3 REG] by (auto simp: small_edges)
qed

text \<open>
  C16. The load balance: the first thread gets at least the average latency, at most one component more,
  and the second thread gets the rest.
\<close>

theorem partition_balance:
  assumes "graph_inv g" "edges_within g is" "threadPartition tie opc is (scc_of g is) = Ok p"
    and "\<forall>k < sccNum (scc_of g is). sccLatency p ! k \<le> B" "0 \<le> B"
  shows "let w = thread_load opc is (sccId (scc_of g is)) (thread_of p) in
    total_latency opc is div 2 \<le> w 0 \<and> w 0 \<le> total_latency opc is div 2 + B \<and>
    w 0 + w 1 = total_latency opc is"
proof -
  let ?s = "scc_of g is" and ?w = "thread_load opc is (sccId (scc_of g is)) (thread_of p)"
  have ok: "partition_ok opc is ?s p" by (rule partition_of_scc_ok [OF assms(1-3)])
  have "thread_of p ! sccId ?s i = 0 \<or> thread_of p ! sccId ?s i = 1" if "i \<in> set is" for i
  proof -
    have "0 \<le> thread_of p ! sccId ?s i \<and> thread_of p ! sccId ?s i < int MAX_THREAD"
      using ok sccId_less [OF assms(1,2) that] unfolding partition_ok_def by blast
    then show ?thesis by (auto simp: MAX_THREAD_def)
  qed
  then have "?w 0 + ?w 1 = total_latency opc is"
    unfolding thread_load_def total_latency_def by (simp add: sum_two_classes)
  moreover have "load p ! 0 = ?w 0" using ok unfolding partition_ok_def by (simp add: MAX_THREAD_def)
  moreover have "total_latency opc is div 2 \<le> load p ! 0" "load p ! 0 \<le> total_latency opc is div 2 + B"
    using ok assms(4,5) unfolding partition_ok_def by blast+
  ultimately show ?thesis by (simp add: Let_def)
qed

theorem partition_balance_witness:
  "2 \<le> thread_load (\<lambda>_. Add) [1, 2, 3, 0] (sccId (scc_of small_graph [1, 2, 3, 0])) [0, 0, 1] 0 \<and>
   total_latency (\<lambda>_. Add) [1, 2, 3, 0] = 4"
proof -
  have "total_latency (\<lambda>_. Add) [1, 2, 3, 0] = 4"
    by (simp add: total_latency_def getLatency_def latency_table_def)
  then show ?thesis
    using partition_balance [OF small_graph_inv small_graph_within small_partition, of 2] small_scc(1)
    by (auto simp: Let_def less_Suc_eq numeral_3_eq_3)
qed

text \<open>
  The second thread can be left without work: when the last component is also the one that fills the
  first thread, the first thread gets every component.
\<close>

theorem partition_empty_thread:
  "map_outcome part (threadPartition (\<lambda>_. 0) ((\<lambda>_. Add)(3 := Call)) [1, 2, 3, 0]
     (scc_of small_graph [1, 2, 3, 0])) = Ok [[0, 1, 2], []]"
proof -
  define s where "s = scc_of small_graph [1, 2, 3, 0]"
  have "sccNum s = 3" "sccId s 0 = 0" "sccId s 1 = 1" "sccId s 2 = 1" "sccId s 3 = 2"
    "scc_dependents s 0 = [1]" "scc_dependents s 1 = [2]" "scc_dependents s 2 = []"
    "scc_parents s 0 = []" "scc_parents s 1 = [0]" "scc_parents s 2 = [1]"
    unfolding s_def by (rule small_scc)+
  then have "map_outcome part (threadPartition (\<lambda>_. 0) ((\<lambda>_. Add)(3 := Call)) [1, 2, 3, 0] s) = Ok [[0, 1, 2], []]"
    by (simp add: partition_run cong: obind_weak_cong)
  then show ?thesis by (simp add: s_def)
qed

end
