(* ===== verification/Live_Info.thy ===== *)
theory Live_Info
  imports Small_Loop
begin

text \<open>
  \<open>getLiveinfo\<close> of \<^verbatim>\<open>DSWP_4.cpp\<close>: the values the loop defines, the values it hands to the code after it, and
  the values it takes from the code before it. A use by something that is no instruction ends in \<open>error\<close>.
\<close>

section \<open>The computation\<close>

record live_info =
  defin :: "Value list"
  livein :: "Value list"
  liveout :: "Value list"

text \<open>One use of \<open>inst\<close>, with the flag \<open>already_liveouted\<close>.\<close>

definition visit_use ::
  "func_ir \<Rightarrow> loop_ir \<Rightarrow> Inst \<Rightarrow> Value list \<times> bool \<Rightarrow> Value \<Rightarrow> (Value list \<times> bool) outcome" where
  "visit_use F L inst st use =
     (case use of
        VInst use_i \<Rightarrow>
          if \<not> snd st \<and> \<not> contains_inst F L use_i then Ok (fst st @ [VInst inst], True) else Ok st
      | _ \<Rightarrow> Exit ''used by something that's not an instruction???'')"

definition visit_def :: "func_ir \<Rightarrow> loop_ir \<Rightarrow> live_info \<Rightarrow> Inst \<Rightarrow> live_info outcome" where
  "visit_def F L li inst =
     (let li1 = (if ity (code F inst) \<noteq> VoidTy then li\<lparr>defin := defin li @ [VInst inst]\<rparr> else li) in
      obind (ofold (visit_use F L inst) (uses F inst) (liveout li1, False)) (\<lambda>(lo, _).
      Ok (li1\<lparr>liveout := lo\<rparr>)))"

definition is_variable :: "Value \<Rightarrow> bool" where
  "is_variable v = (case v of VInst i \<Rightarrow> True | VArg a \<Rightarrow> True | _ \<Rightarrow> False)"

definition visit_operand :: "Value \<Rightarrow> live_info \<Rightarrow> live_info" where
  "visit_operand op li =
     (if is_variable op \<and> op \<notin> set (defin li) \<and> op \<notin> set (livein li)
      then li\<lparr>livein := livein li @ [op]\<rparr> else li)"

definition getLiveinfo :: "func_ir \<Rightarrow> loop_ir \<Rightarrow> live_info outcome" where
  "getLiveinfo F L =
     obind (ofold (visit_def F L) (loop_insts F L) \<lparr>defin = [], livein = [], liveout = []\<rparr>) (\<lambda>li.
     Ok (fold (\<lambda>inst. fold visit_operand (operands (code F inst))) (loop_insts F L) li))"

section \<open>The first loop\<close>

definition inst_uses_only :: "func_ir \<Rightarrow> Inst list \<Rightarrow> bool" where
  "inst_uses_only F is \<longleftrightarrow> (\<forall>i \<in> set is. \<forall>u \<in> set (uses F i). \<exists>j. u = VInst j)"

definition used_outside :: "func_ir \<Rightarrow> loop_ir \<Rightarrow> Inst \<Rightarrow> bool" where
  "used_outside F L i \<longleftrightarrow> (\<exists>j. VInst j \<in> set (uses F i) \<and> \<not> contains_inst F L j)"

lemma visit_uses:
  "\<forall>u \<in> set us. \<exists>j. u = VInst j \<Longrightarrow>
    ofold (visit_use F L i) us (lo, b) =
      Ok (if \<not> b \<and> (\<exists>j. VInst j \<in> set us \<and> \<not> contains_inst F L j) then (lo @ [VInst i], True) else (lo, b))"
proof (induction us arbitrary: lo b)
  case (Cons u us)
  then obtain j where u: "u = VInst j" by auto
  show ?case
  proof (cases "\<not> b \<and> \<not> contains_inst F L j")
    case True
    then show ?thesis using Cons u by (auto simp: visit_use_def)
  next
    case False
    then have "visit_use F L i (lo, b) u = Ok (lo, b)" by (simp add: visit_use_def u)
    then show ?thesis using Cons False u by auto
  qed
qed simp

lemma visit_uses_error:
  "\<exists>u \<in> set us. \<forall>j. u \<noteq> VInst j \<Longrightarrow>
    ofold (visit_use F L i) us st = Exit ''used by something that's not an instruction???''"
proof (induction us arbitrary: st)
  case (Cons u us)
  show ?case
  proof (cases u)
    case (VInst j)
    have "\<exists>st'. visit_use F L i st u = Ok st'"
      by (cases "\<not> snd st \<and> \<not> contains_inst F L j") (auto simp: visit_use_def VInst)
    then obtain st' where "visit_use F L i st u = Ok st'" ..
    then show ?thesis using Cons VInst by auto
  qed (simp_all add: visit_use_def)
qed simp

definition defined_vars :: "func_ir \<Rightarrow> Inst list \<Rightarrow> Value list" where
  "defined_vars F is = map VInst (filter (\<lambda>i. ity (code F i) \<noteq> VoidTy) is)"

lemma visit_defs:
  "inst_uses_only F is \<Longrightarrow> ofold (visit_def F L) is li =
    Ok (li\<lparr>defin := defin li @ defined_vars F is, liveout := liveout li @ map VInst (filter (used_outside F L) is)\<rparr>)"
proof (induction "is" arbitrary: li)
  case (Cons i "is")
  have "\<forall>u \<in> set (uses F i). \<exists>j. u = VInst j" using Cons.prems by (simp add: inst_uses_only_def)
  then have "visit_def F L li i = Ok (li\<lparr>defin := defin li @ defined_vars F [i],
      liveout := liveout li @ (if used_outside F L i then [VInst i] else [])\<rparr>)"
    by (simp add: visit_def_def visit_uses used_outside_def defined_vars_def Let_def)
  then show ?case using Cons by (simp add: inst_uses_only_def defined_vars_def)
qed (simp add: defined_vars_def)

lemma visit_defs_error:
  "\<not> inst_uses_only F is \<Longrightarrow>
    ofold (visit_def F L) is li = Exit ''used by something that's not an instruction???''"
proof (induction "is" arbitrary: li)
  case (Cons i "is")
  show ?case
  proof (cases "\<exists>u \<in> set (uses F i). \<forall>j. u \<noteq> VInst j")
    case True
    then show ?thesis by (simp add: visit_def_def visit_uses_error Let_def)
  next
    case False
    then have one: "inst_uses_only F [i]" by (auto simp: inst_uses_only_def)
    then have "\<not> inst_uses_only F is" using Cons.prems by (auto simp: inst_uses_only_def)
    moreover obtain li' where "visit_def F L li i = Ok li'"
      using visit_defs [OF one, of L li] by (auto simp: outcome_simps)
    ultimately show ?thesis using Cons.IH by simp
  qed
qed (simp add: inst_uses_only_def)

section \<open>The second loop\<close>

lemma visit_operands:
  "set (livein (fold visit_operand ops li)) = set (livein li) \<union> {v \<in> set ops. is_variable v \<and> v \<notin> set (defin li)} \<and>
    (distinct (livein li) \<longrightarrow> distinct (livein (fold visit_operand ops li))) \<and>
    defin (fold visit_operand ops li) = defin li \<and> liveout (fold visit_operand ops li) = liveout li"
proof (induction ops arbitrary: li)
  case (Cons v ops)
  let ?li = "visit_operand v li"
  have "set (livein ?li) = set (livein li) \<union> {x \<in> {v}. is_variable x \<and> x \<notin> set (defin li)}"
    "distinct (livein li) \<longrightarrow> distinct (livein ?li)" "defin ?li = defin li" "liveout ?li = liveout li"
    by (auto simp: visit_operand_def)
  then show ?case using Cons [of ?li] by auto
qed simp

lemma visit_all_operands:
  "let li' = fold (\<lambda>inst. fold visit_operand (operands (code F inst))) is li in
    set (livein li') = set (livein li) \<union> {v. \<exists>i \<in> set is. v \<in> set (operands (code F i)) \<and> is_variable v \<and> v \<notin> set (defin li)} \<and>
    (distinct (livein li) \<longrightarrow> distinct (livein li')) \<and> defin li' = defin li \<and> liveout li' = liveout li"
proof (induction "is" arbitrary: li)
  case (Cons i "is")
  let ?li = "fold visit_operand (operands (code F i)) li"
  note a = visit_operands [of "operands (code F i)" li]
  show ?case using Cons [of ?li] a by (auto simp: Let_def)
qed simp

section \<open>Properties\<close>

lemma getLiveinfo_sets:
  assumes "inst_uses_only F (loop_insts F L)" "distinct (loop_insts F L)"
  shows "\<exists>li. getLiveinfo F L = Ok li \<and> defin li = defined_vars F (loop_insts F L) \<and>
    liveout li = map VInst (filter (used_outside F L) (loop_insts F L)) \<and>
    distinct (livein li) \<and> distinct (liveout li) \<and>
    set (livein li) = {v. is_variable v \<and> (\<exists>i \<in> set (loop_insts F L). v \<in> set (operands (code F i)))} -
      set (defined_vars F (loop_insts F L))"
proof -
  let ?is = "loop_insts F L"
  let ?li = "\<lparr>defin = defined_vars F ?is, livein = [], liveout = map VInst (filter (used_outside F L) ?is)\<rparr>"
  let ?li' = "fold (\<lambda>inst. fold visit_operand (operands (code F inst))) ?is ?li"
  have "getLiveinfo F L = Ok ?li'"
    using visit_defs [OF assms(1), of L "\<lparr>defin = [], livein = [], liveout = []\<rparr>"] by (simp add: getLiveinfo_def)
  moreover have "distinct (map VInst (filter (used_outside F L) ?is))"
    using assms(2) by (simp add: distinct_map inj_on_def)
  ultimately show ?thesis using visit_all_operands [of F ?is ?li] by (auto simp: Let_def)
qed

text \<open>
  C19. \<open>getLiveinfo\<close> lists, each once: as defined the instructions of the loop with a result, in order; as
  live-out those with a use outside the loop; and as live-in the instructions and arguments that some
  instruction of the loop uses and that the loop does not define.
\<close>

theorem live_sets:
  assumes "inst_uses_only F (loop_insts F L)" "distinct (loop_insts F L)"
  shows "\<exists>li. getLiveinfo F L = Ok li \<and> defin li = defined_vars F (loop_insts F L) \<and>
    liveout li = map VInst (filter (used_outside F L) (loop_insts F L)) \<and>
    distinct (livein li) \<and> distinct (liveout li) \<and>
    set (livein li) = {v. is_variable v \<and> (\<exists>i \<in> set (loop_insts F L). v \<in> set (operands (code F i)))} -
      set (defined_vars F (loop_insts F L))"
  by (rule getLiveinfo_sets [OF assms])

theorem live_sets_witness:
  "\<exists>li. getLiveinfo small_func small_loop = Ok li \<and> defin li = [VInst 10, VInst 11] \<and>
    liveout li = [VInst 11] \<and> set (livein li) = {VArg 0}"
proof -
  have u: "inst_uses_only small_func (loop_insts small_func small_loop)"
    unfolding small_insts by (auto simp: inst_uses_only_def small_func_def)
  have d: "distinct (loop_insts small_func small_loop)" by (simp add: small_insts)
  have "defined_vars small_func [10, 11, 12] = [VInst 10, VInst 11]"
    by (simp add: defined_vars_def small_func_def)
  moreover have "used_outside small_func small_loop i \<longleftrightarrow> i = 11" for i
    unfolding used_outside_def contains_inst_def small_contains
    by (auto simp: small_func_def intro: exI [of _ 20])
  then have "filter (used_outside small_func small_loop) [10, 11, 12] = [11]" by simp
  moreover have "{v. is_variable v \<and> (\<exists>i \<in> set [10, 11, 12]. v \<in> set (operands (code small_func i)))} =
      {VInst 10, VInst 11, VArg 0}"
    by (auto simp: small_func_def is_variable_def)
  ultimately show ?thesis using live_sets [OF u d] unfolding small_insts by auto
qed

text \<open>
  \<open>getLiveinfo\<close> ends in \<open>error\<close> exactly when an instruction of the loop is used by something that is
  no instruction.
\<close>

theorem live_failure:
  "(getLiveinfo F L = Exit ''used by something that's not an instruction???'' \<longleftrightarrow> \<not> inst_uses_only F (loop_insts F L)) \<and>
   ((\<exists>li. getLiveinfo F L = Ok li) \<longleftrightarrow> inst_uses_only F (loop_insts F L))"
proof (cases "inst_uses_only F (loop_insts F L)")
  case True
  then show ?thesis using visit_defs [OF True, of L] by (simp add: getLiveinfo_def)
next
  case False
  then show ?thesis using visit_defs_error [OF False, of L] by (simp add: getLiveinfo_def)
qed

end
