(* ===== verification/Driver.thy ===== *)
theory Driver
  imports PDG_Build Partition_Result Live_Info
begin

text \<open>
  \<open>initialize\<close> and the first half of \<open>runOnLoop\<close> in \<^verbatim>\<open>DSWP_0.cpp\<close>: the checks that make the pass leave a loop
  alone, then the analyses in order. \<open>clear\<close> empties every table at each return, so each loop starts from
  the empty graph and \<open>scc_clear\<close>; what stays from loop to loop is the counter of the loops, the set of the
  generated functions and the counter of the names.
\<close>

section \<open>The analyses of one loop\<close>

record pass_state =
  loopCounter :: int
  generated :: "string set"
  next_id :: int

text \<open>\<open>initialize\<close>: the loop needs one exit block and one predecessor.\<close>

definition initialize :: "loop_ir \<Rightarrow> pass_state \<Rightarrow> bool \<times> pass_state" where
  "initialize L ps =
     (let ps1 = ps\<lparr>loopCounter := loopCounter ps + 1\<rparr> in
      if lexit L = None then (True, ps1) else if lpred L = None then (True, ps1) else (False, ps1))"

text \<open>What the analyses leave for the transformation.\<close>

record plan =
  pgraph :: dep_graph
  names :: "Inst \<Rightarrow> string"
  sccs :: scc_state
  threads_of :: partition
  live :: live_info

text \<open>LLVM's answers for a function and a loop.\<close>

record 'l llvm =
  memory :: "'l analyses"
  set_name :: "Inst \<Rightarrow> string \<Rightarrow> string"
  ipdom :: "dblock \<Rightarrow> dblock option"
  ncpdom :: "dblock \<Rightarrow> dblock \<Rightarrow> dblock option"

text \<open>
  \<open>runOnLoop\<close> up to the transformation; \<open>None\<close> when the loop is left alone: it is not a top-level loop, it is
  in generated code, its exit or predecessor is not unique, or it has one component only.
\<close>

definition analyse_loop ::
  "(QNode list \<Rightarrow> nat) \<Rightarrow> 'l llvm \<Rightarrow> string \<Rightarrow> func_ir \<Rightarrow> loop_ir \<Rightarrow> pass_state \<Rightarrow> (plan option \<times> pass_state) outcome" where
  "analyse_loop tie A f F L ps =
     (if ldepth L \<noteq> 1 then Ok (None, ps)
      else if f \<in> generated ps then Ok (None, ps)
      else let (bad, ps1) = initialize L ps in
        if bad then Ok (None, ps1)
        else obind (buildPDG F L (set_name A) (memory A) (ipdom A) (ncpdom A)
            \<lparr>graph = empty_graph, dname = (\<lambda>_. []), uid = next_id ps1\<rparr>) (\<lambda>st.
          let ps2 = ps1\<lparr>next_id := uid st\<rparr>;
              s = findSCC (pdg (graph st)) (rev_graph_of (graph st)) (loop_insts F L) scc_clear in
          if sccNum s = 1 then Ok (None, ps2)
          else obind (threadPartition tie (opcode_of F) (loop_insts F L) s) (\<lambda>p.
            obind (getLiveinfo F L) (\<lambda>li.
            Ok (Some \<lparr>pgraph = graph st, names = dname st, sccs = s, threads_of = p, live = li\<rparr>, ps2)))))"

section \<open>What LLVM provides\<close>

definition llvm_ok :: "'l llvm \<Rightarrow> func_ir \<Rightarrow> loop_ir \<Rightarrow> bool" where
  "llvm_ok A F L \<longleftrightarrow> attached F L \<and> all_known F L (memory A) \<and> block_local F (memory A) \<and>
     postdom_tree F L (ipdom A) (ncpdom A) \<and> branches_inside F L \<and> inst_uses_only F (loop_insts F L)"

text \<open>When the pass goes on with the loop after the checks.\<close>

definition candidate :: "string \<Rightarrow> loop_ir \<Rightarrow> pass_state \<Rightarrow> bool" where
  "candidate f L ps \<longleftrightarrow> ldepth L = 1 \<and> f \<notin> generated ps \<and> lexit L \<noteq> None \<and> lpred L \<noteq> None"

lemma not_candidate:
  "\<not> candidate f L ps \<Longrightarrow> \<exists>ps'. analyse_loop tie A f F L ps = Ok (None, ps') \<and> generated ps' = generated ps"
  by (auto simp: candidate_def analyse_loop_def initialize_def Let_def)

lemma candidate_initialize:
  "candidate f L ps \<Longrightarrow> initialize L ps = (False, ps\<lparr>loopCounter := loopCounter ps + 1\<rparr>)"
  by (auto simp: candidate_def initialize_def Let_def)

lemma analyse_candidate:
  assumes "llvm_ok A F L" "candidate f L ps"
  shows "\<exists>(st :: pdg_init) (p :: partition) (li :: live_info). graph_inv (graph st) \<and> edges_within (graph st) (loop_insts F L) \<and>
    (\<forall>u v d. has_edge (graph st) u v d \<longleftrightarrow> pdg_rel F L (memory A) u v d) \<and>
    threadPartition tie (opcode_of F) (loop_insts F L) (scc_of (graph st) (loop_insts F L)) = Ok p \<and>
    getLiveinfo F L = Ok li \<and>
    analyse_loop tie A f F L ps =
      Ok (if sccNum (scc_of (graph st) (loop_insts F L)) = 1 then None
          else Some \<lparr>pgraph = graph st, names = dname st, sccs = scc_of (graph st) (loop_insts F L), threads_of = p, live = li\<rparr>,
        ps\<lparr>loopCounter := loopCounter ps + 1, next_id := uid st\<rparr>)"
proof -
  let ?st0 = "\<lparr>graph = empty_graph, dname = (\<lambda>_. []), uid = next_id (ps\<lparr>loopCounter := loopCounter ps + 1\<rparr>)\<rparr>"
  have ok: "attached F L" "all_known F L (memory A)" "postdom_tree F L (ipdom A) (ncpdom A)"
    "branches_inside F L" "block_local F (memory A)" "inst_uses_only F (loop_insts F L)"
    using assms(1) by (simp_all add: llvm_ok_def)
  obtain st where st: "buildPDG F L (set_name A) (memory A) (ipdom A) (ncpdom A) ?st0 = Ok st"
    using buildPDG_ok [OF ok(1-4)] by blast
  have fit: "graph_inv (graph st)" "edges_within (graph st) (loop_insts F L)"
    "\<forall>u v d. has_edge (graph st) u v d \<longleftrightarrow> pdg_rel F L (memory A) u v d"
    using buildPDG_fit [OF ok(1-5) _ st] by simp_all
  obtain p where p: "threadPartition tie (opcode_of F) (loop_insts F L) (scc_of (graph st) (loop_insts F L)) = Ok p"
    using partition_of_scc [OF fit(1,2)] by blast
  obtain li where li: "getLiveinfo F L = Ok li"
    using visit_defs [OF ok(6), of L] by (simp add: getLiveinfo_def)
  have "analyse_loop tie A f F L ps =
      Ok (if sccNum (scc_of (graph st) (loop_insts F L)) = 1 then None
          else Some \<lparr>pgraph = graph st, names = dname st, sccs = scc_of (graph st) (loop_insts F L), threads_of = p, live = li\<rparr>,
        ps\<lparr>loopCounter := loopCounter ps + 1, next_id := uid st\<rparr>)"
    using assms(2) candidate_initialize [OF assms(2)] st p li
    by (simp add: analyse_loop_def candidate_def scc_of_def Let_def)
  with fit p li show ?thesis by blast
qed

text \<open>There is one component exactly if every instruction of the loop depends on every other one.\<close>

lemma one_component:
  assumes g: "graph_inv g" "edges_within g is" and "is \<noteq> []"
  shows "sccNum (scc_of g is) = 1 \<longleftrightarrow> (\<forall>x \<in> set is. \<forall>y \<in> set is. (x, y) \<in> (dep (pdg g))\<^sup>*)"
proof -
  let ?s = "scc_of g is"
  have P: "x \<in> set is \<Longrightarrow> sccId ?s x < sccNum ?s"
    "x \<in> set is \<Longrightarrow> y \<in> set is \<Longrightarrow> sccId ?s x = sccId ?s y \<longleftrightarrow> connected (pdg g) x y" for x y
    using scc_of_partition(1,4) [OF g] unfolding partition_inv_def by simp_all
  have M: "k < sccNum ?s \<Longrightarrow> \<exists>x \<in> set is. sccId ?s x = k" for k
  proof -
    assume "k < sccNum ?s"
    then have "InstInSCC ?s ! k \<noteq> []" "set (InstInSCC ?s ! k) = {x \<in> set is. sccId ?s x = k}"
      using scc_of_partition(2,4) [OF g] by (simp_all add: members_inv_def)
    then show ?thesis by (cases "InstInSCC ?s ! k") auto
  qed
  show ?thesis
  proof
    assume "sccNum ?s = 1"
    then have "sccId ?s x = sccId ?s y" if "x \<in> set is" "y \<in> set is" for x y using P(1) that by (metis less_one)
    then show "\<forall>x \<in> set is. \<forall>y \<in> set is. (x, y) \<in> (dep (pdg g))\<^sup>*" using P(2) by (auto simp: connected_def)
  next
    assume all: "\<forall>x \<in> set is. \<forall>y \<in> set is. (x, y) \<in> (dep (pdg g))\<^sup>*"
    have "\<not> 1 < sccNum ?s"
    proof
      assume "1 < sccNum ?s"
      then obtain x y where "x \<in> set is" "y \<in> set is" "sccId ?s x = 0" "sccId ?s y = 1" using M [of 0] M [of 1] by auto
      then show False using P(2) [of x y] all by (simp add: connected_def)
    qed
    moreover have "sccNum ?s \<noteq> 0" using P(1) [of "hd is"] assms(3) by auto
    ultimately show "sccNum ?s = 1" by linarith
  qed
qed

lemma loop_insts_nonempty: "attached F L \<Longrightarrow> loop_insts F L \<noteq> []"
  by (cases "lblocks L") (auto simp: attached_def loop_insts_def contains_def)

lemma analyse_plans:
  assumes "llvm_ok A F L" "candidate f L ps"
  shows "\<exists>r ps'. analyse_loop tie A f F L ps = Ok (r, ps') \<and> generated ps' = generated ps \<and>
    (r \<noteq> None \<longleftrightarrow> (\<exists>x \<in> set (loop_insts F L). \<exists>y \<in> set (loop_insts F L). (x, y) \<notin> {(u, v). \<exists>d. pdg_rel F L (memory A) u v d}\<^sup>*))"
proof -
  from analyse_candidate [OF assms, of tie] obtain st :: pdg_init and r where
    st: "graph_inv (graph st)" "edges_within (graph st) (loop_insts F L)"
      "\<forall>u v d. has_edge (graph st) u v d \<longleftrightarrow> pdg_rel F L (memory A) u v d"
    and run: "analyse_loop tie A f F L ps = Ok (r, ps\<lparr>loopCounter := loopCounter ps + 1, next_id := uid st\<rparr>)"
      "r = None \<longleftrightarrow> sccNum (scc_of (graph st) (loop_insts F L)) = 1" by auto
  have d: "dep (pdg (graph st)) = {(u, v). \<exists>d. pdg_rel F L (memory A) u v d}"
    using dep_has_edge [OF st(1)] st(3) by auto
  have "loop_insts F L \<noteq> []" using assms(1) by (auto simp: llvm_ok_def dest: loop_insts_nonempty)
  note one = one_component [OF st(1,2) this, unfolded d]
  show ?thesis
  proof (intro exI conjI)
    show "analyse_loop tie A f F L ps = Ok (r, ps\<lparr>loopCounter := loopCounter ps + 1, next_id := uid st\<rparr>)" by (rule run(1))
    show "r \<noteq> None \<longleftrightarrow> (\<exists>x \<in> set (loop_insts F L). \<exists>y \<in> set (loop_insts F L). (x, y) \<notin> {(u, v). \<exists>d. pdg_rel F L (memory A) u v d}\<^sup>*)"
      using one run(2) by simp
  qed simp
qed

text \<open>The converse: what a plan was made of.\<close>

lemma plan_parts:
  assumes ok: "llvm_ok A F L" and run: "analyse_loop tie A f F L ps = Ok (Some pl, ps')"
  shows "graph_inv (pgraph pl) \<and> edges_within (pgraph pl) (loop_insts F L) \<and>
    (\<forall>u v d. has_edge (pgraph pl) u v d \<longleftrightarrow> pdg_rel F L (memory A) u v d) \<and>
    sccs pl = scc_of (pgraph pl) (loop_insts F L) \<and> sccNum (sccs pl) \<noteq> 1 \<and>
    threadPartition tie (opcode_of F) (loop_insts F L) (sccs pl) = Ok (threads_of pl) \<and>
    getLiveinfo F L = Ok (live pl)"
proof -
  have "candidate f L ps"
  proof (rule ccontr)
    assume "\<not> candidate f L ps"
    then obtain ps'' where "analyse_loop tie A f F L ps = Ok (None, ps'')" using not_candidate by blast
    with run show False by simp
  qed
  from analyse_candidate [OF ok this, of tie] obtain st :: pdg_init and p :: partition and li :: live_info where
    *: "graph_inv (graph st)" "edges_within (graph st) (loop_insts F L)"
      "\<forall>u v d. has_edge (graph st) u v d \<longleftrightarrow> pdg_rel F L (memory A) u v d"
      "threadPartition tie (opcode_of F) (loop_insts F L) (scc_of (graph st) (loop_insts F L)) = Ok p"
      "getLiveinfo F L = Ok li"
      "analyse_loop tie A f F L ps = Ok (if sccNum (scc_of (graph st) (loop_insts F L)) = 1 then None
          else Some \<lparr>pgraph = graph st, names = dname st, sccs = scc_of (graph st) (loop_insts F L), threads_of = p, live = li\<rparr>,
        ps\<lparr>loopCounter := loopCounter ps + 1, next_id := uid st\<rparr>)"
    by blast
  have "sccNum (scc_of (graph st) (loop_insts F L)) \<noteq> 1"
    "pl = \<lparr>pgraph = graph st, names = dname st, sccs = scc_of (graph st) (loop_insts F L), threads_of = p, live = li\<rparr>"
    using run *(6) by (auto split: if_splits)
  with * show ?thesis by simp
qed

section \<open>The plan of the small loop\<close>

definition small_llvm :: "unit llvm" where
  "small_llvm = \<lparr>memory = no_memory, set_name = (\<lambda>_ n. n), ipdom = small_ip, ncpdom = small_nc\<rparr>"

definition pass_start :: pass_state where
  "pass_start = \<lparr>loopCounter = 0, generated = {}, next_id = 0\<rparr>"

lemma small_llvm_ok: "llvm_ok small_llvm small_func small_loop"
  using small_attached small_known small_tree small_branches
  by (simp add: llvm_ok_def small_llvm_def small_insts) (auto simp: inst_uses_only_def small_func_def)

lemma small_candidate: "candidate ''f'' small_loop pass_start"
  by (simp add: candidate_def small_loop_def pass_start_def)

text \<open>The branch depends on nothing, so it is a component of its own.\<close>

lemma small_scc_count:
  assumes g: "graph_inv g" "edges_within g [10, 11, 12]"
    and e: "\<forall>u v d. has_edge g u v d \<longleftrightarrow> pdg_rel small_func small_loop no_memory u v d"
  shows "sccNum (scc_of g [10, 11, 12]) \<noteq> 1"
proof -
  have reach: "(10, y) \<in> (dep (pdg g))\<^sup>* \<Longrightarrow> y = 10 \<or> y = 11" for y
    by (induction rule: rtrancl_induct) (auto simp: dep_has_edge [OF g(1)] e small_pdg)
  have "\<not> connected (pdg g) 10 12" using reach [of 12] by (auto simp: connected_def)
  then have "sccId (scc_of g [10, 11, 12]) 10 \<noteq> sccId (scc_of g [10, 11, 12]) 12"
    "sccId (scc_of g [10, 11, 12]) 10 < sccNum (scc_of g [10, 11, 12])"
    "sccId (scc_of g [10, 11, 12]) 12 < sccNum (scc_of g [10, 11, 12])"
    using scc_of_partition(1,4) [OF g] unfolding partition_inv_def by auto
  then show ?thesis by linarith
qed

lemma small_plan: "\<exists>pl ps'. analyse_loop (\<lambda>_. 0) small_llvm ''f'' small_func small_loop pass_start = Ok (Some pl, ps')"
proof -
  from analyse_candidate [OF small_llvm_ok small_candidate, of "\<lambda>_. 0"]
  obtain st :: pdg_init and p :: partition and li :: live_info where
    *: "graph_inv (graph st)" "edges_within (graph st) [10, 11, 12]"
      "\<forall>u v d. has_edge (graph st) u v d \<longleftrightarrow> pdg_rel small_func small_loop no_memory u v d"
      "analyse_loop (\<lambda>_. 0) small_llvm ''f'' small_func small_loop pass_start =
        Ok (if sccNum (scc_of (graph st) [10, 11, 12]) = 1 then None
          else Some \<lparr>pgraph = graph st, names = dname st, sccs = scc_of (graph st) [10, 11, 12], threads_of = p, live = li\<rparr>,
        pass_start\<lparr>loopCounter := loopCounter pass_start + 1, next_id := uid st\<rparr>)"
    unfolding small_insts by (simp add: small_llvm_def) blast
  then show ?thesis using small_scc_count [OF *(1-3)] by simp
qed

end
