(* ===== verification/IR_Module.thy ===== *)
theory IR_Module
  imports LLVM_IR Utils
begin

text \<open>
  The module that the transformation changes: an explicit store. An instruction, a block or an argument is a
  pointer below \<open>next_ptr\<close>; the store has the contents of every instruction, the instruction list of every
  block, the block of every instruction, the function of every block, the blocks of every function, and the
  functions by their names, with type and arguments. The operations are the ones of LLVM's API that
  \<^verbatim>\<open>DSWP_4.cpp\<close> and \<^verbatim>\<open>DSWP_5.cpp\<close> call. Names of values, alignments and calling conventions are not
  modelled: nothing depends on them.
\<close>

section \<open>The store\<close>

record module_ir =
  mcode :: "Inst \<Rightarrow> instr"
  mbody :: "BB \<Rightarrow> Inst list"
  mparent :: "Inst \<Rightarrow> BB"
  mfunc :: "BB \<Rightarrow> string"
  mblocks :: "string \<Rightarrow> BB list"
  mdecl :: "string \<Rightarrow> Ty option"
  margs :: "string \<Rightarrow> nat list"
  marg_ty :: "nat \<Rightarrow> Ty"
  mconst_ty :: "nat \<Rightarrow> Ty"
  next_ptr :: nat

text \<open>\<open>getType\<close>.\<close>

fun value_ty :: "module_ir \<Rightarrow> Value \<Rightarrow> Ty" where
  "value_ty m (VInst i) = ity (mcode m i)"
| "value_ty m (VArg a) = marg_ty m a"
| "value_ty m (VInt w n) = IntegerTy w"
| "value_ty m (VConst c) = mconst_ty m c"
| "value_ty m (VBlock b) = OtherTy 0"
| "value_ty m (VFun f) = (case mdecl m f of Some t \<Rightarrow> PointerTy t | None \<Rightarrow> VoidTy)"
| "value_ty m (VNull t) = t"
| "value_ty m (VUndef t) = t"

text \<open>A pointer names one instruction in one block.\<close>

definition attached_at :: "module_ir \<Rightarrow> Inst \<Rightarrow> BB \<Rightarrow> bool" where
  "attached_at m i b \<longleftrightarrow> i \<in> set (mbody m b) \<and> mparent m i = b"

definition store_inv :: "module_ir \<Rightarrow> bool" where
  "store_inv m \<longleftrightarrow> (\<forall>b. distinct (mbody m b)) \<and> (\<forall>b. \<forall>i \<in> set (mbody m b). mparent m i = b \<and> i < next_ptr m) \<and>
     (\<forall>f. distinct (mblocks m f)) \<and> (\<forall>f. \<forall>b \<in> set (mblocks m f). mfunc m b = f \<and> b < next_ptr m) \<and>
     (\<forall>b. b \<ge> next_ptr m \<longrightarrow> mbody m b = [])"

section \<open>New instructions and blocks\<close>

text \<open>An instruction without operands in the other fields.\<close>

definition mk_instr :: "Opcode \<Rightarrow> Ty \<Rightarrow> Value list \<Rightarrow> instr" where
  "mk_instr c t ops = \<lparr>opcode = c, ity = t, operands = ops, succs = [], incoming = []\<rparr>"

definition mk_branch :: "BB \<Rightarrow> instr" where
  "mk_branch b = \<lparr>opcode = Br, ity = VoidTy, operands = [], succs = [b], incoming = []\<rparr>"

definition create :: "instr \<Rightarrow> module_ir \<Rightarrow> Inst \<times> module_ir" where
  "create ins m = (next_ptr m, m\<lparr>mcode := (mcode m)(next_ptr m := ins), next_ptr := next_ptr m + 1\<rparr>)"

text \<open>Insertion before an element; at the end when the position is the end of the list.\<close>

fun ins_before :: "'a \<Rightarrow> 'a option \<Rightarrow> 'a list \<Rightarrow> 'a list" where
  "ins_before x p [] = [x]"
| "ins_before x p (y # ys) = (if p = Some y then x # y # ys else y # ins_before x p ys)"

definition place :: "Inst \<Rightarrow> BB \<Rightarrow> Inst option \<Rightarrow> module_ir \<Rightarrow> module_ir" where
  "place i b p m = m\<lparr>mbody := (mbody m)(b := ins_before i p (mbody m b)), mparent := (mparent m)(i := b)\<rparr>"

definition emit_at :: "BB \<Rightarrow> Inst option \<Rightarrow> instr \<Rightarrow> module_ir \<Rightarrow> Inst \<times> module_ir" where
  "emit_at b p ins m = (let (i, m1) = create ins m in (i, place i b p m1))"

text \<open>The constructors that take an instruction to insert before.\<close>

definition emit_before :: "Inst \<Rightarrow> instr \<Rightarrow> module_ir \<Rightarrow> Inst \<times> module_ir" where
  "emit_before p ins m = emit_at (mparent m p) (Some p) ins m"

text \<open>\<open>getInstList().push_back\<close> of a new instruction.\<close>

definition emit_back :: "BB \<Rightarrow> instr \<Rightarrow> module_ir \<Rightarrow> Inst \<times> module_ir" where
  "emit_back b ins m = emit_at b None ins m"

text \<open>\<open>BasicBlock::Create\<close> with a function and the block to insert before.\<close>

definition new_block :: "string \<Rightarrow> BB option \<Rightarrow> module_ir \<Rightarrow> BB \<times> module_ir" where
  "new_block f p m = (next_ptr m, m\<lparr>mblocks := (mblocks m)(f := ins_before (next_ptr m) p (mblocks m f)),
     mfunc := (mfunc m)(next_ptr m := f), mbody := (mbody m)(next_ptr m := []), next_ptr := next_ptr m + 1\<rparr>)"

definition update_instr :: "Inst \<Rightarrow> (instr \<Rightarrow> instr) \<Rightarrow> module_ir \<Rightarrow> module_ir" where
  "update_instr i f m = m\<lparr>mcode := (mcode m)(i := f (mcode m i))\<rparr>"

text \<open>The instruction after another one in its block; \<open>None\<close> at the end.\<close>

fun after :: "'a \<Rightarrow> 'a list \<Rightarrow> 'a option" where
  "after x [] = None"
| "after x (y # ys) = (if x = y then (case ys of [] \<Rightarrow> None | z # _ \<Rightarrow> Some z) else after x ys)"

section \<open>Facts about the operations\<close>

lemma set_ins_before [simp]: "set (ins_before x p ys) = insert x (set ys)"
  by (induction x p ys rule: ins_before.induct) auto

lemma distinct_ins_before [simp]: "distinct (ins_before x p ys) \<longleftrightarrow> x \<notin> set ys \<and> distinct ys"
  by (induction x p ys rule: ins_before.induct) auto

lemma ins_before_None [simp]: "ins_before x None ys = ys @ [x]"
  by (induction ys) auto

lemma ins_before_split: "y \<notin> set as \<Longrightarrow> ins_before x (Some y) (as @ y # bs) = as @ x # y # bs"
  by (induction as) auto

lemma ins_before_notin: "y \<notin> set ys \<Longrightarrow> ins_before x (Some y) ys = ys @ [x]"
  by (induction ys) auto

lemma create_simps [simp]:
  "mdecl (snd (create ins m)) = mdecl m" "margs (snd (create ins m)) = margs m" "marg_ty (snd (create ins m)) = marg_ty m" "mconst_ty (snd (create ins m)) = mconst_ty m"
  "fst (create ins m) = next_ptr m" "mcode (snd (create ins m)) = (mcode m)(next_ptr m := ins)"
  "mbody (snd (create ins m)) = mbody m" "mparent (snd (create ins m)) = mparent m"
  "mfunc (snd (create ins m)) = mfunc m" "mblocks (snd (create ins m)) = mblocks m"
  "next_ptr (snd (create ins m)) = Suc (next_ptr m)"
  by (simp_all add: create_def)

lemma place_simps [simp]:
  "mdecl (place i b p m) = mdecl m" "margs (place i b p m) = margs m" "marg_ty (place i b p m) = marg_ty m" "mconst_ty (place i b p m) = mconst_ty m"
  "mcode (place i b p m) = mcode m" "mbody (place i b p m) = (mbody m)(b := ins_before i p (mbody m b))"
  "mparent (place i b p m) = (mparent m)(i := b)" "mfunc (place i b p m) = mfunc m"
  "mblocks (place i b p m) = mblocks m" "next_ptr (place i b p m) = next_ptr m"
  by (simp_all add: place_def)

lemma emit_at_simps [simp]:
  "mdecl (snd (emit_at b p ins m)) = mdecl m" "margs (snd (emit_at b p ins m)) = margs m" "marg_ty (snd (emit_at b p ins m)) = marg_ty m" "mconst_ty (snd (emit_at b p ins m)) = mconst_ty m"
  "fst (emit_at b p ins m) = next_ptr m" "mcode (snd (emit_at b p ins m)) = (mcode m)(next_ptr m := ins)"
  "mbody (snd (emit_at b p ins m)) = (mbody m)(b := ins_before (next_ptr m) p (mbody m b))"
  "mparent (snd (emit_at b p ins m)) = (mparent m)(next_ptr m := b)"
  "mfunc (snd (emit_at b p ins m)) = mfunc m" "mblocks (snd (emit_at b p ins m)) = mblocks m"
  "next_ptr (snd (emit_at b p ins m)) = Suc (next_ptr m)"
  by (simp_all add: emit_at_def split_beta)

lemma new_block_simps [simp]:
  "mdecl (snd (new_block f p m)) = mdecl m" "margs (snd (new_block f p m)) = margs m" "marg_ty (snd (new_block f p m)) = marg_ty m" "mconst_ty (snd (new_block f p m)) = mconst_ty m"
  "fst (new_block f p m) = next_ptr m" "mcode (snd (new_block f p m)) = mcode m"
  "mbody (snd (new_block f p m)) = (mbody m)(next_ptr m := [])" "mparent (snd (new_block f p m)) = mparent m"
  "mfunc (snd (new_block f p m)) = (mfunc m)(next_ptr m := f)"
  "mblocks (snd (new_block f p m)) = (mblocks m)(f := ins_before (next_ptr m) p (mblocks m f))"
  "next_ptr (snd (new_block f p m)) = Suc (next_ptr m)"
  by (simp_all add: new_block_def)

lemma update_instr_simps [simp]:
  "mdecl (update_instr i f m) = mdecl m" "margs (update_instr i f m) = margs m" "marg_ty (update_instr i f m) = marg_ty m" "mconst_ty (update_instr i f m) = mconst_ty m"
  "mcode (update_instr i f m) = (mcode m)(i := f (mcode m i))" "mbody (update_instr i f m) = mbody m"
  "mparent (update_instr i f m) = mparent m" "mfunc (update_instr i f m) = mfunc m"
  "mblocks (update_instr i f m) = mblocks m" "next_ptr (update_instr i f m) = next_ptr m"
  by (simp_all add: update_instr_def)

lemma store_fresh: "store_inv m \<Longrightarrow> next_ptr m \<notin> set (mbody m b)" "store_inv m \<Longrightarrow> next_ptr m \<notin> set (mblocks m f)"
  by (fastforce simp: store_inv_def)+

lemma store_inst: "store_inv m \<Longrightarrow> i \<in> set (mbody m b) \<Longrightarrow> mparent m i = b \<and> i < next_ptr m"
  by (simp add: store_inv_def)

lemma store_block: "store_inv m \<Longrightarrow> b \<in> set (mblocks m f) \<Longrightarrow> mfunc m b = f \<and> b < next_ptr m"
  by (simp add: store_inv_def)

lemma store_distinct: "store_inv m \<Longrightarrow> distinct (mbody m b)" "store_inv m \<Longrightarrow> distinct (mblocks m f)"
  by (simp_all add: store_inv_def)

lemma store_inst_block: "store_inv m \<Longrightarrow> i \<in> set (mbody m b) \<Longrightarrow> b < next_ptr m"
  by (metis empty_iff list.set(1) not_le store_inv_def)

lemma emit_at_inv:
  assumes "store_inv m" "b < next_ptr m"
  shows "store_inv (snd (emit_at b p ins m))"
  using assms store_fresh(1) [OF assms(1)]
  unfolding store_inv_def emit_at_simps by (auto simp: less_Suc_eq)

lemma emit_before_inv:
  assumes "store_inv m" "mparent m p < next_ptr m"
  shows "store_inv (snd (emit_before p ins m))"
  using emit_at_inv [OF assms] by (simp add: emit_before_def)

lemma new_block_inv:
  assumes "store_inv m"
  shows "store_inv (snd (new_block f p m))"
  using assms store_fresh(2) [OF assms]
  unfolding store_inv_def new_block_simps by (auto simp: less_Suc_eq)

lemma update_instr_inv: "store_inv (update_instr i f m) = store_inv m"
  by (simp add: store_inv_def)

lemma after_Some: "after x ys = Some z \<Longrightarrow> z \<in> set ys"
  by (induction ys) (auto split: if_splits list.splits)

lemma after_last: "distinct (ys @ [x]) \<Longrightarrow> after x (ys @ [x]) = None"
  by (induction ys) auto

lemma after_split: "distinct (as @ x # z # bs) \<Longrightarrow> after x (as @ x # z # bs) = Some z"
  by (induction as) auto

section \<open>Operations that only change instructions\<close>

definition only_code :: "module_ir \<Rightarrow> module_ir \<Rightarrow> bool" where
  "only_code m m' \<longleftrightarrow> m' = m\<lparr>mcode := mcode m'\<rparr>"

lemma only_code_refl: "only_code m m"
  by (simp add: only_code_def)

lemma only_code_trans: "only_code m1 m2 \<Longrightarrow> only_code m2 m3 \<Longrightarrow> only_code m1 m3"
proof -
  assume "only_code m1 m2" "only_code m2 m3"
  then have "m2 = m1\<lparr>mcode := mcode m2\<rparr>" "m3 = m2\<lparr>mcode := mcode m3\<rparr>" by (simp_all add: only_code_def)
  then have "m3 = m1\<lparr>mcode := mcode m2\<rparr>\<lparr>mcode := mcode m3\<rparr>" by metis
  then show "only_code m1 m3" by (simp add: only_code_def)
qed

lemma only_code_update: "only_code m (update_instr i f m)"
  by (simp add: only_code_def update_instr_def)

lemma only_code_fold:
  "(\<And>x m. only_code m (g x m)) \<Longrightarrow> only_code m (fold g xs m)"
  by (induction xs arbitrary: m) (auto intro: only_code_refl only_code_trans)

lemma only_code_fields:
  assumes "only_code m m'"
  shows "mbody m' = mbody m" "mparent m' = mparent m" "mfunc m' = mfunc m" "mblocks m' = mblocks m" "mdecl m' = mdecl m"
    "margs m' = margs m" "marg_ty m' = marg_ty m" "mconst_ty m' = mconst_ty m" "next_ptr m' = next_ptr m"
proof -
  have *: "m' = m\<lparr>mcode := mcode m'\<rparr>" using assms by (simp add: only_code_def)
  show "mbody m' = mbody m" "mparent m' = mparent m" "mfunc m' = mfunc m" "mblocks m' = mblocks m" "mdecl m' = mdecl m"
    "margs m' = margs m" "marg_ty m' = marg_ty m" "mconst_ty m' = mconst_ty m" "next_ptr m' = next_ptr m"
    by (subst *, simp)+
qed

lemma only_code_inv: "only_code m m' \<Longrightarrow> store_inv m' = store_inv m"
  by (simp add: store_inv_def only_code_fields)

end
