(* ===== verification/IR_Build.thy ===== *)
theory IR_Build
  imports IR_Module
begin

text \<open>
  The instructions the transformation makes, the rules of LLVM's verifier for them, the functions of the
  module by name, and sequences of instructions put in front of the end of a block.
\<close>

section \<open>Types and instructions\<close>

abbreviation i8p :: Ty where "i8p \<equiv> PointerTy (IntegerTy 8)"

fun pointee :: "Ty \<Rightarrow> Ty" where
  "pointee (PointerTy t) = t"
| "pointee t = VoidTy"

fun field_ty :: "Ty \<Rightarrow> nat \<Rightarrow> Ty" where
  "field_ty (PointerTy (StructTy ts)) j = (if j < length ts then ts ! j else VoidTy)"
| "field_ty t j = VoidTy"

fun result_ty :: "Ty option \<Rightarrow> Ty" where
  "result_ty (Some (FunTy ps r)) = r"
| "result_ty t = VoidTy"

definition mk_alloca :: "Ty \<Rightarrow> instr" where
  "mk_alloca t = mk_instr Alloca (PointerTy t) [VInt 32 1]"

definition mk_gep :: "Ty \<Rightarrow> Value \<Rightarrow> nat \<Rightarrow> instr" where
  "mk_gep t base j = mk_instr GetElementPtr (PointerTy (field_ty t j)) [base, VInt 64 0, VInt 32 (int j)]"

definition mk_store :: "Value \<Rightarrow> Value \<Rightarrow> instr" where
  "mk_store v p = mk_instr Store VoidTy [v, p]"

definition mk_load :: "Ty \<Rightarrow> Value \<Rightarrow> instr" where
  "mk_load t p = mk_instr Load (pointee t) [p]"

definition mk_cast :: "Opcode \<Rightarrow> Ty \<Rightarrow> Value \<Rightarrow> instr" where
  "mk_cast c t v = mk_instr c t [v]"

definition mk_call :: "Ty option \<Rightarrow> string \<Rightarrow> Value list \<Rightarrow> instr" where
  "mk_call t f args = mk_instr Call (result_ty t) (args @ [VFun f])"

definition mk_ret_null :: instr where
  "mk_ret_null = mk_instr Ret VoidTy [VNull i8p]"

lemmas mk_defs = mk_alloca_def mk_gep_def mk_store_def mk_load_def mk_cast_def mk_call_def mk_ret_null_def mk_instr_def

lemma mk_opcodes [simp]:
  "opcode (mk_alloca t) = Alloca" "opcode (mk_gep t b j) = GetElementPtr" "opcode (mk_store v p) = Store"
  "opcode (mk_load t p) = Load" "opcode (mk_cast c t v) = c" "opcode (mk_call ft f args) = Call"
  "opcode mk_ret_null = Ret" "opcode (mk_branch bb) = Br"
  by (simp_all add: mk_defs mk_branch_def)

lemma mk_operands [simp]:
  "operands (mk_alloca t) = [VInt 32 1]" "operands (mk_gep t b j) = [b, VInt 64 0, VInt 32 (int j)]"
  "operands (mk_store v p) = [v, p]" "operands (mk_load t p) = [p]" "operands (mk_cast c t v) = [v]"
  "operands (mk_call ft f args) = args @ [VFun f]" "operands mk_ret_null = [VNull i8p]" "operands (mk_branch bb) = []"
  by (simp_all add: mk_defs mk_branch_def)

lemma mk_types [simp]:
  "ity (mk_alloca t) = PointerTy t" "ity (mk_gep t b j) = PointerTy (field_ty t j)" "ity (mk_store v p) = VoidTy"
  "ity (mk_load t p) = pointee t" "ity (mk_cast c t v) = t" "ity (mk_call ft f args) = result_ty ft"
  "ity mk_ret_null = VoidTy" "ity (mk_branch bb) = VoidTy"
  by (simp_all add: mk_defs mk_branch_def)

lemma mk_succs [simp]:
  "succs (mk_alloca t) = []" "succs (mk_gep t b j) = []" "succs (mk_store v p) = []" "succs (mk_load t p) = []"
  "succs (mk_cast c t v) = []" "succs (mk_call ft f args) = []" "succs mk_ret_null = []" "succs (mk_branch bb) = [bb]"
  by (simp_all add: mk_defs mk_branch_def)

section \<open>The rules for types\<close>

text \<open>
  What the language reference demands of the instructions made here. A \<open>bitcast\<close> keeps the size and does not
  mix pointers with other types; extensions are to a larger and truncations to a smaller integer type.
\<close>

fun bit_size :: "Ty \<Rightarrow> nat option" where
  "bit_size (IntegerTy n) = Some n"
| "bit_size FloatTy = Some 32"
| "bit_size DoubleTy = Some 64"
| "bit_size t = None"

fun int_width :: "Ty \<Rightarrow> nat option" where
  "int_width (IntegerTy n) = Some n"
| "int_width t = None"

definition cast_ok :: "Opcode \<Rightarrow> Ty \<Rightarrow> Ty \<Rightarrow> bool" where
  "cast_ok c s t =
     (if c = ZExt then int_width s \<noteq> None \<and> int_width t \<noteq> None \<and> the (int_width s) < the (int_width t)
      else if c = Trunc then int_width s \<noteq> None \<and> int_width t \<noteq> None \<and> the (int_width t) < the (int_width s)
      else if c = PtrToInt then isPointerTy s \<and> int_width t \<noteq> None
      else if c = IntToPtr then int_width s \<noteq> None \<and> isPointerTy t
      else if c = BitCast then isPointerTy s \<and> isPointerTy t \<or> bit_size s \<noteq> None \<and> bit_size s = bit_size t
      else False)"

fun gep_ok :: "Ty \<Rightarrow> Value list \<Rightarrow> Ty \<Rightarrow> bool" where
  "gep_ok (PointerTy (StructTy fs)) [VInt w z, VInt w' j] t =
     (w = 64 \<and> w' = 32 \<and> z = 0 \<and> 0 \<le> j \<and> nat j < length fs \<and> t = PointerTy (fs ! nat j))"
| "gep_ok p is t = False"

definition operand_tys :: "module_ir \<Rightarrow> instr \<Rightarrow> Ty list" where
  "operand_tys m ins = map (value_ty m) (operands ins)"

definition instr_ok :: "module_ir \<Rightarrow> instr \<Rightarrow> bool" where
  "instr_ok m ins = (let ts = operand_tys m ins in
     if opcode ins = Alloca then isPointerTy (ity ins)
     else if opcode ins = GetElementPtr then ts \<noteq> [] \<and> gep_ok (hd ts) (tl (operands ins)) (ity ins)
     else if opcode ins = Load then ts = [PointerTy (ity ins)]
     else if opcode ins = Store then length ts = 2 \<and> ts ! 1 = PointerTy (ts ! 0) \<and> ity ins = VoidTy
     else if opcode ins = Call then ts \<noteq> [] \<and> last ts = PointerTy (FunTy (butlast ts) (ity ins))
     else if opcode ins \<in> {ZExt, Trunc, PtrToInt, IntToPtr, BitCast} then
       length ts = 1 \<and> cast_ok (opcode ins) (hd ts) (ity ins)
     else True)"

lemma instr_ok_simps [simp]:
  "instr_ok m (mk_alloca t)"
  "instr_ok m (mk_gep t b j) \<longleftrightarrow> gep_ok (value_ty m b) [VInt 64 0, VInt 32 (int j)] (PointerTy (field_ty t j))"
  "instr_ok m (mk_load t p) \<longleftrightarrow> value_ty m p = PointerTy (pointee t)"
  "instr_ok m (mk_store v p) \<longleftrightarrow> value_ty m p = PointerTy (value_ty m v)"
  "instr_ok m (mk_call ft f args) \<longleftrightarrow> value_ty m (VFun f) = PointerTy (FunTy (map (value_ty m) args) (result_ty ft))"
  "instr_ok m mk_ret_null" "instr_ok m (mk_branch bb)"
  by (simp_all add: instr_ok_def operand_tys_def butlast_append)

lemma instr_ok_cast:
  "c \<in> {ZExt, Trunc, PtrToInt, IntToPtr, BitCast} \<Longrightarrow> instr_ok m (mk_cast c t v) \<longleftrightarrow> cast_ok c (value_ty m v) t"
  by (auto simp: instr_ok_def operand_tys_def)

section \<open>Functions by name\<close>

text \<open>\<open>getFunction\<close>; the null pointer of an unknown name is dereferenced by every caller.\<close>

definition getFunction :: "module_ir \<Rightarrow> string \<Rightarrow> Ty option outcome" where
  "getFunction m f = (case mdecl m f of None \<Rightarrow> Undef | Some t \<Rightarrow> Ok (Some t))"

text \<open>
  \<open>Function::Create\<close> with a name. If the name is taken LLVM gives the new declaration another name, under which
  nothing looks for it.
\<close>

definition declare_fun :: "string \<Rightarrow> Ty list \<Rightarrow> Ty \<Rightarrow> module_ir \<Rightarrow> module_ir" where
  "declare_fun f ps r m = (if mdecl m f = None then m\<lparr>mdecl := (mdecl m)(f \<mapsto> FunTy ps r)\<rparr> else m)"

text \<open>
  \<open>getOrInsertFunction\<close>: an existing function of another type is returned behind a cast, for which
  \<open>cast<Function>\<close> fails.
\<close>

definition getOrInsertFunction :: "string \<Rightarrow> Ty list \<Rightarrow> Ty \<Rightarrow> module_ir \<Rightarrow> module_ir outcome" where
  "getOrInsertFunction f ps r m =
     (case mdecl m f of
        None \<Rightarrow> Ok (m\<lparr>mdecl := (mdecl m)(f \<mapsto> FunTy ps r), margs := (margs m)(f := [next_ptr m..<next_ptr m + length ps]),
          marg_ty := (\<lambda>a. if next_ptr m \<le> a \<and> a < next_ptr m + length ps then ps ! (a - next_ptr m) else marg_ty m a),
          next_ptr := next_ptr m + length ps\<rparr>)
      | Some t \<Rightarrow> if t = FunTy ps r then Ok m else Undef)"

lemma declare_fun_simps [simp]:
  "mdecl (declare_fun f ps r m) f' = (if f = f' \<and> mdecl m f = None then Some (FunTy ps r) else mdecl m f')"
  "mcode (declare_fun f ps r m) = mcode m" "mbody (declare_fun f ps r m) = mbody m"
  "mparent (declare_fun f ps r m) = mparent m" "mfunc (declare_fun f ps r m) = mfunc m"
  "mblocks (declare_fun f ps r m) = mblocks m" "margs (declare_fun f ps r m) = margs m"
  "marg_ty (declare_fun f ps r m) = marg_ty m" "mconst_ty (declare_fun f ps r m) = mconst_ty m"
  "next_ptr (declare_fun f ps r m) = next_ptr m"
  by (simp_all add: declare_fun_def)

lemma getOrInsertFunction_Ok:
  assumes "getOrInsertFunction f ps r m = Ok m'"
  shows "mdecl m' = (mdecl m)(f \<mapsto> FunTy ps r)" "mcode m' = mcode m" "mbody m' = mbody m" "mparent m' = mparent m"
    "mfunc m' = mfunc m" "mblocks m' = mblocks m" "mconst_ty m' = mconst_ty m" "next_ptr m \<le> next_ptr m'"
  using assms by (auto simp: getOrInsertFunction_def split: option.splits if_splits)

section \<open>Blocks\<close>

text \<open>\<open>moveBefore\<close> of a block.\<close>

definition move_block :: "string \<Rightarrow> BB \<Rightarrow> BB \<Rightarrow> module_ir \<Rightarrow> module_ir" where
  "move_block f b p m = m\<lparr>mblocks := (mblocks m)(f := ins_before b (Some p) (remove1 b (mblocks m f)))\<rparr>"

lemma move_block_simps [simp]:
  "mdecl (move_block f b p m) = mdecl m" "margs (move_block f b p m) = margs m" "marg_ty (move_block f b p m) = marg_ty m"
  "mconst_ty (move_block f b p m) = mconst_ty m" "mcode (move_block f b p m) = mcode m"
  "mbody (move_block f b p m) = mbody m" "mparent (move_block f b p m) = mparent m" "mfunc (move_block f b p m) = mfunc m"
  "mblocks (move_block f b p m) = (mblocks m)(f := ins_before b (Some p) (remove1 b (mblocks m f)))"
  "next_ptr (move_block f b p m) = next_ptr m"
  by (simp_all add: move_block_def)

lemma move_block_inv:
  assumes "store_inv m" "b \<in> set (mblocks m f)"
  shows "store_inv (move_block f b p m)"
  using assms unfolding store_inv_def move_block_simps by (auto dest: notin_set_remove1)

section \<open>Sequences of new instructions\<close>

text \<open>
  A sequence of instructions, each put in front of the instruction \<open>br\<close>; the pointers are consecutive, so
  later instructions can refer to earlier ones.
\<close>

definition emit_list :: "Inst \<Rightarrow> instr list \<Rightarrow> module_ir \<Rightarrow> module_ir" where
  "emit_list br inss m = fold (\<lambda>ins m. snd (emit_before br ins m)) inss m"

lemma emit_list_simps [simp]:
  "emit_list br [] m = m" "emit_list br (ins # inss) m = emit_list br inss (snd (emit_before br ins m))"
  by (simp_all add: emit_list_def)

lemma emit_list_append: "emit_list br (xs @ ys) m = emit_list br ys (emit_list br xs m)"
  by (simp add: emit_list_def)

lemma emit_before_simps [simp]:
  "fst (emit_before p ins m) = next_ptr m" "mcode (snd (emit_before p ins m)) = (mcode m)(next_ptr m := ins)"
  "mbody (snd (emit_before p ins m)) =
    (mbody m)(mparent m p := ins_before (next_ptr m) (Some p) (mbody m (mparent m p)))"
  "mparent (snd (emit_before p ins m)) = (mparent m)(next_ptr m := mparent m p)"
  "mfunc (snd (emit_before p ins m)) = mfunc m" "mblocks (snd (emit_before p ins m)) = mblocks m"
  "next_ptr (snd (emit_before p ins m)) = Suc (next_ptr m)" "mdecl (snd (emit_before p ins m)) = mdecl m"
  "margs (snd (emit_before p ins m)) = margs m" "marg_ty (snd (emit_before p ins m)) = marg_ty m"
  "mconst_ty (snd (emit_before p ins m)) = mconst_ty m"
  by (simp_all add: emit_before_def)

lemma emit_list_frame [simp]:
  "mfunc (emit_list br inss m) = mfunc m" "mblocks (emit_list br inss m) = mblocks m" "mdecl (emit_list br inss m) = mdecl m"
  "margs (emit_list br inss m) = margs m" "marg_ty (emit_list br inss m) = marg_ty m"
  "mconst_ty (emit_list br inss m) = mconst_ty m" "next_ptr (emit_list br inss m) = next_ptr m + length inss"
  by (induction inss arbitrary: m) simp_all

lemma emit_list_code:
  "mcode (emit_list br inss m) =
    (\<lambda>k. if next_ptr m \<le> k \<and> k < next_ptr m + length inss then inss ! (k - next_ptr m) else mcode m k)"
proof (induction inss arbitrary: m)
  case (Cons ins inss)
  show ?case unfolding emit_list_simps Cons by (rule ext) (auto simp: nth_Cons' not_less_eq_eq le_Suc_eq)
qed (auto simp: fun_eq_iff)

lemma emit_list_parent:
  "br < next_ptr m \<Longrightarrow> mparent (emit_list br inss m) =
    (\<lambda>k. if next_ptr m \<le> k \<and> k < next_ptr m + length inss then mparent m br else mparent m k)"
  by (induction inss arbitrary: m) (auto simp: fun_eq_iff le_Suc_eq)

lemma emit_list_body_other:
  "br < next_ptr m \<Longrightarrow> b \<noteq> mparent m br \<Longrightarrow> mbody (emit_list br inss m) b = mbody m b"
  by (induction inss arbitrary: m) simp_all

lemma emit_list_body:
  "br < next_ptr m \<Longrightarrow> mbody m (mparent m br) = xs @ br # ys \<Longrightarrow> br \<notin> set xs \<Longrightarrow>
    mbody (emit_list br inss m) (mparent m br) = xs @ [next_ptr m..<next_ptr m + length inss] @ br # ys"
proof (induction inss arbitrary: m xs)
  case (Cons ins inss)
  let ?m = "snd (emit_before br ins m)"
  have "mbody ?m (mparent ?m br) = (xs @ [next_ptr m]) @ br # ys" "br \<notin> set (xs @ [next_ptr m])"
    using Cons.prems by (simp_all add: ins_before_split)
  moreover have "[next_ptr m..<next_ptr m + length (ins # inss)] = next_ptr m # [next_ptr ?m..<next_ptr ?m + length inss]"
    by (simp add: upt_conv_Cons del: upt_Suc)
  ultimately show ?case using Cons.IH [of ?m] Cons.prems(1) by (simp del: upt_Suc)
qed simp

lemma emit_list_inv:
  "store_inv m \<Longrightarrow> br < next_ptr m \<Longrightarrow> mparent m br < next_ptr m \<Longrightarrow> store_inv (emit_list br inss m)"
proof (induction inss arbitrary: m)
  case (Cons ins inss)
  then show ?case using emit_before_inv [of m br ins] by simp
qed simp

text \<open>The same at any position of a block; at its end for \<open>None\<close>.\<close>

definition emit_seq :: "BB \<Rightarrow> Inst option \<Rightarrow> instr list \<Rightarrow> module_ir \<Rightarrow> module_ir" where
  "emit_seq b p inss m = fold (\<lambda>ins m. snd (emit_at b p ins m)) inss m"

lemma emit_seq_simps [simp]:
  "emit_seq b p [] m = m" "emit_seq b p (ins # inss) m = emit_seq b p inss (snd (emit_at b p ins m))"
  by (simp_all add: emit_seq_def)

lemma emit_seq_frame [simp]:
  "mfunc (emit_seq b p inss m) = mfunc m" "mblocks (emit_seq b p inss m) = mblocks m" "mdecl (emit_seq b p inss m) = mdecl m"
  "margs (emit_seq b p inss m) = margs m" "marg_ty (emit_seq b p inss m) = marg_ty m"
  "mconst_ty (emit_seq b p inss m) = mconst_ty m" "next_ptr (emit_seq b p inss m) = next_ptr m + length inss"
  by (induction inss arbitrary: m) simp_all

lemma emit_seq_code:
  "mcode (emit_seq b p inss m) =
    (\<lambda>k. if next_ptr m \<le> k \<and> k < next_ptr m + length inss then inss ! (k - next_ptr m) else mcode m k)"
proof (induction inss arbitrary: m)
  case (Cons ins inss)
  show ?case unfolding emit_seq_simps Cons by (rule ext) (auto simp: nth_Cons' not_less_eq_eq le_Suc_eq)
qed (auto simp: fun_eq_iff)

lemma emit_seq_parent:
  "mparent (emit_seq b p inss m) = (\<lambda>k. if next_ptr m \<le> k \<and> k < next_ptr m + length inss then b else mparent m k)"
  by (induction inss arbitrary: m) (auto simp: fun_eq_iff le_Suc_eq)

lemma emit_seq_set:
  "set (mbody (emit_seq b p inss m) b') = set (mbody m b') \<union> (if b' = b then {next_ptr m..<next_ptr m + length inss} else {})"
  by (induction inss arbitrary: m) auto

lemma emit_seq_body_other: "b' \<noteq> b \<Longrightarrow> mbody (emit_seq b p inss m) b' = mbody m b'"
  by (induction inss arbitrary: m) simp_all

lemma emit_seq_body_end: "mbody (emit_seq b None inss m) b = mbody m b @ [next_ptr m..<next_ptr m + length inss]"
proof (induction inss arbitrary: m)
  case (Cons ins inss)
  show ?case by (simp add: Cons upt_conv_Cons del: upt_Suc)
qed simp

lemma emit_seq_body:
  "mbody m b = xs @ q # ys \<Longrightarrow> q \<notin> set xs \<Longrightarrow> q < next_ptr m \<Longrightarrow>
    mbody (emit_seq b (Some q) inss m) b = xs @ [next_ptr m..<next_ptr m + length inss] @ q # ys"
proof (induction inss arbitrary: m xs)
  case (Cons ins inss)
  let ?m = "snd (emit_at b (Some q) ins m)"
  have "mbody ?m b = (xs @ [next_ptr m]) @ q # ys" "q \<notin> set (xs @ [next_ptr m])"
    using Cons.prems by (simp_all add: ins_before_split)
  moreover have "[next_ptr m..<next_ptr m + length (ins # inss)] = next_ptr m # [next_ptr ?m..<next_ptr ?m + length inss]"
    by (simp add: upt_conv_Cons del: upt_Suc)
  ultimately show ?case using Cons.IH [of ?m] Cons.prems(3) by (simp del: upt_Suc)
qed simp

lemma emit_seq_inv: "store_inv m \<Longrightarrow> b < next_ptr m \<Longrightarrow> store_inv (emit_seq b p inss m)"
proof (induction inss arbitrary: m)
  case (Cons ins inss)
  then show ?case using emit_at_inv [of m b p ins] by simp
qed simp

lemma emit_list_seq: "br < next_ptr m \<Longrightarrow> emit_list br inss m = emit_seq (mparent m br) (Some br) inss m"
  by (induction inss arbitrary: m) (simp_all add: emit_before_def)

text \<open>The type of a value is not changed by new instructions.\<close>

fun below :: "nat \<Rightarrow> Value \<Rightarrow> bool" where
  "below n (VInst i) \<longleftrightarrow> i < n"
| "below n (VArg a) \<longleftrightarrow> a < n"
| "below n v \<longleftrightarrow> True"

lemma value_ty_emit_list: "below (next_ptr m) v \<Longrightarrow> value_ty (emit_list br inss m) v = value_ty m v"
  by (cases v) (auto simp: emit_list_code)

lemma value_ty_emitted:
  "j < length inss \<Longrightarrow> value_ty (emit_list br inss m) (VInst (next_ptr m + j)) = ity (inss ! j)"
  by (simp add: emit_list_code)

text \<open>A list of instructions at consecutive pointers.\<close>

definition located :: "module_ir \<Rightarrow> nat \<Rightarrow> instr list \<Rightarrow> bool" where
  "located m p inss \<longleftrightarrow> (\<forall>j < length inss. mcode m (p + j) = inss ! j)"

lemma located_Nil [simp]: "located m p []"
  by (simp add: located_def)

lemma located_Cons [simp]: "located m p (ins # inss) \<longleftrightarrow> mcode m p = ins \<and> located m (Suc p) inss"
  unfolding located_def by (auto simp: nth_Cons' less_Suc_eq_0_disj)

lemma located_append [simp]: "located m p (xs @ ys) \<longleftrightarrow> located m p xs \<and> located m (p + length xs) ys"
  by (induction xs arbitrary: p) auto

lemma located_emit_list: "located (emit_list br inss m) (next_ptr m) inss"
  by (simp add: located_def emit_list_code)

section \<open>Replacement of the operands in some blocks\<close>

definition replace_blocks :: "(Value \<Rightarrow> Value option) \<Rightarrow> BB list \<Rightarrow> module_ir \<Rightarrow> module_ir" where
  "replace_blocks rep bs m = fold (\<lambda>b m. fold (\<lambda>i m. update_instr i (replaceUses rep) m) (mbody m b) m) bs m"

lemma replace_blocks_only: "only_code m (replace_blocks rep bs m)"
  unfolding replace_blocks_def by (intro only_code_fold only_code_update)

lemmas replace_blocks_frame [simp] = only_code_fields [OF replace_blocks_only]

lemma replace_in_block:
  "mcode (fold (\<lambda>i m. update_instr i (replaceUses rep) m) is m) k = ((replaceUses rep) ^^ count_list is k) (mcode m k)"
  by (induction "is" arbitrary: m) (auto simp: funpow_swap1)

text \<open>Each instruction is changed once, because it is in one block, once.\<close>

lemma count_list_concat_blocks:
  assumes "store_inv m" "distinct bs"
  shows "count_list (concat (map (mbody m) bs)) k = (if \<exists>b \<in> set bs. k \<in> set (mbody m b) then 1 else 0)"
  using assms(2)
proof (induction bs)
  case (Cons b bs)
  have "count_list (mbody m b) k = (if k \<in> set (mbody m b) then 1 else 0)"
    using assms(1) by (simp add: count_list_distinct store_inv_def)
  moreover have "k \<in> set (mbody m b) \<Longrightarrow> \<not> (\<exists>b' \<in> set bs. k \<in> set (mbody m b'))"
    using assms(1) Cons.prems unfolding store_inv_def by (metis distinct.simps(2))
  ultimately show ?case using Cons by auto
qed simp

lemma replace_blocks_count:
  "mcode (replace_blocks rep bs m) k = ((replaceUses rep) ^^ count_list (concat (map (mbody m) bs)) k) (mcode m k)"
  unfolding replace_blocks_def
proof (induction bs arbitrary: m)
  case (Cons b bs)
  have body: "mbody (fold (\<lambda>i m. update_instr i (replaceUses rep) m) is m) = mbody m" for m "is"
    by (induction "is" arbitrary: m) simp_all
  show ?case by (simp add: Cons body replace_in_block funpow_add add.commute [of "count_list (mbody m b) k"])
qed simp

lemma replace_blocks_code:
  assumes "store_inv m" "distinct bs"
  shows "mcode (replace_blocks rep bs m) k =
    (if \<exists>b \<in> set bs. k \<in> set (mbody m b) then replaceUses rep (mcode m k) else mcode m k)"
  unfolding replace_blocks_count count_list_concat_blocks [OF assms] by simp

lemma update_instr_id: "update_instr i (\<lambda>ins. ins) m = m"
  by (simp add: update_instr_def)

lemma fold_same: "(\<And>x s. g x s = s) \<Longrightarrow> fold g xs s = s"
  by (induction xs) simp_all

lemma replaceUses_id: "replaceUses Map.empty = (\<lambda>ins. ins)"
  by (simp add: fun_eq_iff replaceUses_def)

lemma replace_blocks_empty: "replace_blocks Map.empty bs m = m"
  unfolding replace_blocks_def replaceUses_id by (intro fold_same) (simp add: update_instr_id fold_same)

lemma replaceUses_same: "(\<And>v. v \<in> set (operands ins) \<Longrightarrow> rep v = None) \<Longrightarrow> replaceUses rep ins = ins"
  unfolding replaceUses_def by (cases ins) (auto simp: map_idI split: option.splits)

section \<open>Modules that grow\<close>

text \<open>
  New instructions and new operands only: what was there keeps its place, its kind and its targets, and the old
  instructions of a block keep their order.
\<close>

definition grown :: "module_ir \<Rightarrow> module_ir \<Rightarrow> bool" where
  "grown m m' \<longleftrightarrow> next_ptr m \<le> next_ptr m' \<and> mfunc m' = mfunc m \<and> mblocks m' = mblocks m \<and> mdecl m' = mdecl m \<and>
     (\<forall>i < next_ptr m. mparent m' i = mparent m i \<and> opcode (mcode m' i) = opcode (mcode m i) \<and> ity (mcode m' i) = ity (mcode m i) \<and>
       succs (mcode m' i) = succs (mcode m i) \<and> incoming (mcode m' i) = incoming (mcode m i)) \<and>
     (\<forall>b. filter (\<lambda>i. i < next_ptr m) (mbody m' b) = mbody m b)"

lemma old_body: "store_inv m \<Longrightarrow> filter (\<lambda>i. i < next_ptr m) (mbody m b) = mbody m b"
  using store_inst by (auto simp: filter_id_conv)

lemma grown_refl: "store_inv m \<Longrightarrow> grown m m"
  by (simp add: grown_def old_body)

lemma grown_trans:
  assumes "grown m1 m2" "grown m2 m3"
  shows "grown m1 m3"
proof -
  have "filter (\<lambda>i. i < next_ptr m1) (mbody m3 b) = mbody m1 b" for b
  proof -
    have "filter (\<lambda>i. i < next_ptr m1) (filter (\<lambda>i. i < next_ptr m2) (mbody m3 b)) = mbody m1 b"
      using assms by (simp add: grown_def del: filter_filter)
    moreover have "(i < next_ptr m2 \<and> i < next_ptr m1) = (i < next_ptr m1)" for i
      using assms(1) unfolding grown_def by linarith
    ultimately show ?thesis by simp
  qed
  then show ?thesis using assms by (simp add: grown_def)
qed

lemma filter_ins_before: "\<not> P x \<Longrightarrow> filter P (ins_before x p ys) = filter P ys"
  by (induction x p ys rule: ins_before.induct) auto

lemma grown_emit_at: "store_inv m \<Longrightarrow> grown m (snd (emit_at b p ins m))"
  using old_body by (auto simp: grown_def filter_ins_before)

lemma grown_emit_seq: "store_inv m \<Longrightarrow> b < next_ptr m \<Longrightarrow> grown m (emit_seq b p inss m)"
proof (induction inss arbitrary: m)
  case (Cons ins inss)
  have "grown m (snd (emit_at b p ins m))" by (rule grown_emit_at [OF Cons.prems(1)])
  moreover have "grown (snd (emit_at b p ins m)) (emit_seq b p inss (snd (emit_at b p ins m)))"
    using emit_at_inv [OF Cons.prems] Cons.prems(2) by (intro Cons.IH) simp_all
  ultimately show ?case using grown_trans by simp
qed (simp add: grown_refl)

lemma grown_updates: "store_inv m \<Longrightarrow> grown m (fold (\<lambda>i. update_instr i (replaceUses rep)) us m)"
proof (induction us arbitrary: m)
  case (Cons i us)
  have "grown m (update_instr i (replaceUses rep) m)" using Cons.prems old_body by (simp add: grown_def replaceUses_frame)
  moreover have "grown (update_instr i (replaceUses rep) m) (fold (\<lambda>i. update_instr i (replaceUses rep)) us (update_instr i (replaceUses rep) m))"
    using Cons.prems by (intro Cons.IH) (simp add: update_instr_inv)
  ultimately show ?case using grown_trans by simp
qed (simp add: grown_refl)

lemma grown_body: "grown m m' \<Longrightarrow> i \<in> set (mbody m b) \<Longrightarrow> i \<in> set (mbody m' b)"
  unfolding grown_def by (metis filter_is_subset subsetD)

text \<open>An instruction that is not the last one of its block stays so.\<close>

lemma grown_not_last:
  assumes "grown m m'" "i \<in> set (mbody m b)" "i \<noteq> last (mbody m b)"
  shows "i \<noteq> last (mbody m' b)"
proof
  assume last: "i = last (mbody m' b)"
  have ne: "mbody m' b \<noteq> []" using grown_body [OF assms(1,2)] by auto
  have f: "filter (\<lambda>i. i < next_ptr m) (mbody m' b) = mbody m b" using assms(1) by (simp add: grown_def)
  then have "i \<in> set (filter (\<lambda>i. i < next_ptr m) (mbody m' b))" using assms(2) by simp
  then have "i < next_ptr m" by simp
  then have "last (filter (\<lambda>i. i < next_ptr m) (butlast (mbody m' b) @ [last (mbody m' b)])) = i" using last by simp
  then have "last (mbody m b) = i" using ne f by simp
  with assms(3) show False by simp
qed

lemma after_not_last: "i \<in> set xs \<Longrightarrow> i \<noteq> last xs \<Longrightarrow> \<exists>p. after i xs = Some p"
proof (induction xs)
  case (Cons x xs)
  show ?case
  proof (cases "i = x")
    case True
    then show ?thesis using Cons.prems by (cases xs) auto
  next
    case False
    then have "i \<in> set xs" "i \<noteq> last xs" using Cons.prems by (auto split: if_splits)
    from Cons.IH [OF this] show ?thesis using False by simp
  qed
qed simp

end
