(* ===== verification/Module_Init.thy ===== *)
theory Module_Init
  imports IR_Build
begin

text \<open>
  \<open>doInitialization\<close> of \<^verbatim>\<open>DSWP_0.cpp\<close>: the declarations of the functions of the runtime, which the generated
  code calls.
\<close>

section \<open>The declarations\<close>

abbreviation elTy :: Ty where "elTy \<equiv> IntegerTy 64"

definition produce_ty :: "Ty list" where "produce_ty = [elTy, IntegerTy 32]"

definition delegate_ty :: "Ty list" where
  "delegate_ty = [IntegerTy 32, PointerTy (FunTy [i8p] i8p), i8p]"

text \<open>The result says whether the module was changed.\<close>

definition doInitialization :: "module_ir \<Rightarrow> bool \<times> module_ir" where
  "doInitialization m =
     (if mdecl m ''sync_produce'' = None then
        (let m1 = declare_fun ''sync_produce'' produce_ty VoidTy m;
             m2 = declare_fun ''sync_consume'' [IntegerTy 32] elTy m1;
             m3 = declare_fun ''sync_join'' [] VoidTy m2;
             m4 = declare_fun ''sync_init'' [] VoidTy m3;
             m5 = declare_fun ''sync_delegate'' delegate_ty VoidTy m4;
             m6 = declare_fun ''showValue'' [IntegerTy 64] VoidTy m5;
             m7 = declare_fun ''showPlace'' [] VoidTy m6;
             m8 = declare_fun ''showPtr'' [i8p] VoidTy m7
         in (True, m8))
      else (False, m))"

text \<open>What the transformation finds in the module.\<close>

definition runtime_declared :: "module_ir \<Rightarrow> bool" where
  "runtime_declared m \<longleftrightarrow>
     mdecl m ''sync_produce'' = Some (FunTy [elTy, IntegerTy 32] VoidTy) \<and>
     mdecl m ''sync_consume'' = Some (FunTy [IntegerTy 32] elTy) \<and>
     mdecl m ''sync_join'' = Some (FunTy [] VoidTy) \<and> mdecl m ''sync_init'' = Some (FunTy [] VoidTy) \<and>
     mdecl m ''sync_delegate'' = Some (FunTy [IntegerTy 32, PointerTy (FunTy [i8p] i8p), i8p] VoidTy) \<and>
     mdecl m ''showPlace'' = Some (FunTy [] VoidTy)"

definition runtime_names :: "string set" where
  "runtime_names = {''sync_produce'', ''sync_consume'', ''sync_join'', ''sync_init'', ''sync_delegate'',
     ''showValue'', ''showPlace'', ''showPtr''}"

lemma doInitialization_keeps:
  "mcode (snd (doInitialization m)) = mcode m" "mbody (snd (doInitialization m)) = mbody m"
  "mparent (snd (doInitialization m)) = mparent m" "mfunc (snd (doInitialization m)) = mfunc m"
  "mblocks (snd (doInitialization m)) = mblocks m" "next_ptr (snd (doInitialization m)) = next_ptr m"
  "f \<notin> runtime_names \<Longrightarrow> mdecl (snd (doInitialization m)) f = mdecl m f"
  by (auto simp: doInitialization_def Let_def runtime_names_def)

lemma doInitialization_declares:
  "\<forall>f \<in> runtime_names. mdecl m f = None \<Longrightarrow> runtime_declared (snd (doInitialization m))"
  by (simp add: runtime_declared_def doInitialization_def Let_def runtime_names_def produce_ty_def delegate_ty_def)

text \<open>
  On a module in which the names of the runtime are free, \<open>doInitialization\<close> declares the functions that the
  generated code calls, with the types of \<^verbatim>\<open>runtime/simple_sync.h\<close>, changes nothing else, and does nothing when
  it is called again for the next loop.
\<close>

theorem runtime_declarations:
  assumes "\<forall>f \<in> runtime_names. mdecl m f = None"
  shows "fst (doInitialization m) \<and> runtime_declared (snd (doInitialization m)) \<and>
    (\<forall>f. f \<notin> runtime_names \<longrightarrow> mdecl (snd (doInitialization m)) f = mdecl m f) \<and>
    doInitialization (snd (doInitialization m)) = (False, snd (doInitialization m))"
proof -
  note d = doInitialization_declares [OF assms]
  have "fst (doInitialization m)" using assms by (simp add: doInitialization_def runtime_names_def Let_def)
  moreover have "doInitialization (snd (doInitialization m)) = (False, snd (doInitialization m))"
    using d by (subst doInitialization_def) (simp add: runtime_declared_def)
  ultimately show ?thesis using d doInitialization_keeps(7) by blast
qed

definition empty_module :: module_ir where
  "empty_module = \<lparr>mcode = (\<lambda>_. mk_branch 0), mbody = (\<lambda>_. []), mparent = (\<lambda>_. 0), mfunc = (\<lambda>_. []), mblocks = (\<lambda>_. []),
     mdecl = Map.empty, margs = (\<lambda>_. []), marg_ty = (\<lambda>_. VoidTy), mconst_ty = (\<lambda>_. VoidTy), next_ptr = 0\<rparr>"

theorem runtime_declarations_witness:
  "runtime_declared (snd (doInitialization empty_module)) \<and>
   doInitialization (snd (doInitialization empty_module)) = (False, snd (doInitialization empty_module))"
  using runtime_declarations [of empty_module] by (simp add: empty_module_def)

end
