(* ===== verification/Pre_Split.thy ===== *)
theory Pre_Split
  imports Module_Init Live_Info Thread_Partition
begin

text \<open>
  \<open>preLoopSplit\<close> of \<^verbatim>\<open>DSWP_4.cpp\<close>: the block that replaces the loop. It fills a struct with the live-in values,
  starts the worker threads on it, joins them, and loads the live-out values from the struct inside the struct.
  The first part has the operations in the order of the code; the second shows that the block is a fixed list of
  instructions over consecutive pointers.
\<close>

section \<open>The operation\<close>

record pre_split =
  pmodule :: module_ir
  allFunc :: "string list"
  argStructTy :: Ty
  replaceBlock :: BB
  pgenerated :: "string set"

definition worker_name :: "int \<Rightarrow> nat \<Rightarrow> string" where
  "worker_name loopCounter i = itoa loopCounter @ ''_subloop_'' @ itoa (int i)"

text \<open>The new block with its branch, and its place before the exit block.\<close>

definition make_replace_block :: "string \<Rightarrow> BB \<Rightarrow> module_ir \<Rightarrow> BB \<times> Inst \<times> module_ir" where
  "make_replace_block f ex m =
     (let (rb, m1) = new_block f None m;
          (br, m2) = emit_back rb (mk_branch ex) m1
      in (rb, br, move_block f rb ex m2))"

definition retarget :: "BB \<Rightarrow> BB \<Rightarrow> instr \<Rightarrow> instr" where
  "retarget old new ins = ins\<lparr>succs := map (\<lambda>b. if b = old then new else b) (succs ins)\<rparr>"

text \<open>
  The terminators of the predecessors of the header outside the loop. The iteration is over the predecessors as
  they are before the change; the code changes the list it iterates over, which makes no difference because
  \<open>initialize\<close> has made sure that there is one such predecessor.
\<close>

definition block_preds :: "module_ir \<Rightarrow> string \<Rightarrow> BB \<Rightarrow> BB list" where
  "block_preds m f h = filter (\<lambda>b. mbody m b \<noteq> [] \<and> h \<in> set (succs (mcode m (last (mbody m b))))) (mblocks m f)"

definition redirect_entry :: "loop_ir \<Rightarrow> BB \<Rightarrow> string \<Rightarrow> module_ir \<Rightarrow> module_ir" where
  "redirect_entry L rb f m =
     fold (\<lambda>pred m. if contains L pred then m else update_instr (last (mbody m pred)) (retarget (lheader L) rb) m)
       (block_preds m f (lheader L)) m"

definition add_worker ::
  "int \<Rightarrow> module_ir \<times> string list \<times> string set \<Rightarrow> nat \<Rightarrow> (module_ir \<times> string list \<times> string set) outcome" where
  "add_worker lc st i =
     obind (getOrInsertFunction (worker_name lc i) [i8p] i8p (fst st)) (\<lambda>m.
     Ok (m, fst (snd st) @ [worker_name lc i], insert (worker_name lc i) (snd (snd st))))"

definition store_livein :: "Inst \<Rightarrow> Inst \<Rightarrow> nat \<times> Value \<Rightarrow> module_ir \<Rightarrow> module_ir" where
  "store_livein br argStruct jv m =
     (let (ele_addr, m1) = emit_before br (mk_gep (value_ty m (VInst argStruct)) (VInst argStruct) (fst jv)) m
      in snd (emit_before br (mk_store (snd jv) (VInst ele_addr)) m1))"

definition call_delegate :: "Inst \<Rightarrow> Ty option \<Rightarrow> string list \<Rightarrow> Inst \<Rightarrow> nat \<Rightarrow> module_ir \<Rightarrow> module_ir" where
  "call_delegate br delegate fs argStruct_voidPtr i m =
     snd (emit_before br (mk_call delegate ''sync_delegate'' [VInt 32 (int i), VFun (fs ! i), VInst argStruct_voidPtr]) m)"

definition load_liveout ::
  "Inst \<Rightarrow> Inst \<Rightarrow> nat \<times> Value \<Rightarrow> module_ir \<times> (Value \<Rightarrow> Value option) \<Rightarrow> module_ir \<times> (Value \<Rightarrow> Value option)" where
  "load_liveout br out_addr jv st =
     (let (ele_addr, m1) = emit_before br (mk_gep (value_ty (fst st) (VInst out_addr)) (VInst out_addr) (fst jv)) (fst st);
          (outVal, m2) = emit_before br (mk_load (value_ty m1 (VInst ele_addr)) (VInst ele_addr)) m1
      in (m2, (snd st)(snd jv \<mapsto> VInst outVal)))"

text \<open>The uses outside the loop.\<close>

definition replace_outside :: "string \<Rightarrow> loop_ir \<Rightarrow> (Value \<Rightarrow> Value option) \<Rightarrow> module_ir \<Rightarrow> module_ir" where
  "replace_outside f L rep m = replace_blocks rep (filter (\<lambda>b. \<not> contains L b) (mblocks m f)) m"

definition load_liveouts :: "string \<Rightarrow> loop_ir \<Rightarrow> live_info \<Rightarrow> Inst \<Rightarrow> Inst \<Rightarrow> module_ir \<Rightarrow> module_ir" where
  "load_liveouts f L li br argStruct m =
     (if liveout li = [] then m
      else let (out_addr, m1) = emit_before br (mk_gep (value_ty m (VInst argStruct)) (VInst argStruct) (length (livein li))) m;
               (m2, rep) = fold (load_liveout br out_addr) (enumerate 0 (liveout li)) (m1, Map.empty)
           in replace_outside f L rep m2)"

definition outStructTy_of :: "module_ir \<Rightarrow> live_info \<Rightarrow> Ty" where
  "outStructTy_of m li = StructTy (map (value_ty m) (liveout li))"

definition argStructTy_of :: "module_ir \<Rightarrow> live_info \<Rightarrow> Ty" where
  "argStructTy_of m li = StructTy (map (value_ty m) (livein li) @ [outStructTy_of m li])"

definition preLoopSplit ::
  "string \<Rightarrow> loop_ir \<Rightarrow> BB \<Rightarrow> int \<Rightarrow> live_info \<Rightarrow> string set \<Rightarrow> module_ir \<Rightarrow> pre_split outcome" where
  "preLoopSplit f L ex lc li gen m =
     (let (rb, br, m1) = make_replace_block f ex m in
      if contains L ex then Exit ''don't know why''
      else let m2 = redirect_entry L rb f m1 in
      if contains L rb then Exit ''the block should not appear here!''
      else obind (ofold (add_worker lc) [0..<MAX_THREAD] (m2, [], gen)) (\<lambda>(m3, fs, gen').
        let sty = argStructTy_of m3 li;
            (argStruct, m4) = emit_before br (mk_alloca sty) m3;
            m5 = fold (store_livein br argStruct) (enumerate 0 (livein li)) m4 in
        obind (getFunction m5 ''sync_init'') (\<lambda>init.
        let m6 = snd (emit_before br (mk_call init ''sync_init'' []) m5) in
        obind (getFunction m6 ''sync_delegate'') (\<lambda>delegate.
        let (voidPtr, m7) = emit_before br (mk_cast BitCast i8p (VInst argStruct)) m6;
            m8 = fold (call_delegate br delegate fs voidPtr) [0..<MAX_THREAD] m7 in
        obind (getFunction m8 ''sync_join'') (\<lambda>join.
        let m9 = snd (emit_before br (mk_call join ''sync_join'' []) m8) in
        Ok \<lparr>pmodule = load_liveouts f L li br argStruct m9, allFunc = fs, argStructTy = sty, replaceBlock = rb,
            pgenerated = gen'\<rparr>)))))"

end
