(* ===== verification/Loop_Split.thy ===== *)
theory Loop_Split
  imports Pre_Split Driver
begin

text \<open>
  \<open>getDominators\<close> and \<open>loopSplit\<close> of \<^verbatim>\<open>DSWP_4.cpp\<close>: the functions of the worker threads. Each gets copies of the
  blocks that hold its instructions or instructions these depend on, in them copies of its instructions and of all
  terminators, an entry block that loads the live-in values, and an exit block that stores its live-out values.
\<close>

section \<open>Dominators\<close>

text \<open>
  \<open>getDominators\<close>: the tables of the immediate dominators. A block that a tree does not know yields the null
  pointer, which is dereferenced; the node of a tree without a parent, or with the virtual root as its parent,
  gives the null block.
\<close>

type_synonym dom_tree = "BB \<Rightarrow> BB option option"

definition getDominators ::
  "dom_tree \<Rightarrow> dom_tree \<Rightarrow> BB list \<Rightarrow> ((BB \<Rightarrow> BB option) \<times> (BB \<Rightarrow> BB option)) outcome" where
  "getDominators domtree postdom bs =
     ofold (\<lambda>tabs b. case domtree b of None \<Rightarrow> Undef | Some d \<Rightarrow>
         (case postdom b of None \<Rightarrow> Undef | Some p \<Rightarrow> Ok ((fst tabs)(b := d), (snd tabs)(b := p))))
       bs (Map.empty, Map.empty)"

section \<open>The tables of the copies\<close>

record clones =
  cmod :: module_ir
  instMap :: "nat \<Rightarrow> Value \<Rightarrow> Value option"
  placeEquivalents :: "nat \<Rightarrow> Inst \<Rightarrow> Inst option"
  newToOld :: "Value \<Rightarrow> Value option"
  newInstAssigned :: "Value \<Rightarrow> nat option"

text \<open>What the operation reads of the object and of the loop.\<close>

record split_env =
  floop :: loop_ir
  fexit :: BB
  fpred :: BB
  fplan :: plan
  fidom :: "BB \<Rightarrow> BB option"
  fpostidom :: "BB \<Rightarrow> BB option"
  fargs :: Ty
  fworkers :: "string list"

section \<open>The blocks of a thread\<close>

text \<open>\<open>set<BasicBlock *>\<close>: iterated in the order of the addresses.\<close>

definition set_insert :: "BB \<Rightarrow> BB list \<Rightarrow> BB list" where
  "set_insert b s = (if b \<in> set s then s else insort b s)"

definition add_related :: "module_ir \<Rightarrow> edge_map \<Rightarrow> BB list \<Rightarrow> Inst \<Rightarrow> BB list" where
  "add_related m revg s inst =
     fold (\<lambda>e s. set_insert (mparent m (ev e)) s) (edges_at revg inst) (set_insert (mparent m inst) s)"

definition relbb :: "module_ir \<Rightarrow> plan \<Rightarrow> nat \<Rightarrow> BB list outcome" where
  "relbb m P i =
     obind (arr_get (part (threads_of P)) (int i)) (\<lambda>ps.
     ofold (\<lambda>s scc. obind (arr_get (InstInSCC (sccs P)) (int scc)) (\<lambda>insts.
         Ok (foldl (add_related m (rev_graph_of (pgraph P))) s insts))) ps [])"

section \<open>Copies of instructions\<close>

text \<open>
  The two loops that climb a tree of dominators until they come to a block that has a copy. The climb ends at
  the root with \<open>error\<close>.
\<close>

partial_function (option) climb ::
  "(BB \<Rightarrow> BB option) \<Rightarrow> (BB \<Rightarrow> BB option) \<Rightarrow> string \<Rightarrow> BB \<Rightarrow> BB outcome option" where
  "climb bbm up msg oldBB =
     (case bbm oldBB of Some newBB \<Rightarrow> Some (Ok newBB)
      | None \<Rightarrow> (case up oldBB of None \<Rightarrow> Some (Exit msg) | Some b \<Rightarrow> climb bbm up msg b))"

definition repoint_succ :: "split_env \<Rightarrow> (BB \<Rightarrow> BB option) \<Rightarrow> BB \<Rightarrow> BB outcome" where
  "repoint_succ E bbm oldBB =
     (if oldBB \<noteq> fexit E \<and> \<not> contains (floop E) oldBB then Exit ''crazy branch :(''
      else run_walk (climb bbm (fpostidom E) ''postdominator info seems broken :('' oldBB))"

definition repoint_incoming :: "split_env \<Rightarrow> (BB \<Rightarrow> BB option) \<Rightarrow> BB \<Rightarrow> BB outcome" where
  "repoint_incoming E bbm oldBB = run_walk (climb bbm (fidom E) ''dominator info seems broken :('' oldBB)"

text \<open>A terminator whose targets are all the same becomes an unconditional branch.\<close>

definition simplify_branch :: "instr \<Rightarrow> instr" where
  "simplify_branch ins =
     (case succs ins of [] \<Rightarrow> ins
      | target # ts \<Rightarrow> if opcode ins \<noteq> Invoke \<and> (\<forall>t \<in> set ts. t = target) then mk_branch target else ins)"

definition clone_instr :: "split_env \<Rightarrow> (BB \<Rightarrow> BB option) \<Rightarrow> instr \<Rightarrow> instr outcome" where
  "clone_instr E bbm ins =
     (if is_terminator (opcode ins) then
        obind (omap (repoint_succ E bbm) (succs ins)) (\<lambda>ss. Ok (simplify_branch (ins\<lparr>succs := ss\<rparr>)))
      else if opcode ins = PHI then
        obind (omap (repoint_incoming E bbm) (incoming ins)) (\<lambda>bs. Ok (ins\<lparr>incoming := bs\<rparr>))
      else Ok ins)"

text \<open>
  One instruction of a block. Instructions of other threads are remembered until the next copy, which stands for
  the place where they would have been.
\<close>

definition copy_inst ::
  "split_env \<Rightarrow> nat \<Rightarrow> (BB \<Rightarrow> BB option) \<Rightarrow> BB \<Rightarrow> clones \<times> Inst list \<Rightarrow> Inst \<Rightarrow> (clones \<times> Inst list) outcome" where
  "copy_inst E i bbm nbb acc inst =
     (let st = fst acc; instructions_to_point = snd acc in
      obind (getInstAssigned (thread_of (threads_of (fplan E))) (sccId (sccs (fplan E))) (VInst inst)) (\<lambda>a.
      if a \<noteq> int i \<and> \<not> is_terminator (opcode (mcode (cmod st) inst)) then Ok (st, instructions_to_point @ [inst])
      else obind (clone_instr E bbm (mcode (cmod st) inst)) (\<lambda>ins.
        let (newInst, m1) = emit_back nbb ins (cmod st) in
        Ok (st\<lparr>cmod := m1,
              instMap := (instMap st)(i := (instMap st i)(VInst inst \<mapsto> VInst newInst)),
              newInstAssigned := (newInstAssigned st)(VInst newInst \<mapsto> i),
              newToOld := (newToOld st)(VInst newInst \<mapsto> VInst inst),
              placeEquivalents := (placeEquivalents st)(i :=
                fold (\<lambda>p tab. tab(p \<mapsto> newInst)) instructions_to_point (placeEquivalents st i))\<rparr>, []))))"

definition copy_block ::
  "split_env \<Rightarrow> nat \<Rightarrow> (BB \<Rightarrow> BB option) \<Rightarrow> clones \<Rightarrow> BB \<Rightarrow> clones outcome" where
  "copy_block E i bbm st bb =
     (case bbm bb of None \<Rightarrow> Undef
      | Some nbb \<Rightarrow>
        obind (ofold (copy_inst E i bbm nbb) (mbody (cmod st) bb) (st, [])) (\<lambda>(st', left).
        if left \<noteq> [] then Exit ''didn't point all the instructions we wanted to'' else Ok st'))"

section \<open>The function of a thread\<close>

definition copy_bb :: "string \<Rightarrow> BB \<Rightarrow> BB \<Rightarrow> module_ir \<times> (BB \<Rightarrow> BB option) \<Rightarrow> module_ir \<times> (BB \<Rightarrow> BB option)" where
  "copy_bb fn newExit b acc = (let (nb, m) = new_block fn (Some newExit) (fst acc) in (m, (snd acc)(b \<mapsto> nb)))"

text \<open>A live-in value is loaded from its field and takes the place of the value.\<close>

definition load_arg :: "nat \<Rightarrow> Inst \<Rightarrow> Inst \<Rightarrow> clones \<Rightarrow> nat \<times> Value \<Rightarrow> clones outcome" where
  "load_arg i newToHeader castArgs st jv =
     (let (ele_addr, m1) = emit_before newToHeader
            (mk_gep (value_ty (cmod st) (VInst castArgs)) (VInst castArgs) (fst jv)) (cmod st);
          (ele_val, m2) = emit_before newToHeader (mk_load (value_ty m1 (VInst ele_addr)) (VInst ele_addr)) m1
      in if value_ty m2 (VInst ele_val) \<noteq> value_ty m2 (snd jv) then Exit ''broken type for ''
         else Ok (st\<lparr>cmod := m2, instMap := (instMap st)(i := (instMap st i)(snd jv \<mapsto> VInst ele_val))\<rparr>))"

text \<open>A live-out value of this thread is stored to its field.\<close>

definition store_liveout :: "split_env \<Rightarrow> nat \<Rightarrow> Inst \<Rightarrow> Inst \<Rightarrow> clones \<Rightarrow> nat \<times> Value \<Rightarrow> clones outcome" where
  "store_liveout E i newRet out_addr st jv =
     obind (getInstAssigned (thread_of (threads_of (fplan E))) (sccId (sccs (fplan E))) (snd jv)) (\<lambda>a.
     if a \<noteq> int i then Ok st
     else let (ele_addr, m1) = emit_before newRet
                (mk_gep (value_ty (cmod st) (VInst out_addr)) (VInst out_addr) (fst jv)) (cmod st)
          in (case instMap st i (snd jv) of None \<Rightarrow> Undef
              | Some v \<Rightarrow> Ok (st\<lparr>cmod := snd (emit_before newRet (mk_store v (VInst ele_addr)) m1)\<rparr>)))"

text \<open>The entry block, the values it loads, and their use.\<close>

definition make_entry :: "split_env \<Rightarrow> nat \<Rightarrow> string \<Rightarrow> Inst \<Rightarrow> clones \<Rightarrow> (Inst \<times> clones) outcome" where
  "make_entry E i curFunc newToHeader st =
     (if length (margs (cmod st) curFunc) \<noteq> 1 then Exit ''argument size error!''
      else obind (getFunction (cmod st) ''showPlace'') (\<lambda>showPlace.
        let m1 = snd (emit_before newToHeader (mk_call showPlace ''showPlace'' []) (cmod st));
            (castArgs, m2) = emit_before newToHeader
              (mk_cast BitCast (PointerTy (fargs E)) (VArg (hd (margs (cmod st) curFunc)))) m1 in
        obind (ofold (load_arg i newToHeader castArgs) (enumerate 0 (livein (live (fplan E)))) (st\<lparr>cmod := m2\<rparr>)) (\<lambda>st1.
        Ok (castArgs, st1\<lparr>cmod := replace_blocks (instMap st1 i) (mblocks (cmod st1) curFunc) (cmod st1)\<rparr>))))"

definition make_exit :: "split_env \<Rightarrow> nat \<Rightarrow> Inst \<Rightarrow> Inst \<Rightarrow> clones \<Rightarrow> clones outcome" where
  "make_exit E i newRet castArgs st =
     (let (out_addr, m1) = emit_before newRet
            (mk_gep (value_ty (cmod st) (VInst castArgs)) (VInst castArgs) (length (livein (live (fplan E))))) (cmod st)
      in ofold (store_liveout E i newRet out_addr) (enumerate 0 (liveout (live (fplan E)))) (st\<lparr>cmod := m1\<rparr>))"

text \<open>One iteration of the loop over the threads; the result says whether the operation returns.\<close>

definition split_thread :: "split_env \<Rightarrow> nat \<Rightarrow> clones \<Rightarrow> (bool \<times> clones) outcome" where
  "split_thread E i st =
     obind (arr_get (fworkers E) (int i)) (\<lambda>curFunc.
     obind (relbb (cmod st) (fplan E) i) (\<lambda>rel.
     if rel = [] then
       (let (newBody, m1) = new_block curFunc None (cmod st);
            (newRet, m2) = emit_back newBody mk_ret_null m1
        in Ok (True, st\<lparr>cmod := m2\<rparr>))
     else
       (let (newEntry, m1) = new_block curFunc None (cmod st);
            (newExit, m2) = new_block curFunc None m1;
            (m3, bbm0) = fold (copy_bb curFunc newExit) rel (m2, Map.empty);
            bbm = bbm0(fpred E \<mapsto> newEntry, fexit E \<mapsto> newExit) in
        case bbm (lheader (floop E)) of
          None \<Rightarrow> Exit ''this must be a error early in dependency analysis stage''
        | Some newHeader \<Rightarrow>
          (let (newToHeader, m4) = emit_back newEntry (mk_branch newHeader) m3;
               (newRet, m5) = emit_back newExit mk_ret_null m4 in
           obind (ofold (copy_block E i bbm) rel (st\<lparr>cmod := m5\<rparr>)) (\<lambda>st1.
           obind (make_entry E i curFunc newToHeader st1) (\<lambda>(castArgs, st2).
           obind (make_exit E i newRet castArgs st2) (\<lambda>st3. Ok (False, st3))))))))"

fun split_threads :: "split_env \<Rightarrow> nat list \<Rightarrow> clones \<Rightarrow> clones outcome" where
  "split_threads E [] st = Ok st"
| "split_threads E (i # is) st =
     obind (split_thread E i st) (\<lambda>(stop, st1). if stop then Ok st1 else split_threads E is st1)"

definition loopSplit :: "split_env \<Rightarrow> clones \<Rightarrow> clones outcome" where
  "loopSplit E st = split_threads E [0..<MAX_THREAD] st"

definition no_clones :: "module_ir \<Rightarrow> clones" where
  "no_clones m = \<lparr>cmod = m, instMap = (\<lambda>_. Map.empty), placeEquivalents = (\<lambda>_. Map.empty), newToOld = Map.empty,
     newInstAssigned = Map.empty\<rparr>"

text \<open>The thread of an instruction as a number.\<close>

definition thread_num :: "plan \<Rightarrow> Inst \<Rightarrow> nat" where
  "thread_num P i = nat (thread_of (threads_of P) ! sccId (sccs P) i)"

lemma getInstAssigned_thread:
  "getInstAssigned (thread_of (threads_of P)) (sccId (sccs P)) (VInst i) = Ok a \<Longrightarrow> thread_num P i = nat a"
  by (auto simp: getInstAssigned_def arr_get_def thread_num_def split: if_splits)

end
