(* ===== verification/Sync_Insert.thy ===== *)
theory Sync_Insert
  imports Loop_Split
begin

text \<open>
  \<open>insertSynchronization\<close>, \<open>insertProduce\<close> and \<open>insertConsume\<close> of \<^verbatim>\<open>DSWP_5.cpp\<close>: a channel for every dependence that
  crosses from the thread of its source to a later thread that has a copy of its target. The producer sends
  after the copy of the source, the consumer receives where the source would have been.

  Two things depend on LLVM and are parameters. \<open>end_node\<close> says what \<open>getNextNode\<close> yields for the last instruction
  of a block: the end of the list, where an insertion puts the new instruction last, as \<open>cleanup\<close> expects, or the null
  pointer. \<open>users\<close> lists the users that the loop over the use list of a value comes to when it replaces
  the uses in a function; a use that is replaced moves to the list of the new value, and the loop goes on there, so it
  need not come to all users.
\<close>

section \<open>The producer\<close>

definition next_position :: "bool \<Rightarrow> module_ir \<Rightarrow> Inst \<Rightarrow> Inst option outcome" where
  "next_position end_node m u =
     (case after u (mbody m (mparent m u)) of Some p \<Rightarrow> Ok (Some p)
      | None \<Rightarrow> if end_node then Ok None else Exit ''here cannot be null'')"

text \<open>The value as a 64-bit integer.\<close>

definition send_cast :: "Ty \<Rightarrow> Inst \<Rightarrow> instr outcome" where
  "send_cast t u =
     (if isIntegerTy t then Ok (mk_cast ZExt elTy (VInst u))
      else if isFloatingPointTy t then Ok (mk_cast BitCast elTy (VInst u))
      else if isPointerTy t then Ok (mk_cast PtrToInt elTy (VInst u))
      else Exit ''what's the hell type'')"

definition insertProduce :: "bool \<Rightarrow> Inst \<Rightarrow> DType \<Rightarrow> int \<Rightarrow> module_ir \<Rightarrow> module_ir outcome" where
  "insertProduce end_node u d channel m =
     obind (next_position end_node m u) (\<lambda>insPos.
     obind (if d = REG
            then obind (send_cast (value_ty m (VInst u)) u) (\<lambda>ins.
              let (cast, m1) = emit_at (mparent m u) insPos ins m in Ok (VInst cast, m1))
            else Ok (VInt 64 0, m)) (\<lambda>(arg, m1).
     obind (getFunction m1 ''sync_produce'') (\<lambda>fun.
     Ok (snd (emit_at (mparent m u) insPos (mk_call fun ''sync_produce'' [arg, VInt 32 channel]) m1)))))"

section \<open>The consumer\<close>

text \<open>The received integer as a value of the type.\<close>

definition recv_cast :: "Ty \<Rightarrow> Inst \<Rightarrow> instr outcome" where
  "recv_cast t call =
     (if isIntegerTy t then Ok (mk_cast Trunc t (VInst call))
      else if isFloatingPointTy t then
        (if t = FloatTy then Exit ''cannot deal with double'' else Ok (mk_cast BitCast t (VInst call)))
      else if isPointerTy t then Ok (mk_cast IntToPtr t (VInst call))
      else Exit ''what's the hell type'')"

text \<open>
  Where the source would have been. The cast of the null pointer of a missing entry of \<open>instMap\<close> is undefined.
\<close>

definition consume_place :: "clones \<Rightarrow> nat \<Rightarrow> Inst \<Rightarrow> Inst outcome" where
  "consume_place st vthread oldu =
     (case placeEquivalents st vthread oldu of Some p \<Rightarrow> Ok p
      | None \<Rightarrow> (case instMap st vthread (VInst oldu) of None \<Rightarrow> Undef
          | Some (VInst p) \<Rightarrow> Ok p
          | Some v \<Rightarrow> Exit ''can't insert nowhere''))"

text \<open>The map \<open>reps\<close>.\<close>

definition reps_of :: "Inst \<Rightarrow> Inst \<Rightarrow> Value \<Rightarrow> Value option" where
  "reps_of oldu cast = [VInst oldu \<mapsto> VInst cast]"

definition replace_user :: "Inst \<Rightarrow> Inst \<Rightarrow> string \<Rightarrow> module_ir \<Rightarrow> Value \<Rightarrow> module_ir outcome" where
  "replace_user oldu cast vfun m user =
     (case user of
        VInst i \<Rightarrow> if mfunc m (mparent m i) \<noteq> vfun then Ok m
          else Ok (update_instr i (replaceUses (reps_of oldu cast)) m)
      | _ \<Rightarrow> Exit ''used by a non-instruction?'')"

definition insertConsume ::
  "(module_ir \<Rightarrow> Inst \<Rightarrow> string \<Rightarrow> Value list) \<Rightarrow> Inst \<Rightarrow> Inst \<Rightarrow> DType \<Rightarrow> int \<Rightarrow> nat \<Rightarrow> clones \<Rightarrow> clones outcome" where
  "insertConsume users u v d channel vthread st =
     (case newToOld st (VInst u) of
        Some (VInst oldu) \<Rightarrow>
          obind (consume_place st vthread oldu) (\<lambda>insPos.
          obind (getFunction (cmod st) ''sync_consume'') (\<lambda>fun.
          let (call, m1) = emit_before insPos (mk_call fun ''sync_consume'' [VInt 32 channel]) (cmod st) in
          if d = REG then
            obind (recv_cast (value_ty m1 (VInst u)) call) (\<lambda>ins.
            let (cast, m2) = emit_before insPos ins m1 in
            obind (ofold (replace_user oldu cast (mfunc m2 (mparent m2 v))) (users m2 oldu (mfunc m2 (mparent m2 v))) m2) (\<lambda>m3.
            Ok (st\<lparr>cmod := m3\<rparr>)))
          else Ok (st\<lparr>cmod := m1\<rparr>)))
      | _ \<Rightarrow> Undef)"

section \<open>All dependences\<close>

definition sync_pair ::
  "(module_ir \<Rightarrow> Inst \<Rightarrow> string \<Rightarrow> Value list) \<Rightarrow> bool \<Rightarrow> Edge \<Rightarrow> nat \<Rightarrow> clones \<times> int \<Rightarrow> nat \<Rightarrow> (clones \<times> int) outcome" where
  "sync_pair users end_node e utr acc vtr =
     (case (instMap (fst acc) utr (VInst (eu e)), instMap (fst acc) vtr (VInst (ev e))) of
        (Some (VInst nu), Some (VInst nv)) \<Rightarrow>
          obind (insertProduce end_node nu (dtype e) (snd acc) (cmod (fst acc))) (\<lambda>m.
          obind (insertConsume users nu nv (dtype e) (snd acc) vtr ((fst acc)\<lparr>cmod := m\<rparr>)) (\<lambda>st.
          Ok (st, snd acc + 1)))
      | _ \<Rightarrow> Ok acc)"

text \<open>A negative thread number would be an index out of range.\<close>

definition sync_edge ::
  "plan \<Rightarrow> (module_ir \<Rightarrow> Inst \<Rightarrow> string \<Rightarrow> Value list) \<Rightarrow> bool \<Rightarrow> clones \<times> int \<Rightarrow> Edge \<Rightarrow> (clones \<times> int) outcome" where
  "sync_edge P users end_node acc e =
     obind (getInstAssigned (thread_of (threads_of P)) (sccId (sccs P)) (VInst (eu e))) (\<lambda>utr.
     if utr < 0 then Undef
     else ofold (sync_pair users end_node e (nat utr)) [Suc (nat utr)..<MAX_THREAD] acc)"

definition insertSynchronization ::
  "plan \<Rightarrow> (module_ir \<Rightarrow> Inst \<Rightarrow> string \<Rightarrow> Value list) \<Rightarrow> bool \<Rightarrow> clones \<Rightarrow> (clones \<times> int) outcome" where
  "insertSynchronization P users end_node st = ofold (sync_edge P users end_node) (allEdges (pgraph P)) (st, 0)"

end
