(* ===== verification/Cleanup.thy ===== *)
theory Cleanup
  imports Sync_Insert
begin

text \<open>
  \<open>cleanup\<close> of \<^verbatim>\<open>DSWP_5.cpp\<close>: the instructions that were put behind a terminator are moved in front of it, the PHI
  nodes to the top of their block, and the old loop is deleted.
\<close>

section \<open>Terminators last\<close>

text \<open>The loop that moves the last instruction in front of the terminator until the last one is a terminator.\<close>

partial_function (option) move_back :: "(Inst \<Rightarrow> bool) \<Rightarrow> Inst \<Rightarrow> Inst list \<Rightarrow> Inst list option" where
  "move_back is_term t xs =
     (if is_term (last xs) then Some xs else move_back is_term t (ins_before (last xs) (Some t) (butlast xs)))"

definition is_term :: "module_ir \<Rightarrow> Inst \<Rightarrow> bool" where
  "is_term m i \<longleftrightarrow> is_terminator (opcode (mcode m i))"

definition tidy_end :: "module_ir \<Rightarrow> BB \<Rightarrow> module_ir outcome" where
  "tidy_end m b =
     (case find (is_term m) (mbody m b) of
        None \<Rightarrow> Exit ''term cannot be null''
      | Some t \<Rightarrow> (case move_back (is_term m) t (mbody m b) of None \<Rightarrow> Blocked
          | Some xs \<Rightarrow> Ok (m\<lparr>mbody := (mbody m)(b := xs)\<rparr>)))"

section \<open>PHI nodes first\<close>

definition is_phi :: "module_ir \<Rightarrow> Inst \<Rightarrow> bool" where
  "is_phi m i \<longleftrightarrow> opcode (mcode m i) = PHI"

text \<open>
  The instructions behind the first one that is no PHI node are gone through in order. In a block of PHI nodes
  only, \<open>getFirstNonPHI\<close> runs past the end.
\<close>

definition move_phi :: "module_ir \<Rightarrow> Inst \<Rightarrow> Inst \<Rightarrow> Inst list \<Rightarrow> Inst list" where
  "move_phi m first_nonphi inst xs =
     (if is_phi m inst then ins_before inst (Some first_nonphi) (remove1 inst xs) else xs)"

definition tidy_phis :: "module_ir \<Rightarrow> BB \<Rightarrow> module_ir outcome" where
  "tidy_phis m b =
     (case dropWhile (is_phi m) (mbody m b) of
        [] \<Rightarrow> Undef
      | first_nonphi # rest \<Rightarrow> Ok (m\<lparr>mbody := (mbody m)(b := fold (move_phi m first_nonphi) rest (mbody m b))\<rparr>))"

section \<open>Deleting the loop\<close>

definition erase_inst :: "Inst \<Rightarrow> module_ir \<Rightarrow> module_ir" where
  "erase_inst i m = m\<lparr>
     mcode := (\<lambda>k. replaceUses [VInst i \<mapsto> VUndef (ity (mcode m i))] (mcode m k)),
     mbody := (mbody m)(mparent m i := remove1 i (mbody m (mparent m i)))\<rparr>"

definition erase_block :: "BB \<Rightarrow> module_ir \<Rightarrow> module_ir" where
  "erase_block b m = m\<lparr>mblocks := (mblocks m)(mfunc m b := remove1 b (mblocks m (mfunc m b)))\<rparr>"

definition delete_loop :: "loop_ir \<Rightarrow> module_ir \<Rightarrow> module_ir" where
  "delete_loop L m = fold erase_block (lblocks L) (fold (\<lambda>b m. fold erase_inst (mbody m b) m) (lblocks L) m)"

section \<open>The operation\<close>

definition in_functions :: "(module_ir \<Rightarrow> BB \<Rightarrow> module_ir outcome) \<Rightarrow> string list \<Rightarrow> module_ir \<Rightarrow> module_ir outcome" where
  "in_functions f fs m =
     ofold (\<lambda>m i. obind (arr_get fs (int i)) (\<lambda>fn. ofold f (mblocks m fn) m)) [0..<MAX_THREAD] m"

definition cleanup :: "loop_ir \<Rightarrow> string list \<Rightarrow> module_ir \<Rightarrow> module_ir outcome" where
  "cleanup L fs m =
     obind (in_functions tidy_end fs m) (\<lambda>m1.
     obind (in_functions tidy_phis fs m1) (\<lambda>m2.
     Ok (delete_loop L m2)))"

end
