(* ===== verification/Transform.thy ===== *)
theory Transform
  imports Cleanup
begin

text \<open>
  \<open>runOnLoop\<close> of \<^verbatim>\<open>DSWP_0.cpp\<close> as a whole: the analyses, and then, when there is more than one component, the
  transformation of the module.
\<close>

text \<open>The function a loop belongs to, as the analyses read it; the use lists are LLVM's.\<close>

definition func_view :: "string \<Rightarrow> (module_ir \<Rightarrow> Inst \<Rightarrow> Value list) \<Rightarrow> module_ir \<Rightarrow> func_ir" where
  "func_view f users m =
     \<lparr>code = mcode m, body = mbody m, parent = mparent m, fblocks = mblocks m f, uses = users m\<rparr>"

text \<open>LLVM's answers for the transformation.\<close>

record 'l llvm_all =
  analyses_of :: "'l llvm"
  dom_of :: dom_tree
  postdom_of :: dom_tree
  uses_of :: "module_ir \<Rightarrow> Inst \<Rightarrow> Value list"
  users_of :: "module_ir \<Rightarrow> Inst \<Rightarrow> string \<Rightarrow> Value list"
  end_node :: bool

definition split_env_of :: "loop_ir \<Rightarrow> BB \<Rightarrow> BB \<Rightarrow> plan \<Rightarrow> (BB \<Rightarrow> BB option) \<times> (BB \<Rightarrow> BB option) \<Rightarrow> pre_split \<Rightarrow> split_env" where
  "split_env_of L ex pr P doms r =
     \<lparr>floop = L, fexit = ex, fpred = pr, fplan = P, fidom = fst doms, fpostidom = snd doms, fargs = argStructTy r,
      fworkers = allFunc r\<rparr>"

definition transform_loop ::
  "'l llvm_all \<Rightarrow> string \<Rightarrow> loop_ir \<Rightarrow> BB \<Rightarrow> BB \<Rightarrow> plan \<Rightarrow> pass_state \<Rightarrow> module_ir \<Rightarrow> (pass_state \<times> module_ir) outcome" where
  "transform_loop A f L ex pr P ps m =
     obind (getDominators (dom_of A) (postdom_of A) (mblocks m f)) (\<lambda>doms.
     obind (preLoopSplit f L ex (loopCounter ps) (live P) (generated ps) m) (\<lambda>r.
     obind (loopSplit (split_env_of L ex pr P doms r) (no_clones (pmodule r))) (\<lambda>st.
     obind (insertSynchronization P (users_of A) (end_node A) st) (\<lambda>(st', channels).
     obind (cleanup L (allFunc r) (cmod st')) (\<lambda>m'.
     Ok (ps\<lparr>generated := pgenerated r\<rparr>, m'))))))"

definition runOnLoop ::
  "(QNode list \<Rightarrow> nat) \<Rightarrow> 'l llvm_all \<Rightarrow> string \<Rightarrow> loop_ir \<Rightarrow> pass_state \<Rightarrow> module_ir \<Rightarrow>
    (bool \<times> pass_state \<times> module_ir) outcome" where
  "runOnLoop tie A f L ps m =
     obind (analyse_loop tie (analyses_of A) f (func_view f (uses_of A) m) L ps) (\<lambda>(plan, ps1).
     case (plan, lexit L, lpred L) of
       (Some P, Some ex, Some pr) \<Rightarrow>
         obind (transform_loop A f L ex pr P ps1 m) (\<lambda>(ps2, m'). Ok (True, ps2, m'))
     | _ \<Rightarrow> Ok (False, ps1, m))"

end
