(* ===== verification/Pre_Split_Correct.thy ===== *)
theory Pre_Split_Correct
  imports Pre_Split
begin

text \<open>
  What \<open>preLoopSplit\<close> makes, as one list of instructions over the pointer of the first one, and the properties
  that follow: the block is well typed, the loop is entered no more, and the values it handed over are read from
  the struct.
\<close>

section \<open>The listing of the block\<close>

fun livein_code :: "Ty \<Rightarrow> Inst \<Rightarrow> nat \<Rightarrow> nat \<Rightarrow> Value list \<Rightarrow> instr list" where
  "livein_code t a p j [] = []"
| "livein_code t a p j (v # vs) = mk_gep t (VInst a) j # mk_store v (VInst p) # livein_code t a (p + 2) (Suc j) vs"

fun liveout_code :: "Ty \<Rightarrow> Inst \<Rightarrow> nat \<Rightarrow> nat \<Rightarrow> Value list \<Rightarrow> instr list" where
  "liveout_code t a p j [] = []"
| "liveout_code t a p j (v # vs) =
     mk_gep t (VInst a) j # mk_load (PointerTy (field_ty t j)) (VInst p) # liveout_code t a (p + 2) (Suc j) vs"

fun liveout_map :: "nat \<Rightarrow> Value list \<Rightarrow> Value \<Rightarrow> Value option" where
  "liveout_map p [] = Map.empty"
| "liveout_map p (v # vs) = (if v \<in> set vs then liveout_map (p + 2) vs else (liveout_map (p + 2) vs)(v \<mapsto> VInst (Suc p)))"

definition delegate_code :: "string list \<Rightarrow> Inst \<Rightarrow> instr list" where
  "delegate_code fs c = map (\<lambda>i. mk_call (Some (FunTy delegate_ty VoidTy)) ''sync_delegate''
     [VInt 32 (int i), VFun (fs ! i), VInst c]) [0..<MAX_THREAD]"

text \<open>The struct is at \<open>p\<close>, the cast pointer to it after the stores.\<close>

definition spawn_code :: "Ty \<Rightarrow> string list \<Rightarrow> live_info \<Rightarrow> nat \<Rightarrow> instr list" where
  "spawn_code sty fs li p =
     mk_alloca sty # livein_code (PointerTy sty) p (p + 1) 0 (livein li) @
     [mk_call (Some (FunTy [] VoidTy)) ''sync_init'' [], mk_cast BitCast i8p (VInst p)] @
     delegate_code fs (p + 2 + 2 * length (livein li)) @ [mk_call (Some (FunTy [] VoidTy)) ''sync_join'' []]"

definition collect_code :: "Ty \<Rightarrow> live_info \<Rightarrow> nat \<Rightarrow> nat \<Rightarrow> instr list" where
  "collect_code sty li a p =
     (if liveout li = [] then []
      else mk_gep (PointerTy sty) (VInst a) (length (livein li)) #
        liveout_code (PointerTy (field_ty (PointerTy sty) (length (livein li)))) p (p + 1) 0 (liveout li))"

lemma length_livein_code [simp]: "length (livein_code t a p j vs) = 2 * length vs"
  by (induction t a p j vs rule: livein_code.induct) auto

lemma length_liveout_code [simp]: "length (liveout_code t a p j vs) = 2 * length vs"
  by (induction t a p j vs rule: liveout_code.induct) auto

lemma store_liveins:
  "value_ty m (VInst a) = t \<Longrightarrow> a < next_ptr m \<Longrightarrow>
    fold (store_livein br a) (enumerate j vs) m = emit_list br (livein_code t a (next_ptr m) j vs) m"
  by (induction vs arbitrary: j m) (simp_all add: store_livein_def split_beta)

lemma call_delegates:
  "fold (call_delegate br d fs c) is m =
    emit_list br (map (\<lambda>i. mk_call d ''sync_delegate'' [VInt 32 (int i), VFun (fs ! i), VInst c]) is) m"
  by (induction "is" arbitrary: m) (simp_all add: call_delegate_def)

lemma liveout_map_dom: "liveout_map p vs v \<noteq> None \<longleftrightarrow> v \<in> set vs"
  by (induction vs arbitrary: p) auto

lemma liveout_map_upd: "rep(v \<mapsto> VInst (Suc p)) ++ liveout_map (Suc (Suc p)) vs = rep ++ liveout_map p (v # vs)"
proof -
  have "v \<in> set vs \<longleftrightarrow> liveout_map (Suc (Suc p)) vs v \<noteq> None" using liveout_map_dom by metis
  then show ?thesis by (auto simp: map_add_def fun_eq_iff split: option.splits)
qed

lemma load_liveouts_fold:
  "value_ty m (VInst a) = t \<Longrightarrow> a < next_ptr m \<Longrightarrow>
    fold (load_liveout br a) (enumerate j vs) (m, rep) =
      (emit_list br (liveout_code t a (next_ptr m) j vs) m, rep ++ liveout_map (next_ptr m) vs)"
proof (induction vs arbitrary: j m rep)
  case (Cons v vs)
  let ?m = "fst (load_liveout br a (j, v) (m, rep))"
  have *: "?m = emit_list br [mk_gep t (VInst a) j, mk_load (PointerTy (field_ty t j)) (VInst (next_ptr m))] m"
    "snd (load_liveout br a (j, v) (m, rep)) = rep(v \<mapsto> VInst (Suc (next_ptr m)))"
    using Cons.prems(1) by (simp_all add: load_liveout_def split_beta)
  have "fold (load_liveout br a) (enumerate j (v # vs)) (m, rep) =
      fold (load_liveout br a) (enumerate (Suc j) vs) (?m, rep(v \<mapsto> VInst (Suc (next_ptr m))))"
    using *(2) by (cases "load_liveout br a (j, v) (m, rep)") simp
  also have "\<dots> = (emit_list br (liveout_code t a (next_ptr ?m) (Suc j) vs) ?m,
      rep(v \<mapsto> VInst (Suc (next_ptr m))) ++ liveout_map (next_ptr ?m) vs)"
    using Cons.prems unfolding * by (intro Cons.IH) simp_all
  finally show ?case unfolding * by (simp add: liveout_map_upd del: liveout_map.simps)
qed simp

lemma liveout_map_range: "liveout_map p vs v = Some w \<Longrightarrow> \<exists>k < 2 * length vs. w = VInst (p + k)"
proof (induction vs arbitrary: p)
  case (Cons x vs)
  show ?case
  proof (cases "v = x \<and> x \<notin> set vs")
    case True
    then show ?thesis using Cons.prems by (auto intro!: exI [of _ "Suc 0"])
  next
    case False
    then have "liveout_map (p + 2) vs v = Some w" using Cons.prems by (auto split: if_splits)
    from Cons.IH [OF this] obtain k where "k < 2 * length vs" "w = VInst (p + 2 + k)" by blast
    then show ?thesis by (intro exI [of _ "k + 2"]) simp
  qed
qed simp

section \<open>The operation as a list\<close>

definition split_code :: "Ty \<Rightarrow> string list \<Rightarrow> live_info \<Rightarrow> nat \<Rightarrow> instr list" where
  "split_code sty fs li p = (let c = spawn_code sty fs li p in c @ collect_code sty li p (p + length c))"

definition outs_ptr :: "Ty \<Rightarrow> string list \<Rightarrow> live_info \<Rightarrow> nat \<Rightarrow> nat" where
  "outs_ptr sty fs li p = Suc (p + length (spawn_code sty fs li p))"

definition workers :: "int \<Rightarrow> string list" where
  "workers lc = map (worker_name lc) [0..<MAX_THREAD]"

text \<open>The names of the workers are free or name functions of the right type.\<close>

definition workers_free :: "module_ir \<Rightarrow> int \<Rightarrow> bool" where
  "workers_free m lc \<longleftrightarrow> (\<forall>g \<in> set (workers lc). mdecl m g = None \<or> mdecl m g = Some (FunTy [i8p] i8p)) \<and>
     set (workers lc) \<inter> runtime_names = {}"

text \<open>The module after the two workers have been added.\<close>

definition entered :: "string \<Rightarrow> loop_ir \<Rightarrow> BB \<Rightarrow> module_ir \<Rightarrow> module_ir" where
  "entered f L ex m = (let (rb, br, m1) = make_replace_block f ex m in redirect_entry L rb f m1)"

lemma redirect_entry_only: "only_code m (redirect_entry L rb f m)"
  unfolding redirect_entry_def by (rule only_code_fold) (simp add: only_code_refl only_code_update)

lemmas redirect_entry_frame [simp] = only_code_fields [OF redirect_entry_only]

text \<open>An instruction is redirected if it ends a block outside the loop that leads to the header.\<close>

lemma redirect_entry_code:
  "mcode (redirect_entry L rb f m) i =
    (if \<exists>b \<in> set (block_preds m f (lheader L)). \<not> contains L b \<and> i = last (mbody m b)
     then retarget (lheader L) rb (mcode m i) else mcode m i)"
proof -
  let ?g = "\<lambda>pred m. if contains L pred then m else update_instr (last (mbody m pred)) (retarget (lheader L) rb) m"
  have twice: "retarget h r (retarget h r ins) = retarget h r ins" for h r ins by (simp add: retarget_def)
  have "mcode (fold ?g bs m) i =
      (if \<exists>b \<in> set bs. \<not> contains L b \<and> i = last (mbody m b) then retarget (lheader L) rb (mcode m i) else mcode m i)" for bs
    by (induction bs arbitrary: m) (auto simp: twice)
  then show ?thesis unfolding redirect_entry_def .
qed

lemma replace_outside_only: "only_code m (replace_outside f L rep m)"
  unfolding replace_outside_def by (rule replace_blocks_only)

lemmas replace_outside_frame [simp] = only_code_fields [OF replace_outside_only]

lemma replace_outside_code:
  assumes "store_inv m"
  shows "mcode (replace_outside f L rep m) k =
    (if \<exists>b \<in> set (mblocks m f). \<not> contains L b \<and> k \<in> set (mbody m b) then replaceUses rep (mcode m k) else mcode m k)"
proof -
  have "distinct (filter (\<lambda>b. \<not> contains L b) (mblocks m f))" using assms by (simp add: store_inv_def)
  from replace_blocks_code [OF assms this, of rep k] show ?thesis unfolding replace_outside_def by (simp add: Bex_def)
qed

lemma replace_outside_empty: "replace_outside f L Map.empty m = m"
  unfolding replace_outside_def by (rule replace_blocks_empty)

text \<open>Adding the workers changes the table of the functions only.\<close>

definition same_code :: "module_ir \<Rightarrow> module_ir \<Rightarrow> bool" where
  "same_code m m' \<longleftrightarrow> mcode m' = mcode m \<and> mbody m' = mbody m \<and> mparent m' = mparent m \<and> mfunc m' = mfunc m \<and>
     mblocks m' = mblocks m \<and> mconst_ty m' = mconst_ty m \<and> next_ptr m \<le> next_ptr m' \<and>
     (\<forall>a < next_ptr m. marg_ty m' a = marg_ty m a)"

lemma same_code_refl: "same_code m m"
  by (simp add: same_code_def)

lemma same_code_trans: "same_code m1 m2 \<Longrightarrow> same_code m2 m3 \<Longrightarrow> same_code m1 m3"
  by (auto simp: same_code_def)

lemma getOrInsertFunction_same: "getOrInsertFunction f ps r m = Ok m' \<Longrightarrow> same_code m m'"
  by (auto simp: getOrInsertFunction_def same_code_def split: option.splits if_splits)

lemma add_workers:
  assumes "\<forall>i \<in> set is. mdecl m (worker_name lc i) = None \<or> mdecl m (worker_name lc i) = Some (FunTy [i8p] i8p)"
  shows "\<exists>m'. ofold (add_worker lc) is (m, fs, gen) =
      Ok (m', fs @ map (worker_name lc) is, gen \<union> set (map (worker_name lc) is)) \<and> same_code m m' \<and>
    mdecl m' = (\<lambda>g. if g \<in> set (map (worker_name lc) is) then Some (FunTy [i8p] i8p) else mdecl m g)"
  using assms
proof (induction "is" arbitrary: m fs gen)
  case Nil
  then show ?case by (simp add: same_code_refl)
next
  case (Cons i "is")
  obtain m1 where m1: "getOrInsertFunction (worker_name lc i) [i8p] i8p m = Ok m1"
    using Cons.prems by (fastforce simp: getOrInsertFunction_def split: option.splits)
  note d = getOrInsertFunction_Ok(1) [OF m1]
  have "\<forall>i \<in> set is. mdecl m1 (worker_name lc i) = None \<or> mdecl m1 (worker_name lc i) = Some (FunTy [i8p] i8p)"
    using Cons.prems by (simp add: d)
  from Cons.IH [OF this, of "fs @ [worker_name lc i]" "insert (worker_name lc i) gen"]
  obtain m' where m': "ofold (add_worker lc) is (m1, fs @ [worker_name lc i], insert (worker_name lc i) gen) =
      Ok (m', (fs @ [worker_name lc i]) @ map (worker_name lc) is, insert (worker_name lc i) gen \<union> set (map (worker_name lc) is))"
    "same_code m1 m'" "mdecl m' = (\<lambda>g. if g \<in> set (map (worker_name lc) is) then Some (FunTy [i8p] i8p) else mdecl m1 g)"
    by blast
  have "ofold (add_worker lc) (i # is) (m, fs, gen) =
      ofold (add_worker lc) is (m1, fs @ [worker_name lc i], insert (worker_name lc i) gen)"
    using m1 by (simp add: add_worker_def)
  with m' have "ofold (add_worker lc) (i # is) (m, fs, gen) =
      Ok (m', fs @ map (worker_name lc) (i # is), gen \<union> set (map (worker_name lc) (i # is)))" by simp
  moreover have "mdecl m' = (\<lambda>g. if g \<in> set (map (worker_name lc) (i # is)) then Some (FunTy [i8p] i8p) else mdecl m g)"
    using m'(3) by (auto simp: d fun_eq_iff)
  ultimately show ?case using same_code_trans [OF getOrInsertFunction_same [OF m1] m'(2)] by blast
qed

lemma add_workers_args:
  assumes "ofold (add_worker lc) is (m, fs, gen) = Ok (m', fs', gen')"
  shows "(\<forall>g. mdecl m g \<noteq> None \<longrightarrow> margs m' g = margs m g) \<and>
    (\<forall>i \<in> set is. mdecl m (worker_name lc i) = None \<longrightarrow> (\<exists>a \<ge> next_ptr m. margs m' (worker_name lc i) = [a]))"
  using assms
proof (induction "is" arbitrary: m fs gen)
  case (Cons i "is")
  from Cons.prems obtain m1 where m1: "getOrInsertFunction (worker_name lc i) [i8p] i8p m = Ok m1"
    "ofold (add_worker lc) is (m1, fs @ [worker_name lc i], insert (worker_name lc i) gen) = Ok (m', fs', gen')"
    by (auto simp: add_worker_def [of lc "(m, fs, gen)" i] obind_eq_Ok)
  have step: "next_ptr m \<le> next_ptr m1" "mdecl m g \<noteq> None \<Longrightarrow> margs m1 g = margs m g \<and> mdecl m1 g \<noteq> None"
    "mdecl m (worker_name lc i) = None \<Longrightarrow> margs m1 (worker_name lc i) = [next_ptr m] \<and> mdecl m1 (worker_name lc i) \<noteq> None"
    "g \<noteq> worker_name lc i \<Longrightarrow> mdecl m1 g = mdecl m g" for g
    using m1(1) by (auto simp: getOrInsertFunction_def split: option.splits if_splits)
  note ih = Cons.IH [OF m1(2)]
  have "\<exists>a \<ge> next_ptr m. margs m' (worker_name lc j) = [a]" if j: "j \<in> set (i # is)" "mdecl m (worker_name lc j) = None" for j
  proof (cases "worker_name lc j = worker_name lc i")
    case True
    then show ?thesis using step(3) ih j(2) by auto
  next
    case False
    then have "j \<in> set is" "mdecl m1 (worker_name lc j) = None" using j step(4) by auto
    then show ?thesis using ih step(1) le_trans by blast
  qed
  then show ?case using ih step(2) by auto
qed simp

lemma make_replace_block_run:
  "make_replace_block f ex m = (next_ptr m, Suc (next_ptr m),
    move_block f (next_ptr m) ex (snd (emit_back (next_ptr m) (mk_branch ex) (snd (new_block f None m)))))"
  by (simp add: make_replace_block_def new_block_def emit_back_def emit_at_def create_def Let_def)

lemma entered_facts:
  "next_ptr (entered f L ex m) = Suc (Suc (next_ptr m))" "mdecl (entered f L ex m) = mdecl m"
  "mbody (entered f L ex m) = (mbody m)(next_ptr m := [Suc (next_ptr m)])"
  "mparent (entered f L ex m) = (mparent m)(Suc (next_ptr m) := next_ptr m)"
  "mfunc (entered f L ex m) = (mfunc m)(next_ptr m := f)"
  "mconst_ty (entered f L ex m) = mconst_ty m" "marg_ty (entered f L ex m) = marg_ty m"
  by (simp_all add: entered_def make_replace_block_run emit_back_def)

text \<open>The whole operation is one list of instructions and one replacement.\<close>

lemma preLoopSplit_listing:
  assumes "\<not> contains L ex" "\<not> contains L (next_ptr m)" "workers_free m lc" "runtime_declared m"
  shows "\<exists>m3. same_code (entered f L ex m) m3 \<and>
    mdecl m3 = (\<lambda>g. if g \<in> set (workers lc) then Some (FunTy [i8p] i8p) else mdecl m g) \<and>
    (\<forall>g \<in> set (workers lc). mdecl m g = None \<longrightarrow> (\<exists>a \<ge> next_ptr m. margs m3 g = [a])) \<and>
    (let p = next_ptr m3; sty = argStructTy_of m3 li; fs = workers lc in
     preLoopSplit f L ex lc li gen m =
      Ok \<lparr>pmodule = replace_outside f L (liveout_map (outs_ptr sty fs li p) (liveout li))
            (emit_list (Suc (next_ptr m)) (split_code sty fs li p) m3),
          allFunc = fs, argStructTy = sty, replaceBlock = next_ptr m, pgenerated = gen \<union> set fs\<rparr>)"
proof -
  let ?m2 = "entered f L ex m" and ?br = "Suc (next_ptr m)"
  have e: "redirect_entry L (next_ptr m) f (move_block f (next_ptr m) ex (snd (emit_back (next_ptr m) (mk_branch ex) (snd (new_block f None m))))) = ?m2"
    by (simp add: entered_def make_replace_block_run)
  have "\<forall>i \<in> set [0..<MAX_THREAD]. mdecl ?m2 (worker_name lc i) = None \<or> mdecl ?m2 (worker_name lc i) = Some (FunTy [i8p] i8p)"
    using assms(3) by (simp add: workers_free_def workers_def entered_facts)
  from add_workers [OF this, of "[]" gen, folded workers_def, unfolded entered_facts(2) append_Nil] obtain m3 where m3:
    "ofold (add_worker lc) [0..<MAX_THREAD] (?m2, [], gen) = Ok (m3, workers lc, gen \<union> set (workers lc))"
    "same_code ?m2 m3" "mdecl m3 = (\<lambda>g. if g \<in> set (workers lc) then Some (FunTy [i8p] i8p) else mdecl m g)"
    by blast
  have args: "\<forall>g \<in> set (workers lc). mdecl m g = None \<longrightarrow> (\<exists>a \<ge> next_ptr m. margs m3 g = [a])"
    using add_workers_args [OF m3(1)] by (fastforce simp: workers_def entered_facts)
  let ?p = "next_ptr m3" and ?sty = "argStructTy_of m3 li" and ?fs = "workers lc"
  have decl: "mdecl m3 ''sync_init'' = Some (FunTy [] VoidTy)" "mdecl m3 ''sync_join'' = Some (FunTy [] VoidTy)"
    "mdecl m3 ''sync_delegate'' = Some (FunTy delegate_ty VoidTy)"
    using assms(3,4) unfolding m3(3) by (auto simp: workers_free_def runtime_names_def runtime_declared_def delegate_ty_def)
  define m4 where "m4 = emit_list ?br [mk_alloca ?sty] m3"
  have m4: "snd (emit_before ?br (mk_alloca ?sty) m3) = m4" "value_ty m4 (VInst ?p) = PointerTy ?sty" "?p < next_ptr m4"
    "next_ptr m4 = Suc ?p" "mdecl m4 = mdecl m3"
    by (simp_all add: m4_def)
  define m5 where "m5 = emit_list ?br (livein_code (PointerTy ?sty) ?p (Suc ?p) 0 (livein li)) m4"
  have m5: "fold (store_livein ?br ?p) (enumerate 0 (livein li)) m4 = m5" "next_ptr m5 = Suc (?p + 2 * length (livein li))"
    "mdecl m5 = mdecl m3"
    using store_liveins [OF m4(2,3)] by (simp_all add: m5_def m4)
  define m6 where "m6 = emit_list ?br [mk_call (Some (FunTy [] VoidTy)) ''sync_init'' []] m5"
  define c where "c = next_ptr m6"
  have m6: "next_ptr m6 = c" "mdecl m6 = mdecl m3" by (simp_all add: m6_def m5 c_def)
  have c: "c = ?p + 2 + 2 * length (livein li)" by (simp add: c_def m6_def m5)
  define m8 where "m8 = emit_list ?br (mk_cast BitCast i8p (VInst ?p) # delegate_code ?fs c) m6"
  have m8: "fold (call_delegate ?br (Some (FunTy delegate_ty VoidTy)) ?fs c) [0..<MAX_THREAD]
      (snd (emit_before ?br (mk_cast BitCast i8p (VInst ?p)) m6)) = m8" "mdecl m8 = mdecl m3"
    by (simp_all add: m8_def delegate_code_def call_delegates m6)
  define m9 where "m9 = emit_list ?br [mk_call (Some (FunTy [] VoidTy)) ''sync_join'' []] m8"
  have spawn: "m9 = emit_list ?br (spawn_code ?sty ?fs li ?p) m3"
    by (simp add: m9_def m8_def m6_def m5_def m4_def spawn_code_def emit_list_append c [unfolded One_nat_def])
  have np9: "next_ptr m9 = ?p + length (spawn_code ?sty ?fs li ?p)" by (simp add: spawn)
  have ty9: "value_ty m9 (VInst ?p) = PointerTy ?sty"
    using value_ty_emitted [of 0 "spawn_code ?sty ?fs li ?p" ?br m3] by (simp add: spawn) (simp add: spawn_code_def)
  have pre: "preLoopSplit f L ex lc li gen m =
      Ok \<lparr>pmodule = load_liveouts f L li ?br ?p m9, allFunc = ?fs, argStructTy = ?sty, replaceBlock = next_ptr m,
          pgenerated = gen \<union> set ?fs\<rparr>"
    using assms(1,2)
    by (simp add: preLoopSplit_def make_replace_block_run e m3(1) split_beta Let_def m4 m5 getFunction_def decl
        m6 c [simplified, symmetric] m6_def [unfolded emit_list_simps, symmetric]
        m8 m9_def [unfolded emit_list_simps, symmetric])
  have "load_liveouts f L li ?br ?p m9 = replace_outside f L (liveout_map (outs_ptr ?sty ?fs li ?p) (liveout li))
      (emit_list ?br (split_code ?sty ?fs li ?p) m3)"
  proof (cases "liveout li = []")
    case True
    then show ?thesis by (simp add: load_liveouts_def split_code_def collect_code_def spawn replace_outside_empty Let_def)
  next
    case False
    let ?g = "mk_gep (PointerTy ?sty) (VInst ?p) (length (livein li))"
    let ?m = "snd (emit_before ?br ?g m9)"
    have a: "value_ty ?m (VInst (next_ptr m9)) = PointerTy (field_ty (PointerTy ?sty) (length (livein li)))" "next_ptr m9 < next_ptr ?m"
      by simp_all
    have f: "fst (emit_before ?br ?g m9) = next_ptr m9" by simp
    have "load_liveouts f L li ?br ?p m9 =
        (case fold (load_liveout ?br (next_ptr m9)) (enumerate 0 (liveout li)) (?m, Map.empty) of (m2, rep) \<Rightarrow> replace_outside f L rep m2)"
      using False by (simp add: load_liveouts_def ty9 [simplified] split_beta del: emit_before_simps(2-))
    then show ?thesis
      using False unfolding load_liveouts_fold [OF a]
      by (simp add: split_code_def collect_code_def spawn emit_list_append Let_def outs_ptr_def)
  qed
  with pre m3(2,3) args show ?thesis unfolding Let_def by (intro exI [of _ m3] conjI) simp_all
qed

section \<open>The module afterwards\<close>

text \<open>What the client of the operation guarantees: LLVM's structure, a unique exit, and the runtime.\<close>

definition split_ready :: "module_ir \<Rightarrow> string \<Rightarrow> loop_ir \<Rightarrow> BB \<Rightarrow> int \<Rightarrow> live_info \<Rightarrow> bool" where
  "split_ready m f L ex lc li \<longleftrightarrow> store_inv m \<and> \<not> contains L ex \<and> ex \<in> set (mblocks m f) \<and> contains L (lheader L) \<and>
     (\<forall>b. contains L b \<longrightarrow> b < next_ptr m) \<and> workers_free m lc \<and> runtime_declared m \<and>
     (\<forall>v \<in> set (livein li @ liveout li). is_variable v \<and> below (next_ptr m) v) \<and> set (livein li) \<inter> set (liveout li) = {}"

lemma entered_inv:
  assumes "store_inv m"
  shows "store_inv (entered f L ex m)"
proof -
  let ?m1 = "snd (new_block f None m)" and ?b = "next_ptr m"
  have m1: "store_inv ?m1" by (rule new_block_inv [OF assms])
  then have "store_inv (snd (emit_back ?b (mk_branch ex) ?m1))" unfolding emit_back_def by (rule emit_at_inv) simp
  then have "store_inv (move_block f ?b ex (snd (emit_back ?b (mk_branch ex) ?m1)))"
    by (rule move_block_inv) (simp add: emit_back_def)
  then show ?thesis by (simp add: entered_def make_replace_block_run only_code_inv [OF redirect_entry_only])
qed

lemma same_code_inv: "same_code m m' \<Longrightarrow> store_inv m \<Longrightarrow> store_inv m'"
  unfolding same_code_def store_inv_def by (metis le_trans less_le_trans)

lemma livein_code_operands:
  "ins \<in> set (livein_code t a p j vs) \<Longrightarrow> v \<in> set (operands ins) \<Longrightarrow>
    v \<in> set vs \<or> (\<exists>w n. v = VInt w n) \<or> v = VInst a \<or> (\<exists>i \<ge> p. v = VInst i)"
  by (induction t a p j vs rule: livein_code.induct) fastforce+

lemma liveout_code_operands:
  "ins \<in> set (liveout_code t a p j vs) \<Longrightarrow> v \<in> set (operands ins) \<Longrightarrow>
    (\<exists>w n. v = VInt w n) \<or> v = VInst a \<or> (\<exists>i \<ge> p. v = VInst i)"
  by (induction t a p j vs rule: liveout_code.induct) fastforce+

definition own_value :: "nat \<Rightarrow> Value \<Rightarrow> bool" where
  "own_value p v \<longleftrightarrow> (case v of VInst i \<Rightarrow> p \<le> i | VInt w n \<Rightarrow> True | VFun g \<Rightarrow> True | _ \<Rightarrow> False)"

lemma split_code_operands:
  "ins \<in> set (split_code sty fs li p) \<Longrightarrow> v \<in> set (operands ins) \<Longrightarrow> v \<in> set (livein li) \<or> own_value p v"
  by (auto simp: split_code_def spawn_code_def collect_code_def delegate_code_def own_value_def Let_def
      dest!: livein_code_operands liveout_code_operands split: if_splits)

lemma own_not_liveout:
  "own_value p v \<Longrightarrow> \<forall>x \<in> set vs. is_variable x \<and> below n x \<Longrightarrow> n \<le> p \<Longrightarrow> v \<notin> set vs"
  by (auto simp: own_value_def is_variable_def split: Value.splits)

text \<open>All that later parts need about the result.\<close>

definition entry_ends :: "module_ir \<Rightarrow> string \<Rightarrow> loop_ir \<Rightarrow> Inst set" where
  "entry_ends m f L = {last (mbody m b) | b. b \<in> set (block_preds m f (lheader L)) \<and> \<not> contains L b}"

definition outside_inst :: "module_ir \<Rightarrow> string \<Rightarrow> loop_ir \<Rightarrow> Inst \<Rightarrow> bool" where
  "outside_inst m f L k \<longleftrightarrow> (\<exists>b \<in> set (mblocks m f). \<not> contains L b \<and> k \<in> set (mbody m b))"

lemma entered_blocks:
  assumes "store_inv m"
  shows "mblocks (entered f L ex m) = (mblocks m)(f := ins_before (next_ptr m) (Some ex) (mblocks m f))"
  using store_fresh(2) [OF assms, of f]
  by (simp add: entered_def make_replace_block_run emit_back_def remove1_append)

lemma entered_code:
  assumes "store_inv m" "contains L (lheader L)" "\<not> contains L ex" "k < next_ptr m"
  shows "mcode (entered f L ex m) k =
    (if k \<in> entry_ends m f L then retarget (lheader L) (next_ptr m) (mcode m k) else mcode m k)"
proof -
  let ?m = "move_block f (next_ptr m) ex (snd (emit_back (next_ptr m) (mk_branch ex) (snd (new_block f None m))))"
  have h: "lheader L \<noteq> ex" using assms(2,3) by auto
  have last: "last (mbody m b) < next_ptr m" if "mbody m b \<noteq> []" for b
    using assms(1) last_in_set [OF that] by (auto simp: store_inv_def)
  have last: "last (mbody m b) \<noteq> Suc (next_ptr m)" "last (mbody m b) \<noteq> next_ptr m" if "mbody m b \<noteq> []" for b
    using last [OF that] by simp_all
  have "set (block_preds ?m f (lheader L)) = set (block_preds m f (lheader L))"
    using h last store_fresh(2) [OF assms(1), of f] by (auto simp: block_preds_def emit_back_def remove1_append)
  moreover have "last (mbody ?m b) = last (mbody m b)" if "b \<in> set (block_preds m f (lheader L))" for b
    using that store_fresh(2) [OF assms(1), of f] by (auto simp: block_preds_def emit_back_def)
  moreover have "mcode ?m k = mcode m k" using assms(4) by (simp add: emit_back_def)
  ultimately show ?thesis
    by (auto simp: entered_def make_replace_block_run redirect_entry_code entry_ends_def)
qed

lemma entered_code_branch:
  assumes "store_inv m" "contains L (lheader L)" "\<not> contains L ex"
  shows "mcode (entered f L ex m) (Suc (next_ptr m)) = mk_branch ex"
proof -
  let ?m = "move_block f (next_ptr m) ex (snd (emit_back (next_ptr m) (mk_branch ex) (snd (new_block f None m))))"
  have h: "lheader L \<noteq> ex" using assms(2,3) by auto
  have "mcode ?m (Suc (next_ptr m)) = mk_branch ex" by (simp add: emit_back_def)
  moreover have "retarget (lheader L) (next_ptr m) (mk_branch ex) = mk_branch ex"
    using h by (simp add: retarget_def mk_branch_def)
  ultimately show ?thesis by (simp add: entered_def make_replace_block_run redirect_entry_code)
qed

lemma entered_types:
  assumes "store_inv m" "contains L (lheader L)" "\<not> contains L ex" "same_code (entered f L ex m) m3"
    and "is_variable v" "below (next_ptr m) v"
  shows "value_ty m3 v = value_ty m v"
proof (cases v)
  case (VInst i)
  then show ?thesis
    using entered_code [OF assms(1-3), of i f] assms(4,6) by (simp add: same_code_def retarget_def)
next
  case (VArg a)
  then show ?thesis using assms(4,6) by (simp add: same_code_def entered_facts)
qed (use assms(5) in \<open>simp_all add: is_variable_def\<close>)

text \<open>All that later parts need to know about the result, with \<open>p\<close> the pointer of the struct.\<close>

record split_spec =
  sp_ty :: Ty
  sp_code :: "instr list"
  sp_rep :: "Value \<Rightarrow> Value option"

definition pre_split_spec ::
  "module_ir \<Rightarrow> string \<Rightarrow> loop_ir \<Rightarrow> BB \<Rightarrow> int \<Rightarrow> live_info \<Rightarrow> nat \<Rightarrow> split_spec" where
  "pre_split_spec m f L ex lc li p =
     (let sty = StructTy (map (value_ty m) (livein li) @ [StructTy (map (value_ty m) (liveout li))]) in
      \<lparr>sp_ty = sty, sp_code = split_code sty (workers lc) li p,
       sp_rep = liveout_map (outs_ptr sty (workers lc) li p) (liveout li)\<rparr>)"

lemma preLoopSplit_result:
  assumes ready: "split_ready m f L ex lc li"
  shows "\<exists>r p. preLoopSplit f L ex lc li gen m = Ok r \<and> Suc (next_ptr m) < p \<and>
    allFunc r = workers lc \<and> replaceBlock r = next_ptr m \<and> pgenerated r = gen \<union> set (workers lc) \<and>
    argStructTy r = sp_ty (pre_split_spec m f L ex lc li p) \<and> store_inv (pmodule r) \<and>
    next_ptr (pmodule r) = p + length (sp_code (pre_split_spec m f L ex lc li p)) \<and>
    mdecl (pmodule r) = (\<lambda>g. if g \<in> set (workers lc) then Some (FunTy [i8p] i8p) else mdecl m g) \<and>
    mblocks (pmodule r) = (mblocks m)(f := ins_before (next_ptr m) (Some ex) (mblocks m f)) \<and>
    mfunc (pmodule r) = (mfunc m)(next_ptr m := f) \<and> (\<forall>a < next_ptr m. marg_ty (pmodule r) a = marg_ty m a) \<and>
    (\<forall>g \<in> set (workers lc). mdecl m g = None \<longrightarrow> (\<exists>a \<ge> next_ptr m. margs (pmodule r) g = [a])) \<and>
    mbody (pmodule r) = (mbody m)(next_ptr m :=
      [p..<p + length (sp_code (pre_split_spec m f L ex lc li p))] @ [Suc (next_ptr m)]) \<and>
    mcode (pmodule r) (Suc (next_ptr m)) = mk_branch ex \<and>
    located (pmodule r) p (sp_code (pre_split_spec m f L ex lc li p)) \<and>
    (\<forall>k < next_ptr m. mcode (pmodule r) k =
       (if outside_inst m f L k then replaceUses (sp_rep (pre_split_spec m f L ex lc li p)) else id)
         ((if k \<in> entry_ends m f L then retarget (lheader L) (next_ptr m) else id) (mcode m k)))"
proof -
  have r: "store_inv m" "contains L (lheader L)" "\<not> contains L ex" "\<not> contains L (next_ptr m)" "workers_free m lc" "runtime_declared m"
    "ex \<in> set (mblocks m f)" and live: "\<forall>v \<in> set (livein li @ liveout li). is_variable v \<and> below (next_ptr m) v"
    "set (livein li) \<inter> set (liveout li) = {}"
    using ready unfolding split_ready_def by blast+
  from preLoopSplit_listing [OF r(3-6), of f li gen] obtain m3 where m3: "same_code (entered f L ex m) m3"
    "mdecl m3 = (\<lambda>g. if g \<in> set (workers lc) then Some (FunTy [i8p] i8p) else mdecl m g)"
    "\<forall>g \<in> set (workers lc). mdecl m g = None \<longrightarrow> (\<exists>a \<ge> next_ptr m. margs m3 g = [a])"
    and run: "let p = next_ptr m3; sty = argStructTy_of m3 li; fs = workers lc in
     preLoopSplit f L ex lc li gen m =
      Ok \<lparr>pmodule = replace_outside f L (liveout_map (outs_ptr sty fs li p) (liveout li))
            (emit_list (Suc (next_ptr m)) (split_code sty fs li p) m3),
          allFunc = fs, argStructTy = sty, replaceBlock = next_ptr m, pgenerated = gen \<union> set fs\<rparr>"
    by blast
  let ?p = "next_ptr m3" and ?br = "Suc (next_ptr m)"
  let ?S = "pre_split_spec m f L ex lc li ?p"
  have ty: "value_ty m3 v = value_ty m v" if "v \<in> set (livein li @ liveout li)" for v
    using entered_types [OF r(1-3) m3(1)] live(1) that by blast
  have sty: "argStructTy_of m3 li = sp_ty ?S"
    using ty by (simp add: argStructTy_of_def outStructTy_of_def pre_split_spec_def Let_def)
  have code: "sp_code ?S = split_code (sp_ty ?S) (workers lc) li ?p"
    "sp_rep ?S = liveout_map (outs_ptr (sp_ty ?S) (workers lc) li ?p) (liveout li)"
    by (simp_all add: pre_split_spec_def Let_def)
  define me where "me = emit_list ?br (sp_code ?S) m3"
  define m' where "m' = replace_outside f L (sp_rep ?S) me"
  have run': "preLoopSplit f L ex lc li gen m =
      Ok \<lparr>pmodule = m', allFunc = workers lc, argStructTy = sp_ty ?S, replaceBlock = next_ptr m, pgenerated = gen \<union> set (workers lc)\<rparr>"
    using run unfolding Let_def sty code [symmetric] me_def [symmetric] m'_def [symmetric] .
  have c3: "mcode m3 = mcode (entered f L ex m)" "mbody m3 = (mbody m)(next_ptr m := [?br])"
    "mparent m3 = (mparent m)(?br := next_ptr m)" "mfunc m3 = (mfunc m)(next_ptr m := f)"
    "mblocks m3 = (mblocks m)(f := ins_before (next_ptr m) (Some ex) (mblocks m f))" "?br < ?p"
    "\<forall>a < next_ptr m. marg_ty m3 a = marg_ty m a"
    using m3(1) entered_blocks [OF r(1)] by (simp_all add: same_code_def entered_facts)
  have inv3: "store_inv m3" by (rule same_code_inv [OF m3(1) entered_inv [OF r(1)]])
  have inve: "store_inv me" unfolding me_def by (rule emit_list_inv [OF inv3]) (use c3 in simp_all)
  have body: "mbody me = (mbody m)(next_ptr m := [?p..<?p + length (sp_code ?S)] @ [?br])"
  proof
    fix b
    show "mbody me b = ((mbody m)(next_ptr m := [?p..<?p + length (sp_code ?S)] @ [?br])) b"
    proof (cases "b = next_ptr m")
      case True
      then show ?thesis using emit_list_body [of ?br m3 "[]" "[]" "sp_code ?S"] c3 by (simp add: me_def)
    next
      case False
      then show ?thesis using emit_list_body_other [of ?br m3 b "sp_code ?S"] c3 by (simp add: me_def)
    qed
  qed
  have cm: "mcode m' k = (if \<exists>b \<in> set (mblocks me f). \<not> contains L b \<and> k \<in> set (mbody me b) then replaceUses (sp_rep ?S) (mcode me k) else mcode me k)" for k
    unfolding m'_def by (rule replace_outside_code [OF inve])
  have new: "mcode m' (?p + j) = sp_code ?S ! j" if "j < length (sp_code ?S)" for j
  proof -
    have "mcode me (?p + j) = sp_code ?S ! j" using that by (simp add: me_def emit_list_code)
    moreover have "replaceUses (sp_rep ?S) (sp_code ?S ! j) = sp_code ?S ! j"
    proof (rule replaceUses_same)
      fix v assume "v \<in> set (operands (sp_code ?S ! j))"
      then have "v \<in> set (livein li) \<or> own_value ?p v"
        using split_code_operands nth_mem [OF that] unfolding code by blast
      moreover have "own_value ?p v \<Longrightarrow> v \<notin> set (liveout li)"
        using own_not_liveout [of ?p v "liveout li" "next_ptr m"] live(1) c3(6) by simp
      ultimately have "v \<notin> set (liveout li)" using live(2) by blast
      then show "sp_rep ?S v = None" using liveout_map_dom unfolding code by blast
    qed
    ultimately show ?thesis by (simp add: cm)
  qed
  have old: "mcode me k = mcode (entered f L ex m) k" if "k < Suc (Suc (next_ptr m))" for k
    using that c3 by (simp add: me_def emit_list_code)
  have branch: "mcode m' ?br = mk_branch ex"
    using entered_code_branch [OF r(1-3)] old replaceUses_same [of "mk_branch ex" "sp_rep ?S"] by (simp add: cm)
  have out: "(\<exists>b \<in> set (mblocks me f). \<not> contains L b \<and> k \<in> set (mbody me b)) \<longleftrightarrow> outside_inst m f L k" if "k < next_ptr m" for k
  proof -
    have "k \<notin> set (mbody me (next_ptr m))" using that c3(6) by (simp add: body)
    moreover have "set (mblocks me f) = insert (next_ptr m) (set (mblocks m f))" by (simp add: me_def c3)
    moreover have "b \<noteq> next_ptr m \<Longrightarrow> mbody me b = mbody m b" for b by (simp add: body)
    ultimately show ?thesis
      using store_fresh(2) [OF r(1), of f] unfolding outside_inst_def by (metis insert_iff)
  qed
  have "mcode m' k = (if outside_inst m f L k then replaceUses (sp_rep ?S) else id)
         ((if k \<in> entry_ends m f L then retarget (lheader L) (next_ptr m) else id) (mcode m k))" if "k < next_ptr m" for k
    using that entered_code [OF r(1-3), of k f] by (simp add: cm out old)
  moreover have "store_inv m'" using inve by (simp add: m'_def only_code_inv [OF replace_outside_only])
  ultimately show ?thesis
    using run' c3 new branch body m3(2,3)
    by (intro exI [of _ "\<lparr>pmodule = m', allFunc = workers lc, argStructTy = sp_ty ?S, replaceBlock = next_ptr m, pgenerated = gen \<union> set (workers lc)\<rparr>"] exI [of _ ?p])
      (simp add: m'_def me_def located_def)
qed

end
