(* ===== verification/Small_Module.thy ===== *)
theory Small_Module
  imports Small_Loop Module_Init
begin

text \<open>The counting loop of the witnesses as a module, with the runtime declared.\<close>

definition small_module :: module_ir where
  "small_module = \<lparr>mcode = code small_func, mbody = body small_func, mparent = parent small_func,
     mfunc = (\<lambda>_. ''f''), mblocks = (\<lambda>g. if g = ''f'' then fblocks small_func else []),
     mdecl = (mdecl (snd (doInitialization empty_module)))(''f'' \<mapsto> FunTy [IntegerTy 32] (IntegerTy 32)),
     margs = (\<lambda>g. if g = ''f'' then [0] else []), marg_ty = (\<lambda>_. IntegerTy 32), mconst_ty = (\<lambda>_. IntegerTy 32), next_ptr = 30\<rparr>"

lemma small_module_inv: "store_inv small_module"
  by (auto simp: store_inv_def small_module_def small_func_def split: if_splits)

lemma small_module_runtime: "runtime_declared small_module"
  by (simp add: runtime_declared_def small_module_def doInitialization_def Let_def empty_module_def produce_ty_def delegate_ty_def)

lemma small_module_decl:
  "mdecl small_module g = (if g = ''f'' then Some (FunTy [IntegerTy 32] (IntegerTy 32))
    else if g \<in> runtime_names then mdecl (snd (doInitialization empty_module)) g else None)"
  using doInitialization_keeps(7) [of g empty_module] by (auto simp: small_module_def empty_module_def)

end
