(* ===== verification/Pre_Split_Result.thy ===== *)
theory Pre_Split_Result
  imports Pre_Split_Correct Small_Module
begin

text \<open>
  The properties of \<open>preLoopSplit\<close>: which code it makes, that this code is well typed, and that the code outside
  the loop afterwards neither enters the loop nor uses a value of it.
\<close>

section \<open>Types of the new code\<close>

lemma livein_code_typed:
  "located m p (livein_code (PointerTy (StructTy ts)) a p j vs) \<Longrightarrow> value_ty m (VInst a) = PointerTy (StructTy ts) \<Longrightarrow>
    (\<forall>i < length vs. j + i < length ts \<and> ts ! (j + i) = value_ty m (vs ! i)) \<Longrightarrow>
    \<forall>ins \<in> set (livein_code (PointerTy (StructTy ts)) a p j vs). instr_ok m ins"
proof (induction vs arbitrary: p j)
  case (Cons v vs)
  have "\<forall>i < length vs. Suc j + i < length ts \<and> ts ! (Suc j + i) = value_ty m (vs ! i)"
    using Cons.prems(3) by (metis Suc_less_eq add_Suc_right add_Suc length_Cons nth_Cons_Suc)
  moreover have "j < length ts" "ts ! j = value_ty m v" using Cons.prems(3) by (metis add_0_right length_Cons nth_Cons_0 zero_less_Suc)+
  ultimately show ?case using Cons.IH [of "Suc (Suc p)" "Suc j"] Cons.prems(1,2) by simp
qed simp

lemma liveout_code_typed:
  "located m p (liveout_code (PointerTy (StructTy ts)) a p j vs) \<Longrightarrow> value_ty m (VInst a) = PointerTy (StructTy ts) \<Longrightarrow>
    j + length vs \<le> length ts \<Longrightarrow> \<forall>ins \<in> set (liveout_code (PointerTy (StructTy ts)) a p j vs). instr_ok m ins"
proof (induction vs arbitrary: p j)
  case (Cons v vs)
  then show ?case using Cons.IH [of "Suc (Suc p)" "Suc j"] by simp
qed simp

lemma delegate_code_typed:
  assumes "mdecl m ''sync_delegate'' = Some (FunTy delegate_ty VoidTy)" "value_ty m (VInst c) = i8p"
    and "\<forall>i < MAX_THREAD. mdecl m (fs ! i) = Some (FunTy [i8p] i8p)"
  shows "\<forall>ins \<in> set (delegate_code fs c). instr_ok m ins"
  using assms by (auto simp: delegate_code_def delegate_ty_def)

text \<open>The whole list, in a module that holds it.\<close>

lemma split_code_typed:
  assumes loc: "located m p (split_code sty fs li p)"
    and sty: "sty = StructTy (map (value_ty m) (livein li) @ [StructTy (map (value_ty m) (liveout li))])"
    and rt: "runtime_declared m" and fs: "\<forall>i < MAX_THREAD. mdecl m (fs ! i) = Some (FunTy [i8p] i8p)"
  shows "\<forall>ins \<in> set (split_code sty fs li p). instr_ok m ins"
proof -
  let ?n = "length (livein li)"
  let ?ts = "map (value_ty m) (livein li) @ [StructTy (map (value_ty m) (liveout li))]"
  have decl: "mdecl m ''sync_init'' = Some (FunTy [] VoidTy)" "mdecl m ''sync_join'' = Some (FunTy [] VoidTy)"
    "mdecl m ''sync_delegate'' = Some (FunTy delegate_ty VoidTy)"
    using rt by (simp_all add: runtime_declared_def delegate_ty_def)
  have a: "value_ty m (VInst p) = PointerTy (StructTy ?ts)" using loc by (simp add: split_code_def spawn_code_def Let_def sty)
  have li: "\<forall>ins \<in> set (livein_code (PointerTy (StructTy ?ts)) p (Suc p) 0 (livein li)). instr_ok m ins"
    by (rule livein_code_typed) (use loc a in \<open>simp_all add: split_code_def spawn_code_def Let_def sty nth_append\<close>)
  have c: "value_ty m (VInst (p + 2 + 2 * ?n)) = i8p"
    using loc by (simp add: split_code_def spawn_code_def Let_def add.commute add.left_commute)
  have de: "\<forall>ins \<in> set (delegate_code fs (p + 2 + 2 * ?n)). instr_ok m ins"
    by (rule delegate_code_typed [OF decl(3) c fs])
  have spawn: "\<forall>ins \<in> set (spawn_code sty fs li p). instr_ok m ins"
    unfolding spawn_code_def using li de decl a by (auto simp: instr_ok_cast cast_ok_def sty)
  have collect: "\<forall>ins \<in> set (collect_code sty li p q). instr_ok m ins" if q: "located m q (collect_code sty li p q)" for q
  proof (cases "liveout li = []")
    case False
    let ?t = "PointerTy (field_ty (PointerTy sty) ?n)"
    have t: "?t = PointerTy (StructTy (map (value_ty m) (liveout li)))" by (simp add: sty nth_append)
    have "\<forall>ins \<in> set (liveout_code ?t q (Suc q) 0 (liveout li)). instr_ok m ins"
      unfolding t by (rule liveout_code_typed) (use q False in \<open>simp_all add: collect_code_def sty nth_append\<close>)
    then show ?thesis using False a by (simp add: collect_code_def sty nth_append)
  qed (simp add: collect_code_def)
  from loc have "located m (p + length (spawn_code sty fs li p)) (collect_code sty li p (p + length (spawn_code sty fs li p)))"
    by (simp add: split_code_def Let_def)
  from spawn collect [OF this] show ?thesis by (auto simp: split_code_def Let_def)
qed

section \<open>The small loop\<close>

definition small_live :: live_info where
  "small_live = \<lparr>defin = [VInst 10, VInst 11], livein = [VArg 0], liveout = [VInst 11]\<rparr>"

lemma worker_name_digit: "\<exists>c cs. worker_name lc i = c # cs \<and> (is_digit c \<or> c = CHR ''-'')"
proof (cases "lc < 0")
  case True
  then show ?thesis by (simp add: worker_name_def itoa_def)
next
  case False
  obtain c cs where c: "decimal (nat lc) = c # cs" using decimal_nonempty by (cases "decimal (nat lc)") auto
  then have "is_digit c" using decimal_digits [of "nat lc"] by simp
  then show ?thesis using False c by (simp add: worker_name_def itoa_def)
qed

lemma worker_not_runtime: "worker_name lc i \<notin> insert ''f'' runtime_names"
  using worker_name_digit [of lc i] by (auto simp: runtime_names_def is_digit_def)

lemma small_ready: "split_ready small_module ''f'' small_loop 2 lc small_live"
proof -
  have "workers_free small_module lc"
    using worker_not_runtime [of lc] by (auto simp: workers_free_def workers_def small_module_decl)
  then show ?thesis
    using small_module_inv small_module_runtime
    by (simp add: split_ready_def small_contains small_live_def is_variable_def)
      (simp add: small_module_def small_func_def small_loop_def)
qed

section \<open>Properties\<close>

text \<open>
  C26. \<open>preLoopSplit\<close> succeeds and puts a block before the exit block whose instructions are: the allocation of
  the struct, a pointer and a store for each live-in value, \<open>sync_init\<close>, the cast of the struct, a call of
  \<open>sync_delegate\<close> for each worker, \<open>sync_join\<close>, a pointer and a load for each live-out value, and the branch to
  the exit. The instructions of the loop and of other functions stay as they are.
\<close>

theorem replacement_block:
  assumes "split_ready m f L ex lc li"
  shows "\<exists>r p br. preLoopSplit f L ex lc li gen m = Ok r \<and>
    mbody (pmodule r) (replaceBlock r) = [p..<p + length (split_code (argStructTy r) (allFunc r) li p)] @ [br] \<and>
    located (pmodule r) p (split_code (argStructTy r) (allFunc r) li p) \<and> mcode (pmodule r) br = mk_branch ex \<and>
    (\<exists>as bs. mblocks m f = as @ ex # bs \<and> mblocks (pmodule r) f = as @ replaceBlock r # ex # bs) \<and>
    (\<forall>k < next_ptr m. \<not> outside_inst m f L k \<longrightarrow> mcode (pmodule r) k = mcode m k)"
proof -
  obtain r p where r: "preLoopSplit f L ex lc li gen m = Ok r" "replaceBlock r = next_ptr m" "allFunc r = workers lc"
    "argStructTy r = sp_ty (pre_split_spec m f L ex lc li p)"
    "mbody (pmodule r) = (mbody m)(next_ptr m :=
      [p..<p + length (sp_code (pre_split_spec m f L ex lc li p))] @ [Suc (next_ptr m)])"
    "mcode (pmodule r) (Suc (next_ptr m)) = mk_branch ex"
    "mblocks (pmodule r) = (mblocks m)(f := ins_before (next_ptr m) (Some ex) (mblocks m f))"
    "located (pmodule r) p (sp_code (pre_split_spec m f L ex lc li p))"
    "\<forall>k < next_ptr m. mcode (pmodule r) k =
       (if outside_inst m f L k then replaceUses (sp_rep (pre_split_spec m f L ex lc li p)) else id)
         ((if k \<in> entry_ends m f L then retarget (lheader L) (next_ptr m) else id) (mcode m k))"
    using preLoopSplit_result [OF assms, of gen] by blast
  have c: "sp_code (pre_split_spec m f L ex lc li p) = split_code (argStructTy r) (allFunc r) li p"
    unfolding r(3,4) by (simp add: pre_split_spec_def Let_def)
  have d: "distinct (mblocks m f)" "ex \<in> set (mblocks m f)" using assms by (auto simp: split_ready_def store_inv_def)
  then obtain as bs where e: "mblocks m f = as @ ex # bs" by (meson split_list)
  then have "mblocks (pmodule r) f = as @ replaceBlock r # ex # bs"
    using d(1) by (simp add: r(2,7) ins_before_split)
  moreover have "k \<notin> entry_ends m f L" if "\<not> outside_inst m f L k" for k
    using that last_in_set by (fastforce simp: entry_ends_def outside_inst_def block_preds_def)
  ultimately show ?thesis
    using r c e by (intro exI [of _ r] exI [of _ p] exI [of _ "Suc (next_ptr m)"]) auto
qed

theorem replacement_block_witness:
  "\<exists>r p. preLoopSplit ''f'' small_loop 2 1 small_live {} small_module = Ok r \<and>
    mcode (pmodule r) (p + 2) = mk_store (VArg 0) (VInst (p + 1)) \<and> mcode (pmodule r) 11 = mcode small_module 11"
proof -
  from replacement_block [OF small_ready, of 1 "{}"] obtain r p where
    r: "preLoopSplit ''f'' small_loop 2 1 small_live {} small_module = Ok r"
    "located (pmodule r) p (split_code (argStructTy r) (allFunc r) small_live p)"
    "\<forall>k < next_ptr small_module. \<not> outside_inst small_module ''f'' small_loop k \<longrightarrow> mcode (pmodule r) k = mcode small_module k"
    by blast
  have "\<not> outside_inst small_module ''f'' small_loop 11"
    by (auto simp: outside_inst_def small_module_def small_func_def small_contains split: if_splits)
  moreover have "11 < next_ptr small_module" by (simp add: small_module_def)
  ultimately have "mcode (pmodule r) 11 = mcode small_module 11" using r(3) by blast
  moreover have "mcode (pmodule r) (p + 2) = mk_store (VArg 0) (VInst (p + 1))"
    using r(2) by (simp add: split_code_def spawn_code_def Let_def small_live_def)
  ultimately show ?thesis using r(1) by blast
qed

text \<open>
  C27. The code that replaces the loop is well typed: each store has the type of its field, each load that of the
  live-out value, and every call fits the declaration of the function of the runtime.
\<close>

theorem replacement_typed:
  assumes "split_ready m f L ex lc li"
  shows "\<exists>r. preLoopSplit f L ex lc li gen m = Ok r \<and>
    (\<forall>i \<in> set (mbody (pmodule r) (replaceBlock r)). instr_ok (pmodule r) (mcode (pmodule r) i))"
proof -
  let ?S = "\<lambda>p. pre_split_spec m f L ex lc li p"
  obtain r p where r: "preLoopSplit f L ex lc li gen m = Ok r" "Suc (next_ptr m) < p" "replaceBlock r = next_ptr m"
    "mdecl (pmodule r) = (\<lambda>g. if g \<in> set (workers lc) then Some (FunTy [i8p] i8p) else mdecl m g)"
    "mbody (pmodule r) = (mbody m)(next_ptr m := [p..<p + length (sp_code (?S p))] @ [Suc (next_ptr m)])"
    "mcode (pmodule r) (Suc (next_ptr m)) = mk_branch ex" "located (pmodule r) p (sp_code (?S p))"
    "\<forall>k < next_ptr m. mcode (pmodule r) k = (if outside_inst m f L k then replaceUses (sp_rep (?S p)) else id)
         ((if k \<in> entry_ends m f L then retarget (lheader L) (next_ptr m) else id) (mcode m k))"
    "\<forall>a < next_ptr m. marg_ty (pmodule r) a = marg_ty m a"
    using preLoopSplit_result [OF assms, of gen] by blast
  have ty: "value_ty (pmodule r) v = value_ty m v" if "v \<in> set (livein li @ liveout li)" for v
  proof -
    have "is_variable v" "below (next_ptr m) v" using assms that by (auto simp: split_ready_def)
    then show ?thesis using r(8,9) by (cases v) (auto simp: is_variable_def retarget_def replaceUses_def)
  qed
  have sty: "sp_ty (?S p) = StructTy (map (value_ty (pmodule r)) (livein li) @ [StructTy (map (value_ty (pmodule r)) (liveout li))])"
    using ty by (simp add: pre_split_spec_def Let_def)
  have "runtime_declared (pmodule r)"
    using assms unfolding split_ready_def workers_free_def by (auto simp: runtime_declared_def runtime_names_def r(4))
  moreover have "\<forall>i < MAX_THREAD. mdecl (pmodule r) (workers lc ! i) = Some (FunTy [i8p] i8p)"
    unfolding r(4) by (simp add: workers_def)
  ultimately have "\<forall>ins \<in> set (split_code (sp_ty (?S p)) (workers lc) li p). instr_ok (pmodule r) ins"
    using split_code_typed [of "pmodule r" p "sp_ty (?S p)" "workers lc" li] r(7) sty
    by (simp add: pre_split_spec_def Let_def)
  then have "\<forall>ins \<in> set (sp_code (?S p)). instr_ok (pmodule r) ins" by (simp add: pre_split_spec_def Let_def)
  then have "instr_ok (pmodule r) (mcode (pmodule r) i)" if "p \<le> i" "i < p + length (sp_code (?S p))" for i
    using that r(7) by (auto simp: located_def dest!: le_Suc_ex)
  then show ?thesis using r(1,3,5,6) by (intro exI [of _ r]) auto
qed

theorem replacement_typed_witness:
  "\<exists>r. preLoopSplit ''f'' small_loop 2 1 small_live {} small_module = Ok r \<and>
    (\<forall>i \<in> set (mbody (pmodule r) (replaceBlock r)). instr_ok (pmodule r) (mcode (pmodule r) i))"
  by (rule replacement_typed [OF small_ready])

text \<open>
  C28. After \<open>preLoopSplit\<close> the code outside the loop is cut off from it: no block outside the loop leads to the
  header any more, and no instruction outside the loop uses a live-out value.
\<close>

theorem loop_cut_off:
  assumes "split_ready m f L ex lc li"
  shows "\<exists>r. preLoopSplit f L ex lc li gen m = Ok r \<and>
    (\<forall>b \<in> set (block_preds (pmodule r) f (lheader L)). contains L b) \<and>
    (\<forall>b \<in> set (mblocks (pmodule r) f) - set (lblocks L). \<forall>i \<in> set (mbody (pmodule r) b).
      set (operands (mcode (pmodule r) i)) \<inter> set (liveout li) = {})"
proof -
  let ?S = "\<lambda>p. pre_split_spec m f L ex lc li p"
  obtain r p where r: "preLoopSplit f L ex lc li gen m = Ok r" "Suc (next_ptr m) < p"
    "mblocks (pmodule r) = (mblocks m)(f := ins_before (next_ptr m) (Some ex) (mblocks m f))"
    "mbody (pmodule r) = (mbody m)(next_ptr m := [p..<p + length (sp_code (?S p))] @ [Suc (next_ptr m)])"
    "mcode (pmodule r) (Suc (next_ptr m)) = mk_branch ex" "located (pmodule r) p (sp_code (?S p))"
    "\<forall>k < next_ptr m. mcode (pmodule r) k = (if outside_inst m f L k then replaceUses (sp_rep (?S p)) else id)
         ((if k \<in> entry_ends m f L then retarget (lheader L) (next_ptr m) else id) (mcode m k))"
    using preLoopSplit_result [OF assms, of gen] by blast
  have ready: "store_inv m" "\<not> contains L ex" "contains L (lheader L)" "\<not> contains L (next_ptr m)"
    "\<forall>v \<in> set (livein li @ liveout li). is_variable v \<and> below (next_ptr m) v" "set (livein li) \<inter> set (liveout li) = {}"
    using assms unfolding split_ready_def by blast+
  have rep: "sp_rep (?S p) v \<noteq> None \<longleftrightarrow> v \<in> set (liveout li)" for v
    unfolding pre_split_spec_def Let_def using liveout_map_dom by simp
  have rng: "w \<notin> set (liveout li)" if sp: "sp_rep (?S p) v = Some w" for v w
  proof -
    obtain k where "w = VInst (outs_ptr (sp_ty (?S p)) (workers lc) li p + k)"
      using sp liveout_map_range by (fastforce simp: pre_split_spec_def Let_def)
    then have "own_value p w" by (simp add: own_value_def outs_ptr_def)
    then show ?thesis using own_not_liveout [of p w "liveout li" "next_ptr m"] ready(5) r(2) by simp
  qed
  have clean: "set (operands (replaceUses (sp_rep (?S p)) ins)) \<inter> set (liveout li) = {}" for ins
  proof -
    have "(case sp_rep (?S p) op of Some w \<Rightarrow> w | None \<Rightarrow> op) \<notin> set (liveout li)" for op
      using rep [of op] rng [of op] by (cases "sp_rep (?S p) op") auto
    then show ?thesis by (auto simp: replaceUses_def)
  qed
  have body: "i < next_ptr m" if "i \<in> set (mbody m b)" for i b using ready(1) that by (auto simp: store_inv_def)
  have blocks: "b \<in> set (mblocks (pmodule r) f) \<longleftrightarrow> b = next_ptr m \<or> b \<in> set (mblocks m f)" for b by (simp add: r(3))
  have uses: "set (operands (mcode (pmodule r) i)) \<inter> set (liveout li) = {}"
    if b: "b \<in> set (mblocks (pmodule r) f)" "\<not> contains L b" "i \<in> set (mbody (pmodule r) b)" for b i
  proof (cases "b = next_ptr m")
    case True
    show ?thesis
    proof (cases "i = Suc (next_ptr m)")
      case False
      then obtain j where j: "i = p + j" "j < length (sp_code (?S p))"
        using b(3) True by (auto simp: r(4) dest: le_Suc_ex)
      have "v \<notin> set (liveout li)" if "v \<in> set (operands (sp_code (?S p) ! j))" for v
      proof -
        have "v \<in> set (livein li) \<or> own_value p v"
          using split_code_operands that nth_mem [OF j(2)] by (fastforce simp: pre_split_spec_def Let_def)
        then show ?thesis using ready(5,6) own_not_liveout [of p v "liveout li" "next_ptr m"] r(2) by auto
      qed
      then show ?thesis using r(6) j by (auto simp: located_def)
    qed (simp add: r(5))
  next
    case False
    then have "b \<in> set (mblocks m f)" "i \<in> set (mbody m b)" using b by (simp_all add: blocks r(4))
    then have "outside_inst m f L i" "i < next_ptr m" using b(2) body by (auto simp: outside_inst_def)
    then show ?thesis using r(7) clean by simp
  qed
  have entry: "contains L b" if b: "b \<in> set (block_preds (pmodule r) f (lheader L))" for b
  proof (rule ccontr)
    assume out: "\<not> contains L b"
    have h: "lheader L \<noteq> next_ptr m" "lheader L \<noteq> ex" using ready(2-4) by auto
    have ne: "b \<noteq> next_ptr m" using b h by (auto simp: block_preds_def r(4,5))
    let ?i = "last (mbody m b)"
    have i: "b \<in> set (mblocks m f)" "mbody m b \<noteq> []" "lheader L \<in> set (succs (mcode (pmodule r) ?i))"
      using b ne by (auto simp: block_preds_def blocks r(4))
    have k: "?i < next_ptr m" using body [OF last_in_set [OF i(2)]] .
    have su: "succs (mcode (pmodule r) ?i) =
        succs ((if ?i \<in> entry_ends m f L then retarget (lheader L) (next_ptr m) else id) (mcode m ?i))"
      using r(7) k by (simp add: replaceUses_def)
    have "?i \<notin> entry_ends m f L" using su i(3) h by (auto simp: retarget_def)
    then have "lheader L \<in> set (succs (mcode m ?i))" using su i(3) by simp
    then have "?i \<in> entry_ends m f L" using i(1,2) out by (auto simp: entry_ends_def block_preds_def)
    with \<open>?i \<notin> entry_ends m f L\<close> show False ..
  qed
  show ?thesis using r(1) entry uses by (intro exI [of _ r]) (auto simp: contains_def)
qed

theorem loop_cut_off_witness:
  "\<exists>r. preLoopSplit ''f'' small_loop 2 1 small_live {} small_module = Ok r \<and> VInst 11 \<notin> set (operands (mcode (pmodule r) 20))"
proof -
  from loop_cut_off [OF small_ready, of 1 "{}"] obtain r where r: "preLoopSplit ''f'' small_loop 2 1 small_live {} small_module = Ok r"
    "\<forall>b \<in> set (mblocks (pmodule r) ''f'') - set (lblocks small_loop). \<forall>i \<in> set (mbody (pmodule r) b).
      set (operands (mcode (pmodule r) i)) \<inter> set (liveout small_live) = {}" by blast
  from preLoopSplit_result [OF small_ready, of 1 "{}"] r(1) obtain p where
    "mblocks (pmodule r) = (mblocks small_module)(''f'' := ins_before (next_ptr small_module) (Some 2) (mblocks small_module ''f''))"
    "mbody (pmodule r) = (mbody small_module)(next_ptr small_module :=
      [p..<p + length (sp_code (pre_split_spec small_module ''f'' small_loop 2 1 small_live p))] @ [Suc (next_ptr small_module)])"
    by (metis outcome.inject(1))
  then have "2 \<in> set (mblocks (pmodule r) ''f'') - set (lblocks small_loop)" "20 \<in> set (mbody (pmodule r) 2)"
    by (simp_all add: small_module_def small_func_def small_loop_def)
  then have "set (operands (mcode (pmodule r) 20)) \<inter> set (liveout small_live) = {}" using r(2) by blast
  then show ?thesis using r(1) by (auto simp: small_live_def)
qed

end
