(* ===== verification/Sync_Correct.thy ===== *)
theory Sync_Correct
  imports Sync_Insert
begin

text \<open>
  What \<open>insertSynchronization\<close> does: it goes through a fixed list of crossing dependences and gives each one the next
  channel. One step adds a sequence of instructions after the copy of the source and one before the place of the
  target, and replaces operands; the facts about one step are the ones the properties of the whole loop rest on.
\<close>

section \<open>The list of crossing dependences\<close>

record sync_point =
  p_edge :: Edge
  p_u :: Inst
  p_v :: Inst
  p_from :: nat
  p_to :: nat

definition point_of :: "(nat \<Rightarrow> Value \<Rightarrow> Value option) \<Rightarrow> Edge \<Rightarrow> nat \<Rightarrow> nat \<Rightarrow> sync_point list" where
  "point_of tab e utr vtr =
     (case (tab utr (VInst (eu e)), tab vtr (VInst (ev e))) of
        (Some (VInst nu), Some (VInst nv)) \<Rightarrow> [\<lparr>p_edge = e, p_u = nu, p_v = nv, p_from = utr, p_to = vtr\<rparr>]
      | _ \<Rightarrow> [])"

definition points_of :: "plan \<Rightarrow> (nat \<Rightarrow> Value \<Rightarrow> Value option) \<Rightarrow> Edge \<Rightarrow> sync_point list" where
  "points_of P tab e =
     concat (map (point_of tab e (thread_num P (eu e))) [Suc (thread_num P (eu e))..<MAX_THREAD])"

definition sync_points :: "plan \<Rightarrow> (nat \<Rightarrow> Value \<Rightarrow> Value option) \<Rightarrow> sync_point list" where
  "sync_points P tab = concat (map (points_of P tab) (allEdges (pgraph P)))"

definition insert_point ::
  "(module_ir \<Rightarrow> Inst \<Rightarrow> string \<Rightarrow> Value list) \<Rightarrow> bool \<Rightarrow> clones \<times> int \<Rightarrow> sync_point \<Rightarrow> (clones \<times> int) outcome" where
  "insert_point users end_node acc pt =
     obind (insertProduce end_node (p_u pt) (dtype (p_edge pt)) (snd acc) (cmod (fst acc))) (\<lambda>m.
     obind (insertConsume users (p_u pt) (p_v pt) (dtype (p_edge pt)) (snd acc) (p_to pt) ((fst acc)\<lparr>cmod := m\<rparr>)) (\<lambda>st.
     Ok (st, snd acc + 1)))"

text \<open>The edges have sources with a thread.\<close>

definition sources_assigned :: "plan \<Rightarrow> bool" where
  "sources_assigned P \<longleftrightarrow> (\<forall>e \<in> set (allEdges (pgraph P)). \<exists>a \<ge> 0.
     getInstAssigned (thread_of (threads_of P)) (sccId (sccs P)) (VInst (eu e)) = Ok a)"

text \<open>The tables do not change.\<close>

definition same_tables :: "clones \<Rightarrow> clones \<Rightarrow> bool" where
  "same_tables st st' \<longleftrightarrow> instMap st' = instMap st \<and> placeEquivalents st' = placeEquivalents st \<and> newToOld st' = newToOld st \<and>
     newInstAssigned st' = newInstAssigned st"

lemma same_tables_refl [simp]: "same_tables st st" "same_tables st (st\<lparr>cmod := m\<rparr>)"
  by (simp_all add: same_tables_def)

lemma same_tables_trans: "same_tables st1 st2 \<Longrightarrow> same_tables st2 st3 \<Longrightarrow> same_tables st1 st3"
  by (simp add: same_tables_def)

lemma insertConsume_tables: "insertConsume users u v d ch t st = Ok st' \<Longrightarrow> same_tables st st'"
  by (auto simp: insertConsume_def Let_def split_beta obind_eq_Ok same_tables_def split: option.splits Value.splits if_splits)

lemma insert_point_tables: "insert_point users en acc pt = Ok acc' \<Longrightarrow> same_tables (fst acc) (fst acc') \<and> snd acc' = snd acc + 1"
  by (auto simp: insert_point_def obind_eq_Ok same_tables_def dest!: insertConsume_tables)

lemma sync_pair_points:
  "sync_pair users en e utr acc vtr = ofold (insert_point users en) (point_of (instMap (fst acc)) e utr vtr) acc"
proof (cases "\<exists>nu nv. instMap (fst acc) utr (VInst (eu e)) = Some (VInst nu) \<and> instMap (fst acc) vtr (VInst (ev e)) = Some (VInst nv)")
  case True
  then obtain nu nv where t: "instMap (fst acc) utr (VInst (eu e)) = Some (VInst nu)" "instMap (fst acc) vtr (VInst (ev e)) = Some (VInst nv)"
    by blast
  have right: "obind r (ofold f []) = r" for r :: "(clones \<times> int) outcome" and f :: "_ \<Rightarrow> sync_point \<Rightarrow> _" by (cases r) simp_all
  show ?thesis by (simp add: sync_pair_def point_of_def t insert_point_def right del: ofold.simps(1))
next
  case False
  then show ?thesis by (auto simp: sync_pair_def point_of_def split: option.splits Value.splits)
qed

text \<open>A loop whose elements each stand for a list, computed from the part of the state that stays.\<close>

lemma ofold_expand:
  assumes "\<And>acc x. x \<in> set xs \<Longrightarrow> tab acc = T \<Longrightarrow> f acc x = ofold g (h x) acc"
    and "\<And>acc acc' y. g acc y = Ok acc' \<Longrightarrow> tab acc' = tab acc" and "tab acc = T"
  shows "ofold f xs acc = ofold g (concat (map h xs)) acc"
  using assms(1,3)
proof (induction xs arbitrary: acc)
  case (Cons x xs)
  have keep: "ofold g ys a = Ok a' \<Longrightarrow> tab a' = tab a" for ys a a'
    by (induction ys arbitrary: a) (auto simp: obind_eq_Ok dest: assms(2))
  have fx: "f acc x = ofold g (h x) acc" using Cons.prems by simp
  show ?case
  proof (cases "ofold g (h x) acc")
    case (Ok a)
    then have "tab a = T" using keep Cons.prems(2) by simp
    then show ?thesis using Ok fx Cons.IH [of a] Cons.prems(1) by (simp add: ofold_append)
  qed (simp_all add: fx ofold_append)
qed simp

lemma sync_edge_points:
  assumes "getInstAssigned (thread_of (threads_of P)) (sccId (sccs P)) (VInst (eu e)) = Ok a" "0 \<le> a"
  shows "sync_edge P users en acc e = ofold (insert_point users en) (points_of P (instMap (fst acc)) e) acc"
proof -
  have n: "thread_num P (eu e) = nat a" using getInstAssigned_thread [OF assms(1)] .
  have "ofold (sync_pair users en e (nat a)) [Suc (nat a)..<MAX_THREAD] acc =
      ofold (insert_point users en) (concat (map (point_of (instMap (fst acc)) e (nat a)) [Suc (nat a)..<MAX_THREAD])) acc"
    by (rule ofold_expand [where tab = "\<lambda>acc. instMap (fst acc)"])
      (auto simp: sync_pair_points dest!: insert_point_tables simp: same_tables_def)
  then show ?thesis using assms by (simp add: sync_edge_def points_of_def n)
qed

lemma sync_as_points:
  assumes "sources_assigned P"
  shows "insertSynchronization P users en st = ofold (insert_point users en) (sync_points P (instMap st)) (st, 0)"
  unfolding insertSynchronization_def sync_points_def
proof (rule ofold_expand [where tab = "\<lambda>acc. instMap (fst acc)" and T = "instMap st"])
  fix acc :: "clones \<times> int" and e
  assume e: "e \<in> set (allEdges (pgraph P))" and t: "instMap (fst acc) = instMap st"
  obtain a where "getInstAssigned (thread_of (threads_of P)) (sccId (sccs P)) (VInst (eu e)) = Ok a" "0 \<le> a"
    using assms e unfolding sources_assigned_def by blast
  from sync_edge_points [OF this, of users en acc] t
  show "sync_edge P users en acc e = ofold (insert_point users en) (points_of P (instMap st) e) acc" by simp
qed (auto dest!: insert_point_tables simp: same_tables_def)

section \<open>One step\<close>

definition in_fun :: "module_ir \<Rightarrow> string \<Rightarrow> Inst \<Rightarrow> bool" where
  "in_fun m g i \<longleftrightarrow> (\<exists>b \<in> set (mblocks m g). i \<in> set (mbody m b))"

text \<open>A call of a communication function on a channel.\<close>

definition comm_instr :: "string \<Rightarrow> int \<Rightarrow> instr \<Rightarrow> bool" where
  "comm_instr g k ins \<longleftrightarrow> opcode ins = Call \<and> (\<exists>pre. operands ins = pre @ [VInt 32 k, VFun g])"

definition comms :: "string \<Rightarrow> module_ir \<Rightarrow> int \<Rightarrow> Inst set" where
  "comms g m k = {i. (\<exists>f. in_fun m f i) \<and> comm_instr g k (mcode m i)}"

lemma comm_instr_call [simp]:
  "comm_instr g k (mk_call t g' (as @ [VInt 32 k'])) \<longleftrightarrow> g = g' \<and> k = k'"
  by (auto simp: comm_instr_def mk_call_def mk_instr_def)

lemma comm_instr_calls:
  "comm_instr g k (mk_call t g' [a, VInt 32 k']) \<longleftrightarrow> g = g' \<and> k = k'"
  "comm_instr g k (mk_call t g' [VInt 32 k']) \<longleftrightarrow> g = g' \<and> k = k'"
  using comm_instr_call [of g k t g' "[a]" k'] comm_instr_call [of g k t g' "[]" k'] by simp_all

lemma comm_instr_not_call: "opcode ins \<noteq> Call \<Longrightarrow> \<not> comm_instr g k ins"
  by (simp add: comm_instr_def)

lemma comm_instr_replace: "comm_instr g k (replaceUses (reps_of i c) ins) \<longleftrightarrow> comm_instr g k ins"
proof -
  define f where "f = (\<lambda>op. case reps_of i c op of Some w \<Rightarrow> w | None \<Rightarrow> op)"
  have f: "f x = VInt 32 k \<longleftrightarrow> x = VInt 32 k" "f x = VFun g \<longleftrightarrow> x = VFun g" for x by (auto simp: f_def reps_of_def)
  have "(\<exists>pre. map f ops = pre @ [VInt 32 k, VFun g]) \<longleftrightarrow> (\<exists>pre. ops = pre @ [VInt 32 k, VFun g])" for ops
  proof
    assume "\<exists>pre. map f ops = pre @ [VInt 32 k, VFun g]"
    then obtain pre us where "ops = pre @ us" "map f us = [VInt 32 k, VFun g]" by (metis map_eq_append_conv)
    then have "us = [VInt 32 k, VFun g]" using f by (auto simp: map_eq_Cons_conv)
    with \<open>ops = pre @ us\<close> show "\<exists>pre. ops = pre @ [VInt 32 k, VFun g]" by blast
  next
    assume "\<exists>pre. ops = pre @ [VInt 32 k, VFun g]"
    then show "\<exists>pre. map f ops = pre @ [VInt 32 k, VFun g]" using f by fastforce
  qed
  then show ?thesis by (simp add: comm_instr_def replaceUses_def f_def)
qed

lemma in_fun_emit_seq:
  "in_fun m g i \<Longrightarrow> in_fun (emit_seq b p inss m) g i"
  "b \<in> set (mblocks m g) \<Longrightarrow> j < length inss \<Longrightarrow> in_fun (emit_seq b p inss m) g (next_ptr m + j)"
  by (auto simp: in_fun_def emit_seq_set)

lemma in_fun_block: "store_inv m \<Longrightarrow> in_fun m g i \<Longrightarrow> mparent m i \<in> set (mblocks m g) \<and> i \<in> set (mbody m (mparent m i)) \<and> i < next_ptr m"
  using store_inst by (fastforce simp: in_fun_def)

lemma in_fun_emit_seq_iff:
  assumes "b \<in> set (mblocks m f)" "store_inv m"
  shows "in_fun (emit_seq b p inss m) g i \<longleftrightarrow> in_fun m g i \<or> g = f \<and> (\<exists>j < length inss. i = next_ptr m + j)"
proof -
  have "b \<in> set (mblocks m g) \<longleftrightarrow> g = f" using assms store_block by blast
  then show ?thesis by (auto simp: in_fun_def emit_seq_set split: if_splits) (metis le_Suc_ex nat_add_left_cancel_less)
qed

lemma comms_emit_seq:
  assumes "store_inv m" "b \<in> set (mblocks m f)"
  shows "comms g (emit_seq b p inss m) k = comms g m k \<union> {next_ptr m + j | j. j < length inss \<and> comm_instr g k (inss ! j)}"
proof -
  have old: "i < next_ptr m" if "in_fun m h i" for i h using in_fun_block [OF assms(1) that] by simp
  show ?thesis
    unfolding comms_def in_fun_emit_seq_iff [OF assms(2,1)] emit_seq_code by (auto dest: old)
qed

lemma comms_updates:
  "comms g (fold (\<lambda>i. update_instr i (replaceUses (reps_of x c))) us m) k = comms g m k"
proof (induction us arbitrary: m)
  case (Cons i us)
  have "comms g (update_instr i (replaceUses (reps_of x c)) m) k = comms g m k"
    by (auto simp: comms_def in_fun_def comm_instr_replace)
  then show ?case using Cons by simp
qed simp

lemma insertProduce_Ok:
  assumes "insertProduce en u d ch m = Ok m'"
  shows "\<exists>pos pre t arg. next_position en m u = Ok pos \<and> (\<forall>ins \<in> set pre. opcode ins \<noteq> Call) \<and>
    (d = REG \<longrightarrow> (\<exists>ins. send_cast (value_ty m (VInst u)) u = Ok ins \<and> pre = [ins] \<and> arg = VInst (next_ptr m))) \<and>
    (d \<noteq> REG \<longrightarrow> pre = [] \<and> arg = VInt 64 0) \<and> mdecl m ''sync_produce'' = Some t \<and>
    m' = emit_seq (mparent m u) pos (pre @ [mk_call (Some t) ''sync_produce'' [arg, VInt 32 ch]]) m"
proof -
  obtain pos where pos: "next_position en m u = Ok pos" using assms by (auto simp: insertProduce_def obind_eq_Ok)
  show ?thesis
  proof (cases "d = REG")
    case True
    then obtain ins where ins: "send_cast (value_ty m (VInst u)) u = Ok ins"
      using assms pos by (auto simp: insertProduce_def obind_eq_Ok simp del: value_ty.simps)
    then have "opcode ins \<noteq> Call" by (auto simp: send_cast_def split: if_splits)
    moreover obtain t where "mdecl m ''sync_produce'' = Some t"
      "m' = emit_seq (mparent m u) pos [ins, mk_call (Some t) ''sync_produce'' [VInst (next_ptr m), VInt 32 ch]] m"
      using assms pos ins True
      by (auto simp: insertProduce_def obind_eq_Ok split_beta Let_def getFunction_def simp del: value_ty.simps split: option.splits)
    ultimately show ?thesis using True pos ins by (intro exI [of _ pos] exI [of _ "[ins]"]) auto
  next
    case False
    then obtain t where "mdecl m ''sync_produce'' = Some t"
      "m' = emit_seq (mparent m u) pos [mk_call (Some t) ''sync_produce'' [VInt 64 0, VInt 32 ch]] m"
      using assms pos by (auto simp: insertProduce_def obind_eq_Ok getFunction_def split: option.splits)
    then show ?thesis using False pos by (intro exI [of _ pos] exI [of _ "[]"]) auto
  qed
qed

text \<open>The users whose operands are replaced.\<close>

definition local_users :: "string \<Rightarrow> module_ir \<Rightarrow> Value list \<Rightarrow> Inst list" where
  "local_users g m us = concat (map (\<lambda>v. case v of VInst i \<Rightarrow> if mfunc m (mparent m i) = g then [i] else [] | _ \<Rightarrow> []) us)"

lemma replace_users_Ok:
  "ofold (replace_user x c g) us m = Ok m' \<Longrightarrow>
    (\<forall>v \<in> set us. \<exists>i. v = VInst i) \<and> m' = fold (\<lambda>i. update_instr i (replaceUses (reps_of x c))) (local_users g m us) m"
proof (induction us arbitrary: m)
  case (Cons v us)
  then obtain m1 where m1: "replace_user x c g m v = Ok m1" "ofold (replace_user x c g) us m1 = Ok m'" by (auto simp: obind_eq_Ok)
  then obtain i where v: "v = VInst i" by (auto simp: replace_user_def split: Value.splits)
  have fr: "mfunc m1 = mfunc m" "mparent m1 = mparent m" using m1(1) by (auto simp: v replace_user_def split: if_splits)
  have same: "local_users g m1 us = local_users g m us" unfolding local_users_def fr ..
  have "local_users g m (v # us) = (if mfunc m (mparent m i) = g then [i] else []) @ local_users g m us"
    by (simp add: local_users_def v)
  moreover have "m1 = (if mfunc m (mparent m i) = g then update_instr i (replaceUses (reps_of x c)) m else m)"
    using m1(1) by (simp add: v replace_user_def split: if_splits)
  moreover note ih = Cons.IH [OF m1(2), unfolded same]
  ultimately show ?case using v by (cases "mfunc m (mparent m i) = g") simp_all
qed (simp add: local_users_def)

lemma insertConsume_Ok:
  assumes "insertConsume users u v d ch t st = Ok st'"
  shows "\<exists>oldu p post ft us. newToOld st (VInst u) = Some (VInst oldu) \<and> consume_place st t oldu = Ok p \<and>
    (\<forall>ins \<in> set post. opcode ins \<noteq> Call) \<and> mdecl (cmod st) ''sync_consume'' = Some ft \<and>
    (let m1 = emit_list p (mk_call (Some ft) ''sync_consume'' [VInt 32 ch] # post) (cmod st) in
      (d = REG \<longrightarrow> (\<exists>ins. recv_cast (value_ty (snd (emit_before p (mk_call (Some ft) ''sync_consume'' [VInt 32 ch]) (cmod st))) (VInst u))
          (next_ptr (cmod st)) = Ok ins \<and> post = [ins] \<and> us = local_users (mfunc m1 (mparent m1 v)) m1 (users m1 oldu (mfunc m1 (mparent m1 v))))) \<and>
      (d \<noteq> REG \<longrightarrow> post = [] \<and> us = []) \<and>
      st' = st\<lparr>cmod := fold (\<lambda>i. update_instr i (replaceUses (reps_of oldu (Suc (next_ptr (cmod st)))))) us m1\<rparr>)"
proof -
  obtain oldu where old: "newToOld st (VInst u) = Some (VInst oldu)"
    using assms by (auto simp: insertConsume_def split: option.splits Value.splits)
  then obtain p where p: "consume_place st t oldu = Ok p" using assms by (auto simp: insertConsume_def obind_eq_Ok)
  obtain ft where ft: "mdecl (cmod st) ''sync_consume'' = Some ft"
    using assms old p by (auto simp: insertConsume_def obind_eq_Ok getFunction_def split: option.splits)
  let ?call = "mk_call (Some ft) ''sync_consume'' [VInt 32 ch]"
  let ?m0 = "snd (emit_before p ?call (cmod st))"
  show ?thesis
  proof (cases "d = REG")
    case True
    then obtain ins where ins: "recv_cast (value_ty ?m0 (VInst u)) (next_ptr (cmod st)) = Ok ins"
      using assms old p ft by (auto simp: insertConsume_def obind_eq_Ok getFunction_def split_beta Let_def simp del: value_ty.simps)
    define m1 where "m1 = snd (emit_before p ins ?m0)"
    have m1: "emit_list p [?call, ins] (cmod st) = m1" by (simp add: m1_def)
    have "insertConsume users u v d ch t st =
        obind (ofold (replace_user oldu (Suc (next_ptr (cmod st))) (mfunc m1 (mparent m1 v))) (users m1 oldu (mfunc m1 (mparent m1 v))) m1) (\<lambda>m3. Ok (st\<lparr>cmod := m3\<rparr>))"
      using old p ft ins True
      by (simp add: insertConsume_def getFunction_def split_beta Let_def m1_def del: value_ty.simps emit_before_simps(2-6,8-))
    then have "obind (ofold (replace_user oldu (Suc (next_ptr (cmod st))) (mfunc m1 (mparent m1 v))) (users m1 oldu (mfunc m1 (mparent m1 v))) m1) (\<lambda>m3. Ok (st\<lparr>cmod := m3\<rparr>)) = Ok st'"
      using assms by simp
    then obtain m3 where m3: "ofold (replace_user oldu (Suc (next_ptr (cmod st))) (mfunc m1 (mparent m1 v))) (users m1 oldu (mfunc m1 (mparent m1 v))) m1 = Ok m3"
      "st' = st\<lparr>cmod := m3\<rparr>" by (auto simp: obind_eq_Ok)
    have "opcode ins \<noteq> Call" using ins by (auto simp: recv_cast_def split: if_splits)
    with replace_users_Ok [OF m3(1)] m3(2) show ?thesis
      using old p ft ins True unfolding Let_def
      by (intro exI [of _ oldu] exI [of _ p] exI [of _ "[ins]"] exI [of _ ft] exI [of _ "local_users (mfunc m1 (mparent m1 v)) m1 (users m1 oldu (mfunc m1 (mparent m1 v)))"])
        (simp add: m1 del: emit_list_simps value_ty.simps emit_before_simps)
  next
    case False
    then have "st' = st\<lparr>cmod := ?m0\<rparr>"
      using assms old p ft by (auto simp: insertConsume_def obind_eq_Ok getFunction_def split_beta Let_def)
    then show ?thesis using old p ft False unfolding Let_def
      by (intro exI [of _ oldu] exI [of _ p] exI [of _ "[]"] exI [of _ ft] exI [of _ "[]"]) simp
  qed
qed

end
