(* ===== verification/Sync_Pairing.thy ===== *)
theory Sync_Pairing
  imports Sync_Correct
begin

text \<open>
  The channels after \<open>insertSynchronization\<close>: every channel has one producer and one consumer, in the functions of
  the two threads of its dependence. The casts that carry the values through a channel.
\<close>

section \<open>The invariant of the loop\<close>

text \<open>The tables lead into the functions of the threads.\<close>

definition clones_ok :: "string list \<Rightarrow> clones \<Rightarrow> bool" where
  "clones_ok fs st \<longleftrightarrow> store_inv (cmod st) \<and> (\<forall>t < MAX_THREAD.
     (\<forall>v n. instMap st t v = Some (VInst n) \<longrightarrow> in_fun (cmod st) (fs ! t) n) \<and>
     (\<forall>i n. placeEquivalents st t i = Some n \<longrightarrow> in_fun (cmod st) (fs ! t) n))"

lemma updates_only: "only_code m (fold (\<lambda>i. update_instr i f) us m)"
  by (rule only_code_fold) (rule only_code_update)

lemma in_fun_only_code: "only_code m m' \<Longrightarrow> in_fun m' g i = in_fun m g i"
  by (simp add: in_fun_def only_code_fields)

lemma consume_place_in:
  assumes "clones_ok fs st" "t < MAX_THREAD" "consume_place st t i = Ok p"
  shows "in_fun (cmod st) (fs ! t) p"
  using assms by (fastforce simp: consume_place_def clones_ok_def split: option.splits Value.splits)

lemma single_comm:
  "\<forall>ins \<in> set pre. opcode ins \<noteq> Call \<Longrightarrow>
    {n + j | j. j < length (pre @ [mk_call t g' [a, VInt 32 k']]) \<and> comm_instr g k ((pre @ [mk_call t g' [a, VInt 32 k']]) ! j)} =
      (if g = g' \<and> k = k' then {n + length pre} else {})"
  "\<forall>ins \<in> set post. opcode ins \<noteq> Call \<Longrightarrow>
    {n + j | j. j < length (mk_call t g' [VInt 32 k'] # post) \<and> comm_instr g k ((mk_call t g' [VInt 32 k'] # post) ! j)} =
      (if g = g' \<and> k = k' then {n} else {})"
proof -
  assume pre: "\<forall>ins \<in> set pre. opcode ins \<noteq> Call"
  have "j < length (pre @ [mk_call t g' [a, VInt 32 k']]) \<and> comm_instr g k ((pre @ [mk_call t g' [a, VInt 32 k']]) ! j) \<longleftrightarrow>
      j = length pre \<and> g = g' \<and> k = k'" for j
    using pre comm_instr_not_call nth_mem by (auto simp: nth_append comm_instr_calls less_Suc_eq)
  then show "{n + j | j. j < length (pre @ [mk_call t g' [a, VInt 32 k']]) \<and> comm_instr g k ((pre @ [mk_call t g' [a, VInt 32 k']]) ! j)} =
      (if g = g' \<and> k = k' then {n + length pre} else {})" by auto
next
  assume post: "\<forall>ins \<in> set post. opcode ins \<noteq> Call"
  have "j < length (mk_call t g' [VInt 32 k'] # post) \<and> comm_instr g k ((mk_call t g' [VInt 32 k'] # post) ! j) \<longleftrightarrow>
      j = 0 \<and> g = g' \<and> k = k'" for j
    using post comm_instr_not_call nth_mem by (cases j) (auto simp: comm_instr_calls)
  then show "{n + j | j. j < length (mk_call t g' [VInt 32 k'] # post) \<and> comm_instr g k ((mk_call t g' [VInt 32 k'] # post) ! j)} =
      (if g = g' \<and> k = k' then {n} else {})" by auto
qed

text \<open>
  One step in three parts: new instructions in a block of the producer, new instructions in a block of the consumer, and
  the replacement of operands.
\<close>

definition put_call :: "module_ir \<Rightarrow> Inst \<Rightarrow> Inst option \<Rightarrow> instr list \<Rightarrow> module_ir" where
  "put_call m i pos inss = emit_seq (mparent m i) pos inss m"

lemma put_call_facts:
  assumes "store_inv m" "in_fun m f i"
  shows "store_inv (put_call m i pos inss)" "grown m (put_call m i pos inss)"
    "in_fun (put_call m i pos inss) g k \<longleftrightarrow> in_fun m g k \<or> g = f \<and> (\<exists>j < length inss. k = next_ptr m + j)"
    "comms g (put_call m i pos inss) c = comms g m c \<union> {next_ptr m + j | j. j < length inss \<and> comm_instr g c (inss ! j)}"
    "next_ptr (put_call m i pos inss) = next_ptr m + length inss"
    "k < next_ptr m \<Longrightarrow> mcode (put_call m i pos inss) k = mcode m k"
    "j < length inss \<Longrightarrow> mcode (put_call m i pos inss) (next_ptr m + j) = inss ! j"
    "mparent (put_call m i pos inss) k = (if next_ptr m \<le> k \<and> k < next_ptr m + length inss then mparent m i else mparent m k)"
proof -
  note b = in_fun_block [OF assms]
  have n: "mparent m i < next_ptr m" using b store_block [OF assms(1)] by blast
  show "store_inv (put_call m i pos inss)" unfolding put_call_def by (rule emit_seq_inv [OF assms(1) n])
  show "grown m (put_call m i pos inss)" unfolding put_call_def by (rule grown_emit_seq [OF assms(1) n])
  show "in_fun (put_call m i pos inss) g k \<longleftrightarrow> in_fun m g k \<or> g = f \<and> (\<exists>j < length inss. k = next_ptr m + j)"
    unfolding put_call_def by (rule in_fun_emit_seq_iff [OF conjunct1 [OF b] assms(1)])
  show "comms g (put_call m i pos inss) c = comms g m c \<union> {next_ptr m + j | j. j < length inss \<and> comm_instr g c (inss ! j)}"
    unfolding put_call_def by (rule comms_emit_seq [OF assms(1) conjunct1 [OF b]])
qed (simp_all add: put_call_def emit_seq_code emit_seq_parent)

text \<open>
  Where the two calls of a channel are: the producer in the block of the copy of the source, the consumer in the block of
  the place of the source in the other thread.
\<close>

definition channel_ends :: "string list \<Rightarrow> clones \<Rightarrow> sync_point \<Rightarrow> module_ir \<Rightarrow> Inst \<Rightarrow> Inst \<Rightarrow> bool" where
  "channel_ends fs st pt M p c \<longleftrightarrow> in_fun M (fs ! p_from pt) p \<and> in_fun M (fs ! p_to pt) c \<and>
     mparent M p = mparent (cmod st) (p_u pt) \<and>
     (\<exists>oldu q. newToOld st (VInst (p_u pt)) = Some (VInst oldu) \<and> consume_place st (p_to pt) oldu = Ok q \<and>
       mparent M c = mparent (cmod st) q)"

lemma channel_ends_grown:
  assumes "channel_ends fs st pt M p c" "store_inv M" "grown M M'" "\<And>g i. in_fun M g i \<Longrightarrow> in_fun M' g i"
  shows "channel_ends fs st pt M' p c"
proof -
  have "mparent M' i = mparent M i" if "in_fun M g i" for g i
    using in_fun_block [OF assms(2) that] assms(3) by (simp add: grown_def)
  then show ?thesis using assms(1,4) unfolding channel_ends_def by metis
qed

lemma consume_place_same:
  assumes "same_tables st st'"
  shows "consume_place st' = consume_place st"
proof -
  have tabs: "instMap st' = instMap st" "placeEquivalents st' = placeEquivalents st" using assms by (simp_all add: same_tables_def)
  show ?thesis unfolding consume_place_def tabs ..
qed

lemma channel_ends_start:
  assumes "channel_ends fs st' pt M p c" "same_tables st st'" "grown (cmod st) (cmod st')" "clones_ok fs st"
    and t: "p_from pt < MAX_THREAD" "p_to pt < MAX_THREAD" "instMap st (p_from pt) v = Some (VInst (p_u pt))"
  shows "channel_ends fs st pt M p c"
proof -
  have old: "mparent (cmod st') i = mparent (cmod st) i" if "in_fun (cmod st) g i" for g i
    using in_fun_block [OF _ that] assms(3,4) by (simp add: grown_def clones_ok_def)
  have "in_fun (cmod st) (fs ! p_from pt) (p_u pt)" using assms(4) t(1,3) by (auto simp: clones_ok_def)
  moreover have "consume_place st (p_to pt) o' = Ok q \<Longrightarrow> in_fun (cmod st) (fs ! p_to pt) q" for o' q
    by (rule consume_place_in [OF assms(4) t(2)])
  ultimately show ?thesis
    using assms(1,2) old unfolding channel_ends_def consume_place_same [OF assms(2)] by (simp add: same_tables_def) metis
qed

lemma insert_point_shape:
  assumes ok: "clones_ok fs (fst acc)" and t: "p_from pt < MAX_THREAD" "p_to pt < MAX_THREAD"
    and u: "instMap (fst acc) (p_from pt) v = Some (VInst (p_u pt))" and run: "insert_point users en acc pt = Ok acc'"
  obtains pos pre t1 arg m1 oldu q t2 post m2 us where
    "in_fun (cmod (fst acc)) (fs ! p_from pt) (p_u pt)" "\<forall>ins \<in> set pre. opcode ins \<noteq> Call"
    "dtype (p_edge pt) = REG \<longrightarrow> (\<exists>ins. send_cast (value_ty (cmod (fst acc)) (VInst (p_u pt))) (p_u pt) = Ok ins \<and> pre = [ins] \<and>
       arg = VInst (next_ptr (cmod (fst acc))))"
    "dtype (p_edge pt) \<noteq> REG \<longrightarrow> pre = [] \<and> arg = VInt 64 0"
    "m1 = put_call (cmod (fst acc)) (p_u pt) pos (pre @ [mk_call (Some t1) ''sync_produce'' [arg, VInt 32 (snd acc)]])"
    "store_inv m1" "clones_ok fs ((fst acc)\<lparr>cmod := m1\<rparr>)" "newToOld (fst acc) (VInst (p_u pt)) = Some (VInst oldu)"
    "in_fun m1 (fs ! p_to pt) q" "\<forall>ins \<in> set post. opcode ins \<noteq> Call"
    "m2 = put_call m1 q (Some q) (mk_call (Some t2) ''sync_consume'' [VInt 32 (snd acc)] # post)"
    "dtype (p_edge pt) = REG \<longrightarrow> (\<exists>ins. recv_cast (value_ty (cmod (fst acc)) (VInst (p_u pt))) (next_ptr m1) = Ok ins \<and> post = [ins]) \<and>
       us = local_users (mfunc m2 (mparent m2 (p_v pt))) m2 (users m2 oldu (mfunc m2 (mparent m2 (p_v pt))))"
    "dtype (p_edge pt) \<noteq> REG \<longrightarrow> post = [] \<and> us = []"
    "acc' = ((fst acc)\<lparr>cmod := fold (\<lambda>i. update_instr i (replaceUses (reps_of oldu (Suc (next_ptr m1))))) us m2\<rparr>, snd acc + 1)"
    "consume_place (fst acc) (p_to pt) oldu = Ok q"
proof -
  let ?st = "fst acc" and ?ch = "snd acc" and ?m = "cmod (fst acc)"
  have inv: "store_inv ?m" using ok by (simp add: clones_ok_def)
  from run obtain m1 st' where m1: "insertProduce en (p_u pt) (dtype (p_edge pt)) ?ch ?m = Ok m1"
    and st': "insertConsume users (p_u pt) (p_v pt) (dtype (p_edge pt)) ?ch (p_to pt) (?st\<lparr>cmod := m1\<rparr>) = Ok st'"
    and acc': "acc' = (st', ?ch + 1)"
    by (auto simp: insert_point_def obind_eq_Ok)
  from insertProduce_Ok [OF m1] obtain pos pre t1 arg where
    pre: "\<forall>ins \<in> set pre. opcode ins \<noteq> Call"
      "dtype (p_edge pt) = REG \<longrightarrow> (\<exists>ins. send_cast (value_ty ?m (VInst (p_u pt))) (p_u pt) = Ok ins \<and> pre = [ins] \<and> arg = VInst (next_ptr ?m))"
      "dtype (p_edge pt) \<noteq> REG \<longrightarrow> pre = [] \<and> arg = VInt 64 0"
    and m1e: "m1 = put_call ?m (p_u pt) pos (pre @ [mk_call (Some t1) ''sync_produce'' [arg, VInt 32 ?ch]])"
    unfolding put_call_def by blast
  have uf: "in_fun ?m (fs ! p_from pt) (p_u pt)" using ok t(1) u by (auto simp: clones_ok_def)
  note p1 = put_call_facts [OF inv uf, where pos = pos and inss = "pre @ [mk_call (Some t1) ''sync_produce'' [arg, VInt 32 ?ch]]", folded m1e]
  have ok1: "clones_ok fs (?st\<lparr>cmod := m1\<rparr>)" using ok p1(1,3) by (simp add: clones_ok_def)
  let ?st1 = "?st\<lparr>cmod := m1\<rparr>"
  obtain oldu q post t2 us where c: "newToOld ?st1 (VInst (p_u pt)) = Some (VInst oldu)" "consume_place ?st1 (p_to pt) oldu = Ok q"
    "\<forall>ins \<in> set post. opcode ins \<noteq> Call"
    "let m2 = emit_list q (mk_call (Some t2) ''sync_consume'' [VInt 32 ?ch] # post) (cmod ?st1) in
      (dtype (p_edge pt) = REG \<longrightarrow> (\<exists>ins. recv_cast (value_ty (snd (emit_before q (mk_call (Some t2) ''sync_consume'' [VInt 32 ?ch]) (cmod ?st1))) (VInst (p_u pt)))
          (next_ptr (cmod ?st1)) = Ok ins \<and> post = [ins] \<and>
          us = local_users (mfunc m2 (mparent m2 (p_v pt))) m2 (users m2 oldu (mfunc m2 (mparent m2 (p_v pt)))))) \<and>
      (dtype (p_edge pt) \<noteq> REG \<longrightarrow> post = [] \<and> us = []) \<and>
      st' = ?st1\<lparr>cmod := fold (\<lambda>i. update_instr i (replaceUses (reps_of oldu (Suc (next_ptr (cmod ?st1)))))) us m2\<rparr>"
    using insertConsume_Ok [OF st'] unfolding Let_def by blast
  have qf: "in_fun m1 (fs ! p_to pt) q" using consume_place_in [OF ok1 t(2) c(2)] by simp
  have "q < next_ptr m1" using in_fun_block [OF p1(1) qf] by blast
  then have m2: "emit_list q (mk_call (Some t2) ''sync_consume'' [VInt 32 ?ch] # post) m1 =
      put_call m1 q (Some q) (mk_call (Some t2) ''sync_consume'' [VInt 32 ?ch] # post)"
    unfolding put_call_def by (rule emit_list_seq)
  have "p_u pt < next_ptr ?m" "next_ptr ?m \<le> next_ptr m1" using in_fun_block [OF inv uf] p1(5) by simp_all
  then have ty: "value_ty (snd (emit_before q ins m1)) (VInst (p_u pt)) = value_ty ?m (VInst (p_u pt))" for ins using p1(6) by simp
  show thesis
    by (rule that [OF uf pre m1e p1(1) ok1 _ qf c(3) refl])
      (use c(1,2,4) acc' consume_place_same [of "fst acc" ?st1] ty in \<open>auto simp: Let_def m2 simp del: emit_list_simps value_ty.simps\<close>)
qed

lemma insert_point_step:
  assumes ok: "clones_ok fs (fst acc)" and t: "p_from pt < MAX_THREAD" "p_to pt < MAX_THREAD"
    and u: "instMap (fst acc) (p_from pt) v = Some (VInst (p_u pt))" and run: "insert_point users en acc pt = Ok acc'"
  shows "clones_ok fs (fst acc') \<and> grown (cmod (fst acc)) (cmod (fst acc')) \<and>
    (\<forall>g i. in_fun (cmod (fst acc)) g i \<longrightarrow> in_fun (cmod (fst acc')) g i) \<and>
    (\<exists>p c. channel_ends fs (fst acc) pt (cmod (fst acc')) p c \<and>
      (\<forall>k. comms ''sync_produce'' (cmod (fst acc')) k = comms ''sync_produce'' (cmod (fst acc)) k \<union> (if k = snd acc then {p} else {}) \<and>
           comms ''sync_consume'' (cmod (fst acc')) k = comms ''sync_consume'' (cmod (fst acc)) k \<union> (if k = snd acc then {c} else {})))"
proof -
  let ?m = "cmod (fst acc)"
  have inv: "store_inv ?m" using ok by (simp add: clones_ok_def)
  obtain pos pre t1 arg m1 oldu q t2 post m2 us where
    s: "in_fun ?m (fs ! p_from pt) (p_u pt)" "\<forall>ins \<in> set pre. opcode ins \<noteq> Call"
      "m1 = put_call ?m (p_u pt) pos (pre @ [mk_call (Some t1) ''sync_produce'' [arg, VInt 32 (snd acc)]])"
      "in_fun m1 (fs ! p_to pt) q" "\<forall>ins \<in> set post. opcode ins \<noteq> Call"
      "m2 = put_call m1 q (Some q) (mk_call (Some t2) ''sync_consume'' [VInt 32 (snd acc)] # post)"
      "acc' = ((fst acc)\<lparr>cmod := fold (\<lambda>i. update_instr i (replaceUses (reps_of oldu (Suc (next_ptr m1))))) us m2\<rparr>, snd acc + 1)"
      "newToOld (fst acc) (VInst (p_u pt)) = Some (VInst oldu)" "consume_place (fst acc) (p_to pt) oldu = Ok q"
    by (rule insert_point_shape [OF assms])
  note p1 = put_call_facts [OF inv s(1), where pos = pos and inss = "pre @ [mk_call (Some t1) ''sync_produce'' [arg, VInt 32 (snd acc)]]", folded s(3)]
  note p2 = put_call_facts [OF p1(1) s(4), where pos = "Some q" and inss = "mk_call (Some t2) ''sync_consume'' [VInt 32 (snd acc)] # post", folded s(6)]
  have m3: "cmod (fst acc') = fold (\<lambda>i. update_instr i (replaceUses (reps_of oldu (Suc (next_ptr m1))))) us m2" by (simp add: s(7))
  have oc: "only_code m2 (cmod (fst acc'))" unfolding m3 by (rule updates_only)
  note in3 = in_fun_only_code [OF oc]
  have c3: "comms g (cmod (fst acc')) k = comms g m2 k" for g k unfolding m3 by (rule comms_updates)
  have "clones_ok fs (fst acc')"
    using ok only_code_inv [OF oc] p1(3) p2(1,3) in3 unfolding clones_ok_def by (simp add: s(7))
  moreover have "grown ?m (cmod (fst acc'))"
    unfolding m3 using grown_trans [OF p1(2) grown_trans [OF p2(2) grown_updates [OF p2(1)]]] .
  moreover have "in_fun ?m g i \<Longrightarrow> in_fun (cmod (fst acc')) g i" for g i using p1(3) p2(3) in3 by simp
  moreover have "channel_ends fs (fst acc) pt (cmod (fst acc')) (next_ptr ?m + length pre) (next_ptr m1)"
  proof -
    have "in_fun (cmod (fst acc')) (fs ! p_from pt) (next_ptr ?m + length pre)" using p1(3) p2(3) in3 by simp
    moreover have "in_fun (cmod (fst acc')) (fs ! p_to pt) (next_ptr m1)" using p2(3) in3 by fastforce
    moreover have "mparent (cmod (fst acc')) = mparent m2" using only_code_fields [OF oc] by simp
    moreover have "mparent m1 q = mparent ?m q"
      using in_fun_block [OF inv consume_place_in [OF ok t(2) s(9)]] p1(8) by simp
    ultimately show ?thesis using s(8,9) p1(5,8) p2(8) unfolding channel_ends_def by auto
  qed
  ultimately show ?thesis
    by (intro conjI exI [of _ "next_ptr ?m + length pre"] exI [of _ "next_ptr m1"])
      (simp_all only: c3 p2(4) p1(4) single_comm(1) [OF s(2)] single_comm(2) [OF s(5)], auto)
qed

section \<open>Success of a step\<close>

definition sendable :: "Ty \<Rightarrow> bool" where
  "sendable t \<longleftrightarrow> isIntegerTy t \<or> isPointerTy t \<or> t = DoubleTy \<or> t = OtherFPTy"

definition not_last :: "module_ir \<Rightarrow> Inst \<Rightarrow> bool" where
  "not_last m u \<longleftrightarrow> u \<in> set (mbody m (mparent m u)) \<and> u \<noteq> last (mbody m (mparent m u))"

text \<open>What the insertion at a point needs.\<close>

definition ready_point :: "bool \<Rightarrow> clones \<Rightarrow> sync_point \<Rightarrow> bool" where
  "ready_point en st pt \<longleftrightarrow> p_from pt < MAX_THREAD \<and> p_to pt < MAX_THREAD \<and>
     (\<exists>v. instMap st (p_from pt) v = Some (VInst (p_u pt))) \<and>
     (dtype (p_edge pt) = REG \<longrightarrow> sendable (value_ty (cmod st) (VInst (p_u pt)))) \<and>
     (en \<or> not_last (cmod st) (p_u pt)) \<and>
     (\<exists>oldu p. newToOld st (VInst (p_u pt)) = Some (VInst oldu) \<and> consume_place st (p_to pt) oldu = Ok p)"

definition inst_users :: "(module_ir \<Rightarrow> Inst \<Rightarrow> string \<Rightarrow> Value list) \<Rightarrow> bool" where
  "inst_users users \<longleftrightarrow> (\<forall>m i g. \<forall>v \<in> set (users m i g). \<exists>j. v = VInst j)"

lemma replace_users_run:
  "\<forall>v \<in> set us. \<exists>j. v = VInst j \<Longrightarrow> \<exists>m'. ofold (replace_user x c g) us m = Ok m'"
proof (induction us arbitrary: m)
  case (Cons v us)
  then obtain j where "v = VInst j" by auto
  then have "\<exists>m1. replace_user x c g m v = Ok m1" by (simp add: replace_user_def)
  then obtain m1 where "replace_user x c g m v = Ok m1" ..
  then show ?case using Cons by simp
qed simp

lemma send_cast_Ok: "sendable t \<Longrightarrow> \<exists>ins. send_cast t u = Ok ins"
  by (auto simp: sendable_def send_cast_def isFloatingPointTy_def)

lemma recv_cast_Ok: "sendable t \<Longrightarrow> \<exists>ins. recv_cast t c = Ok ins"
  by (auto simp: sendable_def recv_cast_def isFloatingPointTy_def)

lemma insertProduce_run:
  assumes "d = REG \<longrightarrow> sendable (value_ty m (VInst u))" "en \<or> not_last m u" "mdecl m ''sync_produce'' \<noteq> None"
  shows "\<exists>m'. insertProduce en u d ch m = Ok m'"
proof -
  have "\<exists>pos. next_position en m u = Ok pos"
    using assms(2) after_not_last by (fastforce simp: next_position_def not_last_def split: option.split)
  then obtain pos where pos: "next_position en m u = Ok pos" ..
  obtain t where t: "mdecl m ''sync_produce'' = Some t" using assms(3) by blast
  show ?thesis
  proof (cases "d = REG")
    case True
    then obtain ins where "send_cast (value_ty m (VInst u)) u = Ok ins" using assms(1) send_cast_Ok by blast
    then show ?thesis using True pos t by (simp add: insertProduce_def getFunction_def split_beta Let_def del: value_ty.simps)
  qed (simp add: insertProduce_def pos getFunction_def t)
qed

lemma insertConsume_run:
  assumes "newToOld st (VInst u) = Some (VInst oldu)" "consume_place st t oldu = Ok p" "mdecl (cmod st) ''sync_consume'' = Some ft"
    and "d = REG \<longrightarrow> sendable (value_ty (cmod st) (VInst u))" "u < next_ptr (cmod st)" "inst_users users"
  shows "\<exists>st'. insertConsume users u v d ch t st = Ok st'"
proof (cases "d = REG")
  case True
  let ?m0 = "snd (emit_before p (mk_call (Some ft) ''sync_consume'' [VInt 32 ch]) (cmod st))"
  have "value_ty ?m0 (VInst u) = value_ty (cmod st) (VInst u)" using assms(5) by simp
  then obtain ins where ins: "recv_cast (value_ty ?m0 (VInst u)) (next_ptr (cmod st)) = Ok ins"
    using assms(4) True recv_cast_Ok by metis
  define m1 where "m1 = snd (emit_before p ins ?m0)"
  have "\<forall>v \<in> set (users m1 oldu (mfunc m1 (mparent m1 v))). \<exists>j. v = VInst j" using assms(6) by (simp add: inst_users_def)
  then obtain m3 where "ofold (replace_user oldu (Suc (next_ptr (cmod st))) (mfunc m1 (mparent m1 v))) (users m1 oldu (mfunc m1 (mparent m1 v))) m1 = Ok m3"
    using replace_users_run by blast
  then show ?thesis
    using assms(1-3) True ins
    by (simp add: insertConsume_def getFunction_def split_beta Let_def m1_def [symmetric] del: value_ty.simps emit_before_simps(2-6,8-))
qed (simp add: insertConsume_def assms(1-3) getFunction_def split_beta Let_def)

lemma grown_type: "grown m m' \<Longrightarrow> i < next_ptr m \<Longrightarrow> value_ty m' (VInst i) = value_ty m (VInst i)"
  by (simp add: grown_def)

lemma grown_not_last': "grown m m' \<Longrightarrow> u < next_ptr m \<Longrightarrow> not_last m u \<Longrightarrow> not_last m' u"
proof -
  assume g: "grown m m'" "u < next_ptr m" "not_last m u"
  then have p: "mparent m' u = mparent m u" by (simp add: grown_def)
  then show "not_last m' u"
    using grown_not_last [OF g(1)] grown_body [OF g(1)] g(3) unfolding not_last_def p by blast
qed

lemma ready_point_grown:
  assumes "ready_point en st pt" "clones_ok fs st" "grown (cmod st) (cmod st')" "same_tables st st'"
  shows "ready_point en st' pt"
proof -
  obtain v where "instMap st (p_from pt) v = Some (VInst (p_u pt))" "p_from pt < MAX_THREAD"
    using assms(1) by (auto simp: ready_point_def)
  then have "in_fun (cmod st) (fs ! p_from pt) (p_u pt)" using assms(2) by (auto simp: clones_ok_def)
  then have u: "p_u pt < next_ptr (cmod st)" using in_fun_block assms(2) by (auto simp: clones_ok_def)
  show ?thesis
    using assms(1,4) consume_place_same [OF assms(4)] grown_type [OF assms(3) u] grown_not_last' [OF assms(3) u]
    unfolding ready_point_def same_tables_def by metis
qed

lemma insert_point_run:
  assumes r: "ready_point en (fst acc) pt" and ok: "clones_ok fs (fst acc)" and rt: "runtime_declared (cmod (fst acc))" and us: "inst_users users"
  shows "\<exists>acc'. insert_point users en acc pt = Ok acc'"
proof -
  let ?m = "cmod (fst acc)" and ?d = "dtype (p_edge pt)"
  have inv: "store_inv ?m" using ok by (simp add: clones_ok_def)
  obtain v where "instMap (fst acc) (p_from pt) v = Some (VInst (p_u pt))" "p_from pt < MAX_THREAD"
    using r by (auto simp: ready_point_def)
  then have "in_fun ?m (fs ! p_from pt) (p_u pt)" using ok by (auto simp: clones_ok_def)
  note ub = in_fun_block [OF inv this]
  have b: "mparent ?m (p_u pt) < next_ptr ?m" using ub store_block [OF inv] by blast
  have "mdecl ?m ''sync_produce'' \<noteq> None" using rt by (simp add: runtime_declared_def)
  then obtain m1 where m1: "insertProduce en (p_u pt) ?d (snd acc) ?m = Ok m1"
    using insertProduce_run [of ?d ?m "p_u pt" en] r by (auto simp: ready_point_def simp del: value_ty.simps)
  from insertProduce_Ok [OF m1] obtain pos pre t arg where
    m1e: "m1 = emit_seq (mparent ?m (p_u pt)) pos (pre @ [mk_call (Some t) ''sync_produce'' [arg, VInt 32 (snd acc)]]) ?m" by blast
  have gr: "grown ?m m1" unfolding m1e by (rule grown_emit_seq [OF inv b])
  let ?st1 = "(fst acc)\<lparr>cmod := m1\<rparr>"
  obtain oldu p where o': "newToOld ?st1 (VInst (p_u pt)) = Some (VInst oldu)" "consume_place ?st1 (p_to pt) oldu = Ok p"
    using r consume_place_same [of "fst acc" ?st1] by (auto simp: ready_point_def)
  obtain ft where "mdecl (cmod ?st1) ''sync_consume'' = Some ft" using rt gr by (auto simp: runtime_declared_def grown_def)
  moreover have "?d = REG \<longrightarrow> sendable (value_ty (cmod ?st1) (VInst (p_u pt)))"
    using r grown_type [OF gr] ub by (auto simp: ready_point_def simp del: value_ty.simps)
  moreover have "p_u pt < next_ptr (cmod ?st1)" using ub gr unfolding grown_def by simp
  ultimately obtain st' where "insertConsume users (p_u pt) (p_v pt) ?d (snd acc) (p_to pt) ?st1 = Ok st'"
    using insertConsume_run [OF o'] us by blast
  then show ?thesis using m1 by (simp add: insert_point_def)
qed

section \<open>The whole loop\<close>

text \<open>The invariant after some of the points, with the channels given out so far.\<close>

definition paired ::
  "string list \<Rightarrow> clones \<Rightarrow> sync_point list \<Rightarrow> clones \<times> int \<Rightarrow> bool" where
  "paired fs st0 pts acc \<longleftrightarrow> snd acc = int (length pts) \<and> same_tables st0 (fst acc) \<and> clones_ok fs (fst acc) \<and>
     grown (cmod st0) (cmod (fst acc)) \<and>
     (\<forall>k. if 0 \<le> k \<and> k < int (length pts)
       then \<exists>p c. comms ''sync_produce'' (cmod (fst acc)) k = {p} \<and> comms ''sync_consume'' (cmod (fst acc)) k = {c} \<and>
         channel_ends fs st0 (pts ! nat k) (cmod (fst acc)) p c
       else comms ''sync_produce'' (cmod (fst acc)) k = {} \<and> comms ''sync_consume'' (cmod (fst acc)) k = {})"

lemma paired_step:
  assumes I: "paired fs st0 pts acc" and ok0: "clones_ok fs st0" and run: "insert_point users en acc pt = Ok acc'"
    and t: "p_from pt < MAX_THREAD" "p_to pt < MAX_THREAD" "instMap st0 (p_from pt) v = Some (VInst (p_u pt))"
  shows "paired fs st0 (pts @ [pt]) acc'"
proof -
  let ?M = "cmod (fst acc)" and ?M' = "cmod (fst acc')"
  have ok: "clones_ok fs (fst acc)" and ch: "snd acc = int (length pts)" and tab: "same_tables st0 (fst acc)"
    and gr: "grown (cmod st0) ?M"
    using I by (simp_all add: paired_def)
  have inv: "store_inv ?M" using ok by (simp add: clones_ok_def)
  have "instMap (fst acc) (p_from pt) v = Some (VInst (p_u pt))" using t(3) tab by (simp add: same_tables_def)
  from insert_point_step [OF ok t(1,2) this run] obtain p c where s: "clones_ok fs (fst acc')" "grown ?M ?M'"
    "\<forall>g i. in_fun ?M g i \<longrightarrow> in_fun ?M' g i" "channel_ends fs (fst acc) pt ?M' p c"
    "\<forall>k. comms ''sync_produce'' ?M' k = comms ''sync_produce'' ?M k \<union> (if k = snd acc then {p} else {}) \<and>
         comms ''sync_consume'' ?M' k = comms ''sync_consume'' ?M k \<union> (if k = snd acc then {c} else {})"
    by blast
  note new = channel_ends_start [OF s(4) tab gr ok0 t] and keep = channel_ends_grown [OF _ inv s(2)]
  note tb = insert_point_tables [OF run]
  have "if 0 \<le> k \<and> k < int (length (pts @ [pt]))
       then \<exists>p c. comms ''sync_produce'' ?M' k = {p} \<and> comms ''sync_consume'' ?M' k = {c} \<and>
         channel_ends fs st0 ((pts @ [pt]) ! nat k) ?M' p c
       else comms ''sync_produce'' ?M' k = {} \<and> comms ''sync_consume'' ?M' k = {}" for k
  proof -
    have old: "if 0 \<le> k \<and> k < int (length pts)
       then \<exists>p c. comms ''sync_produce'' ?M k = {p} \<and> comms ''sync_consume'' ?M k = {c} \<and> channel_ends fs st0 (pts ! nat k) ?M p c
       else comms ''sync_produce'' ?M k = {} \<and> comms ''sync_consume'' ?M k = {}"
      using I unfolding paired_def by blast
    consider "k = int (length pts)" | "0 \<le> k" "k < int (length pts)" | "k < 0 \<or> int (length pts) < k" by linarith
    then show ?thesis
    proof cases
      case 1
      then show ?thesis using old s(5) new ch by auto
    next
      case 2
      then have "(pts @ [pt]) ! nat k = pts ! nat k" by (simp add: nth_append nat_less_iff)
      then show ?thesis using old s(3,5) keep ch 2 by auto
    next
      case 3
      then show ?thesis using old s(5) ch by auto
    qed
  qed
  moreover have "snd acc' = int (length (pts @ [pt]))" using tb ch by simp
  moreover have "same_tables st0 (fst acc')" using tb same_tables_trans [OF tab] by blast
  ultimately show ?thesis using s(1) grown_trans [OF gr s(2)] unfolding paired_def by blast
qed

text \<open>The points lie between threads and have copies of both ends.\<close>

lemma sync_points_mem:
  "pt \<in> set (sync_points P tab) \<Longrightarrow> p_from pt < p_to pt \<and> p_to pt < MAX_THREAD \<and> p_edge pt \<in> set (allEdges (pgraph P)) \<and>
    p_from pt = thread_num P (eu (p_edge pt)) \<and>
    tab (p_from pt) (VInst (eu (p_edge pt))) = Some (VInst (p_u pt)) \<and> tab (p_to pt) (VInst (ev (p_edge pt))) = Some (VInst (p_v pt))"
  by (auto simp: sync_points_def points_of_def point_of_def split: option.splits Value.splits)

definition no_channels :: "module_ir \<Rightarrow> bool" where
  "no_channels m \<longleftrightarrow> (\<forall>k. comms ''sync_produce'' m k = {} \<and> comms ''sync_consume'' m k = {})"

lemma paired_start: "clones_ok fs st \<Longrightarrow> no_channels (cmod st) \<Longrightarrow> paired fs st [] (st, 0)"
  by (simp add: paired_def no_channels_def grown_refl clones_ok_def)

lemma paired_next:
  assumes "paired fs st pts acc" "clones_ok fs st" "insert_point users en acc pt = Ok acc'" "pt \<in> set (sync_points P (instMap st))"
  shows "paired fs st (pts @ [pt]) acc'"
proof -
  note m = sync_points_mem [OF assms(4)]
  have "p_from pt < MAX_THREAD" "p_to pt < MAX_THREAD" using m by linarith+
  moreover have "instMap st (p_from pt) (VInst (eu (p_edge pt))) = Some (VInst (p_u pt))" using m by blast
  ultimately show ?thesis by (rule paired_step [OF assms(1-3)])
qed

lemma sync_paired:
  assumes "sources_assigned P" "clones_ok fs st" "no_channels (cmod st)" "insertSynchronization P users en st = Ok acc"
  shows "paired fs st (sync_points P (instMap st)) acc"
proof -
  have "ofold (insert_point users en) (sync_points P (instMap st)) (st, 0) = Ok acc"
    using assms(4) sync_as_points [OF assms(1)] by simp
  then show ?thesis
  proof (rule ofold_Ok_invariant [where I = "paired fs st"])
    show "paired fs st [] (st, 0)" by (rule paired_start [OF assms(2,3)])
  next
    fix "done" pt rest s s'
    assume split: "sync_points P (instMap st) = done @ pt # rest" and I: "paired fs st done s" and run: "insert_point users en s pt = Ok s'"
    have "pt \<in> set (sync_points P (instMap st))" by (simp add: split)
    then show "paired fs st (done @ [pt]) s'" by (rule paired_next [OF I assms(2) run])
  qed
qed

lemma sync_runs:
  assumes "sources_assigned P" "clones_ok fs st" "no_channels (cmod st)" "runtime_declared (cmod st)" "inst_users users"
    and ready: "\<forall>pt \<in> set (sync_points P (instMap st)). ready_point en st pt"
  shows "\<exists>acc. insertSynchronization P users en st = Ok acc"
proof -
  have "\<exists>acc. ofold (insert_point users en) (sync_points P (instMap st)) (st, 0) = Ok acc \<and> paired fs st (sync_points P (instMap st)) acc"
  proof (rule ofold_invariant [where I = "paired fs st"])
    show "paired fs st [] (st, 0)" by (rule paired_start [OF assms(2,3)])
  next
    fix "done" pt rest s
    assume split: "sync_points P (instMap st) = done @ pt # rest" and I: "paired fs st done s"
    have mem: "pt \<in> set (sync_points P (instMap st))" by (simp add: split)
    have g: "grown (cmod st) (cmod (fst s))" "same_tables st (fst s)" "clones_ok fs (fst s)" using I by (simp_all add: paired_def)
    have "ready_point en (fst s) pt" using ready_point_grown [OF _ assms(2) g(1,2)] ready mem by blast
    moreover have "runtime_declared (cmod (fst s))" using assms(4) g(1) by (simp add: runtime_declared_def grown_def)
    ultimately obtain s' where s': "insert_point users en s pt = Ok s'" using insert_point_run [OF _ g(3)] assms(5) by blast
    then show "\<exists>s'. insert_point users en s pt = Ok s' \<and> paired fs st (done @ [pt]) s'"
      using paired_next [OF I assms(2) s' mem] by blast
  qed
  then show ?thesis using sync_as_points [OF assms(1)] by auto
qed

end
