(* ===== verification/Sync_Result.thy ===== *)
theory Sync_Result
  imports Sync_Pairing Small_Module
begin

text \<open>The properties of the synchronization: its channels, its success, and the values it carries.\<close>

section \<open>A crossing dependence\<close>

text \<open>Instruction 1 of the first thread feeds instruction 2 of the second; their copies are 30 and 40.\<close>

definition cross_plan :: plan where
  "cross_plan = \<lparr>pgraph = addEdge 1 2 REG empty_graph, names = (\<lambda>_. []), sccs = scc_clear\<lparr>sccNum := 2, sccId := (\<lambda>i. i - 1)\<rparr>,
     threads_of = \<lparr>sccLatency = [1, 1], thread_of = [0, 1], part = [[0], [1]], load = [1, 1]\<rparr>,
     live = \<lparr>defin = [], livein = [], liveout = []\<rparr>\<rparr>"

definition cross_module :: module_ir where
  "cross_module = small_module\<lparr>
     mcode := (\<lambda>i. if i \<in> {31, 41} then mk_branch 50 else mk_instr Add (IntegerTy 32) [VInst 1, VInt 32 1]),
     mbody := (\<lambda>b. if b = 50 then [30, 31] else if b = 51 then [40, 41] else []),
     mparent := (\<lambda>i. if i < 40 then 50 else 51), mfunc := (\<lambda>b. if b = 50 then ''w0'' else ''w1''),
     mblocks := (\<lambda>g. if g = ''w0'' then [50] else if g = ''w1'' then [51] else []), next_ptr := 60\<rparr>"

definition cross_clones :: clones where
  "cross_clones = \<lparr>cmod = cross_module, instMap = (\<lambda>t. if t = 0 then [VInst 1 \<mapsto> VInst 30] else [VInst 2 \<mapsto> VInst 40]),
     placeEquivalents = (\<lambda>t. if t = 0 then [2 \<mapsto> 31] else [1 \<mapsto> 40]), newToOld = [VInst 30 \<mapsto> VInst 1, VInst 40 \<mapsto> VInst 2],
     newInstAssigned = [VInst 30 \<mapsto> 0, VInst 40 \<mapsto> 1]\<rparr>"

definition cross_users :: "module_ir \<Rightarrow> Inst \<Rightarrow> string \<Rightarrow> Value list" where
  "cross_users m i g = (if i = 1 then [VInst 30, VInst 40] else [])"

lemma cross_edges: "allEdges (pgraph cross_plan) = [mk_edge 1 2 REG]"
  by (simp add: cross_plan_def addEdge_def empty_graph_def)

lemma cross_assigned: "sources_assigned cross_plan"
  by (simp add: sources_assigned_def cross_edges) (simp add: cross_plan_def getInstAssigned_def arr_get_def in_bounds_def)

lemma cross_points:
  "sync_points cross_plan (instMap cross_clones) =
    [\<lparr>p_edge = mk_edge 1 2 REG, p_u = 30, p_v = 40, p_from = 0, p_to = 1\<rparr>]"
proof -
  have t: "thread_num cross_plan 1 = 0" by (simp add: thread_num_def cross_plan_def)
  then have t': "thread_num cross_plan (Suc 0) = 0" by simp
  show ?thesis
    by (simp add: sync_points_def cross_edges points_of_def t t' MAX_THREAD_def numeral_2_eq_2 point_of_def)
      (simp add: cross_clones_def)
qed

lemma cross_ok: "clones_ok [''w0'', ''w1''] cross_clones"
proof -
  have "store_inv cross_module" by (auto simp: store_inv_def cross_module_def split: if_splits)
  then show ?thesis
    by (auto simp: clones_ok_def cross_clones_def MAX_THREAD_def less_Suc_eq numeral_2_eq_2 in_fun_def cross_module_def split: if_splits)
qed

lemma cross_fresh: "no_channels (cmod cross_clones)"
  by (simp add: no_channels_def comms_def in_fun_def cross_clones_def cross_module_def comm_instr_not_call mk_instr_def)

lemma cross_runtime: "runtime_declared (cmod cross_clones)"
  using small_module_runtime by (simp add: runtime_declared_def cross_clones_def cross_module_def)

lemma cross_inst_users: "inst_users cross_users"
  by (simp add: inst_users_def cross_users_def)

lemma cross_ready: "\<forall>pt \<in> set (sync_points cross_plan (instMap cross_clones)). ready_point False cross_clones pt"
  unfolding cross_points
  by (simp add: ready_point_def MAX_THREAD_def)
    (auto simp: cross_clones_def cross_module_def sendable_def not_last_def consume_place_def mk_instr_def)

section \<open>Properties\<close>

text \<open>
  C37. Every channel has exactly one producer and one consumer. The channels are 0 to \<open>n - 1\<close>; channel \<open>k\<close> belongs to
  the \<open>k\<close>-th crossing dependence, is sent to in the function of the thread of its source and received from in the
  function of the later thread. Nothing else in the functions changes but operands.
\<close>

theorem channel_pairing:
  assumes "sources_assigned P" "clones_ok fs st" "no_channels (cmod st)"
    and "insertSynchronization P users en st = Ok (st', n)"
  shows "n = int (length (sync_points P (instMap st))) \<and> grown (cmod st) (cmod st') \<and>
    (\<forall>k. if 0 \<le> k \<and> k < n
       then \<exists>p c. comms ''sync_produce'' (cmod st') k = {p} \<and> comms ''sync_consume'' (cmod st') k = {c} \<and>
         in_fun (cmod st') (fs ! p_from (sync_points P (instMap st) ! nat k)) p \<and>
         in_fun (cmod st') (fs ! p_to (sync_points P (instMap st) ! nat k)) c \<and>
         p_from (sync_points P (instMap st) ! nat k) < p_to (sync_points P (instMap st) ! nat k)
       else comms ''sync_produce'' (cmod st') k = {} \<and> comms ''sync_consume'' (cmod st') k = {})"
proof -
  let ?pts = "sync_points P (instMap st)"
  note I = sync_paired [OF assms, unfolded paired_def fst_conv snd_conv]
  have n: "n = int (length ?pts)" using I by blast
  have K: "if 0 \<le> k \<and> k < int (length ?pts)
      then \<exists>p c. comms ''sync_produce'' (cmod st') k = {p} \<and> comms ''sync_consume'' (cmod st') k = {c} \<and>
        channel_ends fs st (?pts ! nat k) (cmod st') p c
      else comms ''sync_produce'' (cmod st') k = {} \<and> comms ''sync_consume'' (cmod st') k = {}" for k
    using I by blast
  have lt: "p_from (?pts ! nat k) < p_to (?pts ! nat k)" if "0 \<le> k" "k < n" for k
    using sync_points_mem [of "?pts ! nat k" P "instMap st"] nth_mem [of "nat k" ?pts] that I by (auto simp: nat_less_iff)
  show ?thesis
  proof (intro conjI allI)
    fix k
    show "if 0 \<le> k \<and> k < n
       then \<exists>p c. comms ''sync_produce'' (cmod st') k = {p} \<and> comms ''sync_consume'' (cmod st') k = {c} \<and>
         in_fun (cmod st') (fs ! p_from (?pts ! nat k)) p \<and> in_fun (cmod st') (fs ! p_to (?pts ! nat k)) c \<and>
         p_from (?pts ! nat k) < p_to (?pts ! nat k)
       else comms ''sync_produce'' (cmod st') k = {} \<and> comms ''sync_consume'' (cmod st') k = {}"
    proof (cases "0 \<le> k \<and> k < n")
      case True
      then obtain p c where "comms ''sync_produce'' (cmod st') k = {p}" "comms ''sync_consume'' (cmod st') k = {c}"
        "channel_ends fs st (?pts ! nat k) (cmod st') p c"
        using K [of k] n by auto
      then show ?thesis using True lt [of k] by (simp add: channel_ends_def)
    next
      case False
      then show ?thesis using K [of k] n by auto
    qed
  qed (use I in auto)
qed

theorem channel_pairing_witness:
  "\<exists>st' n p c. insertSynchronization cross_plan cross_users False cross_clones = Ok (st', n) \<and> n = 1 \<and>
    comms ''sync_produce'' (cmod st') 0 = {p} \<and> in_fun (cmod st') ''w0'' p \<and>
    comms ''sync_consume'' (cmod st') 0 = {c} \<and> in_fun (cmod st') ''w1'' c"
proof -
  obtain st' n where run: "insertSynchronization cross_plan cross_users False cross_clones = Ok (st', n)"
    using sync_runs [OF cross_assigned cross_ok cross_fresh cross_runtime cross_inst_users cross_ready] by auto
  note p = channel_pairing [OF cross_assigned cross_ok cross_fresh run, unfolded cross_points]
  then have n: "n = 1" by simp
  from p have "if 0 \<le> (0::int) \<and> 0 < n then \<exists>p c. comms ''sync_produce'' (cmod st') 0 = {p} \<and> comms ''sync_consume'' (cmod st') 0 = {c} \<and>
      in_fun (cmod st') ''w0'' p \<and> in_fun (cmod st') ''w1'' c else True"
    by (auto dest: spec [of _ 0])
  then show ?thesis using run n by auto
qed

text \<open>
  \<open>insertSynchronization\<close> succeeds when the values that cross are integers, pointers or of a floating-point type
  other than \<open>float\<close>, the sources are not the last in their blocks unless \<open>getNextNode\<close> yields the end, and every source
  has a place in the later thread.
\<close>

theorem sync_total:
  assumes "sources_assigned P" "clones_ok fs st" "no_channels (cmod st)" "runtime_declared (cmod st)" "inst_users users"
    and "\<forall>pt \<in> set (sync_points P (instMap st)). ready_point en st pt"
  shows "\<exists>st'. insertSynchronization P users en st = Ok (st', int (length (sync_points P (instMap st))))"
proof -
  obtain acc where run: "insertSynchronization P users en st = Ok acc" using sync_runs [OF assms] by blast
  have "snd acc = int (length (sync_points P (instMap st)))" using sync_paired [OF assms(1-3) run] by (simp add: paired_def)
  then show ?thesis using run by (cases acc) auto
qed

theorem sync_total_witness:
  "\<exists>st'. insertSynchronization cross_plan cross_users False cross_clones = Ok (st', 1)"
  using sync_total [OF cross_assigned cross_ok cross_fresh cross_runtime cross_inst_users cross_ready] by (simp add: cross_points)

section \<open>The values in the channels\<close>

definition legal_send :: "Ty \<Rightarrow> bool" where
  "legal_send t \<longleftrightarrow> (\<exists>ins. send_cast t 0 = Ok ins \<and> cast_ok (opcode ins) t elTy)"

definition legal_recv :: "Ty \<Rightarrow> bool" where
  "legal_recv t \<longleftrightarrow> (\<exists>ins. recv_cast t 0 = Ok ins \<and> cast_ok (opcode ins) elTy t)"

text \<open>
  C38. The casts around a channel are legal exactly for integers of less than 64 bits, \<open>double\<close> and pointers. A 64-bit
  integer gets an extension and a truncation to its own width, which LLVM does not allow, and \<open>float\<close> ends in
  \<open>error\<close> at the consumer, with a message that names \<open>double\<close>.
\<close>

theorem legal_casts:
  "(legal_send t \<and> legal_recv t \<longleftrightarrow> (\<exists>n < 64. t = IntegerTy n) \<or> t = DoubleTy \<or> isPointerTy t) \<and>
   send_cast (IntegerTy 64) u = Ok (mk_cast ZExt (IntegerTy 64) (VInst u)) \<and> \<not> legal_send (IntegerTy 64) \<and>
   recv_cast FloatTy c = Exit ''cannot deal with double''"
proof -
  have "legal_send t \<and> legal_recv t \<longleftrightarrow> (\<exists>n < 64. t = IntegerTy n) \<or> t = DoubleTy \<or> isPointerTy t"
    by (cases t) (auto simp: legal_send_def legal_recv_def send_cast_def recv_cast_def cast_ok_def isFloatingPointTy_def)
  then show ?thesis by (simp add: legal_send_def send_cast_def recv_cast_def cast_ok_def isFloatingPointTy_def)
qed

text \<open>What the casts do to the bits of a value; \<open>pw\<close> is the width of a pointer.\<close>

definition value_bits :: "nat \<Rightarrow> Ty \<Rightarrow> nat" where
  "value_bits pw t = (if isPointerTy t then pw else the (bit_size t))"

definition cast_bits :: "nat \<Rightarrow> Opcode \<Rightarrow> Ty \<Rightarrow> nat \<Rightarrow> nat" where
  "cast_bits pw c t n = (if c = Trunc \<or> c = PtrToInt \<or> c = IntToPtr then n mod 2 ^ value_bits pw t else n)"

text \<open>
  C39. A value survives its channel: what the producer's cast makes of it fits into the 64-bit element, and the consumer's
  cast gives back the same bits.
\<close>

theorem value_transport:
  assumes "legal_send t" "legal_recv t" "pw \<le> 64" "x < 2 ^ value_bits pw t"
  shows "\<exists>s r. send_cast t u = Ok s \<and> recv_cast t c = Ok r \<and> cast_bits pw (opcode s) (ity s) x < 2 ^ 64 \<and>
    cast_bits pw (opcode r) (ity r) (cast_bits pw (opcode s) (ity s) x) = x"
proof -
  have "value_bits pw t \<le> 64"
    using assms(1-3) by (cases t) (auto simp: value_bits_def legal_send_def send_cast_def cast_ok_def isFloatingPointTy_def)
  then have x: "x < 2 ^ 64" using assms(4) by (meson order.strict_trans2 one_le_numeral power_increasing)
  show ?thesis
    using assms x
    by (cases t) (auto simp: value_bits_def cast_bits_def legal_send_def legal_recv_def send_cast_def recv_cast_def cast_ok_def isFloatingPointTy_def)
qed

theorem value_transport_witness:
  "\<exists>s r. send_cast (IntegerTy 32) 30 = Ok s \<and> recv_cast (IntegerTy 32) 60 = Ok r \<and>
    cast_bits 64 (opcode r) (ity r) (cast_bits 64 (opcode s) (ity s) 4000000000) = 4000000000"
  using value_transport [of "IntegerTy 32" 64 4000000000 30 60]
  by (simp add: value_bits_def legal_send_def legal_recv_def send_cast_def recv_cast_def cast_ok_def)

end
