(* ===== verification/Peeled_Result.thy ===== *)
theory Peeled_Result
  imports Control_Dep Small_Loop
begin

text \<open>
  What the peeled graph of \<open>buildPDG\<close> (\<^verbatim>\<open>DSWP_1.cpp\<close>) is: two iterations of the loop. The edges that leave the first copy
  are those to blocks that the depth-first search finishes later; a second induction over the search shows that they
  close cycles.
\<close>

section \<open>The order and the cycles\<close>

text \<open>The control flow inside the loop, and without the edges to the header \<open>h\<close>: the flow of one iteration.\<close>

definition loop_flow :: "func_ir \<Rightarrow> loop_ir \<Rightarrow> (BB \<times> BB) set" where
  "loop_flow F L = {(b, c). contains L b \<and> c \<in> set (loop_succs F L b)}"

definition inner_flow :: "func_ir \<Rightarrow> loop_ir \<Rightarrow> BB \<Rightarrow> (BB \<times> BB) set" where
  "inner_flow F L h = {(b, c) \<in> loop_flow F L. c \<noteq> h}"

text \<open>
  In the order of the search an edge goes to a block that was finished before, or its target was on the stack and leads
  back to its source within the iteration.
\<close>

definition back_ok :: "func_ir \<Rightarrow> loop_ir \<Rightarrow> BB \<Rightarrow> BB list \<Rightarrow> bool" where
  "back_ok F L h ord \<longleftrightarrow> (\<forall>xs x ys. ord = xs @ x # ys \<longrightarrow>
     (\<forall>s \<in> set (loop_succs F L x). s \<in> set xs \<or> (s, x) \<in> (inner_flow F L h)\<^sup>*))"

lemma back_ok_snoc:
  assumes "back_ok F L h ord" "\<forall>s \<in> set (loop_succs F L b). s \<in> set ord \<or> (s, b) \<in> (inner_flow F L h)\<^sup>*"
  shows "back_ok F L h (ord @ [b])"
  unfolding back_ok_def
proof (intro allI impI)
  fix xs x ys
  assume "ord @ [b] = xs @ x # ys"
  then consider "ys = []" "xs = ord" "x = b" | zs where "ys = zs @ [b]" "ord = xs @ x # zs"
    by (cases ys rule: rev_cases) auto
  then show "\<forall>s \<in> set (loop_succs F L x). s \<in> set xs \<or> (s, x) \<in> (inner_flow F L h)\<^sup>*"
    by cases (use assms in \<open>auto simp: back_ok_def\<close>)
qed

text \<open>The search keeps this; the blocks on its stack all lead to the block it is at.\<close>

definition search_ok :: "func_ir \<Rightarrow> loop_ir \<Rightarrow> BB \<Rightarrow> BB set \<times> BB list \<Rightarrow> bool" where
  "search_ok F L h st \<longleftrightarrow> set (snd st) \<subseteq> fst st \<and> back_ok F L h (snd st)"

definition open_blocks :: "BB set \<times> BB list \<Rightarrow> BB set" where
  "open_blocks st = fst st - set (snd st)"

lemma search_back:
  "contains L b \<Longrightarrow> b \<notin> fst st \<Longrightarrow> h \<in> insert b (fst st) \<Longrightarrow> search_ok F L h st \<Longrightarrow>
    \<forall>g \<in> open_blocks st. (g, b) \<in> (inner_flow F L h)\<^sup>* \<Longrightarrow>
    search_ok F L h (dfsVisit F L b st) \<and> open_blocks (dfsVisit F L b st) = open_blocks st \<and>
    insert b (fst st) \<subseteq> fst (dfsVisit F L b st)"
  "contains L p \<Longrightarrow> set ss \<subseteq> set (block_succs F p) \<Longrightarrow> h \<in> fst st \<Longrightarrow> search_ok F L h st \<Longrightarrow>
    \<forall>g \<in> open_blocks st. (g, p) \<in> (inner_flow F L h)\<^sup>* \<Longrightarrow>
    search_ok F L h (visit_succs F L ss st) \<and> open_blocks (visit_succs F L ss st) = open_blocks st \<and>
    fst st \<subseteq> fst (visit_succs F L ss st) \<and> (\<forall>s \<in> set ss. contains L s \<longrightarrow> s \<in> fst (visit_succs F L ss st))"
proof (induction F L b st and F L ss st arbitrary: and p rule: dfsVisit_visit_succs.induct)
  case (1 F L b vis ord)
  let ?st' = "visit_succs F L (block_succs F b) (insert b vis, ord)"
  have b: "b \<notin> vis" "b \<notin> set ord" using "1.prems"(2,4) by (auto simp: search_ok_def)
  have o: "open_blocks (insert b vis, ord) = insert b (open_blocks (vis, ord))"
    using b by (auto simp: open_blocks_def)
  have "search_ok F L h (insert b vis, ord)" using "1.prems"(4) by (auto simp: search_ok_def)
  then have IH: "search_ok F L h ?st'" "open_blocks ?st' = insert b (open_blocks (vis, ord))"
    "insert b vis \<subseteq> fst ?st'" "\<forall>s \<in> set (block_succs F b). contains L s \<longrightarrow> s \<in> fst ?st'"
    using "1.IH" [of b] "1.prems"(1,3,5) o by auto
  have "s \<in> set (snd ?st') \<or> (s, b) \<in> (inner_flow F L h)\<^sup>*" if "s \<in> set (loop_succs F L b)" for s
  proof -
    have "s \<in> fst ?st'" using that IH(4) by (simp add: loop_succs_def)
    then have "s \<in> set (snd ?st') \<or> s \<in> open_blocks ?st'" by (auto simp: open_blocks_def)
    then show ?thesis using IH(2) "1.prems"(5) by auto
  qed
  then have "back_ok F L h (snd ?st' @ [b])" using IH(1) by (intro back_ok_snoc) (auto simp: search_ok_def)
  moreover have "fst ?st' - insert b (set (snd ?st')) = open_blocks (vis, ord)"
    using IH(2) b by (auto simp: open_blocks_def)
  ultimately show ?case
    using IH(1,3) by (auto simp: dfsVisit.simps search_ok_def open_blocks_def split_beta Let_def)
next
  case (2 F L st)
  then show ?case by simp
next
  case (3 F L s ss st)
  show ?case
  proof (cases "contains L s \<and> s \<notin> fst st")
    case True
    have "s \<noteq> h" using True "3.prems"(3) by blast
    then have ps: "(p, s) \<in> inner_flow F L h"
      using True "3.prems"(1,2) by (simp add: inner_flow_def loop_flow_def loop_succs_def)
    have r: "\<forall>g \<in> open_blocks st. (g, s) \<in> (inner_flow F L h)\<^sup>*"
      using "3.prems"(5) ps by (meson rtrancl.rtrancl_into_rtrancl)
    have V: "search_ok F L h (dfsVisit F L s st) \<and> open_blocks (dfsVisit F L s st) = open_blocks st \<and>
        insert s (fst st) \<subseteq> fst (dfsVisit F L s st)"
      using "3.IH"(1) [OF True _ _ _ _ r] True "3.prems"(3,4) by simp
    then have "h \<in> fst (dfsVisit F L s st)" using "3.prems"(3) by blast
    then have "search_ok F L h (visit_succs F L ss (dfsVisit F L s st)) \<and>
        open_blocks (visit_succs F L ss (dfsVisit F L s st)) = open_blocks (dfsVisit F L s st) \<and>
        fst (dfsVisit F L s st) \<subseteq> fst (visit_succs F L ss (dfsVisit F L s st)) \<and>
        (\<forall>x \<in> set ss. contains L x \<longrightarrow> x \<in> fst (visit_succs F L ss (dfsVisit F L s st)))"
      using "3.IH"(2) [OF True, of p] V "3.prems"(1,2,5) by simp
    then show ?thesis using V True by auto
  next
    case False
    then show ?thesis using "3.IH"(3) [OF False, of p] "3.prems" by auto
  qed
qed

lemma order_back:
  assumes "lblocks L = h # bs"
  shows "back_ok F L h (bb_ordered F L)"
proof -
  have c: "contains L b" if "b \<in> set (lblocks L)" for b using that by (simp add: contains_def)
  have "search_ok F L h (fold (order_step F L) as st)"
    if "set as \<subseteq> set (lblocks L)" "search_ok F L h st" "open_blocks st = {}" "h \<in> fst st" for as st
    using that
  proof (induction as arbitrary: st)
    case (Cons a as)
    have "search_ok F L h (order_step F L a st) \<and> open_blocks (order_step F L a st) = {} \<and> h \<in> fst (order_step F L a st)"
      using Cons.prems search_back(1) [OF c, of a st h] by (auto simp: order_step_def)
    then show ?case using Cons by simp
  qed simp
  moreover have "search_ok F L h (dfsVisit F L h ({}, [])) \<and> open_blocks (dfsVisit F L h ({}, [])) = {} \<and>
      h \<in> fst (dfsVisit F L h ({}, []))"
    using search_back(1) [OF c, of h "({}, [])" h F] assms by (simp add: search_ok_def open_blocks_def back_ok_def)
  ultimately have "search_ok F L h (fold (order_step F L) bs (dfsVisit F L h ({}, [])))"
    using assms by (metis list.set_intros(2) subsetI)
  then have "search_ok F L h (fold (order_step F L) (h # bs) ({}, []))" by (simp add: order_step_def)
  then show ?thesis using assms by (simp add: bb_ordered_def search_ok_def)
qed

lemma late_copy_cycle:
  assumes "lblocks L = h # bs" "contains L b" "c \<in> set (loop_succs F L b)"
    and "instnum (peel_tables_of F L) c \<le> instnum (peel_tables_of F L) b"
  shows "(c, b) \<in> (inner_flow F L h)\<^sup>*"
proof -
  obtain xs ys where o: "bb_ordered F L = xs @ b # ys"
    using assms(2) bb_ordered_set(2) [of F L] by (metis contains_def in_set_conv_decomp)
  have "c \<notin> set xs"
  proof
    assume "c \<in> set xs"
    then obtain k where k: "k < length xs" "rev xs ! k = c" by (metis in_set_conv_nth length_rev set_rev)
    have "instnum (peel_tables_of F L) b = length ys"
      using instnum_rev [of "length ys" F L] by (simp add: o nth_append)
    moreover have "instnum (peel_tables_of F L) c = Suc (length ys + k)"
      using instnum_rev [of "Suc (length ys + k)" F L] k by (simp add: o nth_append)
    ultimately show False using assms(4) by simp
  qed
  then show ?thesis using order_back [OF assms(1), of F] o assms(3) unfolding back_ok_def by blast
qed


section \<open>The edges\<close>

definition leaves_loop :: "func_ir \<Rightarrow> loop_ir \<Rightarrow> BB \<Rightarrow> bool" where
  "leaves_loop F L b \<longleftrightarrow> contains L b \<and> (\<exists>e \<in> set (lexits L). b \<in> set (preds F e))"

definition forward_flow :: "func_ir \<Rightarrow> loop_ir \<Rightarrow> (BB \<times> BB) set" where
  "forward_flow F L = {(b, c). (b, c) \<in> loop_flow F L \<and> instnum (peel_tables_of F L) b < instnum (peel_tables_of F L) c}"

lemma dflow_split:
  "dflow F L = (\<lambda>(b, c). (Top b, Top c)) ` forward_flow F L \<union>
     (\<lambda>(b, c). (Top b, Bottom c)) ` (loop_flow F L - forward_flow F L) \<union>
     (\<lambda>(b, c). (Bottom b, Bottom c)) ` loop_flow F L \<union>
     {(x, ExitBlock) | x b. x \<in> copies b \<and> leaves_loop F L b}" (is "_ = ?R")
proof -
  have t: "(Top b, y) \<in> dflow F L \<longleftrightarrow> y = ExitBlock \<and> leaves_loop F L b \<or> (\<exists>c. (b, c) \<in> loop_flow F L \<and>
      y = (if (b, c) \<in> forward_flow F L then Top c else Bottom c))" for b y
  proof -
    have "(y = first_copy (peel_tables_of F L) b c) \<longleftrightarrow> y = (if (b, c) \<in> forward_flow F L then Top c else Bottom c)"
      if "(b, c) \<in> loop_flow F L" for c
      using that by (simp add: forward_flow_def first_copy_def not_less)
    then show ?thesis
      unfolding dflow_iff(1) returnblocks_iff leaves_loop_def loop_flow_def by blast
  qed
  have e: "(Bottom b, y) \<in> dflow F L \<longleftrightarrow> y = ExitBlock \<and> leaves_loop F L b \<or> (\<exists>c. (b, c) \<in> loop_flow F L \<and> y = Bottom c)" for b y
    unfolding dflow_iff(2) returnblocks_iff leaves_loop_def loop_flow_def by blast
  have sub: "forward_flow F L \<subseteq> loop_flow F L" by (auto simp: forward_flow_def)
  have "(x, y) \<in> dflow F L \<longleftrightarrow> (x, y) \<in> ?R" for x y
  proof (cases x)
    case (Top b)
    then show ?thesis using sub by (cases y) (auto simp: t copies_def split: if_splits)
  next
    case (Bottom b)
    then show ?thesis by (cases y) (auto simp: e copies_def)
  next
    case ExitBlock
    then show ?thesis by (auto simp: dflow_iff(3) copies_def)
  qed
  then show ?thesis by (intro set_eqI) (simp only: split_paired_all)
qed

lemma forward_acyclic: "acyclic (forward_flow F L)"
proof -
  have "forward_flow F L \<subseteq> measure (instnum (peel_tables_of F L))" by (auto simp: forward_flow_def)
  then show ?thesis by (meson acyclic_subset wf_acyclic wf_measure)
qed

section \<open>Properties\<close>

text \<open>
  C18. The peeled graph is two iterations of the loop. Let \<open>inner_flow\<close> be the control flow inside the loop without the edges
  to the header. The second copy has all the flow of the loop; the first copy has a part \<open>first\<close> of \<open>inner_flow\<close> that has no
  cycle, and misses only edges that close a cycle within the iteration: it is the whole of \<open>inner_flow\<close> when the loop
  contains no other loop. The other edges, in particular those to the header, lead from the first copy to the
  second one. Both copies of a block go to the exit block exactly if the block leaves the loop. There is no other edge.
\<close>

theorem peeled_iterations:
  assumes "lblocks L = h # bs" "\<forall>b \<in> set (lblocks L). (h, b) \<in> (loop_flow F L)\<^sup>*"
  shows "\<exists>first. first \<subseteq> inner_flow F L h \<and> acyclic first \<and>
    (\<forall>(b, c) \<in> inner_flow F L h - first. (c, b) \<in> (inner_flow F L h)\<^sup>*) \<and>
    (acyclic (inner_flow F L h) \<longrightarrow> first = inner_flow F L h) \<and>
    dflow F L = (\<lambda>(b, c). (Top b, Top c)) ` first \<union> (\<lambda>(b, c). (Top b, Bottom c)) ` (loop_flow F L - first) \<union>
      (\<lambda>(b, c). (Bottom b, Bottom c)) ` loop_flow F L \<union> {(x, ExitBlock) | x b. x \<in> copies b \<and> leaves_loop F L b}"
proof (intro exI [of _ "forward_flow F L"] conjI)
  have "loop_flow F L \<subseteq> dep (flow_map F L)" by (auto simp: loop_flow_def dep_flow)
  then have "\<forall>b \<in> set (lblocks L). (h, b) \<in> (dep (flow_map F L))\<^sup>*" using assms(2) rtrancl_mono by blast
  note no_header = header_first [OF assms(1) this]
  show sub: "forward_flow F L \<subseteq> inner_flow F L h"
  proof
    fix p
    assume "p \<in> forward_flow F L"
    then obtain b c where p: "p = (b, c)" "(b, c) \<in> forward_flow F L" by (cases p) auto
    then have "(Top b, Top c) \<in> dflow F L" unfolding dflow_split by (force simp: image_iff)
    then show "p \<in> inner_flow F L h" using no_header [of b] p by (auto simp: inner_flow_def forward_flow_def)
  qed
  show cyc: "\<forall>(b, c) \<in> inner_flow F L h - forward_flow F L. (c, b) \<in> (inner_flow F L h)\<^sup>*"
  proof clarify
    fix b c
    assume "(b, c) \<in> inner_flow F L h" "(b, c) \<notin> forward_flow F L"
    then show "(c, b) \<in> (inner_flow F L h)\<^sup>*"
      using late_copy_cycle [OF assms(1), of b c F] by (auto simp: inner_flow_def forward_flow_def loop_flow_def)
  qed
  show "acyclic (inner_flow F L h) \<longrightarrow> forward_flow F L = inner_flow F L h"
  proof
    assume a: "acyclic (inner_flow F L h)"
    have "(b, c) \<in> forward_flow F L" if "(b, c) \<in> inner_flow F L h" for b c
    proof (rule ccontr)
      assume "(b, c) \<notin> forward_flow F L"
      then have "(b, b) \<in> (inner_flow F L h)\<^sup>+" using cyc that by (auto intro: rtrancl_into_trancl2)
      then show False using a by (simp add: acyclic_def)
    qed
    then show "forward_flow F L = inner_flow F L h" using sub by auto
  qed
qed (simp_all only: forward_acyclic dflow_split)

text \<open>Two blocks: 1 goes to 2, and 2 back to 1 or to the exit 3.\<close>

definition two_func :: func_ir where
  "two_func = small_func\<lparr>code := (\<lambda>i. (code small_func i)\<lparr>opcode := Br, succs := (if i = 12 then [2] else if i = 13 then [1, 3] else [])\<rparr>),
     body := (\<lambda>b. if b = 1 then [12] else if b = 2 then [13] else []), fblocks := [1, 2, 3]\<rparr>"

definition two_loop :: loop_ir where
  "two_loop = small_loop\<lparr>lblocks := [1, 2], lexit := Some 3, lexits := [3]\<rparr>"

lemma two_flow: "loop_flow two_func two_loop = {(1, 2), (2, 1)}"
  by (auto simp: loop_flow_def loop_succs_def block_succs_def terminator_def contains_def two_loop_def two_func_def split: if_splits)

lemma two_leaves: "leaves_loop two_func two_loop b \<longleftrightarrow> b = 2"
  by (auto simp: leaves_loop_def preds_def block_succs_def terminator_def contains_def two_loop_def two_func_def small_loop_def split: if_splits)

theorem peeled_iterations_witness:
  "dflow two_func two_loop = {(Top 1, Top 2), (Top 2, Bottom 1), (Bottom 1, Bottom 2), (Bottom 2, Bottom 1),
     (Top 2, ExitBlock), (Bottom 2, ExitBlock)}"
proof -
  have l: "lblocks two_loop = 1 # [2]" by (simp add: two_loop_def)
  have r: "\<forall>b \<in> set (lblocks two_loop). (1, b) \<in> (loop_flow two_func two_loop)\<^sup>*"
    by (auto simp: l two_flow)
  have i: "inner_flow two_func two_loop 1 = {(1, 2)}" by (auto simp: inner_flow_def two_flow)
  have "{(1::nat, 2)} \<subseteq> measure (\<lambda>b. b)" by simp
  then have a: "acyclic {(1::nat, 2::nat)}" by (meson acyclic_subset wf_acyclic wf_measure)
  obtain first where f: "acyclic {(1::nat, 2::nat)} \<longrightarrow> first = {(1, 2)}" and d: "dflow two_func two_loop =
      (\<lambda>(b, c). (Top b, Top c)) ` first \<union> (\<lambda>(b, c). (Top b, Bottom c)) ` ({(1, 2), (2, 1)} - first) \<union>
      (\<lambda>(b, c). (Bottom b, Bottom c)) ` {(1, 2), (2, 1)} \<union> {(x, ExitBlock) | x b. x \<in> copies b \<and> b = 2}"
    using peeled_iterations [OF l r, unfolded i two_leaves two_flow] by (elim exE conjE) (rule that)
  have "{(x, ExitBlock) | x b. x \<in> copies b \<and> b = 2} = {(Top 2, ExitBlock), (Bottom 2, ExitBlock)}"
    by (auto simp: copies_def)
  moreover have "{(1, 2), (2, 1)} - {(1, 2)} = {(2::nat, 1::nat)}" by simp
  ultimately show ?thesis using f a unfolding d by (simp add: insert_commute)
qed

end
