(* ===== verification/Loop_Split_Copy.thy ===== *)
theory Loop_Split_Copy
  imports Loop_Split Pre_Split_Correct
begin

text \<open>
  The copying part of \<open>loopSplit\<close>: the climb in a tree of dominators ends, the related blocks of a thread are the
  ones of its instructions and of what these depend on, and the copies are made in the order of the originals.
\<close>

section \<open>Climbing\<close>

definition up_rel :: "(BB \<Rightarrow> BB option) \<Rightarrow> (BB \<times> BB) set" where
  "up_rel up = {(b, c). up b = Some c}"

text \<open>A climb to a block with a copy ends at such a block on the way.\<close>

lemma climb_ends:
  assumes "(b, c) \<in> (up_rel up)\<^sup>*" "bbm c \<noteq> None"
  shows "\<exists>d nb. climb bbm up msg b = Some (Ok nb) \<and> bbm d = Some nb \<and> (b, d) \<in> (up_rel up)\<^sup>*"
  using assms
proof (induction rule: converse_rtrancl_induct)
  case base
  then obtain nb where "bbm c = Some nb" by blast
  then show ?case by (subst climb.simps) auto
next
  case (step x y)
  show ?case
  proof (cases "bbm x")
    case None
    have "up x = Some y" using step.hyps(1) by (simp add: up_rel_def)
    then have "climb bbm up msg x = climb bbm up msg y" using None by (subst climb.simps) simp
    moreover obtain d nb where "climb bbm up msg y = Some (Ok nb)" "bbm d = Some nb" "(y, d) \<in> (up_rel up)\<^sup>*"
      using step.IH step.prems by blast
    moreover have "(x, d) \<in> (up_rel up)\<^sup>*" using calculation(4) step.hyps(1) by (rule converse_rtrancl_into_rtrancl [rotated])
    ultimately show ?thesis by (intro exI [of _ d] exI [of _ nb]) simp
  next
    case (Some nb)
    then show ?thesis by (subst climb.simps) auto
  qed
qed

text \<open>Without one it ends at the root with the message.\<close>

lemma climb_error:
  assumes "(b, c) \<in> (up_rel up)\<^sup>*" "up c = None" "\<And>d. (b, d) \<in> (up_rel up)\<^sup>* \<Longrightarrow> bbm d = None"
  shows "climb bbm up msg b = Some (Exit msg)"
  using assms
proof (induction rule: converse_rtrancl_induct)
  case base
  then have "bbm c = None" by blast
  then show ?case using base by (subst climb.simps) simp
next
  case (step x y)
  have "up x = Some y" using step.hyps(1) by (simp add: up_rel_def)
  moreover have "bbm x = None" using step.prems(2) by blast
  moreover have "climb bbm up msg y = Some (Exit msg)"
    using step.prems step.hyps(1) by (intro step.IH) (auto intro: converse_rtrancl_into_rtrancl)
  ultimately show ?case by (subst climb.simps) simp
qed

section \<open>The related blocks\<close>

lemma set_insert_props [simp]:
  "set (set_insert b s) = insert b (set s)" "sorted s \<Longrightarrow> sorted (set_insert b s)" "distinct s \<Longrightarrow> distinct (set_insert b s)"
  by (auto simp: set_insert_def set_insort_key sorted_insort distinct_insort)

lemma add_related_props:
  "set (add_related m revg s i) = insert (mparent m i) (set s) \<union> (\<lambda>e. mparent m (ev e)) ` set (edges_at revg i) \<and>
   (distinct s \<longrightarrow> distinct (add_related m revg s i)) \<and> (sorted s \<longrightarrow> sorted (add_related m revg s i))"
proof -
  have "set (fold (\<lambda>e s. set_insert (mparent m (ev e)) s) es s) = set s \<union> (\<lambda>e. mparent m (ev e)) ` set es \<and>
      (distinct s \<longrightarrow> distinct (fold (\<lambda>e s. set_insert (mparent m (ev e)) s) es s)) \<and>
      (sorted s \<longrightarrow> sorted (fold (\<lambda>e s. set_insert (mparent m (ev e)) s) es s))" for es s
    by (induction es arbitrary: s) auto
  from this [of "edges_at revg i" "set_insert (mparent m i) s"] show ?thesis unfolding add_related_def by auto
qed

lemma foldl_related_props:
  "set (foldl (add_related m revg) s is) =
      set s \<union> mparent m ` set is \<union> {mparent m (ev e) | i e. i \<in> set is \<and> e \<in> set (edges_at revg i)} \<and>
   (distinct s \<longrightarrow> distinct (foldl (add_related m revg) s is)) \<and> (sorted s \<longrightarrow> sorted (foldl (add_related m revg) s is))"
proof (induction "is" arbitrary: s)
  case (Cons i "is")
  note a = add_related_props [of m revg s i]
  show ?case using Cons [of "add_related m revg s i"] a by auto
qed simp

definition insts_of :: "plan \<Rightarrow> nat \<Rightarrow> Inst list" where
  "insts_of P t = concat (map ((!) (InstInSCC (sccs P))) (part (threads_of P) ! t))"

lemma relbb_run:
  assumes "t < length (part (threads_of P))" "\<forall>k \<in> set (part (threads_of P) ! t). k < length (InstInSCC (sccs P))"
  shows "\<exists>rel. relbb m P t = Ok rel \<and> distinct rel \<and> sorted rel \<and>
    set rel = mparent m ` set (insts_of P t) \<union>
      {mparent m (ev e) | i e. i \<in> set (insts_of P t) \<and> e \<in> set (edges_at (rev_graph_of (pgraph P)) i)}"
proof -
  let ?r = "rev_graph_of (pgraph P)" and ?I = "InstInSCC (sccs P)"
  let ?f = "\<lambda>s scc. obind (arr_get ?I (int scc)) (\<lambda>insts. Ok (foldl (add_related m ?r) s insts))"
  have "ofold ?f ps s = Ok (foldl (add_related m ?r) s (concat (map ((!) ?I) ps)))" if "\<forall>k \<in> set ps. k < length ?I" for ps s
    using that by (induction ps arbitrary: s) (simp_all add: arr_get_def in_bounds_def)
  then have "relbb m P t = Ok (foldl (add_related m ?r) [] (insts_of P t))"
    using assms by (simp add: relbb_def arr_get_def in_bounds_def insts_of_def)
  then show ?thesis using foldl_related_props [of m ?r "[]" "insts_of P t"] by auto
qed

section \<open>Copies of instructions\<close>

text \<open>What the tables of dominators and the terminators of the loop have to be.\<close>

definition cfg_ok :: "split_env \<Rightarrow> module_ir \<Rightarrow> bool" where
  "cfg_ok E m \<longleftrightarrow>
     (\<forall>b. contains (floop E) b \<longrightarrow> (b, fexit E) \<in> (up_rel (fpostidom E))\<^sup>* \<and> (b, fpred E) \<in> (up_rel (fidom E))\<^sup>* \<and>
       (\<forall>i \<in> set (mbody m b).
         (is_terminator (opcode (mcode m i)) \<longrightarrow> (\<forall>s \<in> set (succs (mcode m i)). s = fexit E \<or> contains (floop E) s)) \<and>
         (opcode (mcode m i) = PHI \<longrightarrow> (\<forall>s \<in> set (incoming (mcode m i)). s = fpred E \<or> contains (floop E) s))))"

lemma run_climb:
  assumes "(b, c) \<in> (up_rel up)\<^sup>*" "bbm c \<noteq> None"
  shows "\<exists>nb. run_walk (climb bbm up msg b) = Ok nb \<and> nb \<in> ran bbm"
proof -
  obtain d nb where "climb bbm up msg b = Some (Ok nb)" "bbm d = Some nb"
    using climb_ends [of b c up bbm msg] assms by blast
  then show ?thesis by (auto simp: run_walk_def ran_def)
qed

text \<open>A copy exists, differs in its targets and incoming blocks only, or is a branch; its targets are copies of blocks.\<close>

definition copy_of :: "(BB \<Rightarrow> BB option) \<Rightarrow> instr \<Rightarrow> instr \<Rightarrow> bool" where
  "copy_of bbm ins ins' \<longleftrightarrow> (is_terminator (opcode ins') \<longleftrightarrow> is_terminator (opcode ins)) \<and> set (succs ins') \<subseteq> ran bbm \<union> (if is_terminator (opcode ins) then {} else set (succs ins)) \<and>
     (operands ins' = operands ins \<or> operands ins' = []) \<and>
     (\<not> is_terminator (opcode ins) \<longrightarrow> opcode ins' = opcode ins \<and> ity ins' = ity ins \<and> operands ins' = operands ins \<and> succs ins' = succs ins) \<and>
     (opcode ins = PHI \<longrightarrow> set (incoming ins') \<subseteq> ran bbm)"

lemma omap_exists:
  assumes "\<And>x. x \<in> set xs \<Longrightarrow> \<exists>y. f x = Ok y \<and> Q y"
  shows "\<exists>ys. omap f xs = Ok ys \<and> length ys = length xs \<and> (\<forall>y \<in> set ys. Q y)"
proof -
  define g where "g x = (SOME y. f x = Ok y \<and> Q y)" for x
  have g: "f x = Ok (g x) \<and> Q (g x)" if "x \<in> set xs" for x
    unfolding g_def using someI_ex [OF assms [OF that]] .
  then have "omap f xs = Ok (map g xs)" by (intro omap_Ok) blast
  then show ?thesis using g by auto
qed

lemma simplify_branch_copy:
  "simplify_branch ins = ins \<or> (\<exists>b \<in> set (succs ins). simplify_branch ins = mk_branch b)"
  by (auto simp: simplify_branch_def split: list.splits)

lemma clone_exists:
  assumes cfg: "cfg_ok E m" "contains (floop E) b" "i \<in> set (mbody m b)"
    and bbm: "bbm (fexit E) \<noteq> None" "bbm (fpred E) \<noteq> None"
  shows "\<exists>ins'. clone_instr E bbm (mcode m i) = Ok ins' \<and> copy_of bbm (mcode m i) ins'"
proof -
  let ?ins = "mcode m i"
  have post: "(b, fexit E) \<in> (up_rel (fpostidom E))\<^sup>*" and dom: "(b, fpred E) \<in> (up_rel (fidom E))\<^sup>*" if "contains (floop E) b" for b
    using cfg(1) that by (simp_all add: cfg_ok_def)
  consider "is_terminator (opcode ?ins)" | "opcode ?ins = PHI" | "\<not> is_terminator (opcode ?ins)" "opcode ?ins \<noteq> PHI" by blast
  then show ?thesis
  proof cases
    case 1
    have "\<exists>y. repoint_succ E bbm s = Ok y \<and> y \<in> ran bbm" if "s \<in> set (succs ?ins)" for s
    proof -
      have s: "s = fexit E \<or> contains (floop E) s" using cfg 1 that unfolding cfg_ok_def by blast
      then have "(s, fexit E) \<in> (up_rel (fpostidom E))\<^sup>*" using post by auto
      from run_climb [where bbm = bbm, OF this bbm(1)] show ?thesis using s by (auto simp: repoint_succ_def)
    qed
    from omap_exists [of "succs ?ins" "repoint_succ E bbm" "\<lambda>y. y \<in> ran bbm", OF this] obtain ss where
      ss: "omap (repoint_succ E bbm) (succs ?ins) = Ok ss" "\<forall>y \<in> set ss. y \<in> ran bbm" by blast
    let ?c = "simplify_branch (?ins\<lparr>succs := ss\<rparr>)"
    have "clone_instr E bbm ?ins = Ok ?c" using 1 ss by (simp add: clone_instr_def)
    moreover have "opcode ?ins \<noteq> PHI" using 1 by (auto simp: is_terminator_def)
    then have "copy_of bbm ?ins ?c"
      using simplify_branch_copy [of "?ins\<lparr>succs := ss\<rparr>"] 1 ss(2) by (auto simp: copy_of_def is_terminator_def)
    ultimately show ?thesis by blast
  next
    case 2
    then have nt: "\<not> is_terminator (opcode ?ins)" by (simp add: is_terminator_def)
    have "\<exists>y. repoint_incoming E bbm s = Ok y \<and> y \<in> ran bbm" if "s \<in> set (incoming ?ins)" for s
    proof -
      have "s = fpred E \<or> contains (floop E) s" using cfg 2 that unfolding cfg_ok_def by blast
      then have "(s, fpred E) \<in> (up_rel (fidom E))\<^sup>*" using dom by auto
      from run_climb [where bbm = bbm, OF this bbm(2)] show ?thesis by (auto simp: repoint_incoming_def)
    qed
    from omap_exists [of "incoming ?ins" "repoint_incoming E bbm" "\<lambda>y. y \<in> ran bbm", OF this] obtain bs where
      "omap (repoint_incoming E bbm) (incoming ?ins) = Ok bs" "\<forall>y \<in> set bs. y \<in> ran bbm" by blast
    then show ?thesis using 2 nt by (auto simp: clone_instr_def copy_of_def)
  next
    case 3
    then show ?thesis by (auto simp: clone_instr_def copy_of_def)
  qed
qed

section \<open>Copying the blocks\<close>

definition keep :: "plan \<Rightarrow> module_ir \<Rightarrow> nat \<Rightarrow> Inst \<Rightarrow> bool" where
  "keep P m t i \<longleftrightarrow> thread_num P i = t \<or> is_terminator (opcode (mcode m i))"

definition assigned_inst :: "plan \<Rightarrow> Inst \<Rightarrow> bool" where
  "assigned_inst P i \<longleftrightarrow> (\<exists>a. getInstAssigned (thread_of (threads_of P)) (sccId (sccs P)) (VInst i) = Ok a \<and> 0 \<le> a \<and> a < int MAX_THREAD)"

lemma assigned_inst_thread:
  assumes "assigned_inst P i"
  shows "getInstAssigned (thread_of (threads_of P)) (sccId (sccs P)) (VInst i) = Ok (int (thread_num P i))" "thread_num P i < MAX_THREAD"
  using assms getInstAssigned_thread unfolding assigned_inst_def by fastforce+

text \<open>
  The state after copies of the instructions \<open>D\<close>, in this order, have been made from the state \<open>st0\<close>: the copy of the
  \<open>j\<close>-th one is the \<open>j\<close>-th new pointer.
\<close>

definition copied :: "split_env \<Rightarrow> nat \<Rightarrow> (BB \<Rightarrow> BB option) \<Rightarrow> clones \<Rightarrow> Inst list \<Rightarrow> clones \<Rightarrow> bool" where
  "copied E t bbm st0 D st \<longleftrightarrow> (let m0 = cmod st0; m = cmod st; p = next_ptr (cmod st0) in
     store_inv m \<and> next_ptr m = p + length D \<and> distinct D \<and>
     mfunc m = mfunc m0 \<and> mblocks m = mblocks m0 \<and> mdecl m = mdecl m0 \<and> margs m = margs m0 \<and> marg_ty m = marg_ty m0 \<and>
     mconst_ty m = mconst_ty m0 \<and> (\<forall>k < p. mcode m k = mcode m0 k \<and> mparent m k = mparent m0 k) \<and>
     (\<forall>j < length D. clone_instr E bbm (mcode m0 (D ! j)) = Ok (mcode m (p + j)) \<and>
       Some (mparent m (p + j)) = bbm (mparent m0 (D ! j))) \<and>
     (\<forall>b. mbody m b = mbody m0 b @ map ((+) p) (filter (\<lambda>j. bbm (mparent m0 (D ! j)) = Some b) [0..<length D])) \<and>
     (\<forall>j < length D. instMap st t (VInst (D ! j)) = Some (VInst (p + j)) \<and> newToOld st (VInst (p + j)) = Some (VInst (D ! j))) \<and>
     (\<forall>v. v \<notin> VInst ` set D \<longrightarrow> instMap st t v = instMap st0 t v) \<and>
     (\<forall>t'. t' \<noteq> t \<longrightarrow> instMap st t' = instMap st0 t' \<and> placeEquivalents st t' = placeEquivalents st0 t') \<and>
     (\<forall>k < p. newToOld st (VInst k) = newToOld st0 (VInst k)) \<and>
     (\<forall>i n. placeEquivalents st t i = Some n \<longrightarrow> placeEquivalents st0 t i = Some n \<or>
       p \<le> n \<and> n < p + length D \<and> mparent m0 (D ! (n - p)) = mparent m0 i))"

lemma copiedD:
  assumes "copied E t bbm st0 D st"
  shows "store_inv (cmod st)" "next_ptr (cmod st) = next_ptr (cmod st0) + length D" "distinct D"
    "mfunc (cmod st) = mfunc (cmod st0)" "mblocks (cmod st) = mblocks (cmod st0)" "mdecl (cmod st) = mdecl (cmod st0)"
    "margs (cmod st) = margs (cmod st0)" "marg_ty (cmod st) = marg_ty (cmod st0)" "mconst_ty (cmod st) = mconst_ty (cmod st0)"
    "k < next_ptr (cmod st0) \<Longrightarrow> mcode (cmod st) k = mcode (cmod st0) k \<and> mparent (cmod st) k = mparent (cmod st0) k"
    "j < length D \<Longrightarrow> clone_instr E bbm (mcode (cmod st0) (D ! j)) = Ok (mcode (cmod st) (next_ptr (cmod st0) + j)) \<and>
       Some (mparent (cmod st) (next_ptr (cmod st0) + j)) = bbm (mparent (cmod st0) (D ! j))"
    "mbody (cmod st) b = mbody (cmod st0) b @
       map ((+) (next_ptr (cmod st0))) (filter (\<lambda>j. bbm (mparent (cmod st0) (D ! j)) = Some b) [0..<length D])"
    "j < length D \<Longrightarrow> instMap st t (VInst (D ! j)) = Some (VInst (next_ptr (cmod st0) + j)) \<and>
       newToOld st (VInst (next_ptr (cmod st0) + j)) = Some (VInst (D ! j))"
    "v \<notin> VInst ` set D \<Longrightarrow> instMap st t v = instMap st0 t v"
    "t' \<noteq> t \<Longrightarrow> instMap st t' = instMap st0 t' \<and> placeEquivalents st t' = placeEquivalents st0 t'"
    "k < next_ptr (cmod st0) \<Longrightarrow> newToOld st (VInst k) = newToOld st0 (VInst k)"
    "placeEquivalents st t i = Some n \<Longrightarrow> placeEquivalents st0 t i = Some n \<or>
       next_ptr (cmod st0) \<le> n \<and> n < next_ptr (cmod st0) + length D \<and>
       mparent (cmod st0) (D ! (n - next_ptr (cmod st0))) = mparent (cmod st0) i"
proof -
  note c = assms [unfolded copied_def Let_def]
  show "store_inv (cmod st)" using c by (elim conjE)
  show "next_ptr (cmod st) = next_ptr (cmod st0) + length D" using c by (elim conjE)
  show "distinct D" using c by (elim conjE)
  show "mfunc (cmod st) = mfunc (cmod st0)" using c by (elim conjE)
  show "mblocks (cmod st) = mblocks (cmod st0)" using c by (elim conjE)
  show "mdecl (cmod st) = mdecl (cmod st0)" using c by (elim conjE)
  show "margs (cmod st) = margs (cmod st0)" using c by (elim conjE)
  show "marg_ty (cmod st) = marg_ty (cmod st0)" using c by (elim conjE)
  show "mconst_ty (cmod st) = mconst_ty (cmod st0)" using c by (elim conjE)
  show "k < next_ptr (cmod st0) \<Longrightarrow> mcode (cmod st) k = mcode (cmod st0) k \<and> mparent (cmod st) k = mparent (cmod st0) k"
    using c by (elim conjE) simp
  show "j < length D \<Longrightarrow> clone_instr E bbm (mcode (cmod st0) (D ! j)) = Ok (mcode (cmod st) (next_ptr (cmod st0) + j)) \<and>
       Some (mparent (cmod st) (next_ptr (cmod st0) + j)) = bbm (mparent (cmod st0) (D ! j))"
    using c by (elim conjE) simp
  show "mbody (cmod st) b = mbody (cmod st0) b @
       map ((+) (next_ptr (cmod st0))) (filter (\<lambda>j. bbm (mparent (cmod st0) (D ! j)) = Some b) [0..<length D])"
    using c by (elim conjE) (erule allE, assumption)
  show "j < length D \<Longrightarrow> instMap st t (VInst (D ! j)) = Some (VInst (next_ptr (cmod st0) + j)) \<and>
       newToOld st (VInst (next_ptr (cmod st0) + j)) = Some (VInst (D ! j))"
    using c by (elim conjE) simp
  show "v \<notin> VInst ` set D \<Longrightarrow> instMap st t v = instMap st0 t v"
    using c by (elim conjE) simp
  show "t' \<noteq> t \<Longrightarrow> instMap st t' = instMap st0 t' \<and> placeEquivalents st t' = placeEquivalents st0 t'"
    using c by (elim conjE) simp
  show "k < next_ptr (cmod st0) \<Longrightarrow> newToOld st (VInst k) = newToOld st0 (VInst k)"
    using c by (elim conjE) simp
  show "placeEquivalents st t i = Some n \<Longrightarrow> placeEquivalents st0 t i = Some n \<or>
       next_ptr (cmod st0) \<le> n \<and> n < next_ptr (cmod st0) + length D \<and>
       mparent (cmod st0) (D ! (n - next_ptr (cmod st0))) = mparent (cmod st0) i"
    using c by (elim conjE) simp
qed

lemma copied_start: "store_inv (cmod st) \<Longrightarrow> copied E t bbm st [] st"
  by (simp add: copied_def Let_def)

text \<open>The instructions of other threads whose place is known.\<close>

definition pointed :: "clones \<Rightarrow> nat \<Rightarrow> nat \<Rightarrow> Inst set \<Rightarrow> bool" where
  "pointed st t p S \<longleftrightarrow> (\<forall>i \<in> S. \<exists>n. placeEquivalents st t i = Some n \<and> p \<le> n \<and> n < next_ptr (cmod st))"

lemma fold_point:
  "fold (\<lambda>p tab. tab(p \<mapsto> n)) xs tab i = (if i \<in> set xs then Some n else tab i)"
  by (induction xs arbitrary: tab) auto

lemma copy_keep:
  assumes C: "copied E t bbm st0 D st" and i: "i < next_ptr (cmod st0)" "i \<notin> set D"
    and k: "keep (fplan E) (cmod st0) t i" "assigned_inst (fplan E) i"
    and nb: "bbm (mparent (cmod st0) i) = Some nb" "nb < next_ptr (cmod st0)"
    and cl: "clone_instr E bbm (mcode (cmod st0) i) = Ok ins"
    and tp: "\<forall>x \<in> set tp. mparent (cmod st0) x = mparent (cmod st0) i"
  shows "\<exists>st'. copy_inst E t bbm nb (st, tp) i = Ok (st', []) \<and> copied E t bbm st0 (D @ [i]) st' \<and>
    (\<forall>x. placeEquivalents st' t x = (if x \<in> set tp then Some (next_ptr (cmod st)) else placeEquivalents st t x))"
proof -
  let ?m = "cmod st" and ?mz = "cmod st0" and ?p = "next_ptr (cmod st0)"
  let ?n = "next_ptr ?m" and ?my = "snd (emit_back nb ins ?m)"
  let ?st' = "st\<lparr>cmod := ?my, instMap := (instMap st)(t := (instMap st t)(VInst i \<mapsto> VInst ?n)),
      newInstAssigned := (newInstAssigned st)(VInst ?n \<mapsto> t), newToOld := (newToOld st)(VInst ?n \<mapsto> VInst i),
      placeEquivalents := (placeEquivalents st)(t := fold (\<lambda>p tab. tab(p \<mapsto> ?n)) tp (placeEquivalents st t))\<rparr>"
  note c = copiedD [OF C]
  have code: "mcode ?m i = mcode ?mz i" using c(10) [OF i(1)] by simp
  have n: "?n = ?p + length D" by (rule c(2))
  have cond: "\<not> (int (thread_num (fplan E) i) \<noteq> int t \<and> \<not> is_terminator (opcode (mcode ?m i)))" using k(1) code by (auto simp: keep_def)
  have run: "copy_inst E t bbm nb (st, tp) i = Ok (?st', [])"
    using cond cl assigned_inst_thread(1) [OF k(2)] by (simp add: copy_inst_def code emit_back_def split_beta Let_def)
  have m1: "mcode ?my = (mcode ?m)(?n := ins)" "mparent ?my = (mparent ?m)(?n := nb)" "next_ptr ?my = Suc ?n"
    "mbody ?my = (mbody ?m)(nb := mbody ?m nb @ [?n])" "mfunc ?my = mfunc ?m" "mblocks ?my = mblocks ?m" "mdecl ?my = mdecl ?m"
    "margs ?my = margs ?m" "marg_ty ?my = marg_ty ?m" "mconst_ty ?my = mconst_ty ?m"
    by (simp_all add: emit_back_def)
  have inv: "store_inv ?my" unfolding emit_back_def by (rule emit_at_inv [OF c(1)]) (use nb(2) n in simp)
  have body: "mbody ?my b = mbody ?mz b @ map ((+) ?p) (filter (\<lambda>j. bbm (mparent ?mz ((D @ [i]) ! j)) = Some b) [0..<length (D @ [i])])" for b
  proof -
    have "filter (\<lambda>j. bbm (mparent ?mz ((D @ [i]) ! j)) = Some b) [0..<length D] = filter (\<lambda>j. bbm (mparent ?mz (D ! j)) = Some b) [0..<length D]"
      by (rule filter_cong) (simp_all add: nth_append)
    then show ?thesis using c(12) [of b] nb(1) n unfolding m1(4) by auto
  qed
  have new: "clone_instr E bbm (mcode ?mz ((D @ [i]) ! j)) = Ok (mcode ?my (?p + j)) \<and>
        Some (mparent ?my (?p + j)) = bbm (mparent ?mz ((D @ [i]) ! j))" if "j < length (D @ [i])" for j
    using that c(11) [of j] cl nb(1) n unfolding m1 by (cases "j = length D") (auto simp: nth_append)
  have tabs: "((instMap st)(t := (instMap st t)(VInst i \<mapsto> VInst ?n))) t (VInst ((D @ [i]) ! j)) = Some (VInst (?p + j)) \<and>
        ((newToOld st)(VInst ?n \<mapsto> VInst i)) (VInst (?p + j)) = Some (VInst ((D @ [i]) ! j))" if j: "j < length (D @ [i])" for j
  proof (cases "j = length D")
    case False
    then have "j < length D" using j by simp
    moreover have "D ! j \<noteq> i" using nth_mem [OF \<open>j < length D\<close>] i(2) by auto
    ultimately show ?thesis using c(13) [of j] n by (simp add: nth_append)
  qed (simp add: n)
  have place: "fold (\<lambda>p tab. tab(p \<mapsto> ?n)) tp (placeEquivalents st t) x = Some y \<Longrightarrow>
      placeEquivalents st0 t x = Some y \<or>
      ?p \<le> y \<and> y < ?p + length (D @ [i]) \<and> mparent ?mz ((D @ [i]) ! (y - ?p)) = mparent ?mz x" for x y
  proof (cases "x \<in> set tp")
    case True
    moreover assume "fold (\<lambda>p tab. tab(p \<mapsto> ?n)) tp (placeEquivalents st t) x = Some y"
    ultimately have "y = ?p + length D" using n by (simp add: fold_point)
    then show ?thesis using bspec [OF tp True] by simp
  next
    case False
    moreover assume "fold (\<lambda>p tab. tab(p \<mapsto> ?n)) tp (placeEquivalents st t) x = Some y"
    ultimately have "placeEquivalents st t x = Some y" by (simp add: fold_point)
    from c(17) [OF this] show ?thesis by (auto simp: nth_append)
  qed
  have "copied E t bbm st0 (D @ [i]) ?st'"
    unfolding copied_def Let_def clones.simps
  proof (intro conjI allI impI)
    fix x y
    assume "placeEquivalents ?st' t x = Some y"
    then have "fold (\<lambda>p tab. tab(p \<mapsto> ?n)) tp (placeEquivalents st t) x = Some y" by simp
    then show "placeEquivalents st0 t x = Some y \<or>
        ?p \<le> y \<and> y < ?p + length (D @ [i]) \<and> mparent ?mz ((D @ [i]) ! (y - ?p)) = mparent ?mz x" by (rule place)
  qed (use c(1-10) c(14-16) inv n i new tabs body in \<open>simp_all add: m1\<close>)
  moreover have "\<forall>x. placeEquivalents ?st' t x = (if x \<in> set tp then Some ?n else placeEquivalents st t x)"
    unfolding clones.simps by (simp add: fold_point)
  ultimately show ?thesis using run by blast
qed

lemma copy_drop:
  assumes "copied E t bbm st0 D st" "i < next_ptr (cmod st0)" "\<not> keep (fplan E) (cmod st0) t i" "assigned_inst (fplan E) i"
  shows "copy_inst E t bbm nb (st, tp) i = Ok (st, tp @ [i])"
proof -
  have "mcode (cmod st) i = mcode (cmod st0) i" using copiedD(10) [OF assms(1,2)] by simp
  then show ?thesis using assms(3) assigned_inst_thread(1) [OF assms(4)] by (simp add: copy_inst_def keep_def)
qed

definition kept :: "plan \<Rightarrow> module_ir \<Rightarrow> nat \<Rightarrow> BB \<Rightarrow> Inst list" where
  "kept P m t b = filter (keep P m t) (mbody m b)"

text \<open>What a block of the loop has to be like for its copy.\<close>

definition block_ready :: "split_env \<Rightarrow> (BB \<Rightarrow> BB option) \<Rightarrow> module_ir \<Rightarrow> BB \<Rightarrow> bool" where
  "block_ready E bbm m b \<longleftrightarrow> contains (floop E) b \<and> (\<exists>nb < next_ptr m. bbm b = Some nb) \<and> b \<notin> ran bbm \<and>
     (\<forall>i \<in> set (mbody m b). assigned_inst (fplan E) i) \<and> mbody m b \<noteq> [] \<and> is_terminator (opcode (mcode m (last (mbody m b))))"

lemma pointed_mono:
  "pointed st t p S \<Longrightarrow> next_ptr (cmod st) \<le> next_ptr (cmod st') \<Longrightarrow>
    (\<And>x n. placeEquivalents st t x = Some n \<Longrightarrow> \<exists>n'. placeEquivalents st' t x = Some n' \<and> (n' = n \<or> p \<le> n' \<and> n' < next_ptr (cmod st'))) \<Longrightarrow>
    pointed st' t p S"
  unfolding pointed_def by (metis order_less_le_trans)

lemma copy_block_run:
  assumes C: "copied E t bbm st0 D st" and inv: "store_inv (cmod st0)" and cfg: "cfg_ok E (cmod st0)"
    and bbm: "bbm (fexit E) \<noteq> None" "bbm (fpred E) \<noteq> None"
    and ready: "block_ready E bbm (cmod st0) b" and fresh: "set D \<inter> set (mbody (cmod st0) b) = {}"
    and P: "pointed st t (next_ptr (cmod st0)) S"
  shows "\<exists>st'. copy_block E t bbm st b = Ok st' \<and> copied E t bbm st0 (D @ kept (fplan E) (cmod st0) t b) st' \<and>
    pointed st' t (next_ptr (cmod st0)) (S \<union> {i \<in> set (mbody (cmod st0) b). \<not> keep (fplan E) (cmod st0) t i})"
proof -
  let ?M = "cmod st0" and ?p = "next_ptr (cmod st0)" and ?K = "keep (fplan E) (cmod st0) t"
  obtain nb where r: "contains (floop E) b" "bbm b = Some nb" "nb < ?p" "b \<notin> ran bbm"
    "\<forall>i \<in> set (mbody ?M b). assigned_inst (fplan E) i" "mbody ?M b \<noteq> []" "is_terminator (opcode (mcode ?M (last (mbody ?M b))))"
    using ready by (auto simp: block_ready_def)
  have body: "mbody (cmod st) b = mbody ?M b"
    using copiedD(12) [OF C, of b] r(4) by (simp add: ran_def filter_False)
  let ?I = "\<lambda>xs (acc :: clones \<times> Inst list). copied E t bbm st0 (D @ filter ?K xs) (fst acc) \<and> pointed (fst acc) t ?p (S \<union> ({i \<in> set xs. \<not> ?K i} - set (snd acc))) \<and>
    set (snd acc) \<subseteq> set xs \<and> (xs \<noteq> [] \<longrightarrow> ?K (last xs) \<longrightarrow> snd acc = [])"
  have "\<exists>acc. ofold (copy_inst E t bbm nb) (mbody ?M b) (st, []) = Ok acc \<and> ?I (mbody ?M b) acc"
  proof (rule ofold_invariant [where I = ?I])
    show "?I [] (st, [])" using C P by simp
  next
    fix xs i rest and acc :: "clones \<times> Inst list"
    assume split: "mbody ?M b = xs @ i # rest" and I: "?I xs acc"
    obtain s tp where acc: "acc = (s, tp)" by (cases acc)
    have i: "i \<in> set (mbody ?M b)" by (simp add: split)
    then have ip: "i < ?p" "mparent ?M i = b" using store_inst [OF inv] by auto
    have as: "assigned_inst (fplan E) i" using r(5) i by blast
    have Cs: "copied E t bbm st0 (D @ filter ?K xs) s" using I by (simp add: acc)
    have nx: "i \<notin> set xs" using store_distinct(1) [OF inv, of b] by (simp add: split)
    show "\<exists>acc'. copy_inst E t bbm nb acc i = Ok acc' \<and> ?I (xs @ [i]) acc'"
    proof (cases "?K i")
      case False
      have "copy_inst E t bbm nb (s, tp) i = Ok (s, tp @ [i])" by (rule copy_drop [OF Cs ip(1) False as])
      moreover have "{x \<in> set (xs @ [i]). \<not> ?K x} - set (tp @ [i]) = {x \<in> set xs. \<not> ?K x} - set tp" using nx by auto
      ultimately show ?thesis using I False by (simp add: acc) blast
    next
      case True
      obtain ins where cl: "clone_instr E bbm (mcode ?M i) = Ok ins"
        using clone_exists [OF cfg r(1) i bbm] by blast
      have nD: "i \<notin> set (D @ filter ?K xs)" using fresh i nx by auto
      have nbp: "bbm (mparent ?M i) = Some nb" using r(2) ip(2) by simp
      have tpb: "\<forall>x \<in> set tp. mparent ?M x = mparent ?M i"
        using I split store_inst [OF inv] ip(2) by (fastforce simp: acc)
      obtain s' where s': "copy_inst E t bbm nb (s, tp) i = Ok (s', [])" "copied E t bbm st0 ((D @ filter ?K xs) @ [i]) s'"
        "\<forall>x. placeEquivalents s' t x = (if x \<in> set tp then Some (next_ptr (cmod s)) else placeEquivalents s t x)"
        using copy_keep [OF Cs ip(1) nD True as nbp r(3) cl tpb] by blast
      have np: "next_ptr (cmod s') = Suc (next_ptr (cmod s))" "?p \<le> next_ptr (cmod s)"
        using copiedD(2) [OF Cs] copiedD(2) [OF s'(2)] by simp_all
      have pt: "pointed s' t ?p (S \<union> ({x \<in> set xs. \<not> ?K x} - set tp))"
        by (rule pointed_mono [of s]) (use I np s'(3) in \<open>auto simp: acc\<close>)
      have "\<exists>n. placeEquivalents s' t x = Some n \<and> ?p \<le> n \<and> n < next_ptr (cmod s')"
        if x: "x \<in> S \<union> {x \<in> set (xs @ [i]). \<not> ?K x}" for x
      proof (cases "x \<in> set tp")
        case False
        then have "x \<in> S \<union> ({x \<in> set xs. \<not> ?K x} - set tp)" using x True by auto
        then show ?thesis using pt unfolding pointed_def by blast
      qed (use s'(3) np in simp)
      then have "pointed s' t ?p (S \<union> {x \<in> set (xs @ [i]). \<not> ?K x})" unfolding pointed_def by blast
      then show ?thesis using s' True by (simp add: acc)
    qed
  qed
  then obtain st' left where l: "ofold (copy_inst E t bbm nb) (mbody ?M b) (st, []) = Ok (st', left)"
    "copied E t bbm st0 (D @ kept (fplan E) ?M t b) st'" "pointed st' t ?p (S \<union> ({i \<in> set (mbody ?M b). \<not> ?K i} - set left))"
    "?K (last (mbody ?M b)) \<longrightarrow> left = []"
    using r(6) by (auto simp: kept_def)
  have "left = []" using l(4) r(7) by (simp add: keep_def)
  then show ?thesis using l r(2) by (simp add: copy_block_def body)
qed

lemma copy_blocks_run:
  assumes inv: "store_inv (cmod st0)" and cfg: "cfg_ok E (cmod st0)"
    and bbm: "bbm (fexit E) \<noteq> None" "bbm (fpred E) \<noteq> None"
    and ready: "\<forall>b \<in> set rel. block_ready E bbm (cmod st0) b" and dist: "distinct rel"
  shows "\<exists>st'. ofold (copy_block E t bbm) rel st0 = Ok st' \<and>
    copied E t bbm st0 (concat (map (kept (fplan E) (cmod st0) t) rel)) st' \<and>
    pointed st' t (next_ptr (cmod st0)) {i. \<exists>b \<in> set rel. i \<in> set (mbody (cmod st0) b) \<and> \<not> keep (fplan E) (cmod st0) t i}"
proof (rule ofold_invariant [where I = "\<lambda>bs st. copied E t bbm st0 (concat (map (kept (fplan E) (cmod st0) t) bs)) st \<and>
      pointed st t (next_ptr (cmod st0)) {i. \<exists>b \<in> set bs. i \<in> set (mbody (cmod st0) b) \<and> \<not> keep (fplan E) (cmod st0) t i}", simplified conj_assoc])
  show "copied E t bbm st0 (concat (map (kept (fplan E) (cmod st0) t) [])) st0 \<and>
      pointed st0 t (next_ptr (cmod st0)) {i. \<exists>b \<in> set []. i \<in> set (mbody (cmod st0) b) \<and> \<not> keep (fplan E) (cmod st0) t i}"
    using copied_start [OF inv] by (simp add: pointed_def)
next
  fix bs b rest st
  assume split: "rel = bs @ b # rest" and I: "copied E t bbm st0 (concat (map (kept (fplan E) (cmod st0) t) bs)) st \<and>
      pointed st t (next_ptr (cmod st0)) {i. \<exists>b \<in> set bs. i \<in> set (mbody (cmod st0) b) \<and> \<not> keep (fplan E) (cmod st0) t i}"
  have r: "block_ready E bbm (cmod st0) b" using ready split by simp
  have nb: "b \<notin> set bs" using dist split by simp
  have "x \<notin> set (mbody (cmod st0) b)" if x: "x \<in> set (concat (map (kept (fplan E) (cmod st0) t) bs))" for x
  proof -
    obtain c where "c \<in> set bs" "x \<in> set (mbody (cmod st0) c)" using x by (auto simp: kept_def)
    then show ?thesis using nb store_inst [OF inv] by metis
  qed
  then have "set (concat (map (kept (fplan E) (cmod st0) t) bs)) \<inter> set (mbody (cmod st0) b) = {}" by (simp only: disjoint_iff) blast
  from copy_block_run [OF conjunct1 [OF I] inv cfg bbm r this conjunct2 [OF I]] obtain st' where
    "copy_block E t bbm st b = Ok st'"
    "copied E t bbm st0 (concat (map (kept (fplan E) (cmod st0) t) bs) @ kept (fplan E) (cmod st0) t b) st'"
    "pointed st' t (next_ptr (cmod st0)) ({i. \<exists>b \<in> set bs. i \<in> set (mbody (cmod st0) b) \<and> \<not> keep (fplan E) (cmod st0) t i} \<union>
      {i \<in> set (mbody (cmod st0) b). \<not> keep (fplan E) (cmod st0) t i})"
    by blast
  moreover have "{i. \<exists>b' \<in> set (bs @ [b]). i \<in> set (mbody (cmod st0) b') \<and> \<not> keep (fplan E) (cmod st0) t i} =
      {i. \<exists>b \<in> set bs. i \<in> set (mbody (cmod st0) b) \<and> \<not> keep (fplan E) (cmod st0) t i} \<union>
      {i \<in> set (mbody (cmod st0) b). \<not> keep (fplan E) (cmod st0) t i}" by auto
  ultimately show "\<exists>st'. copy_block E t bbm st b = Ok st' \<and> copied E t bbm st0 (concat (map (kept (fplan E) (cmod st0) t) (bs @ [b]))) st' \<and>
      pointed st' t (next_ptr (cmod st0)) {i. \<exists>b' \<in> set (bs @ [b]). i \<in> set (mbody (cmod st0) b') \<and> \<not> keep (fplan E) (cmod st0) t i}"
    by simp
qed

end
