(* ===== verification/Loop_Split_Thread.thy ===== *)
theory Loop_Split_Thread
  imports Loop_Split_Copy Sync_Pairing
begin

text \<open>
  One iteration of the loop over the threads in \<open>loopSplit\<close>: the blocks of the function of a thread, the copies in
  them, the loads of the live-in values in its entry block and the stores of its live-out values in its exit block.
\<close>

section \<open>Modules that are only added to\<close>

text \<open>The old instructions and blocks stay as they are, and so do all functions except \<open>gs\<close>.\<close>

definition extended :: "string set \<Rightarrow> module_ir \<Rightarrow> module_ir \<Rightarrow> bool" where
  "extended gs m m' \<longleftrightarrow> next_ptr m \<le> next_ptr m' \<and>
     (\<forall>k < next_ptr m. mcode m' k = mcode m k \<and> mparent m' k = mparent m k \<and> mbody m' k = mbody m k \<and> mfunc m' k = mfunc m k) \<and>
     (\<forall>g. g \<notin> gs \<longrightarrow> mblocks m' g = mblocks m g) \<and> mdecl m' = mdecl m \<and> margs m' = margs m \<and> marg_ty m' = marg_ty m \<and>
     mconst_ty m' = mconst_ty m"

lemma extended_refl: "extended gs m m"
  by (simp add: extended_def)

lemma extended_trans: "extended gs m1 m2 \<Longrightarrow> extended gs m2 m3 \<Longrightarrow> extended gs m1 m3"
  by (auto simp: extended_def)

lemma extended_mono: "extended gs m m' \<Longrightarrow> gs \<subseteq> gs' \<Longrightarrow> extended gs' m m'"
  by (auto simp: extended_def)

lemma extendedD:
  assumes "extended gs m m'"
  shows "next_ptr m \<le> next_ptr m'" "k < next_ptr m \<Longrightarrow> mcode m' k = mcode m k" "k < next_ptr m \<Longrightarrow> mparent m' k = mparent m k"
    "k < next_ptr m \<Longrightarrow> mbody m' k = mbody m k" "k < next_ptr m \<Longrightarrow> mfunc m' k = mfunc m k" "g \<notin> gs \<Longrightarrow> mblocks m' g = mblocks m g"
    "mdecl m' = mdecl m" "margs m' = margs m" "marg_ty m' = marg_ty m" "mconst_ty m' = mconst_ty m"
  using assms by (auto simp: extended_def)

lemma extended_value_ty:
  assumes "extended gs m m'" "below (next_ptr m) v"
  shows "value_ty m' v = value_ty m v"
  using assms by (cases v) (simp_all add: extendedD)

lemma extended_emit_at:
  "extended gs m m' \<Longrightarrow> next_ptr m \<le> b \<Longrightarrow> extended gs m (snd (emit_at b p ins m'))"
  by (auto simp: extended_def)

lemma extended_emit_list:
  "extended gs m m' \<Longrightarrow> br < next_ptr m' \<Longrightarrow> next_ptr m \<le> mparent m' br \<Longrightarrow> extended gs m (emit_list br inss m')"
  by (auto simp: extended_def emit_list_code emit_list_parent emit_list_body_other)

lemma extended_new_block:
  "extended gs m m' \<Longrightarrow> f \<in> gs \<Longrightarrow> extended gs m (snd (new_block f p m'))"
  by (auto simp: extended_def)

lemma extended_replace_blocks:
  assumes "extended gs m m'" "store_inv m'" "distinct bs" "\<forall>b \<in> set bs. next_ptr m \<le> b" "\<forall>b \<in> set bs. \<forall>i \<in> set (mbody m' b). next_ptr m \<le> i"
  shows "extended gs m (replace_blocks rep bs m')"
  using assms(1,4,5) by (fastforce simp: extended_def replace_blocks_code [OF assms(2,3)])

section \<open>The blocks of a thread\<close>

lemma copy_bbs:
  assumes "store_inv m" "mblocks m fn = as @ [x]" "x \<notin> set as" "distinct rel" "dom bbm \<inter> set rel = {}"
  shows "\<exists>m'. fold (copy_bb fn x) rel (m, bbm) = (m', bbm ++ map_of (zip rel [next_ptr m..<next_ptr m + length rel])) \<and>
    store_inv m' \<and> extended {fn} m m' \<and> next_ptr m' = next_ptr m + length rel \<and> mcode m' = mcode m \<and> mparent m' = mparent m \<and>
    mblocks m' fn = as @ [next_ptr m..<next_ptr m + length rel] @ [x] \<and> mbody m' = mbody m \<and>
    (\<forall>b. next_ptr m \<le> b \<and> b < next_ptr m + length rel \<longrightarrow> mfunc m' b = fn)"
  using assms
proof (induction rel arbitrary: m as bbm)
  case Nil
  then show ?case by (auto simp: extended_refl)
next
  case (Cons b rel)
  let ?p = "next_ptr m" and ?m = "snd (new_block fn (Some x) m)"
  have inv: "store_inv ?m" by (rule new_block_inv [OF Cons.prems(1)])
  have fresh: "x \<noteq> ?p" "?p \<notin> set as" "mbody m ?p = []"
    using Cons.prems(1,2) store_fresh(2) [OF Cons.prems(1), of fn] by (auto simp: store_inv_def)
  have ext: "extended {fn} m ?m" by (intro extended_new_block extended_refl) simp
  have blocks: "mblocks ?m fn = (as @ [?p]) @ [x]" using Cons.prems(2,3) by (simp add: ins_before_split)
  obtain m' where m': "fold (copy_bb fn x) rel (?m, bbm(b \<mapsto> ?p)) =
      (m', bbm(b \<mapsto> ?p) ++ map_of (zip rel [next_ptr ?m..<next_ptr ?m + length rel]))"
    "store_inv m'" "extended {fn} ?m m'" "next_ptr m' = next_ptr ?m + length rel" "mcode m' = mcode ?m" "mparent m' = mparent ?m"
    "mblocks m' fn = (as @ [?p]) @ [next_ptr ?m..<next_ptr ?m + length rel] @ [x]" "mbody m' = mbody ?m"
    "\<forall>b. next_ptr ?m \<le> b \<and> b < next_ptr ?m + length rel \<longrightarrow> mfunc m' b = fn"
  proof -
    have "x \<notin> set (as @ [?p])" "distinct rel" "dom (bbm(b \<mapsto> ?p)) \<inter> set rel = {}" using Cons.prems(3-5) fresh by auto
    from Cons.IH [OF inv blocks this] that show ?thesis by blast
  qed
  have upt: "[?p..<?p + length (b # rel)] = ?p # [next_ptr ?m..<next_ptr ?m + length rel]" by (simp add: upt_conv_Cons del: upt_Suc)
  have nb: "b \<notin> set rel" using Cons.prems(4) by simp
  have map: "bbm(b \<mapsto> ?p) ++ map_of (zip rel [next_ptr ?m..<next_ptr ?m + length rel]) =
      bbm ++ map_of (zip (b # rel) [?p..<?p + length (b # rel)])"
    unfolding upt using nb
    by (auto simp: fun_eq_iff map_add_def split: option.splits dest: map_of_SomeD set_zip_leftD)
  have func: "mfunc m' c = fn" if "?p \<le> c \<and> c < ?p + length (b # rel)" for c
  proof (cases "c = ?p")
    case True
    then show ?thesis using extendedD(5) [OF m'(3), of ?p] by simp
  next
    case False
    then show ?thesis using that m'(9) by simp
  qed
  have "fold (copy_bb fn x) (b # rel) (m, bbm) = fold (copy_bb fn x) rel (?m, bbm(b \<mapsto> ?p))"
    by (simp add: copy_bb_def new_block_def)
  also have "\<dots> = (m', bbm ++ map_of (zip (b # rel) [?p..<?p + length (b # rel)]))" unfolding m'(1) map ..
  finally have "fold (copy_bb fn x) (b # rel) (m, bbm) = (m', bbm ++ map_of (zip (b # rel) [?p..<?p + length (b # rel)]))" .
  moreover have "mblocks m' fn = as @ [?p..<?p + length (b # rel)] @ [x]" unfolding m'(7) upt by simp
  moreover have "mbody m' = mbody m" using fresh(3) m'(8) by auto
  ultimately show ?case
    using m'(2,4-6) extended_trans [OF ext m'(3)] func by (intro exI [of _ m']) (simp del: upt_Suc zip_Cons_Cons)
qed

text \<open>The empty function: entry block, the blocks of the copies, exit block, and the two terminators.\<close>

definition block_map :: "split_env \<Rightarrow> BB list \<Rightarrow> nat \<Rightarrow> BB \<Rightarrow> BB option" where
  "block_map E rel p = (map_of (zip rel [p + 2..<p + 2 + length rel]))(fpred E \<mapsto> p, fexit E \<mapsto> Suc p)"

definition two_blocks :: "string \<Rightarrow> module_ir \<Rightarrow> module_ir" where
  "two_blocks fn m = snd (new_block fn None (snd (new_block fn None m)))"

definition skel :: "string \<Rightarrow> BB list \<Rightarrow> BB \<Rightarrow> module_ir \<Rightarrow> module_ir" where
  "skel fn rel nh m = (let p = next_ptr m in
     snd (emit_back (Suc p) mk_ret_null (snd (emit_back p (mk_branch nh)
       (fst (fold (copy_bb fn (Suc p)) rel (two_blocks fn m, Map.empty)))))))"

lemma skel_blocks:
  assumes "store_inv m" "mblocks m fn = []" "distinct rel"
  shows "\<exists>m3. fold (copy_bb fn (Suc (next_ptr m))) rel (two_blocks fn m, Map.empty) =
      (m3, map_of (zip rel [next_ptr m + 2..<next_ptr m + 2 + length rel])) \<and> store_inv m3 \<and> extended {fn} m m3 \<and>
    next_ptr m3 = next_ptr m + 2 + length rel \<and> mblocks m3 fn = next_ptr m # [next_ptr m + 2..<next_ptr m + 2 + length rel] @ [Suc (next_ptr m)] \<and>
    (\<forall>b \<ge> next_ptr m. mbody m3 b = []) \<and>
    (\<forall>b. next_ptr m \<le> b \<and> b < next_ptr m + 2 + length rel \<longrightarrow> mfunc m3 b = fn)"
proof -
  let ?p = "next_ptr m" and ?m = "two_blocks fn m"
  have inv: "store_inv ?m" using assms(1) by (simp add: two_blocks_def new_block_inv)
  have blocks: "mblocks ?m fn = [?p] @ [Suc ?p]" using assms(2) by (simp add: two_blocks_def)
  have ext: "extended {fn} m ?m" unfolding two_blocks_def by (intro extended_new_block extended_refl) simp_all
  have f: "mfunc ?m ?p = fn" "mfunc ?m (Suc ?p) = fn" "next_ptr ?m = ?p + 2" by (simp_all add: two_blocks_def)
  have "Suc ?p \<notin> set [?p]" "dom Map.empty \<inter> set rel = {}" by simp_all
  from copy_bbs [OF inv blocks this(1) assms(3) this(2)] obtain m3 where m3:
    "fold (copy_bb fn (Suc ?p)) rel (?m, Map.empty) = (m3, Map.empty ++ map_of (zip rel [next_ptr ?m..<next_ptr ?m + length rel]))"
    "store_inv m3" "extended {fn} ?m m3" "next_ptr m3 = next_ptr ?m + length rel"
    "mblocks m3 fn = [?p] @ [next_ptr ?m..<next_ptr ?m + length rel] @ [Suc ?p]" "mbody m3 = mbody ?m"
    "\<forall>b. next_ptr ?m \<le> b \<and> b < next_ptr ?m + length rel \<longrightarrow> mfunc m3 b = fn" by blast
  have "mbody ?m b = []" if "b \<ge> ?p" for b using assms(1) that by (simp add: two_blocks_def store_inv_def)
  moreover have "mfunc m3 b = fn" if b: "?p \<le> b \<and> b < ?p + 2 + length rel" for b
  proof -
    consider "b = ?p" | "b = Suc ?p" | "next_ptr ?m \<le> b" using b f(3) by linarith
    then show ?thesis using m3(7) b f extendedD(5) [OF m3(3)] by cases simp_all
  qed
  ultimately show ?thesis using m3 f(3) extended_trans [OF ext m3(3)] by auto
qed

lemma skel_facts:
  assumes "store_inv m" "mblocks m fn = []" "distinct rel"
  shows "store_inv (skel fn rel nh m)" "extended {fn} m (skel fn rel nh m)"
    "next_ptr (skel fn rel nh m) = next_ptr m + 4 + length rel"
    "mblocks (skel fn rel nh m) fn = next_ptr m # [next_ptr m + 2..<next_ptr m + 2 + length rel] @ [Suc (next_ptr m)]"
    "mbody (skel fn rel nh m) (next_ptr m) = [next_ptr m + 2 + length rel]"
    "mbody (skel fn rel nh m) (Suc (next_ptr m)) = [next_ptr m + 3 + length rel]"
    "j < length rel \<Longrightarrow> mbody (skel fn rel nh m) (next_ptr m + 2 + j) = []"
    "mcode (skel fn rel nh m) (next_ptr m + 2 + length rel) = mk_branch nh"
    "mcode (skel fn rel nh m) (next_ptr m + 3 + length rel) = mk_ret_null"
    "mparent (skel fn rel nh m) (next_ptr m + 2 + length rel) = next_ptr m"
    "mparent (skel fn rel nh m) (next_ptr m + 3 + length rel) = Suc (next_ptr m)"
    "next_ptr m \<le> b \<Longrightarrow> b < next_ptr m + 2 + length rel \<Longrightarrow> mfunc (skel fn rel nh m) b = fn"
proof -
  let ?p = "next_ptr m"
  obtain m3 where m3: "fst (fold (copy_bb fn (Suc ?p)) rel (two_blocks fn m, Map.empty)) = m3" "store_inv m3" "extended {fn} m m3"
    "next_ptr m3 = ?p + 2 + length rel" "mblocks m3 fn = ?p # [?p + 2..<?p + 2 + length rel] @ [Suc ?p]"
    "\<forall>b \<ge> ?p. mbody m3 b = []" "\<forall>b. ?p \<le> b \<and> b < ?p + 2 + length rel \<longrightarrow> mfunc m3 b = fn"
    using skel_blocks [OF assms] by auto
  have s: "skel fn rel nh m = snd (emit_at (Suc ?p) None mk_ret_null (snd (emit_at ?p None (mk_branch nh) m3)))"
    by (simp add: skel_def Let_def m3(1) emit_back_def)
  show "store_inv (skel fn rel nh m)" unfolding s by (intro emit_at_inv m3(2)) (simp_all add: m3(4))
  show "extended {fn} m (skel fn rel nh m)" unfolding s by (intro extended_emit_at m3(3)) simp_all
  show "next_ptr (skel fn rel nh m) = ?p + 4 + length rel" "mblocks (skel fn rel nh m) fn = ?p # [?p + 2..<?p + 2 + length rel] @ [Suc ?p]"
    by (simp_all add: s m3(4,5))
  show "mbody (skel fn rel nh m) ?p = [?p + 2 + length rel]" "mbody (skel fn rel nh m) (Suc ?p) = [?p + 3 + length rel]"
    "j < length rel \<Longrightarrow> mbody (skel fn rel nh m) (?p + 2 + j) = []"
    using m3(4,6) by (simp_all add: s)
  show "mcode (skel fn rel nh m) (?p + 2 + length rel) = mk_branch nh" "mcode (skel fn rel nh m) (?p + 3 + length rel) = mk_ret_null"
    "mparent (skel fn rel nh m) (?p + 2 + length rel) = ?p" "mparent (skel fn rel nh m) (?p + 3 + length rel) = Suc ?p"
    using m3(4) by (simp_all add: s)
  show "?p \<le> b \<Longrightarrow> b < ?p + 2 + length rel \<Longrightarrow> mfunc (skel fn rel nh m) b = fn"
    using m3(7) by (simp add: s)
qed

section \<open>The entry block\<close>

lemma load_args:
  assumes "value_ty (cmod st) (VInst a) = t" "a < next_ptr (cmod st)"
    "\<forall>k < length vs. pointee (PointerTy (field_ty t (j + k))) = value_ty (cmod st) (vs ! k) \<and> below (next_ptr (cmod st)) (vs ! k)"
  shows "ofold (load_arg i br a) (enumerate j vs) st =
    Ok (st\<lparr>cmod := emit_list br (liveout_code t a (next_ptr (cmod st)) j vs) (cmod st),
      instMap := (instMap st)(i := instMap st i ++ liveout_map (next_ptr (cmod st)) vs)\<rparr>)"
  using assms
proof (induction vs arbitrary: j st)
  case (Cons v vs)
  let ?p = "next_ptr (cmod st)"
  let ?m = "emit_list br [mk_gep t (VInst a) j, mk_load (PointerTy (field_ty t j)) (VInst ?p)] (cmod st)"
  let ?st = "st\<lparr>cmod := ?m, instMap := (instMap st)(i := (instMap st i)(v \<mapsto> VInst (Suc ?p)))\<rparr>"
  have ty: "value_ty ?m w = value_ty (cmod st) w" if "below ?p w" for w using that by (rule value_ty_emit_list)
  have v: "field_ty t j = value_ty (cmod st) v" "below ?p v" using Cons.prems(3) by fastforce+
  have one: "load_arg i br a st (j, v) = Ok ?st"
    using Cons.prems(1,2) v ty [OF v(2)] by (simp add: load_arg_def split_beta)
  have m: "next_ptr ?m = ?p + 2" "value_ty ?m (VInst a) = t" using ty [of "VInst a"] Cons.prems(1,2) by simp_all
  have rest: "\<forall>k < length vs. pointee (PointerTy (field_ty t (Suc j + k))) = value_ty ?m (vs ! k) \<and> below (next_ptr ?m) (vs ! k)"
  proof (intro allI impI)
    fix k assume "k < length vs"
    then have "pointee (PointerTy (field_ty t (j + Suc k))) = value_ty (cmod st) ((v # vs) ! Suc k) \<and> below ?p ((v # vs) ! Suc k)"
      using Cons.prems(3) by (metis Suc_less_eq length_Cons)
    moreover have "below ?p w \<Longrightarrow> below (next_ptr ?m) w" for w by (cases w) simp_all
    ultimately show "pointee (PointerTy (field_ty t (Suc j + k))) = value_ty ?m (vs ! k) \<and> below (next_ptr ?m) (vs ! k)"
      using ty [of "vs ! k"] by simp
  qed
  have "ofold (load_arg i br a) (enumerate j (v # vs)) st = ofold (load_arg i br a) (enumerate (Suc j) vs) ?st" using one by simp
  also have "\<dots> = Ok (?st\<lparr>cmod := emit_list br (liveout_code t a (next_ptr (cmod ?st)) (Suc j) vs) (cmod ?st),
        instMap := (instMap ?st)(i := instMap ?st i ++ liveout_map (next_ptr (cmod ?st)) vs)\<rparr>)"
    by (rule Cons.IH) (use m rest Cons.prems(2) in simp_all)
  also have "emit_list br (liveout_code t a (next_ptr (cmod ?st)) (Suc j) vs) (cmod ?st) =
      emit_list br (liveout_code t a ?p j (v # vs)) (cmod st)" by simp
  also have "(instMap ?st)(i := instMap ?st i ++ liveout_map (next_ptr (cmod ?st)) vs) =
      (instMap st)(i := instMap st i ++ liveout_map ?p (v # vs))"
    using liveout_map_upd [of "instMap st i" v ?p vs] by (simp del: liveout_map.simps fun_upd_apply) (simp del: liveout_map.simps)
  finally show ?case by (simp del: liveout_map.simps)
qed simp

section \<open>The exit block\<close>

fun outs_code :: "Ty \<Rightarrow> Inst \<Rightarrow> nat \<Rightarrow> (nat \<times> Value) list \<Rightarrow> instr list" where
  "outs_code t a p [] = []"
| "outs_code t a p (jv # jvs) = mk_gep t (VInst a) (fst jv) # mk_store (snd jv) (VInst p) # outs_code t a (p + 2) jvs"

lemma length_outs_code [simp]: "length (outs_code t a p jvs) = 2 * length jvs"
  by (induction t a p jvs rule: outs_code.induct) auto

text \<open>The live-out values of a thread, with their fields and their copies.\<close>

definition own_outs :: "plan \<Rightarrow> nat \<Rightarrow> (Value \<Rightarrow> Value option) \<Rightarrow> (nat \<times> Value) list \<Rightarrow> (nat \<times> Value) list" where
  "own_outs P i tab jvs = map (\<lambda>(j, v). (j, the (tab v)))
     (filter (\<lambda>(j, v). getInstAssigned (thread_of (threads_of P)) (sccId (sccs P)) v = Ok (int i)) jvs)"

lemma store_liveouts:
  assumes "value_ty (cmod st) (VInst a) = t" "a < next_ptr (cmod st)"
    "\<forall>(j, v) \<in> set jvs. \<exists>k. getInstAssigned (thread_of (threads_of (fplan E))) (sccId (sccs (fplan E))) v = Ok k \<and>
      (k = int i \<longrightarrow> instMap st i v \<noteq> None)"
  shows "ofold (store_liveout E i br a) jvs st =
    Ok (st\<lparr>cmod := emit_list br (outs_code t a (next_ptr (cmod st)) (own_outs (fplan E) i (instMap st i) jvs)) (cmod st)\<rparr>)"
  using assms
proof (induction jvs arbitrary: st)
  case Nil
  then show ?case by (simp add: own_outs_def)
next
  case (Cons jv jvs)
  let ?as = "getInstAssigned (thread_of (threads_of (fplan E))) (sccId (sccs (fplan E))) (snd jv)" and ?p = "next_ptr (cmod st)"
  obtain k where k: "?as = Ok k" "k = int i \<longrightarrow> instMap st i (snd jv) \<noteq> None" using Cons.prems(3) by fastforce
  show ?case
  proof (cases "k = int i")
    case False
    then have "store_liveout E i br a st jv = Ok st" using k(1) by (simp add: store_liveout_def)
    moreover have "own_outs (fplan E) i (instMap st i) (jv # jvs) = own_outs (fplan E) i (instMap st i) jvs"
      using False k(1) by (auto simp: own_outs_def)
    ultimately show ?thesis using Cons by simp
  next
    case True
    then obtain w where w: "instMap st i (snd jv) = Some w" using k(2) by blast
    let ?m = "emit_list br [mk_gep t (VInst a) (fst jv), mk_store w (VInst ?p)] (cmod st)"
    have one: "store_liveout E i br a st jv = Ok (st\<lparr>cmod := ?m\<rparr>)"
      using True k(1) w Cons.prems(1) by (simp add: store_liveout_def split_beta)
    have own: "own_outs (fplan E) i (instMap st i) (jv # jvs) = (fst jv, w) # own_outs (fplan E) i (instMap st i) jvs"
      using True k(1) w by (auto simp: own_outs_def)
    have "value_ty ?m (VInst a) = t" using Cons.prems(1,2) by simp
    then have "ofold (store_liveout E i br a) jvs (st\<lparr>cmod := ?m\<rparr>) =
        Ok (st\<lparr>cmod := emit_list br (outs_code t a (?p + 2) (own_outs (fplan E) i (instMap st i) jvs)) ?m\<rparr>)"
      using Cons.IH [of "st\<lparr>cmod := ?m\<rparr>"] Cons.prems(2,3) by simp
    then show ?thesis by (simp add: one own)
  qed
qed

definition entry_code :: "split_env \<Rightarrow> Ty option \<Rightarrow> nat \<Rightarrow> nat \<Rightarrow> instr list" where
  "entry_code E sp arg q =
     mk_call sp ''showPlace'' [] # mk_cast BitCast (PointerTy (fargs E)) (VArg arg) #
     liveout_code (PointerTy (fargs E)) (Suc q) (q + 2) 0 (livein (live (fplan E)))"

lemma make_entry_run:
  assumes "margs (cmod st) fn = [arg]" "mdecl (cmod st) ''showPlace'' = Some sp"
    "\<forall>k < length (livein (live (fplan E))). pointee (PointerTy (field_ty (PointerTy (fargs E)) k)) = value_ty (cmod st) (livein (live (fplan E)) ! k) \<and>
      below (next_ptr (cmod st)) (livein (live (fplan E)) ! k)"
  shows "make_entry E i fn br st = (let q = next_ptr (cmod st); tab = instMap st i ++ liveout_map (q + 2) (livein (live (fplan E))) in
    Ok (Suc q, st\<lparr>cmod := replace_blocks tab (mblocks (cmod st) fn) (emit_list br (entry_code E (Some sp) arg q) (cmod st)),
      instMap := (instMap st)(i := tab)\<rparr>))"
proof -
  let ?q = "next_ptr (cmod st)" and ?vs = "livein (live (fplan E))"
  let ?m = "emit_list br [mk_call (Some sp) ''showPlace'' [], mk_cast BitCast (PointerTy (fargs E)) (VArg arg)] (cmod st)"
  have a: "value_ty (cmod (st\<lparr>cmod := ?m\<rparr>)) (VInst (Suc ?q)) = PointerTy (fargs E)" "Suc ?q < next_ptr (cmod (st\<lparr>cmod := ?m\<rparr>))" by simp_all
  have up: "below ?q w \<Longrightarrow> below (next_ptr ?m) w" for w by (cases w) simp_all
  have ty: "below ?q w \<Longrightarrow> value_ty ?m w = value_ty (cmod st) w" for w by (rule value_ty_emit_list)
  have vs: "\<forall>k < length ?vs. pointee (PointerTy (field_ty (PointerTy (fargs E)) (0 + k))) = value_ty (cmod (st\<lparr>cmod := ?m\<rparr>)) (?vs ! k) \<and>
      below (next_ptr (cmod (st\<lparr>cmod := ?m\<rparr>))) (?vs ! k)"
    using assms(3) up ty by simp
  note loads = load_args [OF a vs, of i br]
  have np: "next_ptr (cmod (st\<lparr>cmod := ?m\<rparr>)) = ?q + 2" by simp
  have c: "emit_list br (liveout_code (PointerTy (fargs E)) (Suc ?q) (next_ptr (cmod (st\<lparr>cmod := ?m\<rparr>))) 0 ?vs) (cmod (st\<lparr>cmod := ?m\<rparr>)) =
      emit_list br (entry_code E (Some sp) arg ?q) (cmod st)"
    by (simp add: entry_code_def)
  have "make_entry E i fn br st = obind (ofold (load_arg i br (Suc ?q)) (enumerate 0 ?vs) (st\<lparr>cmod := ?m\<rparr>)) (\<lambda>st1.
      Ok (Suc ?q, st1\<lparr>cmod := replace_blocks (instMap st1 i) (mblocks (cmod st1) fn) (cmod st1)\<rparr>))"
    using assms(1,2) by (simp add: make_entry_def getFunction_def split_beta Let_def)
  also have "\<dots> = Ok (Suc ?q, st\<lparr>cmod := replace_blocks (instMap st i ++ liveout_map (?q + 2) ?vs) (mblocks (cmod st) fn)
        (emit_list br (entry_code E (Some sp) arg ?q) (cmod st)),
      instMap := (instMap st)(i := instMap st i ++ liveout_map (?q + 2) ?vs)\<rparr>)"
    unfolding loads c unfolding np by simp
  finally show ?thesis by (simp add: Let_def)
qed

definition exit_code :: "split_env \<Rightarrow> nat \<Rightarrow> (Value \<Rightarrow> Value option) \<Rightarrow> Inst \<Rightarrow> nat \<Rightarrow> instr list" where
  "exit_code E i tab c q = (let n = length (livein (live (fplan E))) in
     mk_gep (PointerTy (fargs E)) (VInst c) n #
     outs_code (PointerTy (field_ty (PointerTy (fargs E)) n)) q (Suc q) (own_outs (fplan E) i tab (enumerate 0 (liveout (live (fplan E))))))"

lemma make_exit_run:
  assumes "value_ty (cmod st) (VInst c) = PointerTy (fargs E)"
    "\<forall>v \<in> set (liveout (live (fplan E))). \<exists>k. getInstAssigned (thread_of (threads_of (fplan E))) (sccId (sccs (fplan E))) v = Ok k \<and>
      (k = int i \<longrightarrow> instMap st i v \<noteq> None)"
  shows "make_exit E i br c st = Ok (st\<lparr>cmod := emit_list br (exit_code E i (instMap st i) c (next_ptr (cmod st))) (cmod st)\<rparr>)"
proof -
  let ?q = "next_ptr (cmod st)" and ?n = "length (livein (live (fplan E)))" and ?vs = "liveout (live (fplan E))"
  let ?m = "snd (emit_before br (mk_gep (PointerTy (fargs E)) (VInst c) ?n) (cmod st))"
  have a: "value_ty (cmod (st\<lparr>cmod := ?m\<rparr>)) (VInst ?q) = PointerTy (field_ty (PointerTy (fargs E)) ?n)" "?q < next_ptr (cmod (st\<lparr>cmod := ?m\<rparr>))"
    by simp_all
  have vs: "\<forall>(j, v) \<in> set (enumerate 0 ?vs). \<exists>k. getInstAssigned (thread_of (threads_of (fplan E))) (sccId (sccs (fplan E))) v = Ok k \<and>
      (k = int i \<longrightarrow> instMap (st\<lparr>cmod := ?m\<rparr>) i v \<noteq> None)"
    using assms(2) by (auto simp: enumerate_eq_zip dest: set_zip_rightD)
  show ?thesis
    using store_liveouts [OF a vs, of br] assms(1) by (simp add: make_exit_def exit_code_def split_beta Let_def)
qed

end
