(* ===== verification/Loop_Split_Run.thy ===== *)
theory Loop_Split_Run
  imports Loop_Split_Thread
begin

text \<open>
  \<open>loopSplit\<close> on a plan that fits the loop: each thread gets its function, made by the steps of the previous
  theories one after the other, and what one thread got is not touched by the following ones.
\<close>

section \<open>Plans that fit the loop\<close>

definition in_loop :: "module_ir \<Rightarrow> loop_ir \<Rightarrow> Inst \<Rightarrow> bool" where
  "in_loop m L i \<longleftrightarrow> contains L (mparent m i) \<and> i \<in> set (mbody m (mparent m i))"

definition plan_ok :: "module_ir \<Rightarrow> loop_ir \<Rightarrow> plan \<Rightarrow> bool" where
  "plan_ok m L P \<longleftrightarrow> length (part (threads_of P)) = MAX_THREAD \<and>
     (\<forall>t < MAX_THREAD. \<forall>k \<in> set (part (threads_of P) ! t). k < length (InstInSCC (sccs P))) \<and>
     (\<forall>i. in_loop m L i \<longrightarrow> assigned_inst P i \<and> i \<in> set (insts_of P (thread_num P i))) \<and>
     (\<forall>t < MAX_THREAD. \<forall>i \<in> set (insts_of P t). in_loop m L i \<and> thread_num P i = t \<and>
       (\<forall>e \<in> set (edges_at (rev_graph_of (pgraph P)) i). in_loop m L (ev e)))"

text \<open>The blocks of a thread in the order of the addresses.\<close>

definition rel_blocks :: "module_ir \<Rightarrow> plan \<Rightarrow> nat \<Rightarrow> BB list" where
  "rel_blocks m P t = sorted_list_of_set (mparent m ` set (insts_of P t) \<union>
     {mparent m (ev e) | i e. i \<in> set (insts_of P t) \<and> e \<in> set (edges_at (rev_graph_of (pgraph P)) i)})"

lemma relbb_is:
  assumes "t < length (part (threads_of P))" "\<forall>k \<in> set (part (threads_of P) ! t). k < length (InstInSCC (sccs P))"
  shows "relbb m P t = Ok (rel_blocks m P t)" "distinct (rel_blocks m P t)"
    "set (rel_blocks m P t) = mparent m ` set (insts_of P t) \<union>
      {mparent m (ev e) | i e. i \<in> set (insts_of P t) \<and> e \<in> set (edges_at (rev_graph_of (pgraph P)) i)}"
proof -
  from relbb_run [OF assms, of m] obtain rel where rel: "relbb m P t = Ok rel" "distinct rel" "sorted rel"
    "set rel = mparent m ` set (insts_of P t) \<union>
      {mparent m (ev e) | i e. i \<in> set (insts_of P t) \<and> e \<in> set (edges_at (rev_graph_of (pgraph P)) i)}" by blast
  have eq: "rel_blocks m P t = rel"
    unfolding rel_blocks_def rel(4) [symmetric] using rel(2,3)
    by (simp add: sorted_list_of_set_sort_remdups distinct_remdups_id sort_key_id_if_sorted)
  show "relbb m P t = Ok (rel_blocks m P t)" "distinct (rel_blocks m P t)"
    "set (rel_blocks m P t) = mparent m ` set (insts_of P t) \<union>
      {mparent m (ev e) | i e. i \<in> set (insts_of P t) \<and> e \<in> set (edges_at (rev_graph_of (pgraph P)) i)}"
    using rel unfolding eq by simp_all
qed

lemma plan_okD:
  assumes "plan_ok m L P"
  shows "t < MAX_THREAD \<Longrightarrow> t < length (part (threads_of P))"
    "t < MAX_THREAD \<Longrightarrow> \<forall>k \<in> set (part (threads_of P) ! t). k < length (InstInSCC (sccs P))"
    "in_loop m L i \<Longrightarrow> assigned_inst P i" "in_loop m L i \<Longrightarrow> i \<in> set (insts_of P (thread_num P i))"
    "t < MAX_THREAD \<Longrightarrow> i \<in> set (insts_of P t) \<Longrightarrow> in_loop m L i \<and> thread_num P i = t \<and>
      (\<forall>e \<in> set (edges_at (rev_graph_of (pgraph P)) i). in_loop m L (ev e))"
  using assms by (simp_all add: plan_ok_def)

lemma rel_blocks_in:
  assumes "plan_ok m L P" "t < MAX_THREAD"
  shows "b \<in> set (rel_blocks m P t) \<Longrightarrow> contains L b"
    "in_loop m L i \<Longrightarrow> thread_num P i = t \<Longrightarrow> mparent m i \<in> set (rel_blocks m P t)"
proof -
  note S = relbb_is(3) [OF plan_okD(1,2) [OF assms(1)], OF assms(2,2), of m]
  show "contains L b" if b: "b \<in> set (rel_blocks m P t)"
  proof -
    obtain i where "in_loop m L i" "b = mparent m i" using b plan_okD(5) [OF assms] unfolding S by blast
    then show ?thesis by (simp add: in_loop_def)
  qed
  show "mparent m i \<in> set (rel_blocks m P t)" if "in_loop m L i" "thread_num P i = t"
    using plan_okD(4) [OF assms(1) that(1)] that(2) unfolding S by blast
qed

lemma in_loop_ptr: "store_inv m \<Longrightarrow> in_loop m L i \<Longrightarrow> i < next_ptr m"
  unfolding in_loop_def using store_inst by blast

text \<open>The modules of later threads have the same blocks of the loop.\<close>

lemma rel_blocks_extended:
  assumes "extended gs m m'" "store_inv m" "plan_ok m L P" "t < MAX_THREAD"
  shows "relbb m' P t = Ok (rel_blocks m P t)"
proof -
  have par: "mparent m' i = mparent m i" if "in_loop m L i" for i
    using extendedD(3) [OF assms(1) in_loop_ptr [OF assms(2) that]] .
  have "mparent m' ` set (insts_of P t) = mparent m ` set (insts_of P t)"
    "{mparent m' (ev e) | i e. i \<in> set (insts_of P t) \<and> e \<in> set (edges_at (rev_graph_of (pgraph P)) i)} =
     {mparent m (ev e) | i e. i \<in> set (insts_of P t) \<and> e \<in> set (edges_at (rev_graph_of (pgraph P)) i)}"
    using par plan_okD(5) [OF assms(3,4)] by (force intro!: image_cong)+
  then have "rel_blocks m' P t = rel_blocks m P t" unfolding rel_blocks_def by simp
  then show ?thesis using relbb_is(1) [OF plan_okD(1,2) [OF assms(3)]] assms(4) by simp
qed

section \<open>What the loop is run on\<close>

abbreviation lins :: "split_env \<Rightarrow> Value list" where "lins E \<equiv> livein (live (fplan E))"
abbreviation louts :: "split_env \<Rightarrow> Value list" where "louts E \<equiv> liveout (live (fplan E))"

definition env_ok :: "split_env \<Rightarrow> module_ir \<Rightarrow> bool" where
  "env_ok E m \<longleftrightarrow> store_inv m \<and> cfg_ok E m \<and> plan_ok m (floop E) (fplan E) \<and>
     \<not> contains (floop E) (fexit E) \<and> \<not> contains (floop E) (fpred E) \<and>
     (\<forall>b. contains (floop E) b \<longrightarrow> b < next_ptr m \<and> mbody m b \<noteq> [] \<and> is_terminator (opcode (mcode m (last (mbody m b))))) \<and>
     length (fworkers E) = MAX_THREAD \<and> distinct (fworkers E) \<and>
     (\<forall>g \<in> set (fworkers E). mblocks m g = [] \<and> (\<exists>a. margs m g = [a] \<and> VArg a \<notin> set (lins E))) \<and>
     mdecl m ''showPlace'' = Some (FunTy [] VoidTy) \<and>
     (\<forall>k < length (lins E). field_ty (PointerTy (fargs E)) k = value_ty m (lins E ! k)) \<and>
     (\<forall>v \<in> set (lins E). is_variable v \<and> below (next_ptr m) v \<and> (\<forall>i. v = VInst i \<longrightarrow> \<not> in_loop m (floop E) i)) \<and>
     (\<forall>v \<in> set (louts E). \<exists>i. v = VInst i \<and> in_loop m (floop E) i)"

lemma env_okD:
  assumes "env_ok E m"
  shows "store_inv m" "cfg_ok E m" "plan_ok m (floop E) (fplan E)" "\<not> contains (floop E) (fexit E)" "\<not> contains (floop E) (fpred E)"
    "contains (floop E) b \<Longrightarrow> b < next_ptr m \<and> mbody m b \<noteq> [] \<and> is_terminator (opcode (mcode m (last (mbody m b))))"
    "length (fworkers E) = MAX_THREAD" "distinct (fworkers E)"
    "g \<in> set (fworkers E) \<Longrightarrow> mblocks m g = [] \<and> (\<exists>a. margs m g = [a] \<and> VArg a \<notin> set (lins E))"
    "mdecl m ''showPlace'' = Some (FunTy [] VoidTy)"
    "k < length (lins E) \<Longrightarrow> field_ty (PointerTy (fargs E)) k = value_ty m (lins E ! k)"
    "v \<in> set (lins E) \<Longrightarrow> is_variable v \<and> below (next_ptr m) v \<and> (\<forall>i. v = VInst i \<longrightarrow> \<not> in_loop m (floop E) i)"
    "v \<in> set (louts E) \<Longrightarrow> \<exists>i. v = VInst i \<and> in_loop m (floop E) i"
  using assms by (simp_all add: env_ok_def)

section \<open>The table of the blocks\<close>

lemma block_map_facts:
  assumes "distinct rel" "fpred E \<notin> set rel" "fexit E \<notin> set rel"
  shows "block_map E rel p (fexit E) = Some (Suc p)" "block_map E rel p (fpred E) \<noteq> None"
    "j < length rel \<Longrightarrow> block_map E rel p (rel ! j) = Some (p + 2 + j)"
    "block_map E rel p b = Some nb \<Longrightarrow> p \<le> nb \<and> nb < p + 2 + length rel"
    "block_map E rel p b = Some nb \<Longrightarrow> b = fpred E \<or> b = fexit E \<or> b \<in> set rel"
proof -
  show "block_map E rel p (fexit E) = Some (Suc p)" "block_map E rel p (fpred E) \<noteq> None" by (simp_all add: block_map_def)
  show "block_map E rel p (rel ! j) = Some (p + 2 + j)" if j: "j < length rel"
  proof -
    have "rel ! j \<noteq> fpred E" "rel ! j \<noteq> fexit E" using j assms(2,3) nth_mem by metis+
    moreover have "map_of (zip rel [p + 2..<p + 2 + length rel]) (rel ! j) = Some ([p + 2..<p + 2 + length rel] ! j)"
      using assms(1) j by (intro map_of_zip_nth) (simp_all del: upt_Suc)
    ultimately show ?thesis using j by (simp add: block_map_def del: upt_Suc)
  qed
  assume "block_map E rel p b = Some nb"
  then have "b = fexit E \<and> nb = Suc p \<or> b = fpred E \<and> nb = p \<or> map_of (zip rel [p + 2..<p + 2 + length rel]) b = Some nb"
    by (auto simp: block_map_def split: if_splits)
  moreover have "b \<in> set rel \<and> p + 2 \<le> nb \<and> nb < p + 2 + length rel" if "map_of (zip rel [p + 2..<p + 2 + length rel]) b = Some nb"
    using map_of_SomeD [OF that] set_zip_leftD set_zip_rightD by fastforce
  ultimately show "p \<le> nb \<and> nb < p + 2 + length rel" "b = fpred E \<or> b = fexit E \<or> b \<in> set rel" by auto
qed

section \<open>The copies of a thread\<close>

definition thread_insts :: "split_env \<Rightarrow> module_ir \<Rightarrow> nat \<Rightarrow> Inst list" where
  "thread_insts E m t = concat (map (kept (fplan E) m t) (rel_blocks m (fplan E) t))"

lemma keep_extended:
  assumes "extended gs m m'" "i < next_ptr m"
  shows "keep P m' t i = keep P m t i"
  using extendedD(2) [OF assms] by (simp add: keep_def)

lemma kept_extended:
  assumes "extended gs m m'" "store_inv m" "b < next_ptr m"
  shows "kept P m' t b = kept P m t b"
proof -
  have "i \<in> set (mbody m b) \<Longrightarrow> keep P m' t i = keep P m t i" for i
    using keep_extended [OF assms(1)] store_inst [OF assms(2)] by blast
  then show ?thesis unfolding kept_def extendedD(4) [OF assms(1,3)] by (rule filter_cong [OF refl])
qed

lemma cfg_ok_extended:
  assumes "extended gs m m'" "env_ok E m"
  shows "cfg_ok E m'"
proof -
  have b: "mbody m' b = mbody m b" if "contains (floop E) b" for b
    using extendedD(4) [OF assms(1)] env_okD(6) [OF assms(2) that] by simp
  have c: "mcode m' i = mcode m i" if "i \<in> set (mbody m b)" for i b
    using extendedD(2) [OF assms(1)] store_inst [OF env_okD(1) [OF assms(2)] that] by simp
  show ?thesis using env_okD(2) [OF assms(2)] unfolding cfg_ok_def by (metis b c)
qed

lemma copy_stage:
  fixes st :: clones and nh :: BB
  assumes ok: "env_ok E m" and ext: "extended gs m m'" and inv: "store_inv m'" and t: "t < MAX_THREAD"
    and fn: "mblocks m' fn = []" "fn \<in> gs"
  defines "rel \<equiv> rel_blocks m (fplan E) t" and "p \<equiv> next_ptr m'"
  defines "st0 \<equiv> st\<lparr>cmod := skel fn rel nh m'\<rparr>"
  shows "\<exists>st1. ofold (copy_block E t (block_map E rel p)) rel st0 = Ok st1 \<and>
    copied E t (block_map E rel p) st0 (thread_insts E m t) st1 \<and>
    pointed st1 t (p + 4 + length rel) {i. \<exists>b \<in> set rel. i \<in> set (mbody m b) \<and> \<not> keep (fplan E) m t i}"
proof -
  let ?bbm = "block_map E rel p" and ?m = "skel fn rel nh m'"
  note e = env_okD [OF ok]
  have rel: "distinct rel" "b \<in> set rel \<Longrightarrow> contains (floop E) b" for b
    using relbb_is(2) [OF plan_okD(1,2) [OF e(3)]] rel_blocks_in(1) [OF e(3) t] t by (simp_all add: rel_def)
  note f = skel_facts [OF inv fn(1) rel(1), where nh = nh, folded p_def]
  have x: "extended gs m ?m" using extended_trans [OF ext extended_mono [OF f(2)]] fn(2) by blast
  have np: "next_ptr m \<le> p" using extendedD(1) [OF ext] by (simp add: p_def)
  have ends: "fpred E \<notin> set rel" "fexit E \<notin> set rel" using rel(2) e(4,5) by blast+
  note bm = block_map_facts [OF rel(1) ends, where p = p]
  have body: "mbody ?m b = mbody m b" "kept (fplan E) ?m t b = kept (fplan E) m t b" if "b \<in> set rel" for b
    using extendedD(4) [OF x] kept_extended [OF x e(1)] e(6) [OF rel(2) [OF that]] by simp_all
  have ready: "block_ready E ?bbm ?m b" if b: "b \<in> set rel" for b
  proof -
    note L = e(6) [OF rel(2) [OF b]]
    obtain j where "j < length rel" "b = rel ! j" using b by (auto simp: in_set_conv_nth)
    then have "\<exists>nb < next_ptr ?m. ?bbm b = Some nb" using bm(3) f(3) by auto
    moreover have "b \<notin> ran ?bbm" using bm(4) L np by (fastforce simp: ran_def)
    moreover have "assigned_inst (fplan E) i" if "i \<in> set (mbody m b)" for i
      using that rel(2) [OF b] store_inst [OF e(1) that] plan_okD(3) [OF e(3)] by (simp add: in_loop_def)
    moreover have "mcode ?m (last (mbody m b)) = mcode m (last (mbody m b))"
      using L store_inst [OF e(1)] extendedD(2) [OF x] last_in_set by metis
    ultimately show ?thesis using L rel(2) [OF b] body(1) [OF b] by (simp add: block_ready_def)
  qed
  have "store_inv (cmod st0)" "cfg_ok E (cmod st0)" using f(1) cfg_ok_extended [OF x ok] by (simp_all add: st0_def)
  from copy_blocks_run [OF this, of ?bbm rel t] obtain st1 where st1: "ofold (copy_block E t ?bbm) rel st0 = Ok st1"
    "copied E t ?bbm st0 (concat (map (kept (fplan E) (cmod st0) t) rel)) st1"
    "pointed st1 t (next_ptr (cmod st0)) {i. \<exists>b \<in> set rel. i \<in> set (mbody (cmod st0) b) \<and> \<not> keep (fplan E) (cmod st0) t i}"
    using bm(1,2) ready rel(1) by (auto simp: st0_def)
  have "concat (map (kept (fplan E) (cmod st0) t) rel) = thread_insts E m t"
    using body(2) by (simp add: thread_insts_def rel_def [symmetric] st0_def cong: map_cong)
  moreover have "{i. \<exists>b \<in> set rel. i \<in> set (mbody (cmod st0) b) \<and> \<not> keep (fplan E) (cmod st0) t i} =
      {i. \<exists>b \<in> set rel. i \<in> set (mbody m b) \<and> \<not> keep (fplan E) m t i}"
    using body(1) keep_extended [OF x] store_inst [OF e(1)] by (auto simp: st0_def)
  ultimately show ?thesis using st1 f(3) by (auto simp: st0_def)
qed

section \<open>The layout of the function of a thread\<close>

text \<open>
  Entry and exit block are at \<open>p\<close> and \<open>p + 1\<close>, the blocks of the copies follow, then the two terminators, the copies,
  the instructions of the entry block, and those of the exit block.
\<close>

definition copies_ptr :: "split_env \<Rightarrow> module_ir \<Rightarrow> nat \<Rightarrow> nat \<Rightarrow> nat" where
  "copies_ptr E m t p = p + 4 + length (rel_blocks m (fplan E) t)"

definition entry_ptr :: "split_env \<Rightarrow> module_ir \<Rightarrow> nat \<Rightarrow> nat \<Rightarrow> nat" where
  "entry_ptr E m t p = copies_ptr E m t p + length (thread_insts E m t)"

definition exit_ptr :: "split_env \<Rightarrow> module_ir \<Rightarrow> nat \<Rightarrow> nat \<Rightarrow> nat" where
  "exit_ptr E m t p = entry_ptr E m t p + 2 + 2 * length (lins E)"

definition copy_tab :: "Inst list \<Rightarrow> nat \<Rightarrow> Value \<Rightarrow> Value option" where
  "copy_tab D q = map_of (zip (map VInst D) (map VInst [q..<q + length D]))"

definition thread_tab :: "split_env \<Rightarrow> module_ir \<Rightarrow> nat \<Rightarrow> nat \<Rightarrow> Value \<Rightarrow> Value option" where
  "thread_tab E m t p = copy_tab (thread_insts E m t) (copies_ptr E m t p) ++ liveout_map (entry_ptr E m t p + 2) (lins E)"

lemma copy_tab_nth:
  assumes "distinct D" "j < length D"
  shows "copy_tab D q (VInst (D ! j)) = Some (VInst (q + j))"
proof -
  have "map_of (zip (map VInst D) (map VInst [q..<q + length D])) (map VInst D ! j) = Some (map VInst [q..<q + length D] ! j)"
    using assms by (intro map_of_zip_nth) (simp_all add: distinct_map inj_on_def del: upt_Suc)
  then show ?thesis using assms(2) by (simp add: copy_tab_def del: upt_Suc)
qed

lemma copy_tab_other: "v \<notin> VInst ` set D \<Longrightarrow> copy_tab D q v = None"
  unfolding copy_tab_def by (rule map_of_eq_None_iff [THEN iffD2]) (auto dest: set_zip_leftD)

lemma thread_insts_iff:
  assumes "env_ok E m" "t < MAX_THREAD"
  shows "i \<in> set (thread_insts E m t) \<longleftrightarrow> in_loop m (floop E) i \<and> mparent m i \<in> set (rel_blocks m (fplan E) t) \<and> keep (fplan E) m t i"
proof -
  have "mparent m i = b" "in_loop m (floop E) i" if "b \<in> set (rel_blocks m (fplan E) t)" "i \<in> set (mbody m b)" for b
    using store_inst [OF env_okD(1) [OF assms(1)] that(2)] rel_blocks_in(1) [OF env_okD(3) [OF assms(1)] assms(2) that(1)] that(2)
    by (simp_all add: in_loop_def)
  then show ?thesis unfolding thread_insts_def kept_def by (auto simp: in_loop_def)
qed

lemma own_inst_kept:
  assumes "env_ok E m" "in_loop m (floop E) i" "thread_num (fplan E) i = t" "t < MAX_THREAD"
  shows "i \<in> set (thread_insts E m t)"
  using thread_insts_iff [OF assms(1,4)] rel_blocks_in(2) [OF env_okD(3) [OF assms(1)] assms(4,2,3)] assms(2,3) by (simp add: keep_def)

lemma thread_tab_other:
  assumes "env_ok E m" "t < MAX_THREAD" "next_ptr m \<le> p"
    "(\<exists>i \<ge> next_ptr m. v = VInst i) \<or> (\<not> is_variable v) \<or> (\<exists>a. v = VArg a \<and> v \<notin> set (lins E))"
  shows "thread_tab E m t p v = None"
proof -
  have "v \<notin> VInst ` set (thread_insts E m t)"
    using assms(4) thread_insts_iff [OF assms(1,2)] in_loop_ptr [OF env_okD(1) [OF assms(1)]] by (fastforce simp: is_variable_def)
  moreover have "v \<notin> set (lins E)" using assms(4) env_okD(12) [OF assms(1), of v] by auto
  then have "liveout_map (entry_ptr E m t p + 2) (lins E) v = None" using liveout_map_dom by blast
  ultimately show ?thesis by (simp add: thread_tab_def copy_tab_other map_add_def)
qed

end
