(* ===== verification/Loop_Split_Finish.thy ===== *)
theory Loop_Split_Finish
  imports Loop_Split_Run
begin

text \<open>
  The function of a thread when its iteration of the loop over the threads is over, and the whole loop.
\<close>

section \<open>What a thread has got\<close>

definition thread_done :: "split_env \<Rightarrow> module_ir \<Rightarrow> nat \<Rightarrow> nat \<Rightarrow> clones \<Rightarrow> bool" where
  "thread_done E m t p st \<longleftrightarrow> (let M = cmod st; fn = fworkers E ! t; rel = rel_blocks m (fplan E) t; n = length rel;
     D = thread_insts E m t; q = copies_ptr E m t p; c = entry_ptr E m t p; x = exit_ptr E m t p; tab = thread_tab E m t p;
     bbm = block_map E rel p; ec = entry_code E (Some (FunTy [] VoidTy)) (hd (margs m fn)) c; xc = exit_code E t tab (Suc c) x in
     next_ptr m \<le> p \<and> x + length xc \<le> next_ptr M \<and> mblocks M fn = p # [p + 2..<p + 2 + n] @ [Suc p] \<and>
     mbody M p = [c..<x] @ [p + 2 + n] \<and> mbody M (Suc p) = [x..<x + length xc] @ [p + 3 + n] \<and>
     (\<forall>j < n. mbody M (p + 2 + j) = map ((+) q) (filter (\<lambda>k. mparent m (D ! k) = rel ! j) [0..<length D])) \<and>
     located M c ec \<and> located M x xc \<and> mcode M (p + 2 + n) = mk_branch (the (bbm (lheader (floop E)))) \<and>
     mcode M (p + 3 + n) = mk_ret_null \<and>
     (\<forall>k < length D. \<exists>ins. clone_instr E bbm (mcode m (D ! k)) = Ok ins \<and> mcode M (q + k) = replaceUses tab ins) \<and>
     instMap st t = tab \<and> (\<forall>k < length D. newToOld st (VInst (q + k)) = Some (VInst (D ! k))) \<and>
     (\<forall>i n. placeEquivalents st t i = Some n \<longrightarrow> q \<le> n \<and> n < c \<and> (i < next_ptr m \<longrightarrow> mparent m (D ! (n - q)) = mparent m i)) \<and>
     (\<forall>b \<in> set rel. \<forall>i \<in> set (mbody m b). \<not> keep (fplan E) m t i \<longrightarrow> placeEquivalents st t i \<noteq> None))"

lemma length_entry_code [simp]: "length (entry_code E sp arg c) = 2 + 2 * length (lins E)"
  by (simp add: entry_code_def)

text \<open>The new code of the entry block does not mention the values that are replaced.\<close>

lemma entry_code_operands:
  "ins \<in> set (entry_code E sp arg q) \<Longrightarrow> v \<in> set (operands ins) \<Longrightarrow> v = VArg arg \<or> \<not> is_variable v \<or> (\<exists>i \<ge> q. v = VInst i)"
proof -
  assume a: "ins \<in> set (entry_code E sp arg q)" "v \<in> set (operands ins)"
  consider "ins = mk_call sp ''showPlace'' []" | "ins = mk_cast BitCast (PointerTy (fargs E)) (VArg arg)" |
    "ins \<in> set (liveout_code (PointerTy (fargs E)) (Suc q) (q + 2) 0 (lins E))" using a(1) by (auto simp: entry_code_def)
  then show ?thesis
  proof cases
    case 3
    from liveout_code_operands [OF 3 a(2)] show ?thesis by (auto simp: is_variable_def)
  qed (use a(2) in \<open>auto simp: is_variable_def\<close>)
qed

section \<open>The copies and the blocks before the values are loaded\<close>

definition copied_blocks :: "split_env \<Rightarrow> module_ir \<Rightarrow> nat \<Rightarrow> nat \<Rightarrow> clones \<Rightarrow> bool" where
  "copied_blocks E m t p st \<longleftrightarrow> (let M = cmod st; fn = fworkers E ! t; rel = rel_blocks m (fplan E) t; n = length rel;
     D = thread_insts E m t; q = copies_ptr E m t p; bbm = block_map E rel p in
     store_inv M \<and> next_ptr M = entry_ptr E m t p \<and> mblocks M fn = p # [p + 2..<p + 2 + n] @ [Suc p] \<and>
     mbody M p = [p + 2 + n] \<and> mbody M (Suc p) = [p + 3 + n] \<and> mparent M (p + 2 + n) = p \<and> mparent M (p + 3 + n) = Suc p \<and>
     (\<forall>j < n. mbody M (p + 2 + j) = map ((+) q) (filter (\<lambda>k. mparent m (D ! k) = rel ! j) [0..<length D])) \<and>
     mcode M (p + 2 + n) = mk_branch (the (bbm (lheader (floop E)))) \<and> mcode M (p + 3 + n) = mk_ret_null \<and>
     (\<forall>k < length D. clone_instr E bbm (mcode m (D ! k)) = Ok (mcode M (q + k))) \<and>
     instMap st t = copy_tab D q \<and> (\<forall>k < length D. newToOld st (VInst (q + k)) = Some (VInst (D ! k))) \<and>
     (\<forall>i n. placeEquivalents st t i = Some n \<longrightarrow>
       q \<le> n \<and> n < q + length D \<and> (i < next_ptr m \<longrightarrow> mparent m (D ! (n - q)) = mparent m i)) \<and>
     (\<forall>b \<in> set rel. \<forall>i \<in> set (mbody m b). \<not> keep (fplan E) m t i \<longrightarrow> placeEquivalents st t i \<noteq> None))"

lemma copied_extended:
  assumes C: "copied E t bbm st0 D st" and ext: "extended gs m (cmod st0)" and b: "\<forall>b nb. bbm b = Some nb \<longrightarrow> next_ptr m \<le> nb"
  shows "extended gs m (cmod st)"
proof -
  note c = copiedD [OF C]
  have "mbody (cmod st) k = mbody (cmod st0) k" if "k < next_ptr m" for k
  proof -
    have "bbm (mparent (cmod st0) (D ! j)) \<noteq> Some k" for j using b that by fastforce
    then show ?thesis using c(12) [of k] by simp
  qed
  moreover have "k < next_ptr m \<Longrightarrow> k < next_ptr (cmod st0)" for k using extendedD(1) [OF ext] by simp
  ultimately show ?thesis using ext c(2,4-9) c(10) by (simp add: extended_def)
qed

lemma copied_tables:
  assumes C: "copied E t bbm st0 D st" and "instMap st0 t = Map.empty" "placeEquivalents st0 t = Map.empty"
  shows "instMap st t = copy_tab D (next_ptr (cmod st0))"
    "placeEquivalents st t i = Some n \<Longrightarrow> next_ptr (cmod st0) \<le> n \<and> n < next_ptr (cmod st0) + length D \<and>
       mparent (cmod st0) (D ! (n - next_ptr (cmod st0))) = mparent (cmod st0) i"
proof -
  note c = copiedD [OF C]
  show "instMap st t = copy_tab D (next_ptr (cmod st0))"
  proof
    fix v
    show "instMap st t v = copy_tab D (next_ptr (cmod st0)) v"
    proof (cases "v \<in> VInst ` set D")
      case True
      then obtain j where "j < length D" "v = VInst (D ! j)" by (auto simp: in_set_conv_nth)
      then show ?thesis using c(13) copy_tab_nth [OF c(3)] by simp
    next
      case False
      then show ?thesis using c(14) assms(2) by (simp add: copy_tab_other)
    qed
  qed
  show "placeEquivalents st t i = Some n \<Longrightarrow> next_ptr (cmod st0) \<le> n \<and> n < next_ptr (cmod st0) + length D \<and>
      mparent (cmod st0) (D ! (n - next_ptr (cmod st0))) = mparent (cmod st0) i"
    using c(17) assms(3) by simp
qed

lemma copied_blocks_run:
  fixes st :: clones
  assumes ok: "env_ok E m" and ext: "extended gs m m'" and inv: "store_inv m'" and t: "t < MAX_THREAD"
    and fn: "mblocks m' (fworkers E ! t) = []" "fworkers E ! t \<in> gs"
    and tabs: "instMap st t = Map.empty" "placeEquivalents st t = Map.empty" "cmod st = m'"
  defines "p \<equiv> next_ptr m'" and "rel \<equiv> rel_blocks m (fplan E) t"
  defines "bbm \<equiv> block_map E rel p"
  defines "st0 \<equiv> st\<lparr>cmod := skel (fworkers E ! t) rel (the (bbm (lheader (floop E)))) m'\<rparr>"
  shows "\<exists>st1. ofold (copy_block E t bbm) rel st0 = Ok st1 \<and> copied_blocks E m t p st1 \<and> extended gs m (cmod st1) \<and>
    extended {fworkers E ! t} m' (cmod st1) \<and> (\<forall>t'. t' \<noteq> t \<longrightarrow> instMap st1 t' = instMap st t' \<and> placeEquivalents st1 t' = placeEquivalents st t') \<and>
    (\<forall>k < next_ptr m'. newToOld st1 (VInst k) = newToOld st (VInst k))"
proof -
  let ?fn = "fworkers E ! t" and ?D = "thread_insts E m t" and ?nh = "the (bbm (lheader (floop E)))"
  let ?m = "skel ?fn rel ?nh m'"
  note e = env_okD [OF ok]
  have rel: "distinct rel" "b \<in> set rel \<Longrightarrow> contains (floop E) b" for b
    using relbb_is(2) [OF plan_okD(1,2) [OF e(3)]] rel_blocks_in(1) [OF e(3) t] t by (simp_all add: rel_def)
  note f = skel_facts [OF inv fn(1) rel(1), where nh = ?nh, folded p_def]
  have "fpred E \<notin> set rel" "fexit E \<notin> set rel" using rel(2) e(4,5) by blast+
  note bm = block_map_facts [OF rel(1) this, where p = p, folded bbm_def]
  have np: "next_ptr m \<le> p" using extendedD(1) [OF ext] by (simp add: p_def)
  have x: "extended gs m ?m" using extended_trans [OF ext extended_mono [OF f(2)]] fn(2) by blast
  obtain st1 where st1: "ofold (copy_block E t bbm) rel st0 = Ok st1" "copied E t bbm st0 ?D st1"
    "pointed st1 t (p + 4 + length rel) {i. \<exists>b \<in> set rel. i \<in> set (mbody m b) \<and> \<not> keep (fplan E) m t i}"
    using copy_stage [OF ok ext inv t fn, where st = st and nh = ?nh] unfolding st0_def bbm_def rel_def p_def by blast
  note c = copiedD [OF st1(2)]
  have s0: "cmod st0 = ?m" by (simp add: st0_def)
  have ptr: "next_ptr (cmod st0) = copies_ptr E m t p" using f(3) by (simp add: s0 copies_ptr_def rel_def)
  have D: "i \<in> set ?D \<Longrightarrow> i < next_ptr m \<and> mparent m i \<in> set rel" for i
    using thread_insts_iff [OF ok t] in_loop_ptr [OF e(1)] unfolding rel_def by blast
  have old: "mcode ?m (?D ! k) = mcode m (?D ! k)" "mparent ?m (?D ! k) = mparent m (?D ! k)" "mparent m (?D ! k) \<in> set rel" if "k < length ?D" for k
    using D [OF nth_mem [OF that]] extendedD(2,3) [OF x] by simp_all
  have tgt: "bbm (mparent m (?D ! k)) = Some b \<Longrightarrow> p + 2 \<le> b" if k: "k < length ?D" for k b
  proof -
    obtain j where "j < length rel" "mparent m (?D ! k) = rel ! j" using old(3) [OF k] by (auto simp: in_set_conv_nth)
    then show "bbm (mparent m (?D ! k)) = Some b \<Longrightarrow> p + 2 \<le> b" using bm(3) by auto
  qed
  have body: "mbody (cmod st1) b = mbody ?m b @ map ((+) (copies_ptr E m t p)) (filter (\<lambda>k. bbm (mparent m (?D ! k)) = Some b) [0..<length ?D])" for b
  proof -
    have "filter (\<lambda>k. bbm (mparent ?m (?D ! k)) = Some b) [0..<length ?D] = filter (\<lambda>k. bbm (mparent m (?D ! k)) = Some b) [0..<length ?D]"
      using old(2) by (intro filter_cong) simp_all
    then show ?thesis unfolding c(12) ptr unfolding s0 by simp
  qed
  have "filter (\<lambda>k. bbm (mparent m (?D ! k)) = Some b) [0..<length ?D] = []" if "b < p + 2" for b
    using tgt that by (fastforce simp: filter_empty_conv)
  then have ends: "mbody (cmod st1) p = [p + 2 + length rel]" "mbody (cmod st1) (Suc p) = [p + 3 + length rel]"
    using body [of p] body [of "Suc p"] f(5,6) by simp_all
  have "filter (\<lambda>k. bbm (mparent m (?D ! k)) = Some (p + 2 + j)) [0..<length ?D] = filter (\<lambda>k. mparent m (?D ! k) = rel ! j) [0..<length ?D]"
    if j: "j < length rel" for j
  proof (rule filter_cong [OF refl])
    fix k assume "k \<in> set [0..<length ?D]"
    then have "mparent m (?D ! k) \<in> set rel" using old(3) by simp
    then obtain j' where "j' < length rel" "mparent m (?D ! k) = rel ! j'" by (metis in_set_conv_nth)
    then show "(bbm (mparent m (?D ! k)) = Some (p + 2 + j)) = (mparent m (?D ! k) = rel ! j)"
      using bm(3) j rel(1) nth_eq_iff_index_eq by auto
  qed
  then have bodies: "\<forall>j < length rel. mbody (cmod st1) (p + 2 + j) = map ((+) (copies_ptr E m t p)) (filter (\<lambda>k. mparent m (?D ! k) = rel ! j) [0..<length ?D])"
    using body f(7) by simp
  have lt: "p + 2 + length rel < next_ptr (cmod st0)" "p + 3 + length rel < next_ptr (cmod st0)" by (simp_all add: s0 f(3))
  note tb = copied_tables [OF st1(2)]
  have E: "instMap st0 t = Map.empty" "placeEquivalents st0 t = Map.empty" using tabs by (simp_all add: st0_def)
  have "copied_blocks E m t p st1"
    unfolding copied_blocks_def Let_def rel_def [symmetric] bbm_def [symmetric]
  proof (intro conjI)
    show "\<forall>k < length ?D. clone_instr E bbm (mcode m (?D ! k)) = Ok (mcode (cmod st1) (copies_ptr E m t p + k))"
      using c(11) old(1) by (simp add: s0 ptr [unfolded s0])
    show "\<forall>b \<in> set rel. \<forall>i \<in> set (mbody m b). \<not> keep (fplan E) m t i \<longrightarrow> placeEquivalents st1 t i \<noteq> None"
      using st1(3) unfolding pointed_def by fastforce
    show "\<forall>i n. placeEquivalents st1 t i = Some n \<longrightarrow> copies_ptr E m t p \<le> n \<and> n < copies_ptr E m t p + length ?D \<and>
        (i < next_ptr m \<longrightarrow> mparent m (?D ! (n - copies_ptr E m t p)) = mparent m i)"
    proof (intro allI impI)
      fix i n assume "placeEquivalents st1 t i = Some n"
      note pl = tb(2) [OF E this, unfolded ptr]
      then have "n - copies_ptr E m t p < length ?D" by linarith
      from old(2) [OF this] pl show "copies_ptr E m t p \<le> n \<and> n < copies_ptr E m t p + length ?D \<and>
          (i < next_ptr m \<longrightarrow> mparent m (?D ! (n - copies_ptr E m t p)) = mparent m i)"
        using extendedD(3) [OF x, of i] by (simp add: s0)
    qed
  qed (use c(1,2,5,13) c(10) [OF lt(1)] c(10) [OF lt(2)] f(4,8-11) ends bodies tb(1) [OF E] in \<open>simp_all add: entry_ptr_def s0 ptr [unfolded s0]\<close>)
  moreover have "extended gs m (cmod st1)" "extended {?fn} m' (cmod st1)"
  proof -
    have b: "\<forall>b nb. bbm b = Some nb \<longrightarrow> p \<le> nb" using bm(4) by blast
    then have "\<forall>b nb. bbm b = Some nb \<longrightarrow> next_ptr m \<le> nb" using np le_trans by blast
    then show "extended gs m (cmod st1)" by (rule copied_extended [OF st1(2), rotated]) (simp add: s0 x)
    show "extended {?fn} m' (cmod st1)" using b f(2) by (intro copied_extended [OF st1(2)]) (simp_all add: s0 p_def)
  qed
  moreover have "instMap st1 t' = instMap st t' \<and> placeEquivalents st1 t' = placeEquivalents st t'" if "t' \<noteq> t" for t'
    using c(15) [OF that] by (simp add: st0_def)
  moreover have "newToOld st1 (VInst k) = newToOld st (VInst k)" if "k < next_ptr m'" for k
  proof -
    have "k < next_ptr (cmod st0)" using that by (simp add: s0 f(3) p_def)
    from c(16) [OF this] show ?thesis by (simp add: st0_def)
  qed
  ultimately show ?thesis using st1(1) by blast
qed

section \<open>The values that are loaded and stored\<close>

lemma copied_blocksD:
  assumes "copied_blocks E m t p st"
  defines "n \<equiv> length (rel_blocks m (fplan E) t)" and "D \<equiv> thread_insts E m t" and "q \<equiv> copies_ptr E m t p"
  shows "store_inv (cmod st)" "next_ptr (cmod st) = entry_ptr E m t p"
    "mblocks (cmod st) (fworkers E ! t) = p # [p + 2..<p + 2 + n] @ [Suc p]"
    "mbody (cmod st) p = [p + 2 + n]" "mbody (cmod st) (Suc p) = [p + 3 + n]" "mparent (cmod st) (p + 2 + n) = p"
    "mparent (cmod st) (p + 3 + n) = Suc p"
    "j < n \<Longrightarrow> mbody (cmod st) (p + 2 + j) = map ((+) q) (filter (\<lambda>k. mparent m (D ! k) = rel_blocks m (fplan E) t ! j) [0..<length D])"
    "mcode (cmod st) (p + 2 + n) = mk_branch (the (block_map E (rel_blocks m (fplan E) t) p (lheader (floop E))))"
    "mcode (cmod st) (p + 3 + n) = mk_ret_null"
    "k < length D \<Longrightarrow> clone_instr E (block_map E (rel_blocks m (fplan E) t) p) (mcode m (D ! k)) = Ok (mcode (cmod st) (q + k))"
    "instMap st t = copy_tab D q" "k < length D \<Longrightarrow> newToOld st (VInst (q + k)) = Some (VInst (D ! k))"
    "placeEquivalents st t i = Some n' \<Longrightarrow> q \<le> n' \<and> n' < entry_ptr E m t p \<and> (i < next_ptr m \<longrightarrow> mparent m (D ! (n' - q)) = mparent m i)"
    "b \<in> set (rel_blocks m (fplan E) t) \<Longrightarrow> i \<in> set (mbody m b) \<Longrightarrow> \<not> keep (fplan E) m t i \<Longrightarrow> placeEquivalents st t i \<noteq> None"
  using assms(1) unfolding copied_blocks_def Let_def assms(2-4) by (simp_all add: entry_ptr_def)

text \<open>The copies are in the blocks of the function.\<close>

lemma copy_in_block:
  assumes ok: "env_ok E m" "t < MAX_THREAD" and C: "copied_blocks E m t p st" and k: "k < length (thread_insts E m t)"
  shows "\<exists>j < length (rel_blocks m (fplan E) t). copies_ptr E m t p + k \<in> set (mbody (cmod st) (p + 2 + j))"
proof -
  let ?rel = "rel_blocks m (fplan E) t" and ?D = "thread_insts E m t"
  have "mparent m (?D ! k) \<in> set ?rel" using thread_insts_iff [OF ok] nth_mem [OF k] by blast
  then obtain j where "j < length ?rel" "mparent m (?D ! k) = ?rel ! j" by (metis in_set_conv_nth)
  then show ?thesis using copied_blocksD(8) [OF C] k by auto
qed

lemma distinct_kept: "store_inv m \<Longrightarrow> distinct bs \<Longrightarrow> distinct (concat (map (kept P m t) bs))"
proof (induction bs)
  case (Cons b bs)
  have "x \<notin> set (concat (map (kept P m t) bs))" if x: "x \<in> set (mbody m b)" for x
  proof
    assume "x \<in> set (concat (map (kept P m t) bs))"
    then obtain c where "c \<in> set bs" "x \<in> set (mbody m c)" by (auto simp: kept_def)
    then show False using store_inst [OF Cons.prems(1)] x Cons.prems(2) by (metis distinct.simps(2))
  qed
  then show ?case using Cons store_distinct(1) [OF Cons.prems(1), of b] by (auto simp: kept_def)
qed simp

lemma distinct_thread_insts: "env_ok E m \<Longrightarrow> t < MAX_THREAD \<Longrightarrow> distinct (thread_insts E m t)"
  unfolding thread_insts_def
  by (intro distinct_kept env_okD(1) relbb_is(2) plan_okD(1,2) [OF env_okD(3)])

lemma louts_assigned:
  assumes ok: "env_ok E m" "t < MAX_THREAD" and v: "v \<in> set (louts E)"
  shows "\<exists>k. getInstAssigned (thread_of (threads_of (fplan E))) (sccId (sccs (fplan E))) v = Ok k \<and>
    (k = int t \<longrightarrow> thread_tab E m t p v \<noteq> None)"
proof -
  obtain i where i: "v = VInst i" "in_loop m (floop E) i" using env_okD(13) [OF ok(1) v] by blast
  note a = assigned_inst_thread(1) [OF plan_okD(3) [OF env_okD(3) [OF ok(1)] i(2)]]
  have "thread_tab E m t p v \<noteq> None" if "thread_num (fplan E) i = t"
  proof -
    have "i \<in> set (thread_insts E m t)" by (rule own_inst_kept [OF ok(1) i(2) that ok(2)])
    then obtain j where j: "j < length (thread_insts E m t)" "thread_insts E m t ! j = i" by (auto simp: in_set_conv_nth)
    from copy_tab_nth [OF distinct_thread_insts [OF ok] j(1)] show ?thesis by (auto simp: thread_tab_def map_add_def i(1) j(2) split: option.splits)
  qed
  then show ?thesis using a i(1) by auto
qed

lemma finish_run:
  fixes st :: clones
  assumes ok: "env_ok E m" "t < MAX_THREAD" and C: "copied_blocks E m t p st" and ext: "extended gs m (cmod st)" and p: "next_ptr m \<le> p"
  defines "n \<equiv> length (rel_blocks m (fplan E) t)" and "fn \<equiv> fworkers E ! t"
  shows "\<exists>c st2 st3. make_entry E t fn (p + 2 + n) st = Ok (c, st2) \<and> make_exit E t (p + 3 + n) c st2 = Ok st3 \<and>
    thread_done E m t p st3 \<and> store_inv (cmod st3) \<and>
    (\<forall>gs' m'. extended gs' m' (cmod st) \<and> next_ptr m' \<le> p \<longrightarrow> extended gs' m' (cmod st3)) \<and>
    (\<forall>t'. t' \<noteq> t \<longrightarrow> instMap st3 t' = instMap st t') \<and> placeEquivalents st3 = placeEquivalents st \<and> newToOld st3 = newToOld st"
proof -
  let ?M = "cmod st" and ?D = "thread_insts E m t" and ?q = "copies_ptr E m t p" and ?c = "entry_ptr E m t p" and ?x = "exit_ptr E m t p"
  let ?br = "p + 2 + n" and ?ret = "p + 3 + n" and ?tab = "thread_tab E m t p" and ?arg = "hd (margs m fn)"
  note e = env_okD [OF ok(1)] and b = copied_blocksD [OF C, folded n_def fn_def]
  have fn: "fn \<in> set (fworkers E)" using e(7) ok(2) by (simp add: fn_def)
  obtain a where a: "margs m fn = [a]" "VArg a \<notin> set (lins E)" using e(9) [OF fn] by blast
  have np: "p + 4 + n \<le> ?c" "next_ptr m \<le> ?c" "?q + length ?D = ?c" "?c \<le> ?x"
    using p by (simp_all add: entry_ptr_def copies_ptr_def exit_ptr_def n_def)
  let ?ec = "entry_code E (Some (FunTy [] VoidTy)) a ?c"
  let ?xc = "exit_code E t ?tab (Suc ?c) ?x"
  define M2 where "M2 = emit_list ?br ?ec ?M"
  define M3 where "M3 = replace_blocks ?tab (mblocks ?M fn) M2"
  define M4 where "M4 = emit_list ?ret ?xc M3"
  have m2: "next_ptr M2 = ?x" "store_inv M2" "mbody M2 p = [?c..<?x] @ [?br]" "\<forall>b. b \<noteq> p \<longrightarrow> mbody M2 b = mbody ?M b"
  proof -
    show "next_ptr M2 = ?x" using b(2) by (simp add: exit_ptr_def M2_def)
    show "store_inv M2" unfolding M2_def by (intro emit_list_inv b(1)) (use np(1) b(6) in \<open>simp_all add: b(2)\<close>)
    have l: "?c + length ?ec = ?x" by (simp add: exit_ptr_def)
    have "mbody ?M (mparent ?M ?br) = [] @ ?br # []" "?br < next_ptr ?M" using b(4,6) np(1) by (simp_all add: b(2))
    from emit_list_body [OF this(2,1), of ?ec] show "mbody M2 p = [?c..<?x] @ [?br]" using b(6) unfolding b(2) l M2_def by simp
    show "\<forall>b. b \<noteq> p \<longrightarrow> mbody M2 b = mbody ?M b" using np(1) b(6) by (simp add: emit_list_body_other b(2) M2_def)
  qed
  have entry: "make_entry E t fn ?br st = Ok (Suc ?c, st\<lparr>cmod := M3, instMap := (instMap st)(t := ?tab)\<rparr>)"
  proof -
    have "margs ?M fn = [a]" "mdecl ?M ''showPlace'' = Some (FunTy [] VoidTy)" using a(1) e(10) extendedD(7,8) [OF ext] by simp_all
    moreover have "\<forall>k < length (lins E). pointee (PointerTy (field_ty (PointerTy (fargs E)) k)) = value_ty ?M (lins E ! k) \<and>
        below (next_ptr ?M) (lins E ! k)"
    proof (intro allI impI)
      fix k assume k: "k < length (lins E)"
      have below: "below (next_ptr m) (lins E ! k)" using e(12) nth_mem [OF k] by blast
      then have "below (next_ptr ?M) (lins E ! k)" using np(2) unfolding b(2) by (cases "lins E ! k") simp_all
      then show "pointee (PointerTy (field_ty (PointerTy (fargs E)) k)) = value_ty ?M (lins E ! k) \<and> below (next_ptr ?M) (lins E ! k)"
        using e(11) [OF k] extended_value_ty [OF ext below] by simp
    qed
    ultimately show ?thesis using make_entry_run [of st fn a "FunTy [] VoidTy" E t ?br]
      by (simp add: b(2,12) thread_tab_def Let_def M2_def M3_def)
  qed
  have inv3: "store_inv M3" using m2(2) by (simp add: only_code_inv [OF replace_blocks_only] M3_def)
  have f3: "next_ptr M3 = ?x" "mbody M3 = mbody M2" using m2(1) by (simp_all add: M3_def)
  have dist: "distinct (mblocks ?M fn)" using b(1) store_distinct(2) by blast
  have in3: "mcode M3 k = (if \<exists>b \<in> set (mblocks ?M fn). k \<in> set (mbody M2 b) then replaceUses ?tab (mcode M2 k) else mcode M2 k)" for k
    unfolding M3_def by (rule replace_blocks_code [OF m2(2) dist])
  have same3: "mcode M3 k = mcode M2 k" if "\<forall>v \<in> set (operands (mcode M2 k)). ?tab v = None" for k
    using that replaceUses_same [of "mcode M2 k" ?tab] by (simp add: in3)
  have c2: "mcode M2 k = (if ?c \<le> k \<and> k < ?x then ?ec ! (k - ?c) else mcode ?M k)" for k
    by (simp add: emit_list_code b(2) exit_ptr_def M2_def)
  have none: "?tab v = None" if "v = VArg a \<or> \<not> is_variable v \<or> (\<exists>i \<ge> ?c. v = VInst i)" for v
    using that a(2) np(2) by (intro thread_tab_other [OF ok p]) (auto simp: is_variable_def intro: le_trans)
  have ec: "located M3 ?c ?ec"
    unfolding located_def
  proof (intro allI impI)
    fix j assume j: "j < length ?ec"
    then have "mcode M2 (?c + j) = ?ec ! j" using c2 [of "?c + j"] by (simp add: exit_ptr_def)
    then show "mcode M3 (?c + j) = ?ec ! j" using same3 [of "?c + j"] none entry_code_operands [OF nth_mem [OF j]] by simp
  qed
  have "ity (mcode M3 (Suc ?c)) = PointerTy (fargs E)" using ec by (simp add: entry_code_def)
  then have ex: "make_exit E t ?ret (Suc ?c) (st\<lparr>cmod := M3, instMap := (instMap st)(t := ?tab)\<rparr>) =
      Ok (st\<lparr>cmod := M4, instMap := (instMap st)(t := ?tab)\<rparr>)"
    using make_exit_run [of "st\<lparr>cmod := M3, instMap := (instMap st)(t := ?tab)\<rparr>" "Suc ?c" E t ?ret] louts_assigned [OF ok] m2(1) by (simp add: M4_def M3_def)
  have ret: "?ret < next_ptr M3" "mparent M3 ?ret = Suc p" "mbody M3 (Suc p) = [?ret]"
    using np(1) b(2,5,7) m2(1,4) np(4) by (simp_all add: emit_list_parent M3_def M2_def)
  have m4: "mbody M4 (Suc p) = [?x..<?x + length ?xc] @ [?ret]" "\<forall>b. b \<noteq> Suc p \<longrightarrow> mbody M4 b = mbody M2 b" "store_inv M4"
    using emit_list_body [OF ret(1), of "[]" "[]" ?xc] ret f3 emit_list_inv [OF inv3 ret(1)] np(1) b(2) np(4)
    by (simp_all add: emit_list_body_other M4_def)
  have c4: "mcode M4 k = (if ?x \<le> k \<and> k < ?x + length ?xc then ?xc ! (k - ?x) else mcode M3 k)" for k
    by (simp add: emit_list_code m2(1) M4_def M3_def)
  define st3 where "st3 = st\<lparr>cmod := M4, instMap := (instMap st)(t := ?tab)\<rparr>"
  have blk: "b = p \<or> b = Suc p \<or> (\<exists>j < n. b = p + 2 + j)" if "b \<in> set (mblocks ?M fn)" for b
    using that unfolding b(3) by (auto simp: le_iff_add)
  have low: "p \<le> i" if i: "b \<in> set (mblocks ?M fn)" "i \<in> set (mbody M2 b)" for b i
    using blk [OF i(1)] i(2) m2(3,4) b(5,8) np(1) by (auto simp: copies_ptr_def)
  have old: "mcode M4 k = mcode M3 k" "mcode M2 k = mcode ?M k" if "k < ?c" for k
    using that np(4) c4 c2 by simp_all
  have term1: "mcode M4 ?br = mk_branch (the (block_map E (rel_blocks m (fplan E) t) p (lheader (floop E))))" "mcode M4 ?ret = mk_ret_null"
    using old [of ?br] same3 [of ?br] b(9) old [of ?ret] same3 [of ?ret] b(10) np(1) none [of "VNull i8p"] by (simp_all add: is_variable_def)
  have code: "\<exists>ins. clone_instr E (block_map E (rel_blocks m (fplan E) t) p) (mcode m (?D ! k)) = Ok ins \<and>
      mcode M4 (?q + k) = replaceUses ?tab ins" if k: "k < length ?D" for k
  proof (intro exI conjI)
    show "clone_instr E (block_map E (rel_blocks m (fplan E) t) p) (mcode m (?D ! k)) = Ok (mcode ?M (?q + k))" by (rule b(11) [OF k])
    obtain j where j: "j < n" "?q + k \<in> set (mbody ?M (p + 2 + j))" using copy_in_block [OF ok C k] by (auto simp: n_def)
    then have "p + 2 + j \<in> set (mblocks ?M fn)" "?q + k \<in> set (mbody M2 (p + 2 + j))" using m2(4) unfolding b(3) by (simp_all del: upt_Suc)
    then have "mcode M3 (?q + k) = replaceUses ?tab (mcode M2 (?q + k))" using in3 [of "?q + k"] by (simp only:) meson
    then show "mcode M4 (?q + k) = replaceUses ?tab (mcode ?M (?q + k))" using old [of "?q + k"] k np(3) by simp
  qed
  define st3 where "st3 = st\<lparr>cmod := M4, instMap := (instMap st)(t := ?tab)\<rparr>"
  have ec4: "located M4 ?c ?ec" using ec old(1) c4 by (simp add: located_def exit_ptr_def)
  have xc4: "located M4 ?x ?xc" using c4 by (simp add: located_def)
  have "thread_done E m t p st3"
    unfolding thread_done_def Let_def n_def [symmetric] fn_def [symmetric]
  proof (intro conjI)
    show "located (cmod st3) ?c (entry_code E (Some (FunTy [] VoidTy)) (hd (margs m fn)) ?c)" using ec4 a(1) by (simp add: st3_def)
    show "\<forall>j < n. mbody (cmod st3) (p + 2 + j) = map ((+) ?q) (filter (\<lambda>k. mparent m (?D ! k) = rel_blocks m (fplan E) t ! j) [0..<length ?D])"
      using m4(2) m2(4) b(8) by (simp add: st3_def)
    show "\<forall>k < length ?D. \<exists>ins. clone_instr E (block_map E (rel_blocks m (fplan E) t) p) (mcode m (?D ! k)) = Ok ins \<and>
        mcode (cmod st3) (?q + k) = replaceUses ?tab ins" using code by (simp add: st3_def)
    show "\<forall>i n. placeEquivalents st3 t i = Some n \<longrightarrow> ?q \<le> n \<and> n < ?c \<and> (i < next_ptr m \<longrightarrow> mparent m (?D ! (n - ?q)) = mparent m i)" using b(14) by (simp add: st3_def)
    show "\<forall>b \<in> set (rel_blocks m (fplan E) t). \<forall>i \<in> set (mbody m b). \<not> keep (fplan E) m t i \<longrightarrow> placeEquivalents st3 t i \<noteq> None"
      using b(15) by (simp add: st3_def)
    show "\<forall>k < length ?D. newToOld st3 (VInst (?q + k)) = Some (VInst (?D ! k))" using b(13) by (simp add: st3_def)
    show "mblocks (cmod st3) fn = p # [p + 2..<p + 2 + n] @ [Suc p]" using b(3) by (simp add: st3_def M4_def M3_def M2_def)
  qed (use p m4 m2(3) xc4 term1 f3(1) in \<open>simp_all add: st3_def M4_def [THEN arg_cong [where f = next_ptr]]\<close>)
  moreover have "extended gs' m' M4" if g: "extended gs' m' ?M" "next_ptr m' \<le> p" for gs' m'
  proof -
    have "extended gs' m' M2" unfolding M2_def using g np(1) b(2,6) by (intro extended_emit_list) simp_all
    moreover have "\<forall>b \<in> set (mblocks ?M fn). next_ptr m' \<le> b" using blk g(2) by fastforce
    moreover have "\<forall>b \<in> set (mblocks ?M fn). \<forall>i \<in> set (mbody M2 b). next_ptr m' \<le> i" using low g(2) le_trans by blast
    ultimately have "extended gs' m' M3" unfolding M3_def by (intro extended_replace_blocks [OF _ m2(2) dist])
    then show "extended gs' m' M4" unfolding M4_def using ret g(2) by (intro extended_emit_list) simp_all
  qed
  ultimately show ?thesis
    using entry ex m4(3) unfolding st3_def
    by (intro exI [of _ "Suc ?c"] exI [of _ "st\<lparr>cmod := M3, instMap := (instMap st)(t := ?tab)\<rparr>"]
        exI [of _ "st\<lparr>cmod := M4, instMap := (instMap st)(t := ?tab)\<rparr>"]) simp
qed

section \<open>One thread\<close>

lemma split_thread_steps:
  assumes "arr_get (fworkers E) (int t) = Ok fn" "relbb (cmod st) (fplan E) t = Ok rel" "lheader (floop E) \<in> set rel"
    "store_inv (cmod st)" "mblocks (cmod st) fn = []" "distinct rel"
  defines "p \<equiv> next_ptr (cmod st)" and "n \<equiv> length rel" and "bbm \<equiv> block_map E rel (next_ptr (cmod st))"
  shows "split_thread E t st = obind (ofold (copy_block E t bbm) rel (st\<lparr>cmod := skel fn rel (the (bbm (lheader (floop E)))) (cmod st)\<rparr>))
    (\<lambda>st1. obind (make_entry E t fn (p + 2 + n) st1) (\<lambda>(castArgs, st2). obind (make_exit E t (p + 3 + n) castArgs st2) (\<lambda>st3. Ok (False, st3))))"
proof -
  obtain m3 where m3: "fold (copy_bb fn (Suc p)) rel (two_blocks fn (cmod st), Map.empty) = (m3, map_of (zip rel [p + 2..<p + 2 + n]))"
    "next_ptr m3 = p + 2 + n"
    using skel_blocks [OF assms(4-6)] unfolding p_def n_def by blast
  have ne: "rel \<noteq> []" using assms(3) by auto
  have "length rel = length [p + 2..<p + 2 + n]" by (simp add: n_def del: upt_Suc)
  from map_of_zip_is_Some [OF this] obtain y where "map_of (zip rel [p + 2..<p + 2 + n]) (lheader (floop E)) = Some y"
    using assms(3) by blast
  then have "bbm (lheader (floop E)) \<noteq> None" unfolding bbm_def block_map_def p_def n_def by (simp del: upt_Suc)
  then obtain nh where nh: "bbm (lheader (floop E)) = Some nh" by blast
  have b: "(map_of (zip rel [p + 2..<p + 2 + n]))(fpred E \<mapsto> p, fexit E \<mapsto> Suc p) = bbm" by (simp add: bbm_def block_map_def p_def n_def)
  define M1 where "M1 = snd (new_block fn None (cmod st))"
  define M4 where "M4 = snd (emit_back p (mk_branch nh) m3)"
  have blocks: "new_block fn None (cmod st) = (p, M1)" "new_block fn None M1 = (Suc p, two_blocks fn (cmod st))"
    by (simp_all add: M1_def two_blocks_def p_def new_block_def)
  have emits: "emit_back p (mk_branch nh) m3 = (p + 2 + n, M4)" "emit_back (Suc p) mk_ret_null M4 = (p + 3 + n, skel fn rel nh (cmod st))"
    using m3 by (simp_all add: M4_def skel_def Let_def p_def prod_eq_iff emit_back_def)
  show ?thesis
    unfolding split_thread_def assms(1,2)
    by (simp only: obind.simps blocks m3(1) b emits Let_def nh ne if_False option.case prod.case option.sel)
qed

lemma split_thread_run:
  fixes st :: clones
  assumes ok: "env_ok E m" and t: "t < MAX_THREAD" and ext: "extended gs m (cmod st)" and inv: "store_inv (cmod st)"
    and fn: "fworkers E ! t \<notin> gs" and tabs: "instMap st t = Map.empty" "placeEquivalents st t = Map.empty"
    and head: "lheader (floop E) \<in> set (rel_blocks m (fplan E) t)"
  shows "\<exists>st'. split_thread E t st = Ok (False, st') \<and> thread_done E m t (next_ptr (cmod st)) st' \<and> store_inv (cmod st') \<and>
    extended {fworkers E ! t} (cmod st) (cmod st') \<and>
    (\<forall>t'. t' \<noteq> t \<longrightarrow> instMap st' t' = instMap st t' \<and> placeEquivalents st' t' = placeEquivalents st t') \<and>
    (\<forall>k < next_ptr (cmod st). newToOld st' (VInst k) = newToOld st (VInst k))"
proof -
  let ?fn = "fworkers E ! t" and ?rel = "rel_blocks m (fplan E) t" and ?p = "next_ptr (cmod st)"
  note e = env_okD [OF ok]
  have get: "arr_get (fworkers E) (int t) = Ok ?fn" "?fn \<in> set (fworkers E)" using e(7) t by (simp_all add: arr_get_def in_bounds_def)
  have empty: "mblocks (cmod st) ?fn = []" using extendedD(6) [OF ext fn] e(9) [OF get(2)] by simp
  have rel: "relbb (cmod st) (fplan E) t = Ok ?rel" "distinct ?rel"
    using rel_blocks_extended [OF ext e(1,3) t] relbb_is(2) [OF plan_okD(1,2) [OF e(3)]] t by simp_all
  have ext': "extended (insert ?fn gs) m (cmod st)" using extended_mono [OF ext] by blast
  have np: "next_ptr m \<le> ?p" using extendedD(1) [OF ext] .
  obtain st1 where st1: "ofold (copy_block E t (block_map E ?rel ?p)) ?rel
      (st\<lparr>cmod := skel ?fn ?rel (the (block_map E ?rel ?p (lheader (floop E)))) (cmod st)\<rparr>) = Ok st1"
    "copied_blocks E m t ?p st1" "extended (insert ?fn gs) m (cmod st1)" "extended {?fn} (cmod st) (cmod st1)"
    "\<forall>t'. t' \<noteq> t \<longrightarrow> instMap st1 t' = instMap st t' \<and> placeEquivalents st1 t' = placeEquivalents st t'"
    "\<forall>k < ?p. newToOld st1 (VInst k) = newToOld st (VInst k)"
    using copied_blocks_run [OF ok ext' inv t empty _ tabs refl] by blast
  obtain c st2 st3 where st3: "make_entry E t ?fn (?p + 2 + length ?rel) st1 = Ok (c, st2)" "make_exit E t (?p + 3 + length ?rel) c st2 = Ok st3"
    "thread_done E m t ?p st3" "store_inv (cmod st3)" "\<forall>gs' m'. extended gs' m' (cmod st1) \<and> next_ptr m' \<le> ?p \<longrightarrow> extended gs' m' (cmod st3)"
    "\<forall>t'. t' \<noteq> t \<longrightarrow> instMap st3 t' = instMap st1 t'" "placeEquivalents st3 = placeEquivalents st1" "newToOld st3 = newToOld st1"
    using finish_run [OF ok t st1(2,3) np] by blast
  have "split_thread E t st = Ok (False, st3)"
    unfolding split_thread_steps [OF get(1) rel(1) head inv empty rel(2)] st1(1) using st3(1,2) by simp
  then show ?thesis using st3(3-8) st1(4-6) by (intro exI [of _ st3]) simp
qed

section \<open>All threads\<close>

lemma located_same: "located m p inss \<Longrightarrow> (\<And>k. k < p + length inss \<Longrightarrow> mcode m' k = mcode m k) \<Longrightarrow> located m' p inss"
  by (simp add: located_def)

text \<open>What a thread has got is kept by the iterations for later threads.\<close>

lemma thread_done_kept:
  assumes D: "thread_done E m t p st" and ext: "extended gs (cmod st) (cmod st')" and fn: "fworkers E ! t \<notin> gs"
    and tabs: "instMap st' t = instMap st t" "placeEquivalents st' t = placeEquivalents st t"
      "\<forall>k < next_ptr (cmod st). newToOld st' (VInst k) = newToOld st (VInst k)"
  shows "thread_done E m t p st'"
proof -
  let ?rel = "rel_blocks m (fplan E) t" and ?D = "thread_insts E m t" and ?q = "copies_ptr E m t p" and ?c = "entry_ptr E m t p"
  let ?x = "exit_ptr E m t p" and ?xc = "exit_code E t (thread_tab E m t p) (Suc (entry_ptr E m t p)) (exit_ptr E m t p)"
  note d = D [unfolded thread_done_def Let_def]
  have top: "?x + length ?xc \<le> next_ptr (cmod st)" using d by (elim conjE)
  have le: "?q + length ?D = ?c" "?c \<le> ?x" "p + 4 + length ?rel \<le> ?q" by (simp_all add: entry_ptr_def exit_ptr_def copies_ptr_def)
  have code: "mcode (cmod st') k = mcode (cmod st) k" "mbody (cmod st') k = mbody (cmod st) k" "newToOld st' (VInst k) = newToOld st (VInst k)"
    if "k < ?x + length ?xc" for k
    using extendedD(2,4) [OF ext] tabs(3) that top by simp_all
  have loc: "located (cmod st') ?c (entry_code E (Some (FunTy [] VoidTy)) (hd (margs m (fworkers E ! t))) ?c)" "located (cmod st') ?x ?xc"
    using d code(1) by (auto elim!: located_same simp: exit_ptr_def)
  show ?thesis
    unfolding thread_done_def Let_def
    using d loc extendedD(1,6) [OF ext] fn tabs(1,2) code le top by (elim conjE, intro conjI) simp_all
qed

lemma split_threads_run:
  fixes st :: clones
  assumes "env_ok E m" "\<forall>t < MAX_THREAD. lheader (floop E) \<in> set (rel_blocks m (fplan E) t)"
    and "distinct ts" "set ts \<subseteq> {..<MAX_THREAD}" "S \<subseteq> {..<MAX_THREAD}" "S \<inter> set ts = {}"
    and "extended ((!) (fworkers E) ` S) m (cmod st)" "store_inv (cmod st)" "\<forall>t \<in> S. thread_done E m t (pt t) st"
    and "\<forall>t \<in> set ts. instMap st t = Map.empty \<and> placeEquivalents st t = Map.empty"
  shows "\<exists>st' pt'. split_threads E ts st = Ok st' \<and> extended ((!) (fworkers E) ` (S \<union> set ts)) m (cmod st') \<and> store_inv (cmod st') \<and>
    (\<forall>t \<in> S \<union> set ts. thread_done E m t (pt' t) st')"
  using assms(3-)
proof (induction ts arbitrary: S st pt)
  case Nil
  then show ?case by auto
next
  case (Cons t ts)
  let ?w = "(!) (fworkers E)"
  note e = env_okD [OF assms(1)]
  have t: "t < MAX_THREAD" using Cons.prems(2) by simp
  have other: "?w t' \<noteq> ?w t" if "t' \<in> S" for t'
    using that t Cons.prems(3,4) nth_eq_iff_index_eq [OF e(8)] e(7) by fastforce
  then have "?w t \<notin> ?w ` S" by fastforce
  from split_thread_run [OF assms(1) t Cons.prems(5,6) this] assms(2) Cons.prems(8) t obtain st1 where
    st1: "split_thread E t st = Ok (False, st1)" "thread_done E m t (next_ptr (cmod st)) st1" "store_inv (cmod st1)"
      "extended {?w t} (cmod st) (cmod st1)" "\<forall>t'. t' \<noteq> t \<longrightarrow> instMap st1 t' = instMap st t' \<and> placeEquivalents st1 t' = placeEquivalents st t'"
      "\<forall>k < next_ptr (cmod st). newToOld st1 (VInst k) = newToOld st (VInst k)"
    by fastforce
  have "thread_done E m t' (pt t') st1" if t': "t' \<in> S" for t'
    using t' Cons.prems(4,7) st1(5,6) other [OF t'] by (intro thread_done_kept [OF _ st1(4)]) auto
  then have dones: "\<forall>t' \<in> insert t S. thread_done E m t' ((pt(t := next_ptr (cmod st))) t') st1"
    using st1(2) Cons.prems(4) by auto
  have ext: "extended (?w ` insert t S) m (cmod st1)"
    using extended_trans [OF extended_mono [OF Cons.prems(5)] extended_mono [OF st1(4)]] by auto
  have d: "distinct ts" "set ts \<subseteq> {..<MAX_THREAD}" "insert t S \<subseteq> {..<MAX_THREAD}" "insert t S \<inter> set ts = {}"
    "\<forall>t \<in> set ts. instMap st1 t = Map.empty \<and> placeEquivalents st1 t = Map.empty"
    using Cons.prems(1-4,8) st1(5) by auto
  from Cons.IH [OF d(1-4) ext st1(3) dones d(5)] show ?case using st1(1) by simp
qed

lemma loopSplit_run:
  assumes "env_ok E m" "\<forall>t < MAX_THREAD. lheader (floop E) \<in> set (rel_blocks m (fplan E) t)"
  shows "\<exists>st pt. loopSplit E (no_clones m) = Ok st \<and> extended (set (fworkers E)) m (cmod st) \<and> store_inv (cmod st) \<and>
    (\<forall>t < MAX_THREAD. thread_done E m t (pt t) st)"
proof -
  have "extended ((!) (fworkers E) ` {}) m (cmod (no_clones m))" "store_inv (cmod (no_clones m))"
    using env_okD(1) [OF assms(1)] by (simp_all add: no_clones_def extended_refl)
  moreover have "set [0..<MAX_THREAD] \<subseteq> {..<MAX_THREAD}" by auto
  moreover have "\<forall>t. instMap (no_clones m) t = Map.empty \<and> placeEquivalents (no_clones m) t = Map.empty" by (simp add: no_clones_def)
  ultimately obtain st pt where
    "split_threads E [0..<MAX_THREAD] (no_clones m) = Ok st" "extended ((!) (fworkers E) ` set [0..<MAX_THREAD]) m (cmod st)" "store_inv (cmod st)"
    "\<forall>t \<in> set [0..<MAX_THREAD]. thread_done E m t (pt t) st"
    using split_threads_run [OF assms, of "[0..<MAX_THREAD]" "{}" "no_clones m"] by auto
  moreover have "(!) (fworkers E) ` set [0..<MAX_THREAD] = set (fworkers E)"
    using env_okD(7) [OF assms(1)] nth_image [of MAX_THREAD "fworkers E"] by simp
  ultimately show ?thesis unfolding loopSplit_def by (intro exI [of _ st] exI [of _ pt]) auto
qed

end
