(* ===== verification/Pipe_Loop.thy ===== *)
theory Pipe_Loop
  imports Loop_Split_Finish Small_Module
begin

text \<open>
  A loop in two stages for the witnesses: the counter 10 with its increment 11 and the branch 12 on it form the first
  component, the product 13 of the counter and an argument the second one. The plan gives one component to each
  thread; the counter and the condition of the branch cross.
\<close>

definition pipe_loop :: loop_ir where
  "pipe_loop = \<lparr>lheader = 1, lblocks = [1], lpred = Some 0, lexit = Some 2, lexits = [2], ldepth = 1\<rparr>"

definition pipe_code :: "Inst \<Rightarrow> instr" where
  "pipe_code i = \<lparr>opcode = (if i = 10 then PHI else if i = 11 then Add else if i = 13 then Mul else if i = 20 then Ret else Br),
     ity = (if i \<in> {10, 11, 13} then IntegerTy 32 else VoidTy),
     operands = (if i = 10 then [VConst 0, VInst 11] else if i = 11 then [VInst 10, VConst 1] else if i = 12 then [VInst 11]
       else if i = 13 then [VInst 10, VArg 0] else if i = 20 then [VInst 13] else []),
     succs = (if i = 5 then [1] else if i = 12 then [1, 2] else []), incoming = (if i = 10 then [0, 1] else [])\<rparr>"

text \<open>The module as the first half of the transformation leaves it: with the two empty functions of the workers.\<close>

definition pipe_module :: module_ir where
  "pipe_module = small_module\<lparr>mcode := pipe_code,
     mbody := (\<lambda>b. if b = 0 then [5] else if b = 1 then [10, 11, 13, 12] else if b = 2 then [20] else []),
     mparent := (\<lambda>i. if i = 5 then 0 else if i = 20 then 2 else if i \<in> {10, 11, 12, 13} then 1 else 9),
     mblocks := (\<lambda>g. if g = ''f'' then [0, 1, 2] else []), margs := (\<lambda>g. if g = ''w0'' then [31] else [32]), next_ptr := 40\<rparr>"

definition pipe_graph :: dep_graph where
  "pipe_graph = addEdge 11 10 REG (addEdge 10 11 REG (addEdge 10 13 REG (addEdge 11 12 REG
     (addEdge 12 10 CONTROL (addEdge 12 11 CONTROL (addEdge 12 13 CONTROL empty_graph))))))"

definition pipe_plan :: plan where
  "pipe_plan = \<lparr>pgraph = pipe_graph, names = (\<lambda>_. []),
     sccs = scc_clear\<lparr>sccNum := 2, sccId := (\<lambda>i. if i = 13 then 1 else 0), InstInSCC := [[10, 11, 12], [13]]\<rparr>,
     threads_of = \<lparr>sccLatency = [3, 3], thread_of = [0, 1], part = [[0], [1]], load = [3, 3]\<rparr>,
     live = \<lparr>defin = [VInst 10, VInst 11, VInst 13], livein = [VArg 0], liveout = [VInst 13]\<rparr>\<rparr>"

definition pipe_env :: split_env where
  "pipe_env = \<lparr>floop = pipe_loop, fexit = 2, fpred = 0, fplan = pipe_plan, fidom = [1 \<mapsto> 0, 2 \<mapsto> 1], fpostidom = [0 \<mapsto> 1, 1 \<mapsto> 2],
     fargs = StructTy [IntegerTy 32, StructTy [IntegerTy 32]], fworkers = [''w0'', ''w1'']\<rparr>"

lemma pipe_sel:
  "fplan pipe_env = pipe_plan" "floop pipe_env = pipe_loop" "fworkers pipe_env ! 0 = ''w0''" "fworkers pipe_env ! Suc 0 = ''w1''"
  "mcode pipe_module = pipe_code" "mbody pipe_module (Suc 0) = [10, 11, 13, 12]" "mparent pipe_module 13 = Suc 0" "mparent pipe_module 12 = Suc 0"
  by (simp_all add: pipe_env_def pipe_module_def)

lemma pipe_contains: "contains pipe_loop b \<longleftrightarrow> b = 1"
  by (simp add: contains_def pipe_loop_def)

lemma pipe_in_loop: "in_loop pipe_module pipe_loop i \<longleftrightarrow> i \<in> {10, 11, 12, 13}"
  by (auto simp: in_loop_def pipe_contains pipe_module_def)

lemma pipe_thread: "thread_num pipe_plan i = (if i = 13 then 1 else 0)"
  by (simp add: thread_num_def pipe_plan_def scc_clear_def)

lemma pipe_insts: "insts_of pipe_plan 0 = [10, 11, 12]" "insts_of pipe_plan (Suc 0) = [13]"
  by (simp_all add: insts_of_def pipe_plan_def scc_clear_def)

lemma all_threads: "(\<forall>t < MAX_THREAD. Q t) \<longleftrightarrow> Q 0 \<and> Q (Suc 0)"
  by (auto simp: MAX_THREAD_def less_Suc_eq numeral_2_eq_2)

lemma pipe_edges: "set (allEdges (pgraph pipe_plan)) = {mk_edge 11 10 REG, mk_edge 10 11 REG, mk_edge 10 13 REG, mk_edge 11 12 REG,
    mk_edge 12 10 CONTROL, mk_edge 12 11 CONTROL, mk_edge 12 13 CONTROL}"
  by (auto simp: pipe_plan_def pipe_graph_def addEdge_def empty_graph_def)

lemma pipe_graph_inv: "graph_inv (pgraph pipe_plan)"
  by (simp add: pipe_plan_def pipe_graph_def addEdge_inv empty_graph_inv)

lemma graph_rev_edge: "graph_inv g \<Longrightarrow> e \<in> set (edges_at (rev_graph_of g) i) \<Longrightarrow> mk_edge (ev e) i (dtype e) \<in> set (allEdges g)"
  unfolding graph_inv_def adj_inv_def by (metis mk_edge_collapse)

lemma pipe_assigned: "assigned_inst pipe_plan i"
  by (simp add: assigned_inst_def getInstAssigned_def pipe_plan_def scc_clear_def arr_get_def in_bounds_def MAX_THREAD_def)

lemma pipe_plan_ok: "plan_ok pipe_module pipe_loop pipe_plan"
proof -
  have "in_loop pipe_module pipe_loop (ev e)" if "e \<in> set (edges_at (rev_graph_of (pgraph pipe_plan)) i)" for i e
    using graph_rev_edge [OF pipe_graph_inv that] unfolding pipe_edges pipe_in_loop by auto
  moreover have "length (part (threads_of pipe_plan)) = MAX_THREAD"
    "\<forall>t < MAX_THREAD. \<forall>k \<in> set (part (threads_of pipe_plan) ! t). k < length (InstInSCC (sccs pipe_plan))"
    by (auto simp: pipe_plan_def MAX_THREAD_def scc_clear_def less_Suc_eq numeral_2_eq_2)
  ultimately show ?thesis
    unfolding plan_ok_def all_threads by (auto simp: pipe_assigned pipe_in_loop pipe_thread pipe_insts)
qed

lemma distinct_one: "distinct xs \<Longrightarrow> set xs = {x} \<Longrightarrow> xs = [x]"
  by (cases xs; cases "tl xs") auto

lemma pipe_blocks: "t < MAX_THREAD \<Longrightarrow> rel_blocks pipe_module pipe_plan t = [1]"
proof -
  assume t: "t < MAX_THREAD"
  have b: "set (rel_blocks pipe_module pipe_plan t) \<subseteq> {1}"
    using rel_blocks_in(1) [OF pipe_plan_ok t] by (auto simp: pipe_contains)
  have "t = 0 \<or> t = 1" using t by (auto simp: MAX_THREAD_def)
  then have "1 \<in> set (rel_blocks pipe_module pipe_plan t)"
    using rel_blocks_in(2) [OF pipe_plan_ok t, of "if t = 0 then 10 else 13"] by (auto simp: pipe_in_loop pipe_thread) (auto simp: pipe_module_def)
  with b have "set (rel_blocks pipe_module pipe_plan t) = {1}" by blast
  moreover have "distinct (rel_blocks pipe_module pipe_plan t)" using relbb_is(2) [OF plan_okD(1,2) [OF pipe_plan_ok]] t by blast
  ultimately show ?thesis by (rule distinct_one [rotated])
qed

lemma pipe_header: "\<forall>t < MAX_THREAD. lheader (floop pipe_env) \<in> set (rel_blocks pipe_module (fplan pipe_env) t)"
  using pipe_blocks by (simp add: pipe_env_def pipe_loop_def)

lemma pipe_inv: "store_inv pipe_module"
  by (auto simp: store_inv_def pipe_module_def small_module_def split: if_splits)

lemma pipe_cfg: "cfg_ok pipe_env pipe_module"
proof -
  have "(1, 2) \<in> (up_rel (fpostidom pipe_env))\<^sup>*" "(1, 0) \<in> (up_rel (fidom pipe_env))\<^sup>*"
    by (auto intro!: r_into_rtrancl simp: up_rel_def pipe_env_def)
  then show ?thesis
    by (auto simp: cfg_ok_def pipe_env_def pipe_contains pipe_module_def pipe_code_def is_terminator_def)
qed

lemma pipe_env_ok: "env_ok pipe_env pipe_module"
proof -
  have "mdecl pipe_module ''showPlace'' = Some (FunTy [] VoidTy)"
    using small_module_runtime by (simp add: pipe_module_def runtime_declared_def)
  then show ?thesis
    using pipe_inv pipe_cfg pipe_plan_ok
    by (simp add: env_ok_def pipe_env_def pipe_contains MAX_THREAD_def)
      (auto simp: pipe_plan_def pipe_module_def small_module_def pipe_code_def is_terminator_def is_variable_def in_loop_def pipe_contains)
qed

end
