(* ===== verification/Loop_Split_Result.thy ===== *)
theory Loop_Split_Result
  imports Pipe_Loop
begin

text \<open>
  The properties of the workers that \<open>loopSplit\<close> makes: which instructions they hold, that their control flow and
  their operands stay inside the function but for the values of other threads, and how they take the live-in values
  and hand over the live-out values.
\<close>

section \<open>Reading the result\<close>

lemma thread_doneD:
  assumes "thread_done E m t p st"
  defines "rel \<equiv> rel_blocks m (fplan E) t" and "D \<equiv> thread_insts E m t" and "q \<equiv> copies_ptr E m t p"
    and "c \<equiv> entry_ptr E m t p" and "x \<equiv> exit_ptr E m t p" and "tab \<equiv> thread_tab E m t p" and "g \<equiv> fworkers E ! t"
  defines "xc \<equiv> exit_code E t tab (Suc c) x"
  shows "next_ptr m \<le> p" "x + length xc \<le> next_ptr (cmod st)"
    "mblocks (cmod st) g = p # [p + 2..<p + 2 + length rel] @ [Suc p]" "mbody (cmod st) p = [c..<x] @ [p + 2 + length rel]"
    "mbody (cmod st) (Suc p) = [x..<x + length xc] @ [p + 3 + length rel]"
    "j < length rel \<Longrightarrow> mbody (cmod st) (p + 2 + j) = map ((+) q) (filter (\<lambda>k. mparent m (D ! k) = rel ! j) [0..<length D])"
    "located (cmod st) c (entry_code E (Some (FunTy [] VoidTy)) (hd (margs m g)) c)" "located (cmod st) x xc"
    "mcode (cmod st) (p + 2 + length rel) = mk_branch (the (block_map E rel p (lheader (floop E))))"
    "mcode (cmod st) (p + 3 + length rel) = mk_ret_null"
    "k < length D \<Longrightarrow> \<exists>ins. clone_instr E (block_map E rel p) (mcode m (D ! k)) = Ok ins \<and> mcode (cmod st) (q + k) = replaceUses tab ins"
    "instMap st t = tab" "k < length D \<Longrightarrow> newToOld st (VInst (q + k)) = Some (VInst (D ! k))"
    "placeEquivalents st t i = Some n \<Longrightarrow> q \<le> n \<and> n < c \<and> (i < next_ptr m \<longrightarrow> mparent m (D ! (n - q)) = mparent m i)"
    "b \<in> set rel \<Longrightarrow> i \<in> set (mbody m b) \<Longrightarrow> \<not> keep (fplan E) m t i \<Longrightarrow> placeEquivalents st t i \<noteq> None"
  using assms(1) unfolding thread_done_def Let_def assms(2-) by (elim conjE, simp)+

lemma nth_filter: "map ((!) D) (filter (\<lambda>k. P (D ! k)) [0..<length D]) = filter P D"
proof -
  have "filter P D = filter P (map ((!) D) [0..<length D])" by (simp add: map_nth)
  then show ?thesis by (simp add: filter_map comp_def)
qed

lemma kept_of_block:
  assumes "env_ok E m" "t < MAX_THREAD" "b \<in> set (rel_blocks m (fplan E) t)"
  shows "filter (\<lambda>i. mparent m i = b) (thread_insts E m t) = kept (fplan E) m t b"
proof -
  have par: "mparent m i = b" if "i \<in> set (kept (fplan E) m t b)" for i b
    using that store_inst [OF env_okD(1) [OF assms(1)]] by (auto simp: kept_def)
  have "filter (\<lambda>i. mparent m i = b) (concat (map (kept (fplan E) m t) bs)) = (if b \<in> set bs then kept (fplan E) m t b else [])"
    if "distinct bs" for bs
    using that
  proof (induction bs)
    case (Cons a bs)
    have "filter (\<lambda>i. mparent m i = b) (kept (fplan E) m t a) = (if a = b then kept (fplan E) m t a else [])"
      using par [of _ a] by (auto simp: filter_id_conv filter_empty_conv)
    then show ?case using Cons by auto
  qed simp
  then show ?thesis
    using relbb_is(2) [OF plan_okD(1,2) [OF env_okD(3) [OF assms(1)]]] assms(2,3) by (simp add: thread_insts_def)
qed

text \<open>The instructions of a worker: the copies, the code of the entry and the exit block, and their terminators.\<close>

lemma worker_inst_cases:
  assumes ok: "env_ok E m" "t < MAX_THREAD" and d: "thread_done E m t p st" and i: "in_fun (cmod st) (fworkers E ! t) i"
  shows "(\<exists>k < length (thread_insts E m t). i = copies_ptr E m t p + k) \<or>
    (\<exists>ins \<in> set (entry_code E (Some (FunTy [] VoidTy)) (hd (margs m (fworkers E ! t))) (entry_ptr E m t p)). mcode (cmod st) i = ins) \<or>
    (\<exists>ins \<in> set (exit_code E t (thread_tab E m t p) (Suc (entry_ptr E m t p)) (exit_ptr E m t p)). mcode (cmod st) i = ins) \<or>
    mcode (cmod st) i = mk_branch (the (block_map E (rel_blocks m (fplan E) t) p (lheader (floop E)))) \<or> mcode (cmod st) i = mk_ret_null"
proof -
  note d = thread_doneD [OF d]
  let ?rel = "rel_blocks m (fplan E) t" and ?c = "entry_ptr E m t p" and ?x = "exit_ptr E m t p"
  let ?ec = "entry_code E (Some (FunTy [] VoidTy)) (hd (margs m (fworkers E ! t))) ?c"
  let ?xc = "exit_code E t (thread_tab E m t p) (Suc ?c) ?x"
  obtain b where b: "b \<in> set (mblocks (cmod st) (fworkers E ! t))" "i \<in> set (mbody (cmod st) b)" using i by (auto simp: in_fun_def)
  have loc: "mcode (cmod st) i \<in> set inss" if "located (cmod st) n inss" "n \<le> i" "i < n + length inss" for n inss
    using that unfolding located_def by (metis add_diff_inverse_nat less_diff_conv2 add.commute not_less nth_mem)
  have "?x = ?c + length ?ec" by (simp add: exit_ptr_def)
  consider "b = p" | "b = Suc p" | j where "j < length ?rel" "b = p + 2 + j"
    using b(1) unfolding d(3) by (auto simp: le_iff_add)
  then show ?thesis
  proof cases
    case 1
    then have "?c \<le> i \<and> i < ?x \<or> i = p + 2 + length ?rel" using b(2) d(4) by auto
    then show ?thesis using loc [OF d(7)] d(9) \<open>?x = _\<close> by auto
  next
    case 2
    then have "?x \<le> i \<and> i < ?x + length ?xc \<or> i = p + 3 + length ?rel" using b(2) d(5) by auto
    then show ?thesis using loc [OF d(8)] d(10) by auto
  next
    case 3
    then have "\<exists>k < length (thread_insts E m t). i = copies_ptr E m t p + k" using b(2) d(6) by auto
    then show ?thesis by blast
  qed
qed

lemma pipe_worker: "\<exists>st en b ex. loopSplit pipe_env (no_clones pipe_module) = Ok st \<and> mblocks (cmod st) ''w1'' = [en, b, ex]"
proof -
  have t: "Suc 0 < MAX_THREAD" by (simp add: MAX_THREAD_def)
  obtain st pt where st: "loopSplit pipe_env (no_clones pipe_module) = Ok st"
    "\<forall>t < MAX_THREAD. thread_done pipe_env pipe_module t (pt t) st"
    using loopSplit_run [OF pipe_env_ok pipe_header] by blast
  have "rel_blocks pipe_module (fplan pipe_env) (Suc 0) = [1]" using pipe_blocks [OF t] by (simp add: pipe_env_def)
  then have "mblocks (cmod st) ''w1'' = [pt 1, pt 1 + 2, Suc (pt 1)]"
    using thread_doneD(3) [OF st(2) [rule_format, OF t]] by (simp add: pipe_env_def)
  then show ?thesis using st(1) by blast
qed

section \<open>The instructions of a worker\<close>

text \<open>
  C29. \<open>loopSplit\<close> succeeds on a plan that fits the loop, and each worker holds, in a copy of every block it depends on,
  copies of exactly its own instructions and of the terminator, in their order; besides these blocks there are an entry
  and an exit block.
\<close>

theorem worker_copies:
  assumes "env_ok E m" "\<forall>t < MAX_THREAD. lheader (floop E) \<in> set (rel_blocks m (fplan E) t)"
  shows "\<exists>st. loopSplit E (no_clones m) = Ok st \<and> (\<forall>t < MAX_THREAD. \<exists>en bs ex.
    mblocks (cmod st) (fworkers E ! t) = en # bs @ [ex] \<and> length bs = length (rel_blocks m (fplan E) t) \<and>
    (\<forall>j < length bs. map (\<lambda>n. newToOld st (VInst n)) (mbody (cmod st) (bs ! j)) =
      map (\<lambda>i. Some (VInst i)) (filter (\<lambda>i. thread_num (fplan E) i = t \<or> is_terminator (opcode (mcode m i)))
        (mbody m (rel_blocks m (fplan E) t ! j)))))"
proof -
  obtain st pt where st: "loopSplit E (no_clones m) = Ok st" "\<forall>t < MAX_THREAD. thread_done E m t (pt t) st"
    using loopSplit_run [OF assms] by blast
  have "\<exists>en bs ex. mblocks (cmod st) (fworkers E ! t) = en # bs @ [ex] \<and> length bs = length (rel_blocks m (fplan E) t) \<and>
    (\<forall>j < length bs. map (\<lambda>n. newToOld st (VInst n)) (mbody (cmod st) (bs ! j)) =
      map (\<lambda>i. Some (VInst i)) (filter (\<lambda>i. thread_num (fplan E) i = t \<or> is_terminator (opcode (mcode m i)))
        (mbody m (rel_blocks m (fplan E) t ! j))))" if t: "t < MAX_THREAD" for t
  proof (intro exI conjI allI impI)
    note d = thread_doneD [OF st(2) [rule_format, OF t]]
    let ?rel = "rel_blocks m (fplan E) t" and ?D = "thread_insts E m t" and ?bs = "[pt t + 2..<pt t + 2 + length (rel_blocks m (fplan E) t)]"
    show "mblocks (cmod st) (fworkers E ! t) = pt t # ?bs @ [Suc (pt t)]" by (rule d(3))
    show "length ?bs = length ?rel" by (simp del: upt_Suc)
    fix j assume "j < length ?bs"
    then have j: "j < length ?rel" by (simp del: upt_Suc)
    let ?ks = "filter (\<lambda>k. mparent m (?D ! k) = ?rel ! j) [0..<length ?D]"
    have "map (\<lambda>n. newToOld st (VInst n)) (mbody (cmod st) (?bs ! j)) = map (\<lambda>k. Some (VInst (?D ! k))) ?ks"
      using d(6) [OF j] d(13) j by (simp del: upt_Suc)
    also have "\<dots> = map (\<lambda>i. Some (VInst i)) (map ((!) ?D) ?ks)" by simp
    also have "map ((!) ?D) ?ks = filter (\<lambda>i. mparent m i = ?rel ! j) ?D" by (rule nth_filter)
    finally show "map (\<lambda>n. newToOld st (VInst n)) (mbody (cmod st) (?bs ! j)) =
        map (\<lambda>i. Some (VInst i)) (filter (\<lambda>i. thread_num (fplan E) i = t \<or> is_terminator (opcode (mcode m i))) (mbody m (?rel ! j)))"
      unfolding kept_of_block [OF assms(1) t nth_mem [OF j]] by (simp add: kept_def keep_def [abs_def] del: upt_Suc)
  qed
  then show ?thesis using st(1) by blast
qed

theorem worker_copies_witness:
  "\<exists>st en b ex. loopSplit pipe_env (no_clones pipe_module) = Ok st \<and> mblocks (cmod st) ''w1'' = [en, b, ex] \<and>
    map (\<lambda>n. newToOld st (VInst n)) (mbody (cmod st) b) = [Some (VInst 13), Some (VInst 12)]"
proof -
  obtain st where st: "loopSplit pipe_env (no_clones pipe_module) = Ok st"
    "\<forall>t < MAX_THREAD. \<exists>en bs ex. mblocks (cmod st) (fworkers pipe_env ! t) = en # bs @ [ex] \<and>
      length bs = length (rel_blocks pipe_module (fplan pipe_env) t) \<and>
      (\<forall>j < length bs. map (\<lambda>n. newToOld st (VInst n)) (mbody (cmod st) (bs ! j)) =
        map (\<lambda>i. Some (VInst i)) (filter (\<lambda>i. thread_num (fplan pipe_env) i = t \<or> is_terminator (opcode (mcode pipe_module i)))
          (mbody pipe_module (rel_blocks pipe_module (fplan pipe_env) t ! j))))"
    using worker_copies [OF pipe_env_ok pipe_header] by blast
  have t: "Suc 0 < MAX_THREAD" by (simp add: MAX_THREAD_def)
  have E: "fplan pipe_env = pipe_plan" "fworkers pipe_env ! Suc 0 = ''w1''" by (simp_all add: pipe_env_def)
  obtain en bs ex where w: "mblocks (cmod st) ''w1'' = en # bs @ [ex]" "length bs = Suc 0"
    "\<forall>j < length bs. map (\<lambda>n. newToOld st (VInst n)) (mbody (cmod st) (bs ! j)) =
      map (\<lambda>i. Some (VInst i)) (filter (\<lambda>i. thread_num pipe_plan i = Suc 0 \<or> is_terminator (opcode (mcode pipe_module i)))
        (mbody pipe_module ([1] ! j)))"
    using st(2) [rule_format, OF t] unfolding E pipe_blocks [OF t] by auto
  then obtain b where b: "bs = [b]" by (cases bs) auto
  then have "map (\<lambda>n. newToOld st (VInst n)) (mbody (cmod st) b) = [Some (VInst 13), Some (VInst 12)]"
    using w(3) by (simp add: pipe_thread) (simp add: pipe_module_def pipe_code_def is_terminator_def)
  then show ?thesis using st(1) w(1) b by auto
qed

section \<open>Control flow\<close>

lemma block_map_ran:
  assumes "env_ok E m" "t < MAX_THREAD" "thread_done E m t p st"
  shows "ran (block_map E (rel_blocks m (fplan E) t) p) \<subseteq> set (mblocks (cmod st) (fworkers E ! t))"
    "block_map E (rel_blocks m (fplan E) t) p (fexit E) \<noteq> None" "block_map E (rel_blocks m (fplan E) t) p (fpred E) \<noteq> None"
    "b \<in> set (rel_blocks m (fplan E) t) \<Longrightarrow> block_map E (rel_blocks m (fplan E) t) p b \<noteq> None"
proof -
  let ?rel = "rel_blocks m (fplan E) t"
  note e = env_okD [OF assms(1)]
  have "distinct ?rel" "fpred E \<notin> set ?rel" "fexit E \<notin> set ?rel"
    using relbb_is(2) [OF plan_okD(1,2) [OF e(3)]] rel_blocks_in(1) [OF e(3) assms(2)] e(4,5) assms(2) by blast+
  note bm = block_map_facts [OF this, where p = p]
  show "ran (block_map E ?rel p) \<subseteq> set (mblocks (cmod st) (fworkers E ! t))"
    unfolding thread_doneD(3) [OF assms(3)] ran_def using bm(4) by (fastforce simp del: upt_Suc)
  show "block_map E ?rel p (fexit E) \<noteq> None" "block_map E ?rel p (fpred E) \<noteq> None" using bm(1,2) by simp_all
  show "b \<in> set ?rel \<Longrightarrow> block_map E ?rel p b \<noteq> None" using bm(3) by (metis in_set_conv_nth option.simps(3))
qed

text \<open>A copy differs from its original in the targets and the operands only.\<close>

lemma copy_shape:
  assumes ok: "env_ok E m" "t < MAX_THREAD" and d: "thread_done E m t p st" and k: "k < length (thread_insts E m t)"
  shows "\<exists>ins. copy_of (block_map E (rel_blocks m (fplan E) t) p) (mcode m (thread_insts E m t ! k)) ins \<and>
    mcode (cmod st) (copies_ptr E m t p + k) = replaceUses (thread_tab E m t p) ins"
proof -
  let ?i = "thread_insts E m t ! k"
  note e = env_okD [OF ok(1)] and b = block_map_ran [OF ok d]
  have "in_loop m (floop E) ?i" using thread_insts_iff [OF ok] nth_mem [OF k] by blast
  then obtain ins where ins: "clone_instr E (block_map E (rel_blocks m (fplan E) t) p) (mcode m ?i) = Ok ins"
    "copy_of (block_map E (rel_blocks m (fplan E) t) p) (mcode m ?i) ins"
    using clone_exists [OF e(2) _ _ b(2,3)] unfolding in_loop_def by blast
  then show ?thesis using thread_doneD(11) [OF d k] by auto
qed

lemma copy_ofD:
  assumes "copy_of bbm ins ins'"
  shows "is_terminator (opcode ins') \<longleftrightarrow> is_terminator (opcode ins)" "is_terminator (opcode ins') \<Longrightarrow> set (succs ins') \<subseteq> ran bbm"
    "\<not> is_terminator (opcode ins') \<Longrightarrow> opcode ins' = PHI \<Longrightarrow> set (incoming ins') \<subseteq> ran bbm"
    "\<not> is_terminator (opcode ins') \<Longrightarrow> operands ins' = operands ins" "set (operands ins') \<subseteq> set (operands ins)"
  using assms unfolding copy_of_def by auto

lemma entry_exit_plain:
  "ins \<in> set (entry_code E sp arg c) \<Longrightarrow> \<not> is_terminator (opcode ins) \<and> opcode ins \<noteq> PHI"
  "ins \<in> set (exit_code E t tab c x) \<Longrightarrow> \<not> is_terminator (opcode ins) \<and> opcode ins \<noteq> PHI"
proof -
  have l: "ins \<in> set (liveout_code ty a p j vs) \<Longrightarrow> opcode ins \<in> {GetElementPtr, Load}" for ins ty a p j vs
    by (induction ty a p j vs rule: liveout_code.induct) auto
  have o: "ins \<in> set (outs_code ty a p jvs) \<Longrightarrow> opcode ins \<in> {GetElementPtr, Store}" for ins ty a p jvs
    by (induction ty a p jvs rule: outs_code.induct) auto
  show "ins \<in> set (entry_code E sp arg c) \<Longrightarrow> \<not> is_terminator (opcode ins) \<and> opcode ins \<noteq> PHI"
    using l by (fastforce simp: entry_code_def is_terminator_def)
  show "ins \<in> set (exit_code E t tab c x) \<Longrightarrow> \<not> is_terminator (opcode ins) \<and> opcode ins \<noteq> PHI"
    using o by (fastforce simp: exit_code_def Let_def is_terminator_def)
qed

lemma worker_targets:
  assumes ok: "env_ok E m" "t < MAX_THREAD" and h: "lheader (floop E) \<in> set (rel_blocks m (fplan E) t)"
    and d: "thread_done E m t p st" and i: "in_fun (cmod st) (fworkers E ! t) i"
  shows "(is_terminator (opcode (mcode (cmod st) i)) \<longrightarrow> set (succs (mcode (cmod st) i)) \<subseteq> set (mblocks (cmod st) (fworkers E ! t))) \<and>
    (opcode (mcode (cmod st) i) = PHI \<longrightarrow> set (incoming (mcode (cmod st) i)) \<subseteq> set (mblocks (cmod st) (fworkers E ! t)))"
proof -
  let ?bbm = "block_map E (rel_blocks m (fplan E) t) p"
  note b = block_map_ran [OF ok d]
  from worker_inst_cases [OF ok d i] show ?thesis
  proof (elim disjE exE bexE conjE)
    fix k assume copy: "k < length (thread_insts E m t)" "i = copies_ptr E m t p + k"
    obtain ins where ins: "copy_of ?bbm (mcode m (thread_insts E m t ! k)) ins" "mcode (cmod st) i = replaceUses (thread_tab E m t p) ins"
      using copy_shape [OF ok d copy(1)] copy(2) by blast
    show ?thesis
    proof (cases "is_terminator (opcode ins)")
      case True
      then have "opcode ins \<noteq> PHI" by (auto simp: is_terminator_def)
      then show ?thesis unfolding ins(2) replaceUses_frame using subset_trans [OF copy_ofD(2) [OF ins(1) True] b(1)] by simp
    next
      case False
      then show ?thesis unfolding ins(2) replaceUses_frame using subset_trans [OF copy_ofD(3) [OF ins(1) False] b(1)] by simp
    qed
  next
    fix ins assume "ins \<in> set (entry_code E (Some (FunTy [] VoidTy)) (hd (margs m (fworkers E ! t))) (entry_ptr E m t p))" "mcode (cmod st) i = ins"
    then show ?thesis using entry_exit_plain(1) by blast
  next
    fix ins assume "ins \<in> set (exit_code E t (thread_tab E m t p) (Suc (entry_ptr E m t p)) (exit_ptr E m t p))" "mcode (cmod st) i = ins"
    then show ?thesis using entry_exit_plain(2) by blast
  next
    assume branch: "mcode (cmod st) i = mk_branch (the (?bbm (lheader (floop E))))"
    obtain nh where "?bbm (lheader (floop E)) = Some nh" using b(4) [OF h] by blast
    then show ?thesis using branch b(1) by (auto simp: ran_def)
  qed (simp_all add: mk_ret_null_def mk_instr_def)
qed

lemma worker_block_last:
  assumes ok: "env_ok E m" "t < MAX_THREAD" and d: "thread_done E m t p st" and j: "j < length (rel_blocks m (fplan E) t)"
  shows "\<exists>k < length (thread_insts E m t). mbody (cmod st) (p + 2 + j) \<noteq> [] \<and> last (mbody (cmod st) (p + 2 + j)) = copies_ptr E m t p + k \<and>
    thread_insts E m t ! k = last (mbody m (rel_blocks m (fplan E) t ! j))"
proof -
  let ?D = "thread_insts E m t" and ?a = "rel_blocks m (fplan E) t ! j"
  let ?ks = "filter (\<lambda>k. mparent m (?D ! k) = ?a) [0..<length ?D]"
  note e = env_okD [OF ok(1)] and dd = thread_doneD [OF d]
  have a: "?a \<in> set (rel_blocks m (fplan E) t)" using j by simp
  have ks: "map ((!) ?D) ?ks = kept (fplan E) m t ?a" using nth_filter [of ?D "\<lambda>i. mparent m i = ?a"] kept_of_block [OF ok a] by simp
  note L = e(6) [OF rel_blocks_in(1) [OF e(3) ok(2) a]]
  have "mbody m ?a = butlast (mbody m ?a) @ [last (mbody m ?a)]" using L by simp
  moreover have "keep (fplan E) m t (last (mbody m ?a))" using L by (simp add: keep_def)
  ultimately have last: "kept (fplan E) m t ?a \<noteq> []" "last (kept (fplan E) m t ?a) = last (mbody m ?a)"
    unfolding kept_def by (metis filter.simps filter_append snoc_eq_iff_butlast)+
  have ne: "?ks \<noteq> []" using ks last(1) by (metis list.simps(8))
  then have k: "last ?ks < length ?D" using last_in_set [OF ne] by auto
  have "?D ! last ?ks = last (mbody m ?a)" using ks last(2) ne by (metis last_map)
  then show ?thesis using k ne by (auto simp: dd(6) [OF j, simplified] last_map intro!: exI [of _ "last ?ks"])
qed

lemma worker_block_end:
  assumes ok: "env_ok E m" "t < MAX_THREAD" and d: "thread_done E m t p st" and b: "b \<in> set (mblocks (cmod st) (fworkers E ! t))"
  shows "mbody (cmod st) b \<noteq> [] \<and> is_terminator (opcode (mcode (cmod st) (last (mbody (cmod st) b))))"
proof -
  let ?rel = "rel_blocks m (fplan E) t" and ?D = "thread_insts E m t"
  note e = env_okD [OF ok(1)] and dd = thread_doneD [OF d]
  consider "b = p" | "b = Suc p" | j where "j < length ?rel" "b = p + 2 + j" using b unfolding dd(3) by (auto simp: le_iff_add)
  then show ?thesis
  proof cases
    case 3
    obtain k where k: "k < length ?D" "mbody (cmod st) b \<noteq> []" "last (mbody (cmod st) b) = copies_ptr E m t p + k"
      "?D ! k = last (mbody m (?rel ! j))"
      using worker_block_last [OF ok d 3(1)] 3(2) by blast
    have "is_terminator (opcode (mcode m (?D ! k)))" using e(6) [OF rel_blocks_in(1) [OF e(3) ok(2) nth_mem [OF 3(1)]]] k(4) by simp
    moreover obtain ins where "copy_of (block_map E ?rel p) (mcode m (?D ! k)) ins"
      "mcode (cmod st) (copies_ptr E m t p + k) = replaceUses (thread_tab E m t p) ins"
      using copy_shape [OF ok d k(1)] by blast
    ultimately show ?thesis using k(2,3) by (simp add: copy_ofD(1) replaceUses_frame)
  qed (use dd(4,5,9,10) in \<open>simp_all add: is_terminator_def\<close>)
qed

text \<open>
  C30. The control flow of a worker stays in it: every block ends in a terminator, the targets of the terminators and the
  predecessors named in the PHI nodes are blocks of the same function.
\<close>

theorem workers_closed:
  assumes "env_ok E m" "\<forall>t < MAX_THREAD. lheader (floop E) \<in> set (rel_blocks m (fplan E) t)" "t < MAX_THREAD"
    and "loopSplit E (no_clones m) = Ok st" and "b \<in> set (mblocks (cmod st) (fworkers E ! t))"
  shows "mbody (cmod st) b \<noteq> [] \<and> is_terminator (opcode (mcode (cmod st) (last (mbody (cmod st) b)))) \<and>
    (\<forall>i \<in> set (mbody (cmod st) b).
      (is_terminator (opcode (mcode (cmod st) i)) \<longrightarrow> set (succs (mcode (cmod st) i)) \<subseteq> set (mblocks (cmod st) (fworkers E ! t))) \<and>
      (opcode (mcode (cmod st) i) = PHI \<longrightarrow> set (incoming (mcode (cmod st) i)) \<subseteq> set (mblocks (cmod st) (fworkers E ! t))))"
proof -
  obtain p where d: "thread_done E m t p st" using loopSplit_run [OF assms(1,2)] assms(3,4) by auto
  show ?thesis using worker_targets [OF assms(1,3) _ d] worker_block_end [OF assms(1,3) d assms(5)] assms(2,3,5) by (auto simp: in_fun_def)
qed

theorem workers_closed_witness:
  "\<exists>st en b ex i. loopSplit pipe_env (no_clones pipe_module) = Ok st \<and> mblocks (cmod st) ''w1'' = [en, b, ex] \<and>
    i = last (mbody (cmod st) b) \<and> is_terminator (opcode (mcode (cmod st) i)) \<and> set (succs (mcode (cmod st) i)) \<subseteq> {en, b, ex}"
proof -
  have t: "Suc 0 < MAX_THREAD" and w: "fworkers pipe_env ! Suc 0 = ''w1''" by (simp_all add: MAX_THREAD_def pipe_env_def)
  obtain st en b ex where st: "loopSplit pipe_env (no_clones pipe_module) = Ok st" "mblocks (cmod st) ''w1'' = [en, b, ex]"
    using pipe_worker by blast
  then have b: "b \<in> set (mblocks (cmod st) (fworkers pipe_env ! Suc 0))" by (simp add: w)
  note c = workers_closed [OF pipe_env_ok pipe_header t st(1) b]
  then show ?thesis using st last_in_set by (fastforce simp: w)
qed

section \<open>Operands\<close>

text \<open>A new value is no live-in value and no instruction of the loop.\<close>

lemma new_value:
  assumes "env_ok E m" "next_ptr m \<le> n"
  shows "VInst n \<notin> set (lins E)" "\<not> in_loop m (floop E) n"
  using assms env_okD(12) [OF assms(1), of "VInst n"] in_loop_ptr [OF env_okD(1) [OF assms(1)], of _ n] by auto

lemma thread_tab_some:
  assumes "env_ok E m" "t < MAX_THREAD" "next_ptr m \<le> p" "thread_tab E m t p v = Some w"
  shows "\<exists>n \<ge> next_ptr m. w = VInst n"
proof -
  have q: "next_ptr m \<le> copies_ptr E m t p" "next_ptr m \<le> entry_ptr E m t p + 2" using assms(3) by (simp_all add: copies_ptr_def entry_ptr_def)
  consider "liveout_map (entry_ptr E m t p + 2) (lins E) v = Some w" | "copy_tab (thread_insts E m t) (copies_ptr E m t p) v = Some w"
    using assms(4) by (auto simp: thread_tab_def map_add_def split: option.splits)
  then show ?thesis
  proof cases
    case 1
    from liveout_map_range [OF 1] q(2) show ?thesis by fastforce
  next
    case 2
    then obtain k where "k < length (thread_insts E m t)" "v = VInst (thread_insts E m t ! k)"
      using copy_tab_other by (metis imageE in_set_conv_nth option.simps(3))
    then show ?thesis using 2 copy_tab_nth [OF distinct_thread_insts [OF assms(1,2)]] q(1) by fastforce
  qed
qed

lemma thread_tab_none:
  assumes "thread_tab E m t p v = None" "env_ok E m" "t < MAX_THREAD"
  shows "v \<notin> set (lins E)" "v = VInst x \<Longrightarrow> x \<notin> set (thread_insts E m t)"
proof -
  have n: "liveout_map (entry_ptr E m t p + 2) (lins E) v = None" "copy_tab (thread_insts E m t) (copies_ptr E m t p) v = None"
    using assms(1) by (auto simp: thread_tab_def map_add_None)
  show "v \<notin> set (lins E)" using n(1) liveout_map_dom by metis
  show "v = VInst x \<Longrightarrow> x \<notin> set (thread_insts E m t)"
    using n(2) copy_tab_nth [OF distinct_thread_insts [OF assms(2,3)]] by (metis in_set_conv_nth option.simps(3))
qed

lemma outs_code_operands:
  "ins \<in> set (outs_code ty a p jvs) \<Longrightarrow> v \<in> set (operands ins) \<Longrightarrow>
    v \<in> snd ` set jvs \<or> v = VInst a \<or> (\<exists>w n. v = VInt w n) \<or> (\<exists>i \<ge> p. v = VInst i)"
proof (induction ty a p jvs rule: outs_code.induct)
  case (2 ty a p jv jvs)
  show ?case
  proof (cases "ins \<in> set (outs_code ty a (p + 2) jvs)")
    case True
    have "\<exists>i \<ge> p. v = VInst i" if "\<exists>i \<ge> p + 2. v = VInst i" using that add_leD1 by blast
    then show ?thesis using "2.IH" [OF True "2.prems"(2)] by (simp only: list.set image_insert insert_iff) blast
  next
    case False
    then show ?thesis using "2.prems" by auto
  qed
qed simp

lemma own_outs_values:
  assumes "env_ok E m" "t < MAX_THREAD" "w \<in> snd ` set (own_outs (fplan E) t (thread_tab E m t p) (enumerate 0 (louts E)))"
  shows "\<exists>v \<in> set (louts E). thread_tab E m t p v = Some w"
proof -
  obtain j v where v: "(j, v) \<in> set (enumerate 0 (louts E))" "w = the (thread_tab E m t p v)"
    "getInstAssigned (thread_of (threads_of (fplan E))) (sccId (sccs (fplan E))) v = Ok (int t)"
    using assms(3) by (auto simp: own_outs_def)
  then have "v \<in> set (louts E)" by (auto simp: enumerate_eq_zip dest: set_zip_rightD)
  then show ?thesis using louts_assigned [OF assms(1,2), of v p] v(2,3) by fastforce
qed

lemma worker_operand:
  assumes ok: "env_ok E m" "t < MAX_THREAD" and d: "thread_done E m t p st" and i: "in_fun (cmod st) (fworkers E ! t) i"
    and v: "v \<in> set (operands (mcode (cmod st) i))"
  shows "v \<notin> set (lins E) \<and> (\<forall>x. v = VInst x \<and> in_loop m (floop E) x \<longrightarrow> x \<notin> set (thread_insts E m t) \<and>
    (\<exists>k < length (thread_insts E m t). i = copies_ptr E m t p + k \<and> v \<in> set (operands (mcode m (thread_insts E m t ! k)))))"
proof -
  note dd = thread_doneD [OF d] and e = env_okD [OF ok(1)]
  let ?tab = "thread_tab E m t p" and ?c = "entry_ptr E m t p" and ?x = "exit_ptr E m t p" and ?arg = "hd (margs m (fworkers E ! t))"
  have np: "next_ptr m \<le> ?c" "?c \<le> ?x" using dd(1) by (simp_all add: entry_ptr_def copies_ptr_def exit_ptr_def)
  have new: ?thesis if "\<exists>n \<ge> next_ptr m. v = VInst n" using that new_value [OF ok(1)] by auto
  have plain: ?thesis if "\<not> is_variable v" using that e(12) by (auto simp: is_variable_def)
  have "fworkers E ! t \<in> set (fworkers E)" using e(7) ok(2) by simp
  from e(9) [OF this] have arg: "VArg ?arg \<notin> set (lins E)" by auto
  from worker_inst_cases [OF ok d i] show ?thesis
  proof (elim disjE exE bexE conjE)
    fix k assume k: "k < length (thread_insts E m t)" "i = copies_ptr E m t p + k"
    obtain ins where ins: "copy_of (block_map E (rel_blocks m (fplan E) t) p) (mcode m (thread_insts E m t ! k)) ins"
      "mcode (cmod st) i = replaceUses ?tab ins"
      using copy_shape [OF ok d k(1)] k(2) by blast
    obtain op where op: "op \<in> set (operands ins)" "v = (case ?tab op of Some w \<Rightarrow> w | None \<Rightarrow> op)"
      using v unfolding ins(2) by (auto simp: replaceUses_def)
    show ?thesis
    proof (cases "?tab op")
      case None
      then have "v = op" using op(2) by simp
      moreover have "op \<in> set (operands (mcode m (thread_insts E m t ! k)))" using copy_ofD(5) [OF ins(1)] op(1) by blast
      ultimately show ?thesis using thread_tab_none [OF None ok] k by auto
    next
      case (Some w)
      then show ?thesis using thread_tab_some [OF ok dd(1) Some] op(2) new by simp
    qed
  next
    fix ins assume ins: "ins \<in> set (entry_code E (Some (FunTy [] VoidTy)) ?arg ?c)" "mcode (cmod st) i = ins"
    from entry_code_operands [OF ins(1), of v] v ins(2) have "v = VArg ?arg \<or> \<not> is_variable v \<or> (\<exists>i \<ge> ?c. v = VInst i)" by simp
    then show ?thesis using arg plain new np(1) le_trans by blast
  next
    fix ins assume ins: "ins \<in> set (exit_code E t ?tab (Suc ?c) ?x)" "mcode (cmod st) i = ins"
    have "v \<in> snd ` set (own_outs (fplan E) t ?tab (enumerate 0 (louts E))) \<or> (\<exists>w n. v = VInt w n) \<or> (\<exists>i \<ge> ?c. v = VInst i)"
    proof (cases "ins \<in> set (outs_code (PointerTy (field_ty (PointerTy (fargs E)) (length (lins E)))) ?x (Suc ?x)
        (own_outs (fplan E) t ?tab (enumerate 0 (louts E))))")
      case True
      from outs_code_operands [OF True, of v] v ins(2) np(2) show ?thesis using le_trans le_SucI by blast
    next
      case False
      then show ?thesis using ins v by (auto simp: exit_code_def Let_def)
    qed
    then show ?thesis
      using own_outs_values [OF ok, of v p] thread_tab_some [OF ok dd(1)] new plain np(1) le_trans by (auto simp: is_variable_def)
  qed (use v plain in \<open>auto simp: is_variable_def\<close>)
qed

text \<open>
  C31. No worker uses a live-in value of the loop or an instruction of the loop that it has a copy of. What a worker still
  takes from the old loop are results of other threads, and only in copies of the instructions that used them there.
\<close>

theorem worker_operands:
  assumes "env_ok E m" "\<forall>t < MAX_THREAD. lheader (floop E) \<in> set (rel_blocks m (fplan E) t)" "t < MAX_THREAD"
    and "loopSplit E (no_clones m) = Ok st" "in_fun (cmod st) (fworkers E ! t) i" "v \<in> set (operands (mcode (cmod st) i))"
  shows "v \<notin> set (livein (live (fplan E))) \<and> (\<forall>x. v = VInst x \<and> in_loop m (floop E) x \<longrightarrow> thread_num (fplan E) x \<noteq> t \<and>
    (\<exists>old. newToOld st (VInst i) = Some (VInst old) \<and> v \<in> set (operands (mcode m old))))"
proof -
  obtain p where d: "thread_done E m t p st" using loopSplit_run [OF assms(1,2)] assms(3,4) by auto
  note w = worker_operand [OF assms(1,3) d assms(5,6)]
  have "thread_num (fplan E) x \<noteq> t" if "in_loop m (floop E) x" "x \<notin> set (thread_insts E m t)" for x
    using own_inst_kept [OF assms(1) that(1) _ assms(3)] that(2) by blast
  then show ?thesis using w thread_doneD(13) [OF d] by blast
qed

lemma pipe_consumer:
  "\<exists>st i. loopSplit pipe_env (no_clones pipe_module) = Ok st \<and> in_fun (cmod st) ''w1'' i \<and> VInst 10 \<in> set (operands (mcode (cmod st) i))"
proof -
  have t: "Suc 0 < MAX_THREAD" by (simp add: MAX_THREAD_def)
  obtain st pt where st: "loopSplit pipe_env (no_clones pipe_module) = Ok st" "\<forall>t < MAX_THREAD. thread_done pipe_env pipe_module t (pt t) st"
    using loopSplit_run [OF pipe_env_ok pipe_header] by blast
  define p where "p = pt (Suc 0)"
  have d: "thread_done pipe_env pipe_module (Suc 0) p st" using st(2) t by (simp add: p_def)
  note rel = pipe_blocks [OF t]
  have D: "thread_insts pipe_env pipe_module (Suc 0) = [13, 12]"
    by (simp add: thread_insts_def rel kept_def keep_def pipe_sel pipe_thread) (simp add: pipe_code_def is_terminator_def)
  note dd = thread_doneD [OF d]
  let ?q = "copies_ptr pipe_env pipe_module (Suc 0) p"
  have "mbody (cmod st) (p + 2) = [?q, ?q + 1]" using dd(6) [of 0] by (simp add: rel D pipe_sel)
  moreover have "p + 2 \<in> set (mblocks (cmod st) ''w1'')" using dd(3) by (simp add: rel pipe_sel)
  ultimately have "in_fun (cmod st) ''w1'' ?q" unfolding in_fun_def by (intro bexI [of _ "p + 2"]) simp_all
  moreover have "mcode (cmod st) ?q = replaceUses (thread_tab pipe_env pipe_module (Suc 0) p) (pipe_code 13)"
    using dd(11) [of 0] by (simp add: D pipe_sel) (simp add: clone_instr_def pipe_code_def is_terminator_def)
  moreover have "thread_tab pipe_env pipe_module (Suc 0) p (VInst 10) = None"
  proof -
    have "copy_tab [13, 12] ?q (VInst 10) = None" by (rule copy_tab_other) simp
    moreover have "liveout_map (entry_ptr pipe_env pipe_module (Suc 0) p + 2) (lins pipe_env) (VInst 10) = None"
      by (simp add: pipe_env_def pipe_plan_def)
    ultimately show ?thesis by (simp add: thread_tab_def D)
  qed
  then have "VInst 10 \<in> set (operands (replaceUses (thread_tab pipe_env pipe_module (Suc 0) p) (pipe_code 13)))"
    by (simp add: replaceUses_def pipe_code_def)
  ultimately show ?thesis using st(1) by (intro exI [of _ st] exI [of _ ?q]) simp
qed

theorem worker_operands_witness:
  "\<exists>st i old. loopSplit pipe_env (no_clones pipe_module) = Ok st \<and> in_fun (cmod st) ''w1'' i \<and> VInst 10 \<in> set (operands (mcode (cmod st) i)) \<and>
    newToOld st (VInst i) = Some (VInst old) \<and> VInst 10 \<in> set (operands (mcode pipe_module old))"
proof -
  obtain st i where st: "loopSplit pipe_env (no_clones pipe_module) = Ok st" "in_fun (cmod st) ''w1'' i"
    "VInst 10 \<in> set (operands (mcode (cmod st) i))"
    using pipe_consumer by blast
  have t: "Suc 0 < MAX_THREAD" by (simp add: MAX_THREAD_def)
  have w: "in_fun (cmod st) (fworkers pipe_env ! Suc 0) i" using st(2) by (simp add: pipe_env_def)
  have "in_loop pipe_module (floop pipe_env) 10" by (simp add: pipe_env_def pipe_in_loop)
  then show ?thesis using worker_operands [OF pipe_env_ok pipe_header t st(1) w st(3)] st by blast
qed

section \<open>The live values\<close>

lemma liveout_code_nth:
  "j < length vs \<Longrightarrow> liveout_code ty a p i vs ! (2 * j) = mk_gep ty (VInst a) (i + j) \<and>
    liveout_code ty a p i vs ! Suc (2 * j) = mk_load (PointerTy (field_ty ty (i + j))) (VInst (p + 2 * j))"
  by (induction ty a p i vs arbitrary: j rule: liveout_code.induct) (auto simp: nth_Cons' less_Suc_eq_0_disj)

lemma liveout_map_nth: "distinct vs \<Longrightarrow> j < length vs \<Longrightarrow> liveout_map p vs (vs ! j) = Some (VInst (Suc (p + 2 * j)))"
  by (induction vs arbitrary: p j) (auto simp: nth_Cons' less_Suc_eq_0_disj nth_mem)

lemma outs_code_pair:
  "(j, w) \<in> set jvs \<Longrightarrow> \<exists>k. Suc k < length (outs_code ty a p jvs) \<and> outs_code ty a p jvs ! k = mk_gep ty (VInst a) j \<and>
    outs_code ty a p jvs ! Suc k = mk_store w (VInst (p + k))"
proof (induction ty a p jvs rule: outs_code.induct)
  case (2 ty a p jv jvs)
  show ?case
  proof (cases "jv = (j, w)")
    case True
    then show ?thesis by (intro exI [of _ 0]) simp
  next
    case False
    then obtain k where "Suc k < length (outs_code ty a (p + 2) jvs)" "outs_code ty a (p + 2) jvs ! k = mk_gep ty (VInst a) j"
      "outs_code ty a (p + 2) jvs ! Suc k = mk_store w (VInst (p + 2 + k))"
      using "2.IH" "2.prems" by auto
    then show ?thesis by (intro exI [of _ "k + 2"]) simp
  qed
qed simp

text \<open>
  C32. The worker and the code that replaces the loop agree on the struct: in its entry block the worker casts its argument
  to the struct, loads the field of every live-in value, and uses the loaded value in its place; in its exit block it
  stores its copy of every live-out value of the thread to the field from which the replacement code loads it.
\<close>

theorem worker_interface:
  assumes "env_ok E m" "\<forall>t < MAX_THREAD. lheader (floop E) \<in> set (rel_blocks m (fplan E) t)" "t < MAX_THREAD"
    and "loopSplit E (no_clones m) = Ok st" "distinct (livein (live (fplan E)))"
  shows "\<exists>en bs ex args. mblocks (cmod st) (fworkers E ! t) = en # bs @ [ex] \<and> args \<in> set (mbody (cmod st) en) \<and>
    mcode (cmod st) args = mk_cast BitCast (PointerTy (fargs E)) (VArg (hd (margs m (fworkers E ! t)))) \<and>
    (\<forall>j < length (livein (live (fplan E))). \<exists>a \<in> set (mbody (cmod st) en). \<exists>l \<in> set (mbody (cmod st) en).
      mcode (cmod st) a = mk_gep (PointerTy (fargs E)) (VInst args) j \<and>
      mcode (cmod st) l = mk_load (PointerTy (field_ty (PointerTy (fargs E)) j)) (VInst a) \<and>
      instMap st t (livein (live (fplan E)) ! j) = Some (VInst l)) \<and>
    (\<forall>j < length (liveout (live (fplan E))). \<forall>i. liveout (live (fplan E)) ! j = VInst i \<and> thread_num (fplan E) i = t \<longrightarrow>
      (\<exists>out \<in> set (mbody (cmod st) ex). \<exists>a \<in> set (mbody (cmod st) ex). \<exists>s \<in> set (mbody (cmod st) ex). \<exists>w.
        mcode (cmod st) out = mk_gep (PointerTy (fargs E)) (VInst args) (length (livein (live (fplan E)))) \<and>
        mcode (cmod st) a = mk_gep (PointerTy (field_ty (PointerTy (fargs E)) (length (livein (live (fplan E)))))) (VInst out) j \<and>
        mcode (cmod st) s = mk_store w (VInst a) \<and> instMap st t (VInst i) = Some w))"
proof -
  obtain p where d: "thread_done E m t p st" using loopSplit_run [OF assms(1,2)] assms(3,4) by auto
  note dd = thread_doneD [OF d]
  let ?c = "entry_ptr E m t p" and ?x = "exit_ptr E m t p" and ?n = "length (lins E)" and ?tab = "thread_tab E m t p"
  let ?oty = "PointerTy (field_ty (PointerTy (fargs E)) (length (lins E)))"
  let ?own = "own_outs (fplan E) t (thread_tab E m t p) (enumerate 0 (louts E))"
  let ?oc = "outs_code ?oty ?x (Suc ?x) ?own"
  have x: "?x = ?c + 2 + 2 * ?n" by (simp add: exit_ptr_def)
  have entry: "mbody (cmod st) p = [?c..<?x] @ [p + 2 + length (rel_blocks m (fplan E) t)]" by (rule dd(4))
  have ec: "mcode (cmod st) (Suc ?c) = mk_cast BitCast (PointerTy (fargs E)) (VArg (hd (margs m (fworkers E ! t))))"
    "located (cmod st) (?c + 2) (liveout_code (PointerTy (fargs E)) (Suc ?c) (?c + 2) 0 (lins E))"
    using dd(7) by (simp_all add: entry_code_def)
  have load: "\<exists>a \<in> set (mbody (cmod st) p). \<exists>l \<in> set (mbody (cmod st) p).
      mcode (cmod st) a = mk_gep (PointerTy (fargs E)) (VInst (Suc ?c)) j \<and>
      mcode (cmod st) l = mk_load (PointerTy (field_ty (PointerTy (fargs E)) j)) (VInst a) \<and> instMap st t (lins E ! j) = Some (VInst l)"
    if j: "j < ?n" for j
  proof (intro bexI conjI)
    have l: "mcode (cmod st) (?c + 2 + k) = liveout_code (PointerTy (fargs E)) (Suc ?c) (?c + 2) 0 (lins E) ! k" if "k < 2 * ?n" for k
      using ec(2) that unfolding located_def by simp
    show "mcode (cmod st) (?c + 2 + 2 * j) = mk_gep (PointerTy (fargs E)) (VInst (Suc ?c)) j"
      "mcode (cmod st) (?c + 2 + Suc (2 * j)) = mk_load (PointerTy (field_ty (PointerTy (fargs E)) j)) (VInst (?c + 2 + 2 * j))"
      using l [of "2 * j"] l [of "Suc (2 * j)"] liveout_code_nth [OF j] j by simp_all
    show "?c + 2 + 2 * j \<in> set (mbody (cmod st) p)" "?c + 2 + Suc (2 * j) \<in> set (mbody (cmod st) p)" using j x by (auto simp: entry)
    show "instMap st t (lins E ! j) = Some (VInst (?c + 2 + Suc (2 * j)))"
      using liveout_map_nth [OF assms(5) j, of "?c + 2"] by (simp add: dd(12) thread_tab_def map_add_def)
  qed
  have exit1: "mbody (cmod st) (Suc p) = [?x..<?x + Suc (length ?oc)] @ [p + 3 + length (rel_blocks m (fplan E) t)]"
    using dd(5) by (simp add: exit_code_def Let_def)
  have oc: "mcode (cmod st) ?x = mk_gep (PointerTy (fargs E)) (VInst (Suc ?c)) ?n" "located (cmod st) (Suc ?x) ?oc"
    using dd(8) by (simp_all add: exit_code_def Let_def)
  have store: "\<exists>out \<in> set (mbody (cmod st) (Suc p)). \<exists>a \<in> set (mbody (cmod st) (Suc p)). \<exists>s \<in> set (mbody (cmod st) (Suc p)). \<exists>w.
      mcode (cmod st) out = mk_gep (PointerTy (fargs E)) (VInst (Suc ?c)) ?n \<and> mcode (cmod st) a = mk_gep ?oty (VInst out) j \<and>
      mcode (cmod st) s = mk_store w (VInst a) \<and> instMap st t (VInst i) = Some w"
    if j: "j < length (louts E)" "louts E ! j = VInst i" "thread_num (fplan E) i = t" for j i
  proof -
    have v: "VInst i \<in> set (louts E)" using j(1,2) nth_mem by metis
    then have i: "in_loop m (floop E) i" using env_okD(13) [OF assms(1)] by auto
    have g: "getInstAssigned (thread_of (threads_of (fplan E))) (sccId (sccs (fplan E))) (VInst i) = Ok (int t)"
      using assigned_inst_thread(1) [OF plan_okD(3) [OF env_okD(3) [OF assms(1)] i]] j(3) by simp
    then obtain w where w: "?tab (VInst i) = Some w" using louts_assigned [OF assms(1,3) v, of p] by auto
    have "(j, VInst i) \<in> set (enumerate 0 (louts E))" using j(1,2) by (auto simp: in_set_enumerate_eq)
    then have "(j, w) \<in> set ?own" using g w by (force simp: own_outs_def)
    from outs_code_pair [OF this, of ?oty ?x "Suc ?x"] obtain k where k: "Suc k < length ?oc" "?oc ! k = mk_gep ?oty (VInst ?x) j"
      "?oc ! Suc k = mk_store w (VInst (Suc ?x + k))" by blast
    have "mcode (cmod st) (Suc ?x + k) = ?oc ! k" "mcode (cmod st) (Suc ?x + Suc k) = ?oc ! Suc k"
      using oc(2) k(1) unfolding located_def by (metis Suc_lessD)+
    moreover have "?x \<in> set (mbody (cmod st) (Suc p))" "Suc ?x + k \<in> set (mbody (cmod st) (Suc p))" "Suc ?x + Suc k \<in> set (mbody (cmod st) (Suc p))"
      using k(1) by (auto simp: exit1)
    ultimately show ?thesis using oc(1) k(2,3) w dd(12) by metis
  qed
  show ?thesis
  proof (intro exI conjI)
    show "mblocks (cmod st) (fworkers E ! t) = p # [p + 2..<p + 2 + length (rel_blocks m (fplan E) t)] @ [Suc p]" by (rule dd(3))
    have "Suc ?c < ?x" using x by simp
    then show "Suc ?c \<in> set (mbody (cmod st) p)" by (simp add: entry del: upt_Suc)
  qed (use ec(1) load store in blast)+
qed

theorem worker_interface_witness:
  "\<exists>st args ex out a s w. loopSplit pipe_env (no_clones pipe_module) = Ok st \<and> {out, a, s} \<subseteq> set (mbody (cmod st) ex) \<and>
    mcode (cmod st) out = mk_gep (PointerTy (fargs pipe_env)) (VInst args) 1 \<and>
    mcode (cmod st) a = mk_gep (PointerTy (field_ty (PointerTy (fargs pipe_env)) 1)) (VInst out) 0 \<and>
    mcode (cmod st) s = mk_store w (VInst a) \<and> instMap st 1 (VInst 13) = Some w"
proof -
  have t: "Suc 0 < MAX_THREAD" by (simp add: MAX_THREAD_def)
  obtain st where st: "loopSplit pipe_env (no_clones pipe_module) = Ok st" using pipe_worker by blast
  have l: "livein (live pipe_plan) = [VArg 0]" "liveout (live pipe_plan) = [VInst 13]" by (simp_all add: pipe_plan_def)
  have "distinct (lins pipe_env)" by (simp add: l pipe_sel)
  from worker_interface [OF pipe_env_ok pipe_header t st this, unfolded pipe_sel l] obtain args ex where
    "\<forall>j < length [VInst 13]. \<forall>i. [VInst 13] ! j = VInst i \<and> thread_num pipe_plan i = Suc 0 \<longrightarrow>
      (\<exists>out \<in> set (mbody (cmod st) ex). \<exists>a \<in> set (mbody (cmod st) ex). \<exists>s \<in> set (mbody (cmod st) ex). \<exists>w.
        mcode (cmod st) out = mk_gep (PointerTy (fargs pipe_env)) (VInst args) (length [VArg 0]) \<and>
        mcode (cmod st) a = mk_gep (PointerTy (field_ty (PointerTy (fargs pipe_env)) (length [VArg 0]))) (VInst out) j \<and>
        mcode (cmod st) s = mk_store w (VInst a) \<and> instMap st (Suc 0) (VInst i) = Some w)"
    by blast
  then have "\<exists>out \<in> set (mbody (cmod st) ex). \<exists>a \<in> set (mbody (cmod st) ex). \<exists>s \<in> set (mbody (cmod st) ex). \<exists>w.
        mcode (cmod st) out = mk_gep (PointerTy (fargs pipe_env)) (VInst args) 1 \<and>
        mcode (cmod st) a = mk_gep (PointerTy (field_ty (PointerTy (fargs pipe_env)) 1)) (VInst out) 0 \<and>
        mcode (cmod st) s = mk_store w (VInst a) \<and> instMap st 1 (VInst 13) = Some w"
    by (auto simp: pipe_thread)
  then obtain out a s w where "{out, a, s} \<subseteq> set (mbody (cmod st) ex)"
    "mcode (cmod st) out = mk_gep (PointerTy (fargs pipe_env)) (VInst args) 1"
    "mcode (cmod st) a = mk_gep (PointerTy (field_ty (PointerTy (fargs pipe_env)) 1)) (VInst out) 0"
    "mcode (cmod st) s = mk_store w (VInst a)" "instMap st 1 (VInst 13) = Some w" by blast
  with st show ?thesis by blast
qed

end
