(* ===== verification/Split_Sync.thy ===== *)
theory Split_Sync
  imports Loop_Split_Result
begin

text \<open>
  \<open>loopSplit\<close> followed by \<open>insertSynchronization\<close>: the tables that the first leaves are what the second needs. The
  second one can fail where a thread has copied a branch of another thread: a source of the branch then needs a place in a
  thread that does not know its block.
\<close>

section \<open>What the plan has to guarantee\<close>

text \<open>The edges are dependences of the loop, cover its uses of registers, and go to the same or a later thread.\<close>

definition edges_ok :: "split_env \<Rightarrow> module_ir \<Rightarrow> bool" where
  "edges_ok E m \<longleftrightarrow> graph_inv (pgraph (fplan E)) \<and>
     (\<forall>e \<in> set (allEdges (pgraph (fplan E))). in_loop m (floop E) (eu e) \<and> in_loop m (floop E) (ev e) \<and>
       thread_num (fplan E) (eu e) \<le> thread_num (fplan E) (ev e)) \<and>
     (\<forall>i x. in_loop m (floop E) i \<and> in_loop m (floop E) x \<and> VInst x \<in> set (operands (mcode m i)) \<longrightarrow>
       mk_edge x i REG \<in> set (allEdges (pgraph (fplan E))))"

text \<open>The dependences that get a channel to a thread.\<close>

definition crosses :: "split_env \<Rightarrow> module_ir \<Rightarrow> Edge \<Rightarrow> nat \<Rightarrow> bool" where
  "crosses E m e t \<longleftrightarrow> e \<in> set (allEdges (pgraph (fplan E))) \<and> thread_num (fplan E) (eu e) < t \<and> t < MAX_THREAD \<and>
     ev e \<in> set (thread_insts E m t)"

text \<open>A thread that copies a branch of another thread knows the blocks of the sources of the branch.\<close>

definition branches_related :: "split_env \<Rightarrow> module_ir \<Rightarrow> bool" where
  "branches_related E m \<longleftrightarrow> (\<forall>e t. crosses E m e t \<and> thread_num (fplan E) (ev e) \<noteq> t \<longrightarrow>
     mparent m (eu e) \<in> set (rel_blocks m (fplan E) t))"

definition values_ok :: "split_env \<Rightarrow> module_ir \<Rightarrow> bool" where
  "values_ok E m \<longleftrightarrow> (\<forall>e t. crosses E m e t \<and> dtype e = REG \<longrightarrow>
     \<not> is_terminator (opcode (mcode m (eu e))) \<and> sendable (ity (mcode m (eu e))))"

lemma edges_okD:
  assumes "edges_ok E m"
  shows "graph_inv (pgraph (fplan E))"
    "e \<in> set (allEdges (pgraph (fplan E))) \<Longrightarrow> in_loop m (floop E) (eu e) \<and> in_loop m (floop E) (ev e) \<and>
       thread_num (fplan E) (eu e) \<le> thread_num (fplan E) (ev e)"
    "in_loop m (floop E) i \<Longrightarrow> in_loop m (floop E) x \<Longrightarrow> VInst x \<in> set (operands (mcode m i)) \<Longrightarrow>
       mk_edge x i REG \<in> set (allEdges (pgraph (fplan E)))"
  using assms unfolding edges_ok_def by blast+

section \<open>The tables\<close>

lemma split_done:
  assumes "env_ok E m" "\<forall>t < MAX_THREAD. lheader (floop E) \<in> set (rel_blocks m (fplan E) t)" "loopSplit E (no_clones m) = Ok st"
  obtains pt where "extended (set (fworkers E)) m (cmod st)" "store_inv (cmod st)" "\<forall>t < MAX_THREAD. thread_done E m t (pt t) st"
  using loopSplit_run [OF assms(1,2)] assms(3) by auto

lemma copy_in_fun:
  assumes ok: "env_ok E m" "t < MAX_THREAD" and d: "thread_done E m t p st" and k: "k < length (thread_insts E m t)"
  shows "in_fun (cmod st) (fworkers E ! t) (copies_ptr E m t p + k)"
proof -
  let ?rel = "rel_blocks m (fplan E) t" and ?D = "thread_insts E m t"
  have "mparent m (?D ! k) \<in> set ?rel" using thread_insts_iff [OF ok] nth_mem [OF k] by blast
  then obtain j where j: "j < length ?rel" "?rel ! j = mparent m (?D ! k)" by (auto simp: in_set_conv_nth)
  have "p + 2 + j \<in> set (mblocks (cmod st) (fworkers E ! t))" using thread_doneD(3) [OF d] j(1) by (simp del: upt_Suc)
  moreover have "copies_ptr E m t p + k \<in> set (mbody (cmod st) (p + 2 + j))"
    unfolding thread_doneD(6) [OF d j(1)] using k j(2) by simp
  ultimately show ?thesis unfolding in_fun_def by blast
qed

lemma table_in_fun:
  assumes ok: "env_ok E m" "t < MAX_THREAD" and d: "thread_done E m t p st" and v: "instMap st t v = Some (VInst n)"
  shows "in_fun (cmod st) (fworkers E ! t) n"
proof -
  let ?D = "thread_insts E m t" and ?c = "entry_ptr E m t p"
  have "thread_tab E m t p v = Some (VInst n)" using v thread_doneD(12) [OF d] by simp
  then consider "liveout_map (?c + 2) (lins E) v = Some (VInst n)" | "copy_tab ?D (copies_ptr E m t p) v = Some (VInst n)"
    by (auto simp: thread_tab_def map_add_def split: option.splits)
  then show ?thesis
  proof cases
    case 1
    obtain k where "k < 2 * length (lins E)" "n = ?c + 2 + k" using liveout_map_range [OF 1] by auto
    then have "n \<in> set (mbody (cmod st) p)" unfolding thread_doneD(4) [OF d] by (simp add: exit_ptr_def del: upt_Suc)
    moreover have "p \<in> set (mblocks (cmod st) (fworkers E ! t))" unfolding thread_doneD(3) [OF d] by simp
    ultimately show ?thesis unfolding in_fun_def by blast
  next
    case 2
    then have "v \<in> VInst ` set ?D" using copy_tab_other by (metis option.simps(3))
    then obtain k where k: "k < length ?D" "v = VInst (?D ! k)" by (auto simp: in_set_conv_nth)
    then have "n = copies_ptr E m t p + k" using 2 copy_tab_nth [OF distinct_thread_insts [OF ok] k(1)] by simp
    then show ?thesis using copy_in_fun [OF ok d k(1)] by simp
  qed
qed

lemma place_in_fun:
  assumes ok: "env_ok E m" "t < MAX_THREAD" and d: "thread_done E m t p st" and n: "placeEquivalents st t i = Some n"
  shows "in_fun (cmod st) (fworkers E ! t) n"
proof -
  have "copies_ptr E m t p \<le> n" "n < copies_ptr E m t p + length (thread_insts E m t)"
    using thread_doneD(14) [OF d n] by (simp_all add: entry_ptr_def)
  then obtain k where "k < length (thread_insts E m t)" "n = copies_ptr E m t p + k" by (metis le_Suc_ex nat_add_left_cancel_less)
  then show ?thesis using copy_in_fun [OF ok d] by simp
qed

lemma split_clones_ok:
  assumes "env_ok E m" "store_inv (cmod st)" "\<forall>t < MAX_THREAD. thread_done E m t (pt t) st"
  shows "clones_ok (fworkers E) st"
  unfolding clones_ok_def using assms(2) table_in_fun [OF assms(1)] place_in_fun [OF assms(1)] assms(3) by blast

text \<open>The table of a thread maps an instruction of the loop to its copy.\<close>

lemma table_copy:
  assumes ok: "env_ok E m" "t < MAX_THREAD" and d: "thread_done E m t p st" and i: "in_loop m (floop E) i"
  shows "instMap st t (VInst i) = Some w \<longleftrightarrow>
    (\<exists>k < length (thread_insts E m t). thread_insts E m t ! k = i \<and> w = VInst (copies_ptr E m t p + k))"
proof -
  let ?D = "thread_insts E m t" and ?q = "copies_ptr E m t p"
  have "VInst i \<notin> set (lins E)" using env_okD(12) [OF ok(1)] i by blast
  then have "liveout_map (entry_ptr E m t p + 2) (lins E) (VInst i) = None" using liveout_map_dom by blast
  then have tab: "instMap st t (VInst i) = copy_tab ?D ?q (VInst i)"
    unfolding thread_doneD(12) [OF d] by (simp add: thread_tab_def map_add_def)
  show ?thesis
  proof
    assume w: "instMap st t (VInst i) = Some w"
    then have "i \<in> set ?D" using tab copy_tab_other [of "VInst i" ?D ?q] by (metis imageE Value.inject(1) option.simps(3))
    then obtain k where k: "k < length ?D" "?D ! k = i" by (auto simp: in_set_conv_nth)
    then show "\<exists>k < length ?D. ?D ! k = i \<and> w = VInst (?q + k)"
      using w tab copy_tab_nth [OF distinct_thread_insts [OF ok] k(1), of ?q] by auto
  next
    assume "\<exists>k < length ?D. ?D ! k = i \<and> w = VInst (?q + k)"
    then show "instMap st t (VInst i) = Some w"
      using tab copy_tab_nth [OF distinct_thread_insts [OF ok], of _ ?q] by auto
  qed
qed

section \<open>The crossing dependences\<close>

lemma source_copied:
  assumes "env_ok E m" "edges_ok E m" "e \<in> set (allEdges (pgraph (fplan E)))" "thread_num (fplan E) (eu e) < MAX_THREAD"
  shows "eu e \<in> set (thread_insts E m (thread_num (fplan E) (eu e)))"
  using own_inst_kept [OF assms(1) _ refl assms(4)] edges_okD(2) [OF assms(2,3)] by blast

lemma split_points:
  assumes ok: "env_ok E m" and eo: "edges_ok E m" and d: "\<forall>t < MAX_THREAD. thread_done E m t (pt t) st"
  shows "pp \<in> set (sync_points (fplan E) (instMap st)) \<longleftrightarrow> crosses E m (p_edge pp) (p_to pp) \<and>
    p_from pp = thread_num (fplan E) (eu (p_edge pp)) \<and>
    instMap st (p_from pp) (VInst (eu (p_edge pp))) = Some (VInst (p_u pp)) \<and>
    instMap st (p_to pp) (VInst (ev (p_edge pp))) = Some (VInst (p_v pp))"
proof
  assume "pp \<in> set (sync_points (fplan E) (instMap st))"
  note M = sync_points_mem [OF this]
  have t: "p_to pp < MAX_THREAD" using M by blast
  have "in_loop m (floop E) (ev (p_edge pp))" using edges_okD(2) [OF eo] M by blast
  from table_copy [OF ok t d [rule_format, OF t] this] have "ev (p_edge pp) \<in> set (thread_insts E m (p_to pp))"
    using M by (metis nth_mem)
  then show "crosses E m (p_edge pp) (p_to pp) \<and> p_from pp = thread_num (fplan E) (eu (p_edge pp)) \<and>
      instMap st (p_from pp) (VInst (eu (p_edge pp))) = Some (VInst (p_u pp)) \<and>
      instMap st (p_to pp) (VInst (ev (p_edge pp))) = Some (VInst (p_v pp))"
    using M unfolding crosses_def by metis
next
  assume a: "crosses E m (p_edge pp) (p_to pp) \<and> p_from pp = thread_num (fplan E) (eu (p_edge pp)) \<and>
      instMap st (p_from pp) (VInst (eu (p_edge pp))) = Some (VInst (p_u pp)) \<and>
      instMap st (p_to pp) (VInst (ev (p_edge pp))) = Some (VInst (p_v pp))"
  then have "point_of (instMap st) (p_edge pp) (p_from pp) (p_to pp) = [pp]" unfolding point_of_def by (cases pp) simp
  then have "pp \<in> set (point_of (instMap st) (p_edge pp) (p_from pp) (p_to pp))" by simp
  moreover have "p_to pp \<in> set [Suc (p_from pp)..<MAX_THREAD]" using a unfolding crosses_def by auto
  moreover have "p_from pp = thread_num (fplan E) (eu (p_edge pp))" using a by blast
  ultimately have "pp \<in> set (points_of (fplan E) (instMap st) (p_edge pp))" unfolding points_of_def by auto
  moreover have "p_edge pp \<in> set (allEdges (pgraph (fplan E)))" using a unfolding crosses_def by blast
  ultimately show "pp \<in> set (sync_points (fplan E) (instMap st))" unfolding sync_points_def by auto
qed

lemma crossing_point:
  assumes ok: "env_ok E m" and eo: "edges_ok E m" and d: "\<forall>t < MAX_THREAD. thread_done E m t (pt t) st" and c: "crosses E m e t"
  shows "\<exists>pp \<in> set (sync_points (fplan E) (instMap st)). p_edge pp = e \<and> p_to pp = t"
proof -
  let ?s = "thread_num (fplan E) (eu e)"
  have t: "?s < MAX_THREAD" "t < MAX_THREAD" and e: "e \<in> set (allEdges (pgraph (fplan E)))" using c by (auto simp: crosses_def)
  have "\<exists>n. instMap st ?s (VInst (eu e)) = Some (VInst n)"
    using source_copied [OF ok eo e t(1)] table_copy [OF ok t(1) d [rule_format, OF t(1)]] edges_okD(2) [OF eo e]
    by (metis in_set_conv_nth)
  moreover have "\<exists>n. instMap st t (VInst (ev e)) = Some (VInst n)"
    using c table_copy [OF ok t(2) d [rule_format, OF t(2)]] edges_okD(2) [OF eo e] unfolding crosses_def by (metis in_set_conv_nth)
  ultimately obtain a b where "instMap st ?s (VInst (eu e)) = Some (VInst a)" "instMap st t (VInst (ev e)) = Some (VInst b)" by blast
  then have "\<lparr>p_edge = e, p_u = a, p_v = b, p_from = ?s, p_to = t\<rparr> \<in> set (sync_points (fplan E) (instMap st))"
    using split_points [OF ok eo d, of "\<lparr>p_edge = e, p_u = a, p_v = b, p_from = ?s, p_to = t\<rparr>"] c by simp
  then show ?thesis by (rule bexI [rotated]) simp
qed

text \<open>The block of the source is known to every thread that needs it.\<close>

lemma source_related:
  assumes ok: "env_ok E m" and eo: "edges_ok E m" and br: "branches_related E m" and c: "crosses E m e t"
  shows "mparent m (eu e) \<in> set (rel_blocks m (fplan E) t)"
proof (cases "thread_num (fplan E) (ev e) = t")
  case True
  have e: "e \<in> set (allEdges (pgraph (fplan E)))" "t < MAX_THREAD" using c by (simp_all add: crosses_def)
  note p = env_okD(3) [OF ok]
  have "ev e \<in> set (insts_of (fplan E) t)" using plan_okD(4) [OF p] edges_okD(2) [OF eo e(1)] True by blast
  moreover have "mk_edge (ev e) (eu e) (dtype e) \<in> set (edges_at (rev_graph_of (pgraph (fplan E))) (ev e))"
    using edges_okD(1) [OF eo] e(1) unfolding graph_inv_def has_edge_def by (metis mk_edge_collapse)
  ultimately show ?thesis
    using relbb_is(3) [OF plan_okD(1,2) [OF p], OF e(2) e(2), of m] by (force simp: mk_edge_def)
next
  case False
  then show ?thesis using br c unfolding branches_related_def by blast
qed

lemma split_ready_points:
  assumes ok: "env_ok E m" and eo: "edges_ok E m" and d: "\<forall>t < MAX_THREAD. thread_done E m t (pt t) st"
    and br: "branches_related E m" and vo: "values_ok E m" and inv: "store_inv (cmod st)"
    and pp: "pp \<in> set (sync_points (fplan E) (instMap st))"
  shows "ready_point True st pp"
proof -
  let ?e = "p_edge pp"
  from split_points [OF ok eo d, of pp] pp have c: "crosses E m ?e (p_to pp)" and from_is: "p_from pp = thread_num (fplan E) (eu ?e)"
    and u: "instMap st (p_from pp) (VInst (eu ?e)) = Some (VInst (p_u pp))" by blast+
  have t: "p_from pp < MAX_THREAD" "p_to pp < MAX_THREAD" and e: "?e \<in> set (allEdges (pgraph (fplan E)))"
    using c from_is by (auto simp: crosses_def)
  note L = edges_okD(2) [OF eo e] and df = d [rule_format, OF t(1)] and dt = d [rule_format, OF t(2)]
  obtain k where k: "k < length (thread_insts E m (p_from pp))" "thread_insts E m (p_from pp) ! k = eu ?e"
    "p_u pp = copies_ptr E m (p_from pp) (pt (p_from pp)) + k"
    using u table_copy [OF ok t(1) df] L by auto
  have old: "newToOld st (VInst (p_u pp)) = Some (VInst (eu ?e))" using thread_doneD(13) [OF df k(1)] k(2,3) by simp
  have ty: "sendable (value_ty (cmod st) (VInst (p_u pp)))" if r: "dtype ?e = REG"
  proof -
    have v: "\<not> is_terminator (opcode (mcode m (eu ?e)))" "sendable (ity (mcode m (eu ?e)))" using vo c r unfolding values_ok_def by blast+
    obtain ins where "copy_of (block_map E (rel_blocks m (fplan E) (p_from pp)) (pt (p_from pp))) (mcode m (eu ?e)) ins"
      "mcode (cmod st) (p_u pp) = replaceUses (thread_tab E m (p_from pp) (pt (p_from pp))) ins"
      using copy_shape [OF ok t(1) df k(1)] k(2,3) by auto
    then show ?thesis using v by (simp add: copy_of_def replaceUses_frame)
  qed
  have "\<exists>p. consume_place st (p_to pp) (eu ?e) = Ok p"
  proof (cases "placeEquivalents st (p_to pp) (eu ?e)")
    case None
    have "mparent m (eu ?e) \<in> set (rel_blocks m (fplan E) (p_to pp))" by (rule source_related [OF ok eo br c])
    moreover have "eu ?e \<in> set (mbody m (mparent m (eu ?e)))" using L by (simp add: in_loop_def)
    ultimately have "keep (fplan E) m (p_to pp) (eu ?e)" using thread_doneD(15) [OF dt] None by blast
    then have "eu ?e \<in> set (thread_insts E m (p_to pp))"
      using thread_insts_iff [OF ok t(2)] L \<open>mparent m (eu ?e) \<in> _\<close> by blast
    then obtain j where "j < length (thread_insts E m (p_to pp))" "thread_insts E m (p_to pp) ! j = eu ?e"
      by (auto simp: in_set_conv_nth)
    then have "\<exists>n. instMap st (p_to pp) (VInst (eu ?e)) = Some (VInst n)" using table_copy [OF ok t(2) dt] L by blast
    then show ?thesis using None by (auto simp: consume_place_def)
  qed (simp add: consume_place_def)
  then show ?thesis unfolding ready_point_def using t u old ty by blast
qed

end
