(* ===== verification/Sync_Values.thy ===== *)
theory Sync_Values
  imports Split_Sync
begin

text \<open>
  Where the values go: each step of \<open>insertSynchronization\<close> for a register dependence takes one user of the source away
  in the function of the later thread, and no step adds one. There are as many steps for a value and a thread as the
  thread has users of it, so in the end the threads use no instruction of the old loop any more.
\<close>

section \<open>Repeated replacement\<close>

lemma replace_twice: "replaceUses (reps_of x c) (replaceUses (reps_of x c) ins) = replaceUses (reps_of x c) ins"
  by (simp add: replaceUses_def reps_of_def)

lemma updates_code:
  "mcode (fold (\<lambda>i. update_instr i (replaceUses (reps_of x c))) us m) k =
    (if k \<in> set us then replaceUses (reps_of x c) (mcode m k) else mcode m k)"
  by (induction us arbitrary: m) (auto simp: replace_twice)

lemma replaced_operands:
  "c \<noteq> x \<Longrightarrow> VInst x \<notin> set (operands (replaceUses (reps_of x c) ins))"
  "v \<in> set (operands (replaceUses (reps_of x c) ins)) \<Longrightarrow> v = VInst c \<or> v \<in> set (operands ins)"
  by (auto simp: replaceUses_def reps_of_def split: if_splits)

section \<open>The users of a value in a function\<close>

definition users_in :: "module_ir \<Rightarrow> string \<Rightarrow> Inst \<Rightarrow> Inst set" where
  "users_in m g x = {i. in_fun m g i \<and> VInst x \<in> set (operands (mcode m i))}"

lemma finite_users_in: "store_inv m \<Longrightarrow> finite (users_in m g x)"
  by (rule finite_subset [of _ "{..<next_ptr m}"]) (auto simp: users_in_def dest: in_fun_block)

text \<open>
  The loop over the uses of a value comes to an instruction of the function that uses it when there is one: up to the
  first such use it changes nothing.
\<close>

definition users_found :: "(module_ir \<Rightarrow> Inst \<Rightarrow> string \<Rightarrow> Value list) \<Rightarrow> bool" where
  "users_found users \<longleftrightarrow> (\<forall>m x g. users_in m g x \<noteq> {} \<longrightarrow> (\<exists>j \<in> users_in m g x. VInst j \<in> set (users m x g)))"

text \<open>New instructions use new values and the copy of the source only.\<close>

lemma send_operands: "send_cast t u = Ok ins \<Longrightarrow> operands ins = [VInst u]"
  by (auto simp: send_cast_def mk_cast_def mk_instr_def split: if_splits)

lemma recv_operands: "recv_cast t c = Ok ins \<Longrightarrow> operands ins = [VInst c]"
  by (auto simp: recv_cast_def mk_cast_def mk_instr_def split: if_splits)

lemma cast_no_term:
  "send_cast t u = Ok ins \<Longrightarrow> \<not> is_terminator (opcode ins)" "recv_cast t c = Ok ins \<Longrightarrow> \<not> is_terminator (opcode ins)"
  by (auto simp: send_cast_def recv_cast_def is_terminator_def split: if_splits)

definition new_operands :: "nat \<Rightarrow> Inst \<Rightarrow> instr \<Rightarrow> bool" where
  "new_operands n u ins \<longleftrightarrow> (\<forall>v \<in> set (operands ins). (\<forall>y. v = VInst y \<longrightarrow> y = u \<or> n \<le> y) \<and> (\<forall>t. v \<noteq> VUndef t))"

lemma insert_point_code:
  assumes ok: "clones_ok fs (fst acc)" and t: "p_from pt < MAX_THREAD" "p_to pt < MAX_THREAD"
    and u: "instMap (fst acc) (p_from pt) v = Some (VInst (p_u pt))" and w: "instMap (fst acc) (p_to pt) v' = Some (VInst (p_v pt))"
    and run: "insert_point users en acc pt = Ok acc'" and old: "newToOld (fst acc) (VInst (p_u pt)) = Some (VInst x)"
  defines "m \<equiv> cmod (fst acc)" and "m' \<equiv> cmod (fst acc')"
  obtains us m2 c where "next_ptr m \<le> c" "grown m m2" "store_inv m2" "in_fun m' = in_fun m2"
    "\<forall>g i. in_fun m2 g i \<longrightarrow> in_fun m g i \<and> mcode m2 i = mcode m i \<or>
       next_ptr m \<le> i \<and> g \<in> {fs ! p_from pt, fs ! p_to pt} \<and> \<not> is_terminator (opcode (mcode m2 i)) \<and> new_operands (next_ptr m) (p_u pt) (mcode m2 i)"
    "\<forall>i < next_ptr m. mcode m2 i = mcode m i"
    "\<forall>i. mcode m' i = (if i \<in> set us then replaceUses (reps_of x c) (mcode m2 i) else mcode m2 i)"
    "dtype (p_edge pt) = REG \<longrightarrow> us = local_users (fs ! p_to pt) m2 (users m2 x (fs ! p_to pt))"
    "mparent m' = mparent m2" "mbody m' = mbody m2" "next_ptr m' = next_ptr m2"
proof -
  have inv: "store_inv m" using ok by (simp add: clones_ok_def m_def)
  obtain pos pre t1 arg m1 oldu q t2 post m2 us where
    s: "in_fun m (fs ! p_from pt) (p_u pt)"
      "dtype (p_edge pt) = REG \<longrightarrow> (\<exists>ins. send_cast (value_ty m (VInst (p_u pt))) (p_u pt) = Ok ins \<and> pre = [ins] \<and> arg = VInst (next_ptr m))"
      "dtype (p_edge pt) \<noteq> REG \<longrightarrow> pre = [] \<and> arg = VInt 64 0"
      "m1 = put_call m (p_u pt) pos (pre @ [mk_call (Some t1) ''sync_produce'' [arg, VInt 32 (snd acc)]])"
      "clones_ok fs ((fst acc)\<lparr>cmod := m1\<rparr>)" "newToOld (fst acc) (VInst (p_u pt)) = Some (VInst oldu)"
      "in_fun m1 (fs ! p_to pt) q"
      "m2 = put_call m1 q (Some q) (mk_call (Some t2) ''sync_consume'' [VInt 32 (snd acc)] # post)"
      "dtype (p_edge pt) = REG \<longrightarrow> (\<exists>ins. recv_cast (value_ty m (VInst (p_u pt))) (next_ptr m1) = Ok ins \<and> post = [ins]) \<and>
         us = local_users (mfunc m2 (mparent m2 (p_v pt))) m2 (users m2 oldu (mfunc m2 (mparent m2 (p_v pt))))"
      "dtype (p_edge pt) \<noteq> REG \<longrightarrow> post = [] \<and> us = []"
      "acc' = ((fst acc)\<lparr>cmod := fold (\<lambda>i. update_instr i (replaceUses (reps_of oldu (Suc (next_ptr m1))))) us m2\<rparr>, snd acc + 1)"
    by (rule insert_point_shape [OF ok t u run, folded m_def])
  let ?new1 = "pre @ [mk_call (Some t1) ''sync_produce'' [arg, VInt 32 (snd acc)]]"
  let ?new2 = "mk_call (Some t2) ''sync_consume'' [VInt 32 (snd acc)] # post"
  note p1 = put_call_facts [OF inv s(1), where pos = pos and inss = ?new1, folded s(4)]
  note p2 = put_call_facts [OF p1(1) s(7), where pos = "Some q" and inss = ?new2, folded s(8)]
  have x: "oldu = x" using s(6) old by simp
  have m3: "m' = fold (\<lambda>i. update_instr i (replaceUses (reps_of x (Suc (next_ptr m1))))) us m2" by (simp add: m'_def s(11) x)
  have oc: "only_code m2 m'" unfolding m3 by (rule updates_only)
  have v: "mfunc m2 (mparent m2 (p_v pt)) = fs ! p_to pt"
  proof -
    have "in_fun m (fs ! p_to pt) (p_v pt)" using ok t(2) w by (auto simp: clones_ok_def m_def)
    then have "in_fun m2 (fs ! p_to pt) (p_v pt)" using p1(3) p2(3) by simp
    then show ?thesis using in_fun_block [OF p2(1)] store_block [OF p2(1)] by blast
  qed
  have le: "next_ptr m \<le> next_ptr m1" using p1(5) by simp
  have new1: "\<not> is_terminator (opcode ins) \<and> new_operands (next_ptr m) (p_u pt) ins" if "ins \<in> set ?new1" for ins
    using that s(2,3) send_operands cast_no_term(1) by (cases "dtype (p_edge pt) = REG") (auto simp: is_terminator_def new_operands_def)
  have new2: "\<not> is_terminator (opcode ins) \<and> new_operands (next_ptr m) (p_u pt) ins" if "ins \<in> set ?new2" for ins
    using that s(9,10) recv_operands cast_no_term(2) le by (cases "dtype (p_edge pt) = REG") (auto simp: is_terminator_def new_operands_def)
  have code: "mcode m2 i = mcode m i" if "i < next_ptr m" for i using that p1(6) p2(6) le by simp
  have cases: "in_fun m g i \<and> mcode m2 i = mcode m i \<or> next_ptr m \<le> i \<and> g \<in> {fs ! p_from pt, fs ! p_to pt} \<and>
      \<not> is_terminator (opcode (mcode m2 i)) \<and> new_operands (next_ptr m) (p_u pt) (mcode m2 i)" if i: "in_fun m2 g i" for g i
  proof -
    consider "in_fun m g i" | j where "g = fs ! p_from pt" "j < length ?new1" "i = next_ptr m + j" |
      j where "g = fs ! p_to pt" "j < length ?new2" "i = next_ptr m1 + j"
      using i p1(3) p2(3) by blast
    then show ?thesis
    proof cases
      case 1
      then show ?thesis using code in_fun_block [OF inv 1] by blast
    next
      case 2
      then have "i < next_ptr m1" using p1(5) by simp
      then have "mcode m2 i = ?new1 ! j" using 2 p1(7) p2(6) by simp
      then show ?thesis using new1 [OF nth_mem [OF 2(2)]] 2(1,3) by simp
    next
      case 3
      then show ?thesis using new2 [OF nth_mem [OF 3(2)]] p2(7) [OF 3(2)] 3(1) le by fastforce
    qed
  qed
  show thesis
  proof (rule that)
    show "next_ptr m \<le> Suc (next_ptr m1)" using le by simp
    show "grown m m2" by (rule grown_trans [OF p1(2) p2(2)])
    show "store_inv m2" by (rule p2(1))
    show "in_fun m' = in_fun m2" using in_fun_only_code [OF oc] by (simp add: fun_eq_iff)
    show "\<forall>i. mcode m' i = (if i \<in> set us then replaceUses (reps_of x (Suc (next_ptr m1))) (mcode m2 i) else mcode m2 i)"
      unfolding m3 updates_code by simp
    show "dtype (p_edge pt) = REG \<longrightarrow> us = local_users (fs ! p_to pt) m2 (users m2 x (fs ! p_to pt))" using s(9) v x by simp
    show "mparent m' = mparent m2" "mbody m' = mbody m2" "next_ptr m' = next_ptr m2" using only_code_fields [OF oc] by simp_all
  qed (use cases code in blast)+
qed

lemma insert_point_users:
  assumes ok: "clones_ok fs (fst acc)" and t: "p_from pt < MAX_THREAD" "p_to pt < MAX_THREAD"
    and u: "instMap (fst acc) (p_from pt) v = Some (VInst (p_u pt))" and w: "instMap (fst acc) (p_to pt) v' = Some (VInst (p_v pt))"
    and run: "insert_point users en acc pt = Ok acc'" and old: "newToOld (fst acc) (VInst (p_u pt)) = Some (VInst x)"
    and y: "y < next_ptr (cmod (fst acc))" "y \<noteq> p_u pt"
  shows "users_in (cmod (fst acc')) g y \<subseteq> users_in (cmod (fst acc)) g y"
    "dtype (p_edge pt) = REG \<Longrightarrow> users_found users \<Longrightarrow> y = x \<Longrightarrow> g = fs ! p_to pt \<Longrightarrow> users_in (cmod (fst acc)) g y \<noteq> {} \<Longrightarrow>
      users_in (cmod (fst acc')) g y \<subset> users_in (cmod (fst acc)) g y"
proof -
  let ?m = "cmod (fst acc)" and ?m' = "cmod (fst acc')"
  obtain us m2 c where
    s: "next_ptr ?m \<le> c" "grown ?m m2" "store_inv m2" "in_fun ?m' = in_fun m2"
      "\<forall>g i. in_fun m2 g i \<longrightarrow> in_fun ?m g i \<and> mcode m2 i = mcode ?m i \<or>
         next_ptr ?m \<le> i \<and> g \<in> {fs ! p_from pt, fs ! p_to pt} \<and> \<not> is_terminator (opcode (mcode m2 i)) \<and> new_operands (next_ptr ?m) (p_u pt) (mcode m2 i)"
      "\<forall>i < next_ptr ?m. mcode m2 i = mcode ?m i"
      "\<forall>i. mcode ?m' i = (if i \<in> set us then replaceUses (reps_of x c) (mcode m2 i) else mcode m2 i)"
      "dtype (p_edge pt) = REG \<longrightarrow> us = local_users (fs ! p_to pt) m2 (users m2 x (fs ! p_to pt))"
    by (rule insert_point_code [OF ok t u w run old])
  have le: "users_in ?m' g y \<subseteq> users_in m2 g y" for g
  proof
    fix i assume "i \<in> users_in ?m' g y"
    then have "in_fun m2 g i" "VInst y \<in> set (operands (mcode ?m' i))" using s(4) by (simp_all add: users_in_def)
    moreover have "y \<noteq> c" using y s(1) by simp
    ultimately show "i \<in> users_in m2 g y"
      using s(7) replaced_operands(2) [of "VInst y" x c "mcode m2 i"] unfolding users_in_def by (auto split: if_splits)
  qed
  have eq: "users_in m2 g y = users_in ?m g y" for g
  proof -
    have "in_fun ?m g i \<Longrightarrow> in_fun m2 g i \<and> i < next_ptr ?m" for i
      using s(2) grown_body [OF s(2)] in_fun_block ok unfolding clones_ok_def in_fun_def grown_def by metis
    then show ?thesis using s(5,6) y unfolding users_in_def new_operands_def by fastforce
  qed
  show "users_in ?m' g y \<subseteq> users_in ?m g y" using le eq by simp
  assume d: "dtype (p_edge pt) = REG" "users_found users" "y = x" "g = fs ! p_to pt" "users_in ?m g y \<noteq> {}"
  then obtain j where j: "j \<in> users_in m2 g x" "VInst j \<in> set (users m2 x g)" using eq unfolding users_found_def by metis
  then have "mfunc m2 (mparent m2 j) = g" using in_fun_block [OF s(3)] store_block [OF s(3)] unfolding users_in_def by blast
  then have "j \<in> set us" using j(2) s(8) d(1,4) by (auto simp: local_users_def intro!: bexI [of _ "VInst j"])
  then have "mcode ?m' j = replaceUses (reps_of x c) (mcode m2 j)" using s(7) by simp
  moreover have "c \<noteq> x" using y s(1) d(3) by simp
  ultimately have "j \<notin> users_in ?m' g y" using replaced_operands(1) d(3) unfolding users_in_def by simp
  then show "users_in ?m' g y \<subset> users_in ?m g y" using le [of g] eq [of g] j(1) d(3) by blast
qed

section \<open>Counting the steps\<close>

text \<open>The steps that deliver the value \<open>x\<close> to thread \<open>t\<close>.\<close>

definition delivers :: "nat \<Rightarrow> Inst \<Rightarrow> sync_point \<Rightarrow> bool" where
  "delivers t x pt \<longleftrightarrow> p_to pt = t \<and> eu (p_edge pt) = x \<and> dtype (p_edge pt) = REG"

lemma users_left:
  assumes sa: "sources_assigned P" and ok: "clones_ok fs st" and nc: "no_channels (cmod st)" and uf: "users_found users"
    and run: "insertSynchronization P users en st = Ok (st', n)"
    and nt: "\<forall>pt \<in> set (sync_points P (instMap st)). newToOld st (VInst (p_u pt)) = Some (VInst (eu (p_edge pt))) \<and> p_u pt \<noteq> x"
    and x: "x < next_ptr (cmod st)" and t: "t < MAX_THREAD"
    and enough: "card (users_in (cmod st) (fs ! t) x) \<le> length (filter (delivers t x) (sync_points P (instMap st)))"
  shows "users_in (cmod st') (fs ! t) x = {}"
proof -
  let ?pts = "sync_points P (instMap st)" and ?U = "\<lambda>acc. users_in (cmod (fst acc)) (fs ! t) x"
  let ?I = "\<lambda>dn acc. paired fs st dn acc \<and> card (?U acc) + length (filter (delivers t x) dn) \<le> length (filter (delivers t x) ?pts) \<or>
    paired fs st dn acc \<and> ?U acc = {}"
  have "?I ?pts (st', n)"
  proof (rule ofold_Ok_invariant [where I = ?I])
    show "ofold (insert_point users en) ?pts (st, 0) = Ok (st', n)" using run sync_as_points [OF sa] by simp
    show "?I [] (st, 0)" using paired_start [OF ok nc] enough by simp
  next
    fix dn pt rest s s'
    assume split: "?pts = dn @ pt # rest" and I: "?I dn s" and step: "insert_point users en s pt = Ok s'"
    have mem: "pt \<in> set ?pts" by (simp add: split)
    have P: "paired fs st dn s" using I by blast
    then have oks: "clones_ok fs (fst s)" and tabs: "same_tables st (fst s)" and gr: "grown (cmod st) (cmod (fst s))" by (simp_all add: paired_def)
    note M = sync_points_mem [OF mem]
    have tt: "p_from pt < MAX_THREAD" "p_to pt < MAX_THREAD" using M by linarith+
    have tb: "instMap (fst s) = instMap st" "newToOld (fst s) = newToOld st" using tabs by (simp_all add: same_tables_def)
    have maps: "instMap (fst s) (p_from pt) (VInst (eu (p_edge pt))) = Some (VInst (p_u pt))"
      "instMap (fst s) (p_to pt) (VInst (ev (p_edge pt))) = Some (VInst (p_v pt))"
      "newToOld (fst s) (VInst (p_u pt)) = Some (VInst (eu (p_edge pt)))"
      unfolding tb using M nt mem by blast+
    have xs: "x < next_ptr (cmod (fst s))" "x \<noteq> p_u pt" using x gr nt mem by (auto simp: grown_def)
    note U = insert_point_users [OF oks tt maps(1,2) step maps(3) xs, of "fs ! t"]
    have P': "paired fs st (dn @ [pt]) s'" by (rule paired_next [OF P ok step mem])
    have fin: "finite (?U s)" using finite_users_in oks by (simp add: clones_ok_def)
    show "?I (dn @ [pt]) s'"
    proof (cases "?U s' = {}")
      case False
      then have "?U s \<noteq> {}" using U(1) by blast
      then have I: "card (?U s) + length (filter (delivers t x) dn) \<le> length (filter (delivers t x) ?pts)" using I by blast
      have "card (?U s') + (if delivers t x pt then 1 else 0) \<le> card (?U s)"
      proof (cases "delivers t x pt")
        case True
        then have "?U s' \<subset> ?U s" using U(2) uf \<open>?U s \<noteq> {}\<close> by (auto simp: delivers_def)
        from psubset_card_mono [OF fin this] show ?thesis using True by simp
      qed (use card_mono [OF fin U(1)] in simp)
      then show ?thesis using I P' by auto
    qed (use P' in simp)
  qed
  moreover have "finite (?U (st', n))" using calculation finite_users_in by (auto simp: paired_def clones_ok_def)
  ultimately show ?thesis by auto
qed

end
