(* ===== verification/Split_Sync_Result.thy ===== *)
theory Split_Sync_Result
  imports Sync_Values
begin

text \<open>
  The workers after \<open>loopSplit\<close> and \<open>insertSynchronization\<close>: both succeed, no worker uses an instruction of the old loop
  any more, and the terminators are where they were.
\<close>

section \<open>No channels before\<close>

lemma comm_instr_replace_insts:
  assumes "comm_instr g k (replaceUses tab ins)" "\<And>v w. tab v = Some w \<Longrightarrow> \<exists>n. w = VInst n"
  shows "comm_instr g k ins"
proof -
  define f where "f = (\<lambda>op. case tab op of Some w \<Rightarrow> w | None \<Rightarrow> op)"
  have f: "f x = VInt 32 k \<Longrightarrow> x = VInt 32 k" "f x = VFun g \<Longrightarrow> x = VFun g" for x
    using assms(2) by (auto simp: f_def split: option.splits)
  obtain pre where "opcode ins = Call" "map f (operands ins) = pre @ [VInt 32 k, VFun g]"
    using assms(1) by (auto simp: comm_instr_def replaceUses_def f_def)
  then obtain ps us where "operands ins = ps @ us" "map f us = [VInt 32 k, VFun g]" by (metis map_eq_append_conv)
  then have "us = [VInt 32 k, VFun g]" using f by (auto simp: map_eq_Cons_conv)
  with \<open>operands ins = ps @ us\<close> \<open>opcode ins = Call\<close> show ?thesis by (auto simp: comm_instr_def)
qed

lemma entry_exit_comm:
  "ins \<in> set (entry_code E sp arg c) \<Longrightarrow> \<not> comm_instr g k ins" "ins \<in> set (exit_code E t tab c x) \<Longrightarrow> \<not> comm_instr g k ins"
proof -
  have l: "ins \<in> set (liveout_code ty a p j vs) \<Longrightarrow> opcode ins \<in> {GetElementPtr, Load}" for ins ty a p j vs
    by (induction ty a p j vs rule: liveout_code.induct) auto
  have o: "ins \<in> set (outs_code ty a p jvs) \<Longrightarrow> opcode ins \<in> {GetElementPtr, Store}" for ins ty a p jvs
    by (induction ty a p jvs rule: outs_code.induct) auto
  have "\<not> comm_instr g k (mk_call sp ''showPlace'' [])" by (simp add: comm_instr_def mk_call_def mk_instr_def)
  then show "ins \<in> set (entry_code E sp arg c) \<Longrightarrow> \<not> comm_instr g k ins"
    using l by (fastforce simp: entry_code_def comm_instr_not_call)
  show "ins \<in> set (exit_code E t tab c x) \<Longrightarrow> \<not> comm_instr g k ins"
    using o by (fastforce simp: exit_code_def Let_def comm_instr_not_call)
qed

lemma copy_comm:
  assumes "copy_of bbm ins0 ins" "comm_instr g k ins"
  shows "comm_instr g k ins0"
proof -
  have "opcode ins = Call" using assms(2) by (simp add: comm_instr_def)
  then have "\<not> is_terminator (opcode ins0)" using copy_ofD(1) [OF assms(1)] by (simp add: is_terminator_def)
  then have "opcode ins = opcode ins0" "operands ins = operands ins0" using assms(1) unfolding copy_of_def by blast+
  then show ?thesis using assms(2) by (simp add: comm_instr_def)
qed

lemma split_no_channels:
  assumes ok: "env_ok E m" and d: "\<forall>t < MAX_THREAD. thread_done E m t (pt t) st" and ext: "extended (set (fworkers E)) m (cmod st)"
    and nc: "no_channels m" and f: "\<forall>b. contains (floop E) b \<longrightarrow> b \<in> set (mblocks m f)"
  shows "no_channels (cmod st)"
proof -
  note e = env_okD [OF ok]
  have none: "\<not> comm_instr g k (mcode m i)" if "in_fun m h i" "g = ''sync_produce'' \<or> g = ''sync_consume''" for g k h i
    using nc that by (auto simp: no_channels_def comms_def)
  have "\<not> comm_instr g k (mcode (cmod st) i)" if i: "in_fun (cmod st) h i" and g: "g = ''sync_produce'' \<or> g = ''sync_consume''" for g k h i
  proof (cases "h \<in> set (fworkers E)")
    case False
    then have "mblocks (cmod st) h = mblocks m h" using extendedD(6) [OF ext] by blast
    then obtain b where b: "b \<in> set (mblocks m h)" "i \<in> set (mbody (cmod st) b)" using i by (auto simp: in_fun_def)
    then have bm: "i \<in> set (mbody m b)" using store_block [OF e(1)] extendedD(4) [OF ext] by simp
    then have c: "mcode (cmod st) i = mcode m i" using store_inst [OF e(1)] extendedD(2) [OF ext] by simp
    have "in_fun m h i" using b(1) bm by (auto simp: in_fun_def)
    from none [OF this g] show ?thesis unfolding c .
  next
    case True
    then obtain t where t: "t < MAX_THREAD" "h = fworkers E ! t" using e(7) by (auto simp: in_set_conv_nth)
    note dt = d [rule_format, OF t(1)]
    from worker_inst_cases [OF ok t(1) dt i [unfolded t(2)]] show ?thesis
    proof (elim disjE exE bexE conjE)
      fix k' assume k': "k' < length (thread_insts E m t)" "i = copies_ptr E m t (pt t) + k'"
      let ?o = "thread_insts E m t ! k'"
      obtain ins where ins: "copy_of (block_map E (rel_blocks m (fplan E) t) (pt t)) (mcode m ?o) ins"
        "mcode (cmod st) i = replaceUses (thread_tab E m t (pt t)) ins"
        using copy_shape [OF ok t(1) dt k'(1)] k'(2) by blast
      have "in_loop m (floop E) ?o" using thread_insts_iff [OF ok t(1)] nth_mem [OF k'(1)] by blast
      then have "in_fun m f ?o" using f by (auto simp: in_loop_def in_fun_def)
      then have "\<not> comm_instr g k (mcode m ?o)" using none g by blast
      then have "\<not> comm_instr g k ins" using copy_comm [OF ins(1)] by blast
      then show ?thesis using comm_instr_replace_insts thread_tab_some [OF ok t(1) thread_doneD(1) [OF dt]] unfolding ins(2) by blast
    next
      fix ins assume "ins \<in> set (entry_code E (Some (FunTy [] VoidTy)) (hd (margs m (fworkers E ! t))) (entry_ptr E m t (pt t)))" "mcode (cmod st) i = ins"
      then show ?thesis using entry_exit_comm(1) by blast
    next
      fix ins assume "ins \<in> set (exit_code E t (thread_tab E m t (pt t)) (Suc (entry_ptr E m t (pt t))) (exit_ptr E m t (pt t)))" "mcode (cmod st) i = ins"
      then show ?thesis using entry_exit_comm(2) by blast
    qed (simp_all add: comm_instr_not_call)
  qed
  then show ?thesis by (auto simp: no_channels_def comms_def)
qed

section \<open>Loops that can be pipelined\<close>

text \<open>A thread that copies a branch of another thread needs no value of a later thread for it.\<close>

definition branches_early :: "split_env \<Rightarrow> module_ir \<Rightarrow> bool" where
  "branches_early E m \<longleftrightarrow> (\<forall>t < MAX_THREAD. \<forall>i \<in> set (thread_insts E m t). thread_num (fplan E) i \<noteq> t \<longrightarrow>
     (\<forall>x. in_loop m (floop E) x \<and> VInst x \<in> set (operands (mcode m i)) \<longrightarrow> thread_num (fplan E) x \<le> t))"

definition pipeline_ok :: "split_env \<Rightarrow> module_ir \<Rightarrow> string \<Rightarrow> bool" where
  "pipeline_ok E m f \<longleftrightarrow> env_ok E m \<and> (\<forall>t < MAX_THREAD. lheader (floop E) \<in> set (rel_blocks m (fplan E) t)) \<and>
     (\<forall>b. contains (floop E) b \<longrightarrow> b \<in> set (mblocks m f)) \<and> edges_ok E m \<and> branches_related E m \<and> branches_early E m \<and>
     values_ok E m \<and> runtime_declared m \<and> no_channels m"

lemma pipeline_okD:
  assumes "pipeline_ok E m f"
  shows "env_ok E m" "\<forall>t < MAX_THREAD. lheader (floop E) \<in> set (rel_blocks m (fplan E) t)"
    "\<forall>b. contains (floop E) b \<longrightarrow> b \<in> set (mblocks m f)" "edges_ok E m" "branches_related E m" "branches_early E m"
    "values_ok E m" "runtime_declared m" "no_channels m"
  using assms unfolding pipeline_ok_def by blast+

lemma crossing_use:
  assumes ok: "env_ok E m" and eo: "edges_ok E m" and be: "branches_early E m" and t: "t < MAX_THREAD"
    and old: "old \<in> set (thread_insts E m t)" and x: "in_loop m (floop E) x" "x \<notin> set (thread_insts E m t)"
    and u: "VInst x \<in> set (operands (mcode m old))"
  shows "crosses E m (mk_edge x old REG) t"
proof -
  have l: "in_loop m (floop E) old" using thread_insts_iff [OF ok t] old by blast
  note e = edges_okD(3) [OF eo l x(1) u]
  have "thread_num (fplan E) x \<le> t"
    using edges_okD(2) [OF eo e] be t old x(1) u unfolding branches_early_def by (cases "thread_num (fplan E) old = t") auto
  moreover have "thread_num (fplan E) x \<noteq> t" using own_inst_kept [OF ok x(1) _ t] x(2) by blast
  ultimately show ?thesis using e t old by (simp add: crosses_def)
qed

lemma split_sync_states:
  assumes P: "pipeline_ok E m f" and us: "inst_users users"
  obtains st pt st' n where "loopSplit E (no_clones m) = Ok st" "extended (set (fworkers E)) m (cmod st)" "store_inv (cmod st)"
    "\<forall>t < MAX_THREAD. thread_done E m t (pt t) st" "insertSynchronization (fplan E) users True st = Ok (st', n)"
    "sources_assigned (fplan E)" "clones_ok (fworkers E) st" "no_channels (cmod st)" "runtime_declared (cmod st)"
proof -
  note p = pipeline_okD [OF P]
  obtain st pt where st: "loopSplit E (no_clones m) = Ok st" "extended (set (fworkers E)) m (cmod st)" "store_inv (cmod st)"
    "\<forall>t < MAX_THREAD. thread_done E m t (pt t) st"
    using loopSplit_run [OF p(1,2)] by blast
  have cl: "clones_ok (fworkers E) st" by (rule split_clones_ok [OF p(1) st(3,4)])
  have nc: "no_channels (cmod st)" by (rule split_no_channels [OF p(1) st(4,2) p(9,3)])
  have rt: "runtime_declared (cmod st)" using p(8) extendedD(7) [OF st(2)] by (simp add: runtime_declared_def)
  have sa: "sources_assigned (fplan E)"
    unfolding sources_assigned_def
    using assigned_inst_thread(1) [OF plan_okD(3) [OF env_okD(3) [OF p(1)]]] edges_okD(2) [OF p(4)] of_nat_0_le_iff by blast
  have "\<forall>pp \<in> set (sync_points (fplan E) (instMap st)). ready_point True st pp"
    using split_ready_points [OF p(1,4) st(4) p(5,7) st(3)] by blast
  then obtain acc where "insertSynchronization (fplan E) users True st = Ok acc"
    using sync_runs [OF sa cl nc rt us] by blast
  then show thesis using that [OF st _ sa cl nc rt] by (cases acc) blast
qed

section \<open>No value of the old loop is left\<close>

text \<open>Every user of a value of another thread is the target of a step that delivers the value.\<close>

lemma users_delivered:
  assumes P: "pipeline_ok E m f" and d: "\<forall>t < MAX_THREAD. thread_done E m t (pt t) st" and inv: "store_inv (cmod st)"
    and t: "t < MAX_THREAD" and x: "in_loop m (floop E) x"
  shows "card (users_in (cmod st) (fworkers E ! t) x) \<le> length (filter (delivers t x) (sync_points (fplan E) (instMap st)))"
proof -
  note p = pipeline_okD [OF P] and dt = d [rule_format, OF t]
  let ?ds = "filter (delivers t x) (sync_points (fplan E) (instMap st))"
  have "users_in (cmod st) (fworkers E ! t) x \<subseteq> p_v ` set ?ds"
  proof
    fix i assume "i \<in> users_in (cmod st) (fworkers E ! t) x"
    then have i: "in_fun (cmod st) (fworkers E ! t) i" "VInst x \<in> set (operands (mcode (cmod st) i))" by (simp_all add: users_in_def)
    from worker_operand [OF p(1) t dt i] x obtain k where k: "x \<notin> set (thread_insts E m t)" "k < length (thread_insts E m t)"
      "i = copies_ptr E m t (pt t) + k" "VInst x \<in> set (operands (mcode m (thread_insts E m t ! k)))" by blast
    let ?old = "thread_insts E m t ! k"
    have c: "crosses E m (mk_edge x ?old REG) t" by (rule crossing_use [OF p(1,4,6) t nth_mem [OF k(2)] x k(1,4)])
    obtain pp where pp: "pp \<in> set (sync_points (fplan E) (instMap st))" "p_edge pp = mk_edge x ?old REG" "p_to pp = t"
      using crossing_point [OF p(1,4) d c] by blast
    have "in_loop m (floop E) ?old" using thread_insts_iff [OF p(1) t] nth_mem [OF k(2)] by blast
    then have "instMap st t (VInst ?old) = Some (VInst i)" using table_copy [OF p(1) t dt] k(2,3) by blast
    then have "p_v pp = i" using split_points [OF p(1,4) d] pp by (auto simp: mk_edge_def)
    moreover have "delivers t x pp" using pp(2,3) by (simp add: delivers_def mk_edge_def)
    ultimately show "i \<in> p_v ` set ?ds" using pp(1) by force
  qed
  then have "card (users_in (cmod st) (fworkers E ! t) x) \<le> card (p_v ` set ?ds)" by (intro card_mono) simp_all
  also have "\<dots> \<le> length ?ds" using card_image_le [of "set ?ds" p_v] card_length [of ?ds] by simp
  finally show ?thesis .
qed

lemma sync_sources:
  assumes P: "pipeline_ok E m f" and d: "\<forall>t < MAX_THREAD. thread_done E m t (pt t) st"
    and pp: "pp \<in> set (sync_points (fplan E) (instMap st))" and x: "in_loop m (floop E) x"
  shows "newToOld st (VInst (p_u pp)) = Some (VInst (eu (p_edge pp))) \<and> p_u pp \<noteq> x"
proof -
  note p = pipeline_okD [OF P]
  from split_points [OF p(1,4) d, of pp] pp have c: "crosses E m (p_edge pp) (p_to pp)"
    "p_from pp = thread_num (fplan E) (eu (p_edge pp))"
    "instMap st (p_from pp) (VInst (eu (p_edge pp))) = Some (VInst (p_u pp))" by blast+
  then have t: "p_from pp < MAX_THREAD" "p_edge pp \<in> set (allEdges (pgraph (fplan E)))" by (auto simp: crosses_def)
  note dt = d [rule_format, OF t(1)]
  have "in_loop m (floop E) (eu (p_edge pp))" using edges_okD(2) [OF p(4) t(2)] by blast
  from table_copy [OF p(1) t(1) dt this, THEN iffD1, OF c(3)] obtain k where k: "k < length (thread_insts E m (p_from pp))"
    "thread_insts E m (p_from pp) ! k = eu (p_edge pp)" "p_u pp = copies_ptr E m (p_from pp) (pt (p_from pp)) + k" by auto
  have "next_ptr m \<le> p_u pp" using thread_doneD(1) [OF dt] k(3) by (simp add: copies_ptr_def)
  moreover have "x < next_ptr m" by (rule in_loop_ptr [OF env_okD(1) [OF p(1)] x])
  ultimately show ?thesis using thread_doneD(13) [OF dt k(1)] k(2,3) by simp
qed

lemma no_loop_users:
  assumes P: "pipeline_ok E m f" and uf: "users_found users" and ext: "extended (set (fworkers E)) m (cmod st)" and inv: "store_inv (cmod st)"
    and d: "\<forall>t < MAX_THREAD. thread_done E m t (pt t) st" and run: "insertSynchronization (fplan E) users True st = Ok (st', n)"
    and ok: "sources_assigned (fplan E)" "clones_ok (fworkers E) st" "no_channels (cmod st)"
    and t: "t < MAX_THREAD" and x: "in_loop m (floop E) x"
  shows "users_in (cmod st') (fworkers E ! t) x = {}"
proof (rule users_left [OF ok uf run])
  show "\<forall>pt \<in> set (sync_points (fplan E) (instMap st)). newToOld st (VInst (p_u pt)) = Some (VInst (eu (p_edge pt))) \<and> p_u pt \<noteq> x"
    using sync_sources [OF P d _ x] by blast
  show "x < next_ptr (cmod st)"
    using in_loop_ptr [OF env_okD(1) [OF pipeline_okD(1) [OF P]] x] extendedD(1) [OF ext] by simp
qed (use t users_delivered [OF P d inv t x] in simp_all)

text \<open>
  C33. The threads are self-contained: on a loop that can be pipelined, \<open>loopSplit\<close> and \<open>insertSynchronization\<close> both
  succeed, and then no instruction of a worker uses an instruction of the old loop: every use of a register has been
  replaced by the thread's own copy or by a value that is received from an earlier thread.
\<close>

theorem workers_self_contained:
  assumes "pipeline_ok E m f" "inst_users users" "users_found users"
  shows "\<exists>st st' n. loopSplit E (no_clones m) = Ok st \<and> insertSynchronization (fplan E) users True st = Ok (st', n) \<and>
    (\<forall>t < MAX_THREAD. \<forall>i. in_fun (cmod st') (fworkers E ! t) i \<longrightarrow>
      (\<forall>x. in_loop m (floop E) x \<longrightarrow> VInst x \<notin> set (operands (mcode (cmod st') i))))"
proof -
  obtain st pt st' n where s: "loopSplit E (no_clones m) = Ok st" "extended (set (fworkers E)) m (cmod st)" "store_inv (cmod st)"
    "\<forall>t < MAX_THREAD. thread_done E m t (pt t) st" "insertSynchronization (fplan E) users True st = Ok (st', n)"
    "sources_assigned (fplan E)" "clones_ok (fworkers E) st" "no_channels (cmod st)" "runtime_declared (cmod st)"
    by (rule split_sync_states [OF assms(1,2)])
  have "users_in (cmod st') (fworkers E ! t) x = {}" if "t < MAX_THREAD" "in_loop m (floop E) x" for t x
    by (rule no_loop_users [OF assms(1,3) s(2-8) that])
  then show ?thesis using s(1,5) unfolding users_in_def by blast
qed

text \<open>The use lists in the order of the instructions, for the loop in two stages.\<close>

definition listed_users :: "module_ir \<Rightarrow> Inst \<Rightarrow> string \<Rightarrow> Value list" where
  "listed_users m x g = map VInst (filter (\<lambda>i. VInst x \<in> set (operands (mcode m i))) (concat (map (mbody m) (mblocks m g))))"

lemma listed_users_ok: "inst_users listed_users" "users_found listed_users"
  by (auto simp: inst_users_def users_found_def listed_users_def users_in_def in_fun_def)

lemma pipe_thread_insts:
  "thread_insts pipe_env pipe_module 0 = [10, 11, 12]" "thread_insts pipe_env pipe_module (Suc 0) = [13, 12]"
proof -
  have rel: "rel_blocks pipe_module pipe_plan 0 = [1]" "rel_blocks pipe_module pipe_plan (Suc 0) = [1]"
    using pipe_blocks by (simp_all add: MAX_THREAD_def)
  show "thread_insts pipe_env pipe_module 0 = [10, 11, 12]" "thread_insts pipe_env pipe_module (Suc 0) = [13, 12]"
    by (simp_all add: thread_insts_def rel kept_def keep_def pipe_sel pipe_thread) (simp_all add: pipe_code_def is_terminator_def)
qed

lemma pipe_pipeline: "pipeline_ok pipe_env pipe_module ''f''"
proof -
  have eo: "edges_ok pipe_env pipe_module"
    unfolding edges_ok_def pipe_sel pipe_edges pipe_in_loop
    using pipe_graph_inv by (auto simp: pipe_thread pipe_code_def mk_edge_def)
  have cr: "crosses pipe_env pipe_module e t \<Longrightarrow> t = Suc 0 \<and> eu e \<in> {10, 11, 12} \<and> (dtype e = REG \<longrightarrow> eu e \<in> {10, 11})" for e t
    unfolding crosses_def pipe_sel pipe_edges by (auto simp: MAX_THREAD_def pipe_thread mk_edge_def)
  have rel: "set (rel_blocks pipe_module pipe_plan (Suc 0)) = {1}" using pipe_blocks by (simp add: MAX_THREAD_def)
  have "branches_related pipe_env pipe_module"
    unfolding branches_related_def using cr rel by (fastforce simp: pipe_sel pipe_module_def)
  moreover have "values_ok pipe_env pipe_module"
    unfolding values_ok_def using cr by (fastforce simp: pipe_sel pipe_code_def is_terminator_def sendable_def)
  moreover have "branches_early pipe_env pipe_module"
    unfolding branches_early_def all_threads by (auto simp: pipe_thread_insts pipe_sel pipe_thread pipe_in_loop)
  moreover have "runtime_declared pipe_module" using small_module_runtime by (simp add: runtime_declared_def pipe_module_def)
  moreover have "no_channels pipe_module"
    by (simp add: no_channels_def comms_def comm_instr_not_call pipe_sel) (simp add: pipe_code_def comm_instr_not_call)
  moreover have "\<forall>b. contains (floop pipe_env) b \<longrightarrow> b \<in> set (mblocks pipe_module ''f'')"
    by (simp add: pipe_sel pipe_contains) (simp add: pipe_module_def)
  ultimately show ?thesis using pipe_env_ok pipe_header eo unfolding pipeline_ok_def by blast
qed

theorem workers_self_contained_witness:
  "\<exists>st st' n. loopSplit pipe_env (no_clones pipe_module) = Ok st \<and>
    insertSynchronization pipe_plan listed_users True st = Ok (st', n) \<and>
    (\<exists>i. in_fun (cmod st) ''w1'' i \<and> VInst 10 \<in> set (operands (mcode (cmod st) i))) \<and>
    (\<forall>i. in_fun (cmod st') ''w1'' i \<longrightarrow> VInst 10 \<notin> set (operands (mcode (cmod st') i)))"
proof -
  obtain st st' n where s: "loopSplit pipe_env (no_clones pipe_module) = Ok st"
    "insertSynchronization (fplan pipe_env) listed_users True st = Ok (st', n)"
    "\<forall>t < MAX_THREAD. \<forall>i. in_fun (cmod st') (fworkers pipe_env ! t) i \<longrightarrow>
      (\<forall>x. in_loop pipe_module (floop pipe_env) x \<longrightarrow> VInst x \<notin> set (operands (mcode (cmod st') i)))"
    using workers_self_contained [OF pipe_pipeline listed_users_ok] by blast
  have "in_loop pipe_module (floop pipe_env) 10" by (simp add: pipe_sel pipe_in_loop)
  then have "\<forall>i. in_fun (cmod st') ''w1'' i \<longrightarrow> VInst 10 \<notin> set (operands (mcode (cmod st') i))"
    using s(3) unfolding all_threads by (simp add: pipe_sel)
  then show ?thesis using pipe_consumer s(1,2) by (auto simp: pipe_sel)
qed

end
