(* ===== verification/Sync_Delivery.thy ===== *)
theory Sync_Delivery
  imports Split_Sync_Result
begin

text \<open>
  The flow of the values through the channels: what \<open>insertConsume\<close> puts in the place of a value of another thread is
  the cast of what is received on a channel, and on that channel the other thread sends the cast of its copy of the value.
\<close>

section \<open>The two ends of a value\<close>

lemma replace_unused: "VInst x \<notin> set (operands ins) \<Longrightarrow> replaceUses (reps_of x c) ins = ins"
proof -
  assume "VInst x \<notin> set (operands ins)"
  then have "map (\<lambda>op. case reps_of x c op of Some w \<Rightarrow> w | None \<Rightarrow> op) (operands ins) = operands ins"
    by (intro map_idI) (auto simp: reps_of_def)
  then show ?thesis by (simp add: replaceUses_def)
qed

text \<open>
  Channel \<open>k\<close> from function \<open>f\<close> to function \<open>g\<close> carries the instruction \<open>u\<close> of type \<open>T\<close>, which arrives as \<open>c\<close>; all the new
  instructions are at addresses from \<open>N\<close> on.
\<close>

definition carries :: "nat \<Rightarrow> module_ir \<Rightarrow> string \<Rightarrow> string \<Rightarrow> int \<Rightarrow> Ty \<Rightarrow> Inst \<Rightarrow> Inst \<Rightarrow> bool" where
  "carries N M f g k T u c \<longleftrightarrow> N \<le> c \<and> in_fun M g c \<and> (\<exists>s p q ft gt. N \<le> s \<and> N \<le> q \<and>
     in_fun M f s \<and> send_cast T u = Ok (mcode M s) \<and>
     in_fun M f p \<and> mcode M p = mk_call ft ''sync_produce'' [VInst s, VInt 32 k] \<and>
     in_fun M g q \<and> mcode M q = mk_call gt ''sync_consume'' [VInt 32 k] \<and> recv_cast T q = Ok (mcode M c))"

lemma carries_mono: "carries N M f g k T u c \<Longrightarrow> N' \<le> N \<Longrightarrow> carries N' M f g k T u c"
  unfolding carries_def by (blast intro: order_trans)

text \<open>What one step does to the instructions that are there.\<close>

definition steps_to :: "module_ir \<Rightarrow> Inst \<Rightarrow> Inst \<Rightarrow> module_ir \<Rightarrow> bool" where
  "steps_to M x c M' \<longleftrightarrow> (\<forall>g i. in_fun M g i \<longrightarrow> in_fun M' g i \<and>
     (mcode M' i = mcode M i \<or> mcode M' i = replaceUses (reps_of x c) (mcode M i)))"

lemma carries_step:
  assumes "carries N M f g k T u d" "steps_to M x c M'" "x \<noteq> u" "x < N"
  shows "carries N M' f g k T u d"
proof -
  obtain s p q ft gt where a: "N \<le> d" "in_fun M g d" "N \<le> s" "N \<le> q"
    "in_fun M f s" "send_cast T u = Ok (mcode M s)"
    "in_fun M f p" "mcode M p = mk_call ft ''sync_produce'' [VInst s, VInt 32 k]"
    "in_fun M g q" "mcode M q = mk_call gt ''sync_consume'' [VInt 32 k]" "recv_cast T q = Ok (mcode M d)"
    using assms(1) unfolding carries_def by blast
  have keep: "in_fun M' h i \<and> mcode M' i = mcode M i" if "in_fun M h i" "VInst x \<notin> set (operands (mcode M i))" for h i
    using assms(2) that replace_unused unfolding steps_to_def by metis
  have "VInst x \<notin> set (operands (mcode M s))" "VInst x \<notin> set (operands (mcode M p))"
    "VInst x \<notin> set (operands (mcode M q))" "VInst x \<notin> set (operands (mcode M d))"
    using send_operands [OF a(6)] recv_operands [OF a(11)] assms(3,4) a(3,4,8,10) by (auto simp: mk_call_def mk_instr_def)
  then show ?thesis
    using keep [OF a(2)] keep [OF a(5)] keep [OF a(7)] keep [OF a(9)] a unfolding carries_def by metis
qed

lemma insert_point_carries:
  assumes ok: "clones_ok fs (fst acc)" and t: "p_from pt < MAX_THREAD" "p_to pt < MAX_THREAD"
    and u: "instMap (fst acc) (p_from pt) v = Some (VInst (p_u pt))" and w: "instMap (fst acc) (p_to pt) v' = Some (VInst (p_v pt))"
    and run: "insert_point users en acc pt = Ok acc'" and old: "newToOld (fst acc) (VInst (p_u pt)) = Some (VInst x)"
    and x: "x < next_ptr (cmod (fst acc))" "x \<noteq> p_u pt"
  shows "\<exists>c. steps_to (cmod (fst acc)) x c (cmod (fst acc')) \<and>
    (\<forall>g i. in_fun (cmod (fst acc)) g i \<longrightarrow> mcode (cmod (fst acc')) i = mcode (cmod (fst acc)) i \<or>
      g = fs ! p_to pt \<and> dtype (p_edge pt) = REG) \<and>
    (dtype (p_edge pt) = REG \<longrightarrow> carries (next_ptr (cmod (fst acc))) (cmod (fst acc')) (fs ! p_from pt) (fs ! p_to pt) (snd acc)
      (value_ty (cmod (fst acc)) (VInst (p_u pt))) (p_u pt) c)"
proof -
  let ?m = "cmod (fst acc)" and ?m' = "cmod (fst acc')"
  have inv: "store_inv ?m" using ok by (simp add: clones_ok_def)
  obtain pos pre t1 arg m1 oldu q t2 post m2 us where
    s: "in_fun ?m (fs ! p_from pt) (p_u pt)"
      "dtype (p_edge pt) = REG \<longrightarrow> (\<exists>ins. send_cast (value_ty ?m (VInst (p_u pt))) (p_u pt) = Ok ins \<and> pre = [ins] \<and> arg = VInst (next_ptr ?m))"
      "m1 = put_call ?m (p_u pt) pos (pre @ [mk_call (Some t1) ''sync_produce'' [arg, VInt 32 (snd acc)]])"
      "newToOld (fst acc) (VInst (p_u pt)) = Some (VInst oldu)" "in_fun m1 (fs ! p_to pt) q"
      "m2 = put_call m1 q (Some q) (mk_call (Some t2) ''sync_consume'' [VInt 32 (snd acc)] # post)"
      "dtype (p_edge pt) = REG \<longrightarrow> (\<exists>ins. recv_cast (value_ty ?m (VInst (p_u pt))) (next_ptr m1) = Ok ins \<and> post = [ins]) \<and>
         us = local_users (mfunc m2 (mparent m2 (p_v pt))) m2 (users m2 oldu (mfunc m2 (mparent m2 (p_v pt))))"
      "dtype (p_edge pt) \<noteq> REG \<longrightarrow> post = [] \<and> us = []"
      "acc' = ((fst acc)\<lparr>cmod := fold (\<lambda>i. update_instr i (replaceUses (reps_of oldu (Suc (next_ptr m1))))) us m2\<rparr>, snd acc + 1)"
    by (rule insert_point_shape [OF ok t u run])
  let ?new1 = "pre @ [mk_call (Some t1) ''sync_produce'' [arg, VInt 32 (snd acc)]]"
  let ?new2 = "mk_call (Some t2) ''sync_consume'' [VInt 32 (snd acc)] # post"
  let ?c = "Suc (next_ptr m1)"
  note p1 = put_call_facts [OF inv s(1), where pos = pos and inss = ?new1, folded s(3)]
  note p2 = put_call_facts [OF p1(1) s(5), where pos = "Some q" and inss = ?new2, folded s(6)]
  have o': "oldu = x" using s(4) old by simp
  have m': "?m' = fold (\<lambda>i. update_instr i (replaceUses (reps_of x ?c))) us m2" by (simp add: s(9) o')
  have code: "mcode ?m' i = (if i \<in> set us then replaceUses (reps_of x ?c) (mcode m2 i) else mcode m2 i)" for i
    unfolding m' updates_code by simp
  have in3: "in_fun ?m' g i = in_fun m2 g i" for g i unfolding m' by (rule in_fun_only_code [OF updates_only])
  have le: "next_ptr ?m \<le> next_ptr m1" using p1(5) by simp
  have same: "mcode m2 i = mcode ?m i" if "in_fun ?m g i" for g i
    using in_fun_block [OF inv that] p1(6) p2(6) le by simp
  have st: "steps_to ?m x ?c ?m'" unfolding steps_to_def using code same in3 p1(3) p2(3) by auto
  have v: "mfunc m2 (mparent m2 (p_v pt)) = fs ! p_to pt"
  proof -
    have "in_fun ?m (fs ! p_to pt) (p_v pt)" using ok t(2) w by (auto simp: clones_ok_def)
    then have "in_fun m2 (fs ! p_to pt) (p_v pt)" using p1(3) p2(3) by simp
    then show ?thesis using in_fun_block [OF p2(1)] store_block [OF p2(1)] by blast
  qed
  have here: "mcode ?m' i = mcode ?m i \<or> g = fs ! p_to pt \<and> dtype (p_edge pt) = REG" if i: "in_fun ?m g i" for g i
  proof (cases "i \<in> set us")
    case True
    then have d: "dtype (p_edge pt) = REG" using s(8) by auto
    have "in_fun m2 g i" using i p1(3) p2(3) by simp
    then have "mfunc m2 (mparent m2 i) = g" using in_fun_block [OF p2(1)] store_block [OF p2(1)] by blast
    moreover have "mfunc m2 (mparent m2 i) = fs ! p_to pt"
      using True d s(7) v by (auto simp: local_users_def split: Value.splits if_splits)
    ultimately show ?thesis using d by simp
  qed (use code same [OF i] in simp)
  have "carries (next_ptr ?m) ?m' (fs ! p_from pt) (fs ! p_to pt) (snd acc) (value_ty ?m (VInst (p_u pt))) (p_u pt) ?c"
    if d: "dtype (p_edge pt) = REG"
  proof -
    obtain sc rc where sc: "send_cast (value_ty ?m (VInst (p_u pt))) (p_u pt) = Ok sc" "pre = [sc]" "arg = VInst (next_ptr ?m)"
      and rc: "recv_cast (value_ty ?m (VInst (p_u pt))) (next_ptr m1) = Ok rc" "post = [rc]"
      using s(2,7) d by blast
    have n: "next_ptr m1 = Suc (Suc (next_ptr ?m))" using p1(5) sc(2) by simp
    have fresh: "mcode ?m' i = ins" if "mcode m2 i = ins" "VInst x \<notin> set (operands ins)" for i ins
      using code [of i] that replace_unused by simp
    have c1: "mcode m2 (next_ptr ?m) = sc" "mcode m2 (Suc (next_ptr ?m)) = mk_call (Some t1) ''sync_produce'' [VInst (next_ptr ?m), VInt 32 (snd acc)]"
      using p1(7) [of 0] p1(7) [of 1] p2(6) [of "next_ptr ?m"] p2(6) [of "Suc (next_ptr ?m)"] sc n by simp_all
    have c2: "mcode m2 (next_ptr m1) = mk_call (Some t2) ''sync_consume'' [VInt 32 (snd acc)]" "mcode m2 ?c = rc"
      using p2(7) [of 0] p2(7) [of 1] rc by simp_all
    have "mcode ?m' (next_ptr ?m) = sc" "mcode ?m' (Suc (next_ptr ?m)) = mk_call (Some t1) ''sync_produce'' [VInst (next_ptr ?m), VInt 32 (snd acc)]"
      "mcode ?m' (next_ptr m1) = mk_call (Some t2) ''sync_consume'' [VInt 32 (snd acc)]" "mcode ?m' ?c = rc"
      using c1 c2 send_operands [OF sc(1)] recv_operands [OF rc(1)] x n
      by (intro fresh; simp add: mk_call_def mk_instr_def)+
    moreover have "in_fun ?m' (fs ! p_from pt) (next_ptr ?m)" "in_fun ?m' (fs ! p_from pt) (Suc (next_ptr ?m))"
      unfolding in3 p2(3) p1(3) by (force simp: sc(2))+
    moreover have "in_fun ?m' (fs ! p_to pt) (next_ptr m1)" "in_fun ?m' (fs ! p_to pt) ?c"
      unfolding in3 p2(3) by (force simp: rc(2))+
    ultimately show ?thesis unfolding carries_def using sc rc n by (metis le_SucI le_refl)
  qed
  then show ?thesis using st here by blast
qed

section \<open>All steps\<close>

text \<open>
  An operand of an instruction of \<open>g\<close> is what it was, or the step for a dependence into \<open>g\<close> has put the received value in the
  place of the source.
\<close>

definition operand_from ::
  "string list \<Rightarrow> clones \<Rightarrow> sync_point list \<Rightarrow> module_ir \<Rightarrow> string \<Rightarrow> Value \<Rightarrow> Value \<Rightarrow> bool" where
  "operand_from fs st pts M g a b \<longleftrightarrow> b = a \<or> (\<exists>k < length pts. \<exists>c. a = VInst (eu (p_edge (pts ! k))) \<and> b = VInst c \<and>
     dtype (p_edge (pts ! k)) = REG \<and> g = fs ! p_to (pts ! k) \<and>
     carries (next_ptr (cmod st)) M (fs ! p_from (pts ! k)) g (int k) (value_ty (cmod st) (VInst (p_u (pts ! k)))) (p_u (pts ! k)) c)"

definition operands_from :: "string list \<Rightarrow> clones \<Rightarrow> sync_point list \<Rightarrow> clones \<times> int \<Rightarrow> bool" where
  "operands_from fs st pts acc \<longleftrightarrow> (\<forall>g i. in_fun (cmod st) g i \<longrightarrow> in_fun (cmod (fst acc)) g i \<and>
     list_all2 (operand_from fs st pts (cmod (fst acc)) g) (operands (mcode (cmod st) i)) (operands (mcode (cmod (fst acc)) i)))"

text \<open>The sources of the dependences are instructions of \<open>X\<close>, which are older than the clones and are none of their sources.\<close>

definition sources_in :: "Inst set \<Rightarrow> clones \<Rightarrow> sync_point list \<Rightarrow> bool" where
  "sources_in X st pts \<longleftrightarrow> (\<forall>x \<in> X. x < next_ptr (cmod st)) \<and> (\<forall>pt \<in> set pts. eu (p_edge pt) \<in> X \<and> p_u pt \<notin> X \<and>
     newToOld st (VInst (p_u pt)) = Some (VInst (eu (p_edge pt))))"

lemma operand_from_step:
  assumes "operand_from fs st pts M g a b" "steps_to M x c M'" "x < next_ptr (cmod st)" "\<forall>pt \<in> set pts. x \<noteq> p_u pt"
  shows "operand_from fs st (pts @ [pt]) M' g a b"
  using assms(1) unfolding operand_from_def
proof
  assume "\<exists>k < length pts. \<exists>c. a = VInst (eu (p_edge (pts ! k))) \<and> b = VInst c \<and> dtype (p_edge (pts ! k)) = REG \<and> g = fs ! p_to (pts ! k) \<and>
     carries (next_ptr (cmod st)) M (fs ! p_from (pts ! k)) g (int k) (value_ty (cmod st) (VInst (p_u (pts ! k)))) (p_u (pts ! k)) c"
  then obtain k d where k: "k < length pts" "a = VInst (eu (p_edge (pts ! k)))" "b = VInst d" "dtype (p_edge (pts ! k)) = REG"
    "g = fs ! p_to (pts ! k)"
    "carries (next_ptr (cmod st)) M (fs ! p_from (pts ! k)) g (int k) (value_ty (cmod st) (VInst (p_u (pts ! k)))) (p_u (pts ! k)) d"
    by blast
  have "carries (next_ptr (cmod st)) M' (fs ! p_from (pts ! k)) g (int k) (value_ty (cmod st) (VInst (p_u (pts ! k)))) (p_u (pts ! k)) d"
    using carries_step [OF k(6) assms(2) _ assms(3)] assms(4) k(1) nth_mem by blast
  moreover have "(pts @ [pt]) ! k = pts ! k" using k(1) by (simp add: nth_append)
  ultimately show "b = a \<or> (\<exists>k < length (pts @ [pt]). \<exists>c. a = VInst (eu (p_edge ((pts @ [pt]) ! k))) \<and> b = VInst c \<and>
     dtype (p_edge ((pts @ [pt]) ! k)) = REG \<and> g = fs ! p_to ((pts @ [pt]) ! k) \<and>
     carries (next_ptr (cmod st)) M' (fs ! p_from ((pts @ [pt]) ! k)) g (int k) (value_ty (cmod st) (VInst (p_u ((pts @ [pt]) ! k))))
       (p_u ((pts @ [pt]) ! k)) c)"
    using k by (intro disjI2 exI [of _ k]) (simp del: value_ty.simps)
qed simp

lemma operands_from_next:
  assumes ok: "clones_ok fs st" and I: "paired fs st dn acc" "operands_from fs st dn acc"
    and mem: "pt \<in> set (sync_points P (instMap st))" "set dn \<subseteq> set (sync_points P (instMap st))"
    and X: "sources_in X st (sync_points P (instMap st))" and run: "insert_point users en acc pt = Ok acc'"
  shows "operands_from fs st (dn @ [pt]) acc'"
proof -
  let ?M = "cmod (fst acc)" and ?M' = "cmod (fst acc')" and ?x = "eu (p_edge pt)"
  have oks: "clones_ok fs (fst acc)" and tabs: "same_tables st (fst acc)" and gr: "grown (cmod st) ?M" and ch: "snd acc = int (length dn)"
    using I(1) by (simp_all add: paired_def)
  note m = sync_points_mem [OF mem(1)]
  have t: "p_from pt < MAX_THREAD" "p_to pt < MAX_THREAD" using m by linarith+
  have maps: "instMap (fst acc) (p_from pt) (VInst ?x) = Some (VInst (p_u pt))"
    "instMap (fst acc) (p_to pt) (VInst (ev (p_edge pt))) = Some (VInst (p_v pt))" "newToOld (fst acc) (VInst (p_u pt)) = Some (VInst ?x)"
  proof -
    have tb: "instMap (fst acc) = instMap st" "newToOld (fst acc) = newToOld st" using tabs by (simp_all add: same_tables_def)
    show "instMap (fst acc) (p_from pt) (VInst ?x) = Some (VInst (p_u pt))"
      "instMap (fst acc) (p_to pt) (VInst (ev (p_edge pt))) = Some (VInst (p_v pt))" "newToOld (fst acc) (VInst (p_u pt)) = Some (VInst ?x)"
      unfolding tb using m X mem(1) unfolding sources_in_def by blast+
  qed
  have "?x \<in> X" "\<forall>pp \<in> set (dn @ [pt]). p_u pp \<notin> X" using X mem unfolding sources_in_def by auto
  then have x0: "?x < next_ptr (cmod st)" "\<forall>pp \<in> set (dn @ [pt]). ?x \<noteq> p_u pp" using X unfolding sources_in_def by fastforce+
  then have x: "?x < next_ptr ?M" "?x \<noteq> p_u pt" using gr by (auto simp: grown_def)
  obtain c where c: "steps_to ?M ?x c ?M'"
    "\<forall>g i. in_fun ?M g i \<longrightarrow> mcode ?M' i = mcode ?M i \<or> g = fs ! p_to pt \<and> dtype (p_edge pt) = REG"
    "dtype (p_edge pt) = REG \<longrightarrow> carries (next_ptr ?M) ?M' (fs ! p_from pt) (fs ! p_to pt) (snd acc) (value_ty ?M (VInst (p_u pt))) (p_u pt) c"
    using insert_point_carries [OF oks t maps(1,2) run maps(3) x] by blast
  have "in_fun (cmod st) (fs ! p_from pt) (p_u pt)" using ok t(1) m by (auto simp: clones_ok_def)
  then have "p_u pt < next_ptr (cmod st)" using in_fun_block ok by (auto simp: clones_ok_def)
  then have ty: "value_ty ?M (VInst (p_u pt)) = value_ty (cmod st) (VInst (p_u pt))" by (rule grown_type [OF gr])
  have le: "next_ptr (cmod st) \<le> next_ptr ?M" using gr by (simp add: grown_def)
  have new: "operand_from fs st (dn @ [pt]) ?M' g (VInst ?x) (VInst c)" if "g = fs ! p_to pt" "dtype (p_edge pt) = REG" for g
  proof -
    have "carries (next_ptr (cmod st)) ?M' (fs ! p_from pt) g (int (length dn)) (value_ty (cmod st) (VInst (p_u pt))) (p_u pt) c"
      using carries_mono [OF _ le] c(3) that unfolding ty ch by blast
    then show ?thesis unfolding operand_from_def using that by (intro disjI2 exI [of _ "length dn"]) (simp del: value_ty.simps)
  qed
  have step: "operand_from fs st (dn @ [pt]) ?M' g a b" if "operand_from fs st dn ?M g a b" for g a b
    using operand_from_step [OF that c(1) x0(1)] x0(2) by simp
  have unused: "b \<noteq> VInst ?x \<or> a = VInst ?x" if "operand_from fs st dn ?M g a b" for g a b
    using that x0(1) unfolding operand_from_def carries_def by auto
  show ?thesis
    unfolding operands_from_def
  proof (intro allI impI conjI)
    fix g i
    assume i: "in_fun (cmod st) g i"
    then have iM: "in_fun ?M g i" and L: "list_all2 (operand_from fs st dn ?M g) (operands (mcode (cmod st) i)) (operands (mcode ?M i))"
      using I(2) by (auto simp: operands_from_def)
    show "in_fun ?M' g i" using c(1) iM by (auto simp: steps_to_def)
    show "list_all2 (operand_from fs st (dn @ [pt]) ?M' g) (operands (mcode (cmod st) i)) (operands (mcode ?M' i))"
    proof (cases "mcode ?M' i = mcode ?M i")
      case True
      then show ?thesis using list_all2_mono [OF L] step by metis
    next
      case False
      then have r: "mcode ?M' i = replaceUses (reps_of ?x c) (mcode ?M i)" and g: "g = fs ! p_to pt" "dtype (p_edge pt) = REG"
        using c(1,2) iM unfolding steps_to_def by blast+
      have "operand_from fs st (dn @ [pt]) ?M' g a (case reps_of ?x c b of Some w \<Rightarrow> w | None \<Rightarrow> b)"
        if "operand_from fs st dn ?M g a b" for a b
      proof (cases "b = VInst ?x")
        case True
        then have "a = VInst ?x" using unused [OF that] by simp
        then show ?thesis using new [OF g] True by (simp add: reps_of_def)
      next
        case False
        then show ?thesis using step [OF that] by (simp add: reps_of_def)
      qed
      then show ?thesis unfolding r replaceUses_def by (simp add: list_all2_map2) (rule list_all2_mono [OF L])
    qed
  qed
qed

lemma sync_operands:
  assumes sa: "sources_assigned P" and ok: "clones_ok fs st" and nc: "no_channels (cmod st)"
    and X: "sources_in X st (sync_points P (instMap st))" and run: "insertSynchronization P users en st = Ok acc"
  shows "operands_from fs st (sync_points P (instMap st)) acc"
proof -
  let ?pts = "sync_points P (instMap st)"
  have "paired fs st ?pts acc \<and> operands_from fs st ?pts acc"
  proof (rule ofold_Ok_invariant [where I = "\<lambda>dn acc. paired fs st dn acc \<and> operands_from fs st dn acc"])
    show "ofold (insert_point users en) ?pts (st, 0) = Ok acc" using run sync_as_points [OF sa] by simp
    show "paired fs st [] (st, 0) \<and> operands_from fs st [] (st, 0)"
      using paired_start [OF ok nc] by (auto simp: operands_from_def operand_from_def intro!: list_all2_refl)
  next
    fix dn pt rest s s'
    assume split: "?pts = dn @ pt # rest" and I: "paired fs st dn s \<and> operands_from fs st dn s" and step: "insert_point users en s pt = Ok s'"
    have mem: "pt \<in> set ?pts" "set dn \<subseteq> set ?pts" by (auto simp: split)
    show "paired fs st (dn @ [pt]) s' \<and> operands_from fs st (dn @ [pt]) s'"
      using paired_next [OF _ ok step mem(1)] operands_from_next [OF ok _ _ mem X step] I by blast
  qed
  then show ?thesis by simp
qed

section \<open>Properties\<close>

text \<open>The only send on channel \<open>k\<close> sends \<open>u\<close>, a value of type \<open>T\<close>; \<open>c\<close> is what the only receive on it yields, as a \<open>T\<close>.\<close>

definition sent_on :: "module_ir \<Rightarrow> int \<Rightarrow> Ty \<Rightarrow> Inst \<Rightarrow> bool" where
  "sent_on M k T u \<longleftrightarrow> (\<exists>p s. comms ''sync_produce'' M k = {p} \<and>
     operands (mcode M p) = [VInst s, VInt 32 k, VFun ''sync_produce''] \<and> send_cast T u = Ok (mcode M s))"

definition received_on :: "module_ir \<Rightarrow> int \<Rightarrow> Ty \<Rightarrow> Inst \<Rightarrow> bool" where
  "received_on M k T c \<longleftrightarrow> (\<exists>q. comms ''sync_consume'' M k = {q} \<and> recv_cast T q = Ok (mcode M c))"

lemma carries_ends:
  assumes "carries N M f g k T u c" "comms ''sync_produce'' M k = {p}" "comms ''sync_consume'' M k = {q}"
  shows "sent_on M k T u \<and> received_on M k T c \<and> in_fun M g c"
proof -
  obtain s p' q' ft gt where a: "in_fun M g c" "send_cast T u = Ok (mcode M s)"
    "in_fun M f p'" "mcode M p' = mk_call ft ''sync_produce'' [VInst s, VInt 32 k]"
    "in_fun M g q'" "mcode M q' = mk_call gt ''sync_consume'' [VInt 32 k]" "recv_cast T q' = Ok (mcode M c)"
    using assms(1) unfolding carries_def by blast
  have "p' \<in> comms ''sync_produce'' M k" "q' \<in> comms ''sync_consume'' M k"
    using a(3-6) by (auto simp: comms_def comm_instr_calls)
  then have "p' = p" "q' = q" using assms(2,3) by auto
  then show ?thesis using assms(2,3) a(1,2,4,7) unfolding sent_on_def received_on_def by (force simp: mk_call_def mk_instr_def)
qed

text \<open>
  What an operand \<open>a\<close> of a worker's instruction becomes: a value of the loop becomes what the worker receives on a channel
  on which its thread, an earlier one, sends its copy of the value; all else stays.
\<close>

definition delivered :: "split_env \<Rightarrow> module_ir \<Rightarrow> clones \<Rightarrow> module_ir \<Rightarrow> nat \<Rightarrow> Value \<Rightarrow> Value \<Rightarrow> bool" where
  "delivered E m st M t a b \<longleftrightarrow>
     (if \<exists>x. a = VInst x \<and> in_loop m (floop E) x
      then \<exists>x u c k. a = VInst x \<and> b = VInst c \<and> in_fun M (fworkers E ! t) c \<and> thread_num (fplan E) x < t \<and>
        instMap st (thread_num (fplan E) x) (VInst x) = Some (VInst u) \<and>
        sent_on M k (ity (mcode m x)) u \<and> received_on M k (ity (mcode m x)) c
      else b = a)"

lemma copy_type:
  assumes ok: "env_ok E m" "t < MAX_THREAD" and d: "thread_done E m t p st" and x: "in_loop m (floop E) x"
    and u: "instMap st t (VInst x) = Some (VInst u)" and nt: "\<not> is_terminator (opcode (mcode m x))"
  shows "value_ty (cmod st) (VInst u) = ity (mcode m x)"
proof -
  obtain k where k: "k < length (thread_insts E m t)" "thread_insts E m t ! k = x" "u = copies_ptr E m t p + k"
    using u table_copy [OF ok d x] by auto
  obtain ins where "copy_of (block_map E (rel_blocks m (fplan E) t) p) (mcode m x) ins"
    "mcode (cmod st) u = replaceUses (thread_tab E m t p) ins"
    using copy_shape [OF ok d k(1)] k(2,3) by auto
  then show ?thesis using nt by (simp add: copy_of_def replaceUses_frame)
qed

text \<open>
  C36. The values flow as in the loop. After \<open>loopSplit\<close> a worker still uses the values of other threads as they are in the
  loop; \<open>insertSynchronization\<close> replaces exactly these uses. For a use of an instruction \<open>x\<close> of the loop the worker uses what
  it receives on a channel, as a value of the type of \<open>x\<close>, and the only send on this channel sends the copy of the same \<open>x\<close>,
  which is in an earlier thread. All other operands stay.
\<close>

theorem operands_delivered:
  assumes "pipeline_ok E m f" "inst_users users" "users_found users"
  shows "\<exists>st st' n. loopSplit E (no_clones m) = Ok st \<and> insertSynchronization (fplan E) users True st = Ok (st', n) \<and>
    (\<forall>t < MAX_THREAD. \<forall>i. in_fun (cmod st) (fworkers E ! t) i \<longrightarrow> in_fun (cmod st') (fworkers E ! t) i \<and>
      list_all2 (delivered E m st (cmod st') t) (operands (mcode (cmod st) i)) (operands (mcode (cmod st') i)))"
proof -
  note p = pipeline_okD [OF assms(1)]
  obtain st pt st' n where s: "loopSplit E (no_clones m) = Ok st" "extended (set (fworkers E)) m (cmod st)" "store_inv (cmod st)"
    "\<forall>t < MAX_THREAD. thread_done E m t (pt t) st" "insertSynchronization (fplan E) users True st = Ok (st', n)"
    "sources_assigned (fplan E)" "clones_ok (fworkers E) st" "no_channels (cmod st)" "runtime_declared (cmod st)"
    by (rule split_sync_states [OF assms(1,2)])
  let ?X = "{x. in_loop m (floop E) x}" and ?pts = "sync_points (fplan E) (instMap st)" and ?M = "cmod st'"
  have edge: "crosses E m (p_edge pp) (p_to pp) \<and> in_loop m (floop E) (eu (p_edge pp))" if "pp \<in> set ?pts" for pp
    using split_points [OF p(1,4) s(4)] that edges_okD(2) [OF p(4)] by (auto simp: crosses_def)
  have X: "sources_in ?X st ?pts"
    using edge sync_sources [OF assms(1) s(4)] in_loop_ptr [OF env_okD(1) [OF p(1)]] extendedD(1) [OF s(2)]
    unfolding sources_in_def by fastforce
  have O: "in_fun ?M g i" "list_all2 (operand_from (fworkers E) st ?pts ?M g) (operands (mcode (cmod st) i)) (operands (mcode ?M i))"
    if "in_fun (cmod st) g i" for g i
    using sync_operands [OF s(6-8) X s(5)] that unfolding operands_from_def by auto
  note K = sync_paired [OF s(6-8,5), unfolded paired_def fst_conv snd_conv]
  have D: "delivered E m st ?M t a b" if t: "t < MAX_THREAD" and i: "in_fun (cmod st) (fworkers E ! t) i"
    and b: "b \<in> set (operands (mcode ?M i))" and r: "operand_from (fworkers E) st ?pts ?M (fworkers E ! t) a b" for t i a b
  proof (cases "\<exists>x. a = VInst x \<and> in_loop m (floop E) x")
    case True
    then have "b \<noteq> a" using no_loop_users [OF assms(1,3) s(2-8) t] b O(1) [OF i] unfolding users_in_def by blast
    then obtain k c where k: "k < length ?pts" "a = VInst (eu (p_edge (?pts ! k)))" "b = VInst c" "dtype (p_edge (?pts ! k)) = REG"
      "fworkers E ! t = fworkers E ! p_to (?pts ! k)"
      "carries (next_ptr (cmod st)) ?M (fworkers E ! p_from (?pts ! k)) (fworkers E ! t) (int k)
        (value_ty (cmod st) (VInst (p_u (?pts ! k)))) (p_u (?pts ! k)) c"
      using r unfolding operand_from_def by blast
    let ?pp = "?pts ! k"
    have mem: "?pp \<in> set ?pts" using k(1) by simp
    note M = sync_points_mem [OF mem] and e = edge [OF mem]
    have tt: "p_to ?pp = t" "p_from ?pp < MAX_THREAD"
      using k(5) t M nth_eq_iff_index_eq [OF env_okD(8) [OF p(1)]] env_okD(7) [OF p(1)] by auto
    have nt: "\<not> is_terminator (opcode (mcode m (eu (p_edge ?pp))))" using p(7) e k(4) unfolding values_ok_def by blast
    have im: "instMap st (p_from ?pp) (VInst (eu (p_edge ?pp))) = Some (VInst (p_u ?pp))" using M by blast
    have ty: "value_ty (cmod st) (VInst (p_u ?pp)) = ity (mcode m (eu (p_edge ?pp)))"
      by (rule copy_type [OF p(1) tt(2) s(4) [rule_format, OF tt(2)] conjunct2 [OF e] im nt])
    obtain cp cc where "comms ''sync_produce'' ?M (int k) = {cp}" "comms ''sync_consume'' ?M (int k) = {cc}"
      using K k(1) by (metis of_nat_0_le_iff of_nat_less_iff)
    from carries_ends [OF k(6) this] show ?thesis
      unfolding ty delivered_def using True k(2,3) im M tt(1) by (auto simp: Let_def)
  next
    case False
    have "a \<noteq> VInst (eu (p_edge (?pts ! k)))" if "k < length ?pts" for k using False edge [OF nth_mem [OF that]] by blast
    then show ?thesis using r False unfolding operand_from_def delivered_def by auto
  qed
  have "list_all2 (delivered E m st ?M t) (operands (mcode (cmod st) i)) (operands (mcode ?M i))"
    if t: "t < MAX_THREAD" and i: "in_fun (cmod st) (fworkers E ! t) i" for t i
    using O(2) [OF i] D [OF t i] by (auto simp: list_all2_conv_all_nth)
  then show ?thesis using s(1,5) O(1) by blast
qed

theorem operands_delivered_witness:
  "\<exists>st st' n i u c k. loopSplit pipe_env (no_clones pipe_module) = Ok st \<and>
    insertSynchronization pipe_plan listed_users True st = Ok (st', n) \<and>
    in_fun (cmod st) ''w1'' i \<and> VInst 10 \<in> set (operands (mcode (cmod st) i)) \<and>
    VInst c \<in> set (operands (mcode (cmod st') i)) \<and> instMap st 0 (VInst 10) = Some (VInst u) \<and>
    sent_on (cmod st') k (IntegerTy 32) u \<and> received_on (cmod st') k (IntegerTy 32) c"
proof -
  obtain st st' n where s: "loopSplit pipe_env (no_clones pipe_module) = Ok st"
    "insertSynchronization (fplan pipe_env) listed_users True st = Ok (st', n)"
    "\<forall>t < MAX_THREAD. \<forall>i. in_fun (cmod st) (fworkers pipe_env ! t) i \<longrightarrow> in_fun (cmod st') (fworkers pipe_env ! t) i \<and>
      list_all2 (delivered pipe_env pipe_module st (cmod st') t) (operands (mcode (cmod st) i)) (operands (mcode (cmod st') i))"
    using operands_delivered [OF pipe_pipeline listed_users_ok] by blast
  obtain i where i: "in_fun (cmod st) ''w1'' i" "VInst 10 \<in> set (operands (mcode (cmod st) i))"
    using pipe_consumer s(1) by auto
  then have "list_all2 (delivered pipe_env pipe_module st (cmod st') (Suc 0)) (operands (mcode (cmod st) i)) (operands (mcode (cmod st') i))"
    using s(3) unfolding all_threads by (simp add: pipe_sel)
  then obtain b where b: "b \<in> set (operands (mcode (cmod st') i))" "delivered pipe_env pipe_module st (cmod st') (Suc 0) (VInst 10) b"
    using i(2) by (metis in_set_conv_nth list_all2_conv_all_nth)
  have "in_loop pipe_module (floop pipe_env) 10" "thread_num (fplan pipe_env) 10 = 0" "ity (mcode pipe_module 10) = IntegerTy 32"
    by (simp_all add: pipe_sel pipe_in_loop pipe_thread) (simp add: pipe_code_def)
  then show ?thesis using b i s(1,2) unfolding delivered_def by (auto simp: pipe_sel)
qed

end
