(* ===== verification/Cleanup_Correct.thy ===== *)
theory Cleanup_Correct
  imports Cleanup
begin

text \<open>
  The effect of \<open>cleanup\<close>: each loop over a list is a fixed rearrangement of it, the operation succeeds on blocks
  that hold one terminator, and afterwards the functions of the threads are in LLVM's shape and the loop is gone.
\<close>

section \<open>The two rearrangements\<close>

text \<open>What was behind the terminator comes in front of it, in reverse order.\<close>

definition term_last :: "(Inst \<Rightarrow> bool) \<Rightarrow> Inst list \<Rightarrow> Inst list" where
  "term_last P xs = (let rest = dropWhile (\<lambda>i. \<not> P i) xs in takeWhile (\<lambda>i. \<not> P i) xs @ rev (tl rest) @ [hd rest])"

definition phis_first :: "(Inst \<Rightarrow> bool) \<Rightarrow> Inst list \<Rightarrow> Inst list" where
  "phis_first P xs = filter P xs @ filter (\<lambda>i. \<not> P i) xs"

lemma move_back_run:
  "P t \<Longrightarrow> \<forall>x \<in> set post. \<not> P x \<Longrightarrow> t \<notin> set pre \<Longrightarrow> move_back P t (pre @ t # post) = Some (pre @ rev post @ [t])"
proof (induction post arbitrary: pre rule: rev_induct)
  case Nil
  then show ?case by (subst move_back.simps) simp
next
  case (snoc x post)
  have "move_back P t (pre @ t # post @ [x]) = move_back P t (ins_before x (Some t) (pre @ t # post))"
    using snoc.prems(2) by (subst move_back.simps) (simp add: butlast_append)
  also have "ins_before x (Some t) (pre @ t # post) = (pre @ [x]) @ t # post"
    using snoc.prems(3) by (simp add: ins_before_split)
  also have "move_back P t ((pre @ [x]) @ t # post) = Some ((pre @ [x]) @ rev post @ [t])"
    using snoc.prems by (intro snoc.IH) auto
  finally show ?case by simp
qed

text \<open>One terminator in the block.\<close>

definition one_end :: "(Inst \<Rightarrow> bool) \<Rightarrow> Inst list \<Rightarrow> bool" where
  "one_end P xs \<longleftrightarrow> length (filter P xs) = 1"

lemma one_end_split:
  assumes "one_end P xs"
  obtains pre t post where "xs = pre @ t # post" "P t" "\<forall>x \<in> set (pre @ post). \<not> P x"
proof -
  obtain t where t: "filter P xs = [t]" using assms by (auto simp: one_end_def length_Suc_conv)
  then obtain pre post where *: "xs = pre @ t # post" "\<forall>x \<in> set pre. \<not> P x" "P t" "filter P post = []"
    by (auto simp: filter_eq_Cons_iff)
  then have "\<forall>x \<in> set (pre @ post). \<not> P x" by (auto simp: filter_empty_conv)
  with * that show ?thesis by blast
qed

lemma term_last_split:
  assumes "P t" "\<forall>x \<in> set pre. \<not> P x"
  shows "term_last P (pre @ t # post) = pre @ rev post @ [t]"
  using assms by (simp add: term_last_def Let_def takeWhile_append2 dropWhile_append2)

lemma find_split: "P t \<Longrightarrow> \<forall>x \<in> set pre. \<not> P x \<Longrightarrow> find P (pre @ t # post) = Some t"
  by (induction pre) auto

lemma tidy_end_run:
  assumes "one_end (is_term m) (mbody m b)"
  shows "tidy_end m b = Ok (m\<lparr>mbody := (mbody m)(b := term_last (is_term m) (mbody m b))\<rparr>)"
proof -
  obtain pre t post where s: "mbody m b = pre @ t # post" "is_term m t" "\<forall>x \<in> set (pre @ post). \<not> is_term m x"
    using one_end_split [OF assms] .
  then have "t \<notin> set pre" by auto
  then show ?thesis
    using s move_back_run [of "is_term m" t post pre] by (simp add: tidy_end_def find_split term_last_split)
qed

lemma term_last_props:
  assumes "one_end P xs"
  shows "mset (term_last P xs) = mset xs \<and> term_last P xs \<noteq> [] \<and> P (last (term_last P xs)) \<and> one_end P (term_last P xs)"
proof -
  obtain pre t post where s: "xs = pre @ t # post" "P t" "\<forall>x \<in> set (pre @ post). \<not> P x"
    using one_end_split [OF assms] .
  then have "filter P (pre @ rev post) = []" by (auto simp: filter_empty_conv)
  then show ?thesis using s by (simp add: term_last_split one_end_def)
qed

lemma move_phi_fold:
  "distinct (xs @ first # ys @ rest) \<Longrightarrow>
    fold (move_phi m first) rest (xs @ first # ys @ rest) =
      xs @ filter (is_phi m) rest @ first # ys @ filter (\<lambda>i. \<not> is_phi m i) rest"
proof (induction rest arbitrary: xs ys)
  case (Cons x rest)
  show ?case
  proof (cases "is_phi m x")
    case True
    have "remove1 x (xs @ first # ys @ x # rest) = xs @ first # ys @ rest"
      using Cons.prems by (auto simp: remove1_append)
    then have "move_phi m first x (xs @ first # ys @ x # rest) = (xs @ [x]) @ first # ys @ rest"
      using Cons.prems True ins_before_split [of first xs x "ys @ rest"] by (simp add: move_phi_def)
    then show ?thesis using Cons.IH [of "xs @ [x]" ys] Cons.prems True by simp
  next
    case False
    then have "move_phi m first x (xs @ first # ys @ x # rest) = xs @ first # (ys @ [x]) @ rest" by (simp add: move_phi_def)
    then show ?thesis using Cons.IH [of xs "ys @ [x]"] Cons.prems False by simp
  qed
qed simp

lemma tidy_phis_run:
  assumes "distinct (mbody m b)" "\<exists>i \<in> set (mbody m b). \<not> is_phi m i"
  shows "tidy_phis m b = Ok (m\<lparr>mbody := (mbody m)(b := phis_first (is_phi m) (mbody m b))\<rparr>)"
proof -
  let ?P = "is_phi m" and ?xs = "mbody m b"
  obtain first rest where d: "dropWhile ?P ?xs = first # rest"
    using assms(2) by (metis dropWhile_eq_Nil_conv list.exhaust)
  then have nf: "\<not> ?P first" by (metis hd_dropWhile list.distinct(1) list.sel(1))
  have xs: "?xs = takeWhile ?P ?xs @ first # rest" using d by (metis takeWhile_dropWhile_id)
  have "fold (move_phi m first) rest ?xs = takeWhile ?P ?xs @ filter ?P rest @ first # filter (\<lambda>i. \<not> ?P i) rest"
    using move_phi_fold [of "takeWhile ?P ?xs" first "[]" rest m] assms(1) xs by simp
  moreover have "filter ?P ?xs = takeWhile ?P ?xs @ filter ?P rest"
  proof -
    have "filter ?P (takeWhile ?P ?xs) = takeWhile ?P ?xs" by (auto simp: filter_id_conv dest: set_takeWhileD)
    moreover have "filter ?P ?xs = filter ?P (takeWhile ?P ?xs @ first # rest)" using xs by (rule arg_cong)
    ultimately show ?thesis by (simp add: nf)
  qed
  moreover have "filter (\<lambda>i. \<not> ?P i) (takeWhile ?P ?xs) = []" by (auto simp: filter_empty_conv dest: set_takeWhileD)
  moreover have "filter (\<lambda>i. \<not> ?P i) ?xs = filter (\<lambda>i. \<not> ?P i) (takeWhile ?P ?xs @ first # rest)" using xs by (rule arg_cong)
  ultimately have "filter (\<lambda>i. \<not> ?P i) ?xs = first # filter (\<lambda>i. \<not> ?P i) rest" by (simp add: nf)
  with \<open>fold (move_phi m first) rest ?xs = takeWhile ?P ?xs @ filter ?P rest @ first # filter (\<lambda>i. \<not> ?P i) rest\<close>
    \<open>filter ?P ?xs = takeWhile ?P ?xs @ filter ?P rest\<close> show ?thesis using d by (simp add: tidy_phis_def phis_first_def)
qed

lemma phis_first_props:
  assumes "xs \<noteq> []" "\<not> P (last xs)"
  shows "mset (phis_first P xs) = mset xs \<and> last (phis_first P xs) = last xs"
proof -
  have "filter (\<lambda>i. \<not> P i) xs = filter (\<lambda>i. \<not> P i) (butlast xs) @ [last xs]"
    using assms by (subst append_butlast_last_id [OF assms(1), symmetric], subst filter_append) simp
  then have "last (phis_first P xs) = last xs" by (simp add: phis_first_def)
  then show ?thesis by (simp add: phis_first_def mset_filter_split [simplified])
qed

section \<open>All blocks of the threads\<close>

definition worker_blocks :: "module_ir \<Rightarrow> string list \<Rightarrow> BB list" where
  "worker_blocks m fs = concat (map (mblocks m) fs)"

definition set_bodies :: "BB set \<Rightarrow> (Inst list \<Rightarrow> Inst list) \<Rightarrow> module_ir \<Rightarrow> module_ir" where
  "set_bodies B g m = m\<lparr>mbody := (\<lambda>b. if b \<in> B then g (mbody m b) else mbody m b)\<rparr>"

lemma set_bodies_simps [simp]:
  "mcode (set_bodies B g m) = mcode m" "mparent (set_bodies B g m) = mparent m" "mfunc (set_bodies B g m) = mfunc m"
  "mblocks (set_bodies B g m) = mblocks m" "mdecl (set_bodies B g m) = mdecl m" "next_ptr (set_bodies B g m) = next_ptr m"
  "mbody (set_bodies B g m) b = (if b \<in> B then g (mbody m b) else mbody m b)"
  by (simp_all add: set_bodies_def)

lemma set_bodies_empty: "set_bodies {} g m = m"
  by (simp add: set_bodies_def)

lemma set_bodies_insert:
  "b \<notin> B \<Longrightarrow> (set_bodies B g m)\<lparr>mbody := (mbody (set_bodies B g m))(b := g (mbody m b))\<rparr> = set_bodies (insert b B) g m"
  by (simp add: set_bodies_def fun_eq_iff)

lemma ofold_bodies:
  assumes "\<And>B b. b \<in> set bs \<Longrightarrow> b \<notin> B \<Longrightarrow>
      f (set_bodies B g m) b = Ok ((set_bodies B g m)\<lparr>mbody := (mbody (set_bodies B g m))(b := g (mbody m b))\<rparr>)"
    and "distinct bs" "set bs \<inter> B = {}"
  shows "ofold f bs (set_bodies B g m) = Ok (set_bodies (B \<union> set bs) g m)"
  using assms
proof (induction bs arbitrary: B)
  case (Cons b bs)
  have b: "b \<notin> B" using Cons.prems(3) by simp
  have "f (set_bodies B g m) b = Ok (set_bodies (insert b B) g m)"
    unfolding set_bodies_insert [OF b, symmetric] by (rule Cons.prems(1)) (use b in simp_all)
  moreover have "ofold f bs (set_bodies (insert b B) g m) = Ok (set_bodies (insert b B \<union> set bs) g m)"
    using Cons.prems by (intro Cons.IH) auto
  ultimately show ?case by simp
qed simp

lemma ofold_functions:
  assumes len: "\<forall>i \<in> set is. i < length fs" and dist: "distinct (concat (map (\<lambda>i. mblocks m (fs ! i)) is))"
    and step: "\<And>B b. b \<in> set (concat (map (\<lambda>i. mblocks m (fs ! i)) is)) \<Longrightarrow> b \<notin> B \<Longrightarrow>
      f (set_bodies B g m) b = Ok ((set_bodies B g m)\<lparr>mbody := (mbody (set_bodies B g m))(b := g (mbody m b))\<rparr>)"
    and fresh: "set (concat (map (\<lambda>i. mblocks m (fs ! i)) is)) \<inter> B = {}"
  shows "ofold (\<lambda>m i. obind (arr_get fs (int i)) (\<lambda>fn. ofold f (mblocks m fn) m)) is (set_bodies B g m) =
    Ok (set_bodies (B \<union> set (concat (map (\<lambda>i. mblocks m (fs ! i)) is))) g m)"
  using assms
proof (induction "is" arbitrary: B)
  case (Cons i "is")
  have "ofold f (mblocks m (fs ! i)) (set_bodies B g m) = Ok (set_bodies (B \<union> set (mblocks m (fs ! i))) g m)"
    using Cons.prems(2,4) by (intro ofold_bodies Cons.prems(3)) auto
  moreover have "ofold (\<lambda>m i. obind (arr_get fs (int i)) (\<lambda>fn. ofold f (mblocks m fn) m)) is (set_bodies (B \<union> set (mblocks m (fs ! i))) g m) =
      Ok (set_bodies (B \<union> set (mblocks m (fs ! i)) \<union> set (concat (map (\<lambda>i. mblocks m (fs ! i)) is))) g m)"
    using Cons.prems by (intro Cons.IH) auto
  ultimately show ?case using Cons.prems(1) by (simp add: arr_get_def in_bounds_def Un_assoc)
qed simp

lemma in_functions_run:
  assumes len: "length fs = MAX_THREAD" and dist: "distinct (worker_blocks m fs)"
    and step: "\<And>B b. b \<in> set (worker_blocks m fs) \<Longrightarrow> b \<notin> B \<Longrightarrow>
      f (set_bodies B g m) b = Ok ((set_bodies B g m)\<lparr>mbody := (mbody (set_bodies B g m))(b := g (mbody m b))\<rparr>)"
  shows "in_functions f fs m = Ok (set_bodies (set (worker_blocks m fs)) g m)"
proof -
  have w: "concat (map (\<lambda>i. mblocks m (fs ! i)) [0..<MAX_THREAD]) = worker_blocks m fs"
    using map_nth [of fs] by (simp add: worker_blocks_def len [symmetric] map_map [symmetric, of "mblocks m" "\<lambda>i. fs ! i", unfolded o_def] del: map_map)
  have "in_functions f fs m = in_functions f fs (set_bodies {} g m)" by (simp add: set_bodies_empty)
  also have "\<dots> = Ok (set_bodies ({} \<union> set (concat (map (\<lambda>i. mblocks m (fs ! i)) [0..<MAX_THREAD]))) g m)"
    unfolding in_functions_def by (rule ofold_functions) (use assms in \<open>simp_all add: w del: set_concat\<close>)
  finally show ?thesis by (simp add: w del: set_concat)
qed

text \<open>The two passes together.\<close>

definition tidied :: "module_ir \<Rightarrow> Inst list \<Rightarrow> Inst list" where
  "tidied m xs = phis_first (is_phi m) (term_last (is_term m) xs)"

lemma term_not_phi: "is_term m i \<Longrightarrow> \<not> is_phi m i"
  by (auto simp: is_term_def is_phi_def is_terminator_def)

lemma is_term_cong [simp]: "is_term (set_bodies B g m) = is_term m" "is_phi (set_bodies B g m) = is_phi m"
  by (simp_all add: is_term_def is_phi_def fun_eq_iff)

lemma tidy_passes:
  assumes inv: "store_inv m" and len: "length fs = MAX_THREAD" and dist: "distinct (worker_blocks m fs)"
    and ends: "\<forall>b \<in> set (worker_blocks m fs). one_end (is_term m) (mbody m b)"
  shows "obind (in_functions tidy_end fs m) (in_functions tidy_phis fs) =
    Ok (set_bodies (set (worker_blocks m fs)) (tidied m) m)"
proof -
  let ?W = "set (worker_blocks m fs)"
  let ?m1 = "set_bodies ?W (term_last (is_term m)) m"
  have 1: "in_functions tidy_end fs m = Ok ?m1"
    by (rule in_functions_run [OF len dist]) (use ends tidy_end_run [of "set_bodies B g m" b for B g b] in simp)
  have W: "worker_blocks ?m1 fs = worker_blocks m fs" by (simp add: worker_blocks_def)
  have d: "distinct (mbody m b)" for b using inv by (simp add: store_inv_def)
  have "in_functions tidy_phis fs ?m1 = Ok (set_bodies (set (worker_blocks ?m1 fs)) (phis_first (is_phi ?m1)) ?m1)"
  proof (rule in_functions_run [OF len])
    show "distinct (worker_blocks ?m1 fs)" using dist W by simp
    fix B b
    assume b: "b \<in> set (worker_blocks ?m1 fs)" "b \<notin> B"
    let ?m2 = "set_bodies B (phis_first (is_phi ?m1)) ?m1"
    have e: "one_end (is_term m) (mbody m b)" using ends b(1) W by simp
    have body: "mbody ?m2 b = term_last (is_term m) (mbody m b)" "mbody ?m1 b = term_last (is_term m) (mbody m b)"
      using b W by simp_all
    note p = term_last_props [OF e]
    have "mset (mbody ?m2 b) = mset (mbody m b)" using p unfolding body by simp
    then have "distinct (mbody ?m2 b)" using d [of b] mset_eq_imp_distinct_iff by blast
    moreover have "last (term_last (is_term m) (mbody m b)) \<in> set (mbody ?m2 b)"
      unfolding body(1) using p by (intro last_in_set) simp
    then have "\<exists>i \<in> set (mbody ?m2 b). \<not> is_phi ?m2 i" using p term_not_phi unfolding is_term_cong by blast
    ultimately show "tidy_phis ?m2 b = Ok (?m2\<lparr>mbody := (mbody ?m2)(b := phis_first (is_phi ?m1) (mbody ?m1 b))\<rparr>)"
      using tidy_phis_run [of ?m2 b] body by simp
  qed
  moreover have "set_bodies ?W (phis_first (is_phi m)) ?m1 = set_bodies ?W (tidied m) m"
    by (simp add: set_bodies_def tidied_def fun_eq_iff)
  ultimately show ?thesis using 1 W by simp
qed

lemma tidied_props:
  assumes "one_end (is_term m) xs"
  shows "mset (tidied m xs) = mset xs \<and> tidied m xs \<noteq> [] \<and> is_term m (last (tidied m xs)) \<and> one_end (is_term m) (tidied m xs) \<and>
    (\<exists>ys zs. tidied m xs = ys @ zs \<and> (\<forall>i \<in> set ys. is_phi m i) \<and> (\<forall>i \<in> set zs. \<not> is_phi m i))"
proof -
  note p = term_last_props [OF assms]
  note q = phis_first_props [of "term_last (is_term m) xs" "is_phi m", folded tidied_def]
  have t: "\<not> is_phi m (last (term_last (is_term m) xs))" using p term_not_phi by blast
  then have m: "mset (tidied m xs) = mset xs" "last (tidied m xs) = last (term_last (is_term m) xs)" using p q by simp_all
  have "mset (filter (is_term m) (tidied m xs)) = mset (filter (is_term m) xs)" using m by simp
  then have "one_end (is_term m) (tidied m xs)" using assms by (metis one_end_def size_mset)
  moreover have "tidied m xs \<noteq> []" using p m(1) by (metis mset_zero_iff)
  moreover have "\<exists>ys zs. tidied m xs = ys @ zs \<and> (\<forall>i \<in> set ys. is_phi m i) \<and> (\<forall>i \<in> set zs. \<not> is_phi m i)"
    unfolding tidied_def phis_first_def by (intro exI conjI, rule refl) auto
  ultimately show ?thesis using p m by simp
qed

section \<open>Deletion\<close>

text \<open>An instruction list without the loop: undefined values stand for the values of the loop.\<close>

lemma erase_inst_simps [simp]:
  "mcode (erase_inst i m) = (\<lambda>k. replaceUses [VInst i \<mapsto> VUndef (ity (mcode m i))] (mcode m k))"
  "mbody (erase_inst i m) = (mbody m)(mparent m i := remove1 i (mbody m (mparent m i)))"
  "mparent (erase_inst i m) = mparent m" "mfunc (erase_inst i m) = mfunc m" "mblocks (erase_inst i m) = mblocks m"
  "next_ptr (erase_inst i m) = next_ptr m"
  by (simp_all add: erase_inst_def)

lemma erase_block_simps [simp]:
  "mcode (erase_block b m) = mcode m" "mbody (erase_block b m) = mbody m" "mparent (erase_block b m) = mparent m"
  "mfunc (erase_block b m) = mfunc m" "next_ptr (erase_block b m) = next_ptr m"
  "mblocks (erase_block b m) = (mblocks m)(mfunc m b := remove1 b (mblocks m (mfunc m b)))"
  by (simp_all add: erase_block_def)

lemma erase_insts_frame:
  "mparent (fold erase_inst is m) = mparent m \<and> mfunc (fold erase_inst is m) = mfunc m \<and>
   mblocks (fold erase_inst is m) = mblocks m \<and> next_ptr (fold erase_inst is m) = next_ptr m"
  by (induction "is" arbitrary: m) auto

lemma erase_insts_kinds:
  "opcode (mcode (fold erase_inst is m) k) = opcode (mcode m k) \<and> succs (mcode (fold erase_inst is m) k) = succs (mcode m k)"
  by (induction "is" arbitrary: m) (auto simp: replaceUses_frame)

lemma erase_insts_body:
  "\<forall>i \<in> set is. mparent m i \<noteq> b \<Longrightarrow> mbody (fold erase_inst is m) b = mbody m b"
  by (induction "is" arbitrary: m) auto

lemma erase_insts_unused:
  "(\<forall>i \<in> set is. VInst i \<notin> set (operands (mcode m k))) \<Longrightarrow> mcode (fold erase_inst is m) k = mcode m k"
proof (induction "is" arbitrary: m)
  case (Cons i "is")
  have "mcode (erase_inst i m) k = mcode m k" using Cons.prems by (auto intro: replaceUses_same)
  then show ?case using Cons by simp
qed simp

lemma erase_insts_code_cong:
  "mcode m1 = mcode m2 \<Longrightarrow> mcode (fold erase_inst is m1) = mcode (fold erase_inst is m2)"
proof (induction "is" arbitrary: m1 m2)
  case (Cons i "is")
  have "mcode (erase_inst i m1) = mcode (erase_inst i m2)" using Cons.prems by simp
  from Cons.IH [OF this] show ?case by simp
qed simp

lemma erase_insts_uses:
  "VInst i \<in> set (operands (mcode (fold erase_inst is m) k)) \<Longrightarrow> i \<notin> set is \<and> VInst i \<in> set (operands (mcode m k))"
proof (induction "is" arbitrary: m)
  case (Cons j "is")
  have "i \<notin> set is \<and> VInst i \<in> set (operands (mcode (erase_inst j m) k))"
    by (rule Cons.IH) (use Cons.prems in simp)
  then have "i \<notin> set is" "VInst i \<in> set (operands (mcode (erase_inst j m) k))" by blast+
  then have "VInst i \<in> set (operands (replaceUses [VInst j \<mapsto> VUndef (ity (mcode m j))] (mcode m k)))" by simp
  then have "i \<noteq> j \<and> VInst i \<in> set (operands (mcode m k))" by (auto simp: replaceUses_def split: if_splits)
  with \<open>i \<notin> set is\<close> show ?case by simp
qed simp

lemma erase_bodies:
  assumes "store_inv m" "distinct bs"
  shows "fold (\<lambda>b m. fold erase_inst (mbody m b) m) bs m = fold erase_inst (concat (map (mbody m) bs)) m"
proof -
  have parent: "mparent m i = b" if "i \<in> set (mbody m b)" for i b using assms(1) that by (simp add: store_inv_def)
  have "fold (\<lambda>b m. fold erase_inst (mbody m b) m) bs m' = fold erase_inst (concat (map (mbody m) bs)) m'"
    if "distinct bs" "mparent m' = mparent m" "\<forall>b \<in> set bs. mbody m' b = mbody m b" for m' bs
    using that
  proof (induction bs arbitrary: m')
    case (Cons b bs)
    let ?m = "fold erase_inst (mbody m b) m'"
    have "mbody ?m b' = mbody m b'" if "b' \<in> set bs" for b'
      using that Cons.prems parent by (subst erase_insts_body) auto
    moreover have "mparent ?m = mparent m" using erase_insts_frame [of "mbody m b" m'] Cons.prems(2) by simp
    ultimately show ?case using Cons.IH [of ?m] Cons.prems by simp
  qed simp
  then show ?thesis using assms(2) by simp
qed

lemma erase_blocks:
  "mcode (fold erase_block bs m) = mcode m \<and> mbody (fold erase_block bs m) = mbody m \<and> mparent (fold erase_block bs m) = mparent m \<and>
   mfunc (fold erase_block bs m) = mfunc m \<and> mblocks (fold erase_block bs m) f = fold remove1 (filter (\<lambda>b. mfunc m b = f) bs) (mblocks m f)"
  by (induction bs arbitrary: m) auto

lemma fold_remove1_distinct: "distinct xs \<Longrightarrow> fold remove1 bs xs = filter (\<lambda>x. x \<notin> set bs) xs"
proof (induction bs arbitrary: xs)
  case (Cons b bs)
  have "remove1 b xs = filter (\<lambda>x. x \<noteq> b) xs" using Cons.prems by (simp add: distinct_remove1_removeAll removeAll_filter_not_eq) (metis (mono_tags, lifting))
  then show ?case using Cons by (simp add: conj_commute)
qed simp

section \<open>Properties\<close>

definition cleanup_ready :: "loop_ir \<Rightarrow> string \<Rightarrow> string list \<Rightarrow> module_ir \<Rightarrow> bool" where
  "cleanup_ready L f fs m \<longleftrightarrow> store_inv m \<and> length fs = MAX_THREAD \<and> distinct fs \<and> f \<notin> set fs \<and> distinct (lblocks L) \<and>
     set (lblocks L) \<subseteq> set (mblocks m f) \<and> (\<forall>b \<in> set (worker_blocks m fs). one_end (is_term m) (mbody m b))"

definition deleted_insts :: "loop_ir \<Rightarrow> module_ir \<Rightarrow> Inst list" where
  "deleted_insts L m = concat (map (mbody m) (lblocks L))"

lemma worker_block_iff: "b \<in> set (worker_blocks m fs) \<longleftrightarrow> (\<exists>g \<in> set fs. b \<in> set (mblocks m g))"
  by (auto simp: worker_blocks_def)

lemma distinct_worker_blocks:
  assumes "store_inv m" "distinct fs"
  shows "distinct (worker_blocks m fs)"
  using assms(2)
proof (induction fs)
  case (Cons g fs)
  have "set (mblocks m g) \<inter> set (worker_blocks m fs) = {}"
    using Cons.prems store_block [OF assms(1)] unfolding worker_block_iff disjoint_iff by (metis distinct.simps(2))
  then show ?case using Cons store_distinct(2) [OF assms(1)] by (simp add: worker_blocks_def)
qed (simp add: worker_blocks_def)

lemma cleanup_run:
  assumes "cleanup_ready L f fs m"
  shows "\<exists>m'. cleanup L fs m = Ok m' \<and>
    mbody m' = (\<lambda>b. if b \<in> set (worker_blocks m fs) then tidied m (mbody m b) else mbody m' b) \<and>
    (\<forall>b. b \<notin> set (worker_blocks m fs) \<longrightarrow> \<not> contains L b \<longrightarrow> mbody m' b = mbody m b) \<and>
    (\<forall>g. mblocks m' g = (if g = f then filter (\<lambda>b. \<not> contains L b) (mblocks m g) else mblocks m g)) \<and>
    mcode m' = mcode (fold erase_inst (deleted_insts L m) m)"
proof -
  have r: "store_inv m" "length fs = MAX_THREAD" "distinct fs" "f \<notin> set fs" "distinct (lblocks L)"
    "set (lblocks L) \<subseteq> set (mblocks m f)" "\<forall>b \<in> set (worker_blocks m fs). one_end (is_term m) (mbody m b)"
    using assms unfolding cleanup_ready_def by blast+
  let ?W = "set (worker_blocks m fs)"
  let ?m2 = "set_bodies ?W (tidied m) m"
  note dw = distinct_worker_blocks [OF r(1,3)]
  have apart: "b \<notin> ?W" if "contains L b" for b
  proof
    assume "b \<in> ?W"
    then obtain g where "g \<in> set fs" "b \<in> set (mblocks m g)" by (auto simp: worker_block_iff)
    moreover have "b \<in> set (mblocks m f)" using that r(6) by (auto simp: contains_def)
    ultimately have "g = f" using r(1) unfolding store_inv_def by metis
    with \<open>g \<in> set fs\<close> r(4) show False by simp
  qed
  have blocks: "mfunc m b = f" if "contains L b" for b using that r(1,6) by (auto simp: store_inv_def contains_def)
  have inv2: "store_inv ?m2"
  proof -
    have "distinct (mbody ?m2 b) \<and> set (mbody ?m2 b) = set (mbody m b)" for b
    proof (cases "b \<in> ?W")
      case True
      then have "mset (mbody ?m2 b) = mset (mbody m b)" using tidied_props r(7) by simp
      then show ?thesis using r(1) by (metis mset_eq_imp_distinct_iff mset_eq_setD store_inv_def)
    qed (use r(1) in \<open>simp add: store_inv_def\<close>)
    moreover have "next_ptr m \<le> b \<Longrightarrow> mbody ?m2 b = []" for b
    proof -
      assume "next_ptr m \<le> b"
      then have "b \<notin> ?W" using r(1) unfolding worker_block_iff store_inv_def by (meson not_le)
      then show ?thesis using \<open>next_ptr m \<le> b\<close> r(1) by (simp add: store_inv_def)
    qed
    ultimately show ?thesis using r(1) unfolding store_inv_def set_bodies_simps(1-6) by metis
  qed
  have ins: "concat (map (mbody ?m2) (lblocks L)) = deleted_insts L m"
    using apart unfolding deleted_insts_def by (intro arg_cong [of _ _ concat] map_cong) (auto simp: contains_def)
  have "cleanup L fs m = obind (obind (in_functions tidy_end fs m) (in_functions tidy_phis fs)) (\<lambda>m2. Ok (delete_loop L m2))"
    by (simp add: cleanup_def obind_assoc)
  then have run: "cleanup L fs m = Ok (delete_loop L ?m2)" using tidy_passes [OF r(1,2) dw r(7)] by simp
  have del: "delete_loop L ?m2 = fold erase_block (lblocks L) (fold erase_inst (deleted_insts L m) ?m2)"
    unfolding delete_loop_def erase_bodies [OF inv2 r(5)] ins ..
  have in_loop: "contains L (mparent m i)" if "i \<in> set (deleted_insts L m)" for i
    using that r(1) by (auto simp: deleted_insts_def contains_def store_inv_def)
  have body: "mbody (delete_loop L ?m2) b = mbody ?m2 b" if "\<not> contains L b" for b
  proof -
    have "mbody (delete_loop L ?m2) b = mbody (fold erase_inst (deleted_insts L m) ?m2) b"
      unfolding del using erase_blocks by metis
    also have "\<dots> = mbody ?m2 b" using that in_loop by (intro erase_insts_body) auto
    finally show ?thesis .
  qed
  have code: "mcode (fold erase_inst is ?m2) = mcode (fold erase_inst is m)" for "is"
    by (rule erase_insts_code_cong) simp
  have mb: "mblocks (delete_loop L ?m2) g = (if g = f then filter (\<lambda>b. \<not> contains L b) (mblocks m g) else mblocks m g)" for g
  proof -
    let ?m3 = "fold erase_inst (deleted_insts L m) ?m2"
    have fr: "mfunc ?m3 = mfunc m" "mblocks ?m3 = mblocks m" using erase_insts_frame [of "deleted_insts L m" ?m2] by simp_all
    have "mblocks (delete_loop L ?m2) g = fold remove1 (filter (\<lambda>b. mfunc m b = g) (lblocks L)) (mblocks m g)"
      unfolding del using erase_blocks [of "lblocks L" ?m3 g] fr by simp
    moreover have "filter (\<lambda>b. mfunc m b = g) (lblocks L) = (if g = f then lblocks L else [])"
      using blocks by (auto simp: contains_def filter_id_conv filter_empty_conv)
    ultimately show ?thesis using r(1) by (simp add: fold_remove1_distinct contains_def store_inv_def)
  qed
  have "mcode (delete_loop L ?m2) = mcode (fold erase_inst (deleted_insts L m) m)"
    using erase_blocks [of "lblocks L" "fold erase_inst (deleted_insts L m) ?m2" f] code unfolding del by simp
  moreover have "mbody (delete_loop L ?m2) b = tidied m (mbody m b)" if "b \<in> ?W" for b
    using body [of b] apart [of b] that by auto
  moreover have "mbody (delete_loop L ?m2) b = mbody m b" if "b \<notin> ?W" "\<not> contains L b" for b
    using body [of b] that by simp
  ultimately show ?thesis using run mb by (intro exI [of _ "delete_loop L ?m2"]) (simp add: fun_eq_iff)
qed

lemma cleaned_blocks:
  assumes "cleanup_ready L f fs m"
  shows "\<exists>m'. cleanup L fs m = Ok m' \<and>
    (\<forall>b \<in> set (worker_blocks m fs). mset (mbody m' b) = mset (mbody m b) \<and> mbody m' b \<noteq> [] \<and> is_term m' (last (mbody m' b)) \<and>
      one_end (is_term m') (mbody m' b) \<and>
      (\<exists>ys zs. mbody m' b = ys @ zs \<and> (\<forall>i \<in> set ys. is_phi m' i) \<and> (\<forall>i \<in> set zs. \<not> is_phi m' i)))"
proof -
  obtain m' where m': "cleanup L fs m = Ok m'"
    "mbody m' = (\<lambda>b. if b \<in> set (worker_blocks m fs) then tidied m (mbody m b) else mbody m' b)"
    "mcode m' = mcode (fold erase_inst (deleted_insts L m) m)"
    using cleanup_run [OF assms] by blast
  have kinds: "is_term m' = is_term m" "is_phi m' = is_phi m"
    using erase_insts_kinds by (simp_all add: is_term_def is_phi_def m'(3) fun_eq_iff)
  have "mbody m' b = tidied m (mbody m b)" if "b \<in> set (worker_blocks m fs)" for b
    using that by (subst m'(2)) simp
  moreover have "one_end (is_term m) (mbody m b)" if "b \<in> set (worker_blocks m fs)" for b
    using that assms unfolding cleanup_ready_def by blast
  ultimately have "mbody m' b = tidied m (mbody m b) \<and> one_end (is_term m) (mbody m b)" if "b \<in> set (worker_blocks m fs)" for b
    using that by blast
  then show ?thesis using m'(1) tidied_props by (intro exI [of _ m']) (simp add: kinds)
qed

lemma cleaned_loop:
  assumes "cleanup_ready L f fs m"
  shows "\<exists>m'. cleanup L fs m = Ok m' \<and> set (mblocks m' f) = set (mblocks m f) - set (lblocks L) \<and>
    (\<forall>g. g \<noteq> f \<longrightarrow> mblocks m' g = mblocks m g) \<and>
    (\<forall>k. \<forall>i \<in> set (deleted_insts L m). VInst i \<notin> set (operands (mcode m' k))) \<and>
    (\<forall>k. (\<forall>i \<in> set (deleted_insts L m). VInst i \<notin> set (operands (mcode m k))) \<longrightarrow> mcode m' k = mcode m k)"
proof -
  obtain m' where m': "cleanup L fs m = Ok m'"
    "\<forall>g. mblocks m' g = (if g = f then filter (\<lambda>b. \<not> contains L b) (mblocks m g) else mblocks m g)"
    "mcode m' = mcode (fold erase_inst (deleted_insts L m) m)"
    using cleanup_run [OF assms] by blast
  have "set (mblocks m' f) = set (mblocks m f) - set (lblocks L)" using m'(2) by (auto simp: contains_def)
  moreover have "\<forall>g. g \<noteq> f \<longrightarrow> mblocks m' g = mblocks m g" using m'(2) by simp
  moreover have "\<forall>k. \<forall>i \<in> set (deleted_insts L m). VInst i \<notin> set (operands (mcode m' k))"
    unfolding m'(3) using erase_insts_uses by blast
  moreover have "\<forall>k. (\<forall>i \<in> set (deleted_insts L m). VInst i \<notin> set (operands (mcode m k))) \<longrightarrow> mcode m' k = mcode m k"
    unfolding m'(3) using erase_insts_unused by blast
  ultimately show ?thesis using m'(1) by blast
qed

text \<open>A module to try it on: a block of the first thread with a call behind its branch and a PHI node that is not first.\<close>

definition untidy :: module_ir where
  "untidy = empty_module\<lparr>
     mcode := (\<lambda>i. if i = 1 then mk_cast Trunc (IntegerTy 32) (VInst 4) else if i \<in> {2, 5, 6} then mk_branch 20
       else if i = 3 then mk_call None ''sync_produce'' [VInst 1] else mk_instr PHI (IntegerTy 64) [VInst 6]),
     mbody := (\<lambda>b. if b = 20 then [1, 4, 2, 3] else if b = 21 then [5] else if b = 22 then [6] else []),
     mparent := (\<lambda>i. if i = 5 then 21 else if i = 6 then 22 else 20),
     mfunc := (\<lambda>b. if b = 20 then ''w0'' else if b = 21 then ''w1'' else ''f''),
     mblocks := (\<lambda>g. if g = ''w0'' then [20] else if g = ''w1'' then [21] else if g = ''f'' then [22] else []), next_ptr := 30\<rparr>"

definition untidy_loop :: loop_ir where
  "untidy_loop = \<lparr>lheader = 22, lblocks = [22], lpred = None, lexit = None, lexits = [], ldepth = 1\<rparr>"

lemma untidy_ready: "cleanup_ready untidy_loop ''f'' [''w0'', ''w1''] untidy"
proof -
  have "store_inv untidy" by (auto simp: store_inv_def untidy_def empty_module_def split: if_splits)
  moreover have "\<forall>b \<in> set (worker_blocks untidy [''w0'', ''w1'']). one_end (is_term untidy) (mbody untidy b)"
    by (simp add: worker_blocks_def untidy_def empty_module_def one_end_def is_term_def is_terminator_def mk_instr_def)
  ultimately show ?thesis
    by (simp add: cleanup_ready_def MAX_THREAD_def) (simp add: untidy_def untidy_loop_def)
qed

text \<open>
  C34. \<open>cleanup\<close> ends, on every module in which each block of the threads holds one terminator, and leaves these
  blocks with the same instructions in LLVM's order: the PHI nodes first and the terminator last.
\<close>

theorem cleanup_shape:
  assumes "cleanup_ready L f fs m"
  shows "\<exists>m'. cleanup L fs m = Ok m' \<and>
    (\<forall>b \<in> set (worker_blocks m fs). mset (mbody m' b) = mset (mbody m b) \<and> mbody m' b \<noteq> [] \<and> is_term m' (last (mbody m' b)) \<and>
      one_end (is_term m') (mbody m' b) \<and>
      (\<exists>ys zs. mbody m' b = ys @ zs \<and> (\<forall>i \<in> set ys. is_phi m' i) \<and> (\<forall>i \<in> set zs. \<not> is_phi m' i)))"
  by (rule cleaned_blocks [OF assms])

theorem cleanup_shape_witness:
  "\<exists>m'. cleanup untidy_loop [''w0'', ''w1''] untidy = Ok m' \<and> set (mbody m' 20) = {1, 2, 3, 4} \<and> is_term m' (last (mbody m' 20))"
proof -
  obtain m' where m': "cleanup untidy_loop [''w0'', ''w1''] untidy = Ok m'"
    "\<forall>b \<in> set (worker_blocks untidy [''w0'', ''w1'']). mset (mbody m' b) = mset (mbody untidy b) \<and> is_term m' (last (mbody m' b))"
    using cleanup_shape [OF untidy_ready] by blast
  have "20 \<in> set (worker_blocks untidy [''w0'', ''w1''])" by (simp add: worker_blocks_def untidy_def)
  then have "mset (mbody m' 20) = mset [1, 4, 2, 3]" "is_term m' (last (mbody m' 20))" using m'(2) by (auto simp: untidy_def)
  then have "set (mbody m' 20) = {1, 2, 3, 4}" using mset_eq_setD by fastforce
  then show ?thesis using m'(1) \<open>is_term m' (last (mbody m' 20))\<close> by blast
qed

text \<open>
  C35. After \<open>cleanup\<close> the blocks of the loop are gone from their function and the others stay; no instruction uses an
  instruction of the loop, and one that did not before is unchanged.
\<close>

theorem cleanup_deletes:
  assumes "cleanup_ready L f fs m"
  shows "\<exists>m'. cleanup L fs m = Ok m' \<and> set (mblocks m' f) = set (mblocks m f) - set (lblocks L) \<and>
    (\<forall>g. g \<noteq> f \<longrightarrow> mblocks m' g = mblocks m g) \<and>
    (\<forall>k. \<forall>i \<in> set (deleted_insts L m). VInst i \<notin> set (operands (mcode m' k))) \<and>
    (\<forall>k. (\<forall>i \<in> set (deleted_insts L m). VInst i \<notin> set (operands (mcode m k))) \<longrightarrow> mcode m' k = mcode m k)"
  by (rule cleaned_loop [OF assms])

theorem cleanup_deletes_witness:
  "\<exists>m'. cleanup untidy_loop [''w0'', ''w1''] untidy = Ok m' \<and> mblocks m' ''f'' = [] \<and> VInst 6 \<notin> set (operands (mcode m' 4)) \<and>
    mcode m' 1 = mcode untidy 1"
proof -
  have d: "deleted_insts untidy_loop untidy = [6]" by (simp add: deleted_insts_def untidy_loop_def untidy_def)
  obtain m' where m': "cleanup untidy_loop [''w0'', ''w1''] untidy = Ok m'"
    "set (mblocks m' ''f'') = set (mblocks untidy ''f'') - set (lblocks untidy_loop)"
    "VInst 6 \<notin> set (operands (mcode m' 4))" "VInst 6 \<notin> set (operands (mcode untidy 1)) \<longrightarrow> mcode m' 1 = mcode untidy 1"
    using cleanup_deletes [OF untidy_ready] unfolding d by auto
  have "VInst 6 \<notin> set (operands (mcode untidy 1))" by (simp add: untidy_def)
  then show ?thesis using m' by (auto simp: untidy_def untidy_loop_def)
qed

end
