(* ===== verification/Worker_Ends.thy ===== *)
theory Worker_Ends
  imports Split_Sync_Result Cleanup_Correct
begin

text \<open>
  From \<open>insertSynchronization\<close> to \<open>cleanup\<close>: the blocks of the workers have one terminator each, before and after the
  synchronization, so \<open>cleanup\<close> succeeds on them; and because no worker uses the old loop, deleting it changes no worker.
\<close>

section \<open>The synchronization adds no terminators\<close>

lemma insert_point_terms:
  assumes ok: "clones_ok fs (fst acc)" and t: "p_from pt < MAX_THREAD" "p_to pt < MAX_THREAD"
    and u: "instMap (fst acc) (p_from pt) v = Some (VInst (p_u pt))" and w: "instMap (fst acc) (p_to pt) v' = Some (VInst (p_v pt))"
    and run: "insert_point users en acc pt = Ok acc'" and old: "newToOld (fst acc) (VInst (p_u pt)) = Some (VInst x)"
    and b: "b \<in> set (mblocks (cmod (fst acc)) g)"
  shows "filter (is_term (cmod (fst acc'))) (mbody (cmod (fst acc')) b) = filter (is_term (cmod (fst acc))) (mbody (cmod (fst acc)) b)"
    "in_fun (cmod (fst acc')) h i \<Longrightarrow> h \<notin> {fs ! p_from pt, fs ! p_to pt} \<Longrightarrow> in_fun (cmod (fst acc)) h i"
    "in_fun (cmod (fst acc')) h i \<Longrightarrow> VUndef ty \<in> set (operands (mcode (cmod (fst acc')) i)) \<Longrightarrow>
      in_fun (cmod (fst acc)) h i \<and> VUndef ty \<in> set (operands (mcode (cmod (fst acc)) i))"
proof -
  let ?m = "cmod (fst acc)" and ?m' = "cmod (fst acc')"
  obtain us m2 c where
    s: "grown ?m m2"
      "\<forall>g i. in_fun m2 g i \<longrightarrow> in_fun ?m g i \<and> mcode m2 i = mcode ?m i \<or>
         next_ptr ?m \<le> i \<and> g \<in> {fs ! p_from pt, fs ! p_to pt} \<and> \<not> is_terminator (opcode (mcode m2 i)) \<and> new_operands (next_ptr ?m) (p_u pt) (mcode m2 i)"
      "\<forall>i < next_ptr ?m. mcode m2 i = mcode ?m i"
      "\<forall>i. mcode ?m' i = (if i \<in> set us then replaceUses (reps_of x c) (mcode m2 i) else mcode m2 i)"
      "mbody ?m' = mbody m2" "in_fun ?m' = in_fun m2"
    by (rule insert_point_code [OF ok t u w run old])
  have inv: "store_inv ?m" using ok by (simp add: clones_ok_def)
  show "in_fun ?m' h i \<Longrightarrow> h \<notin> {fs ! p_from pt, fs ! p_to pt} \<Longrightarrow> in_fun ?m h i" for h i
    using s(2,6) by auto
  show "in_fun ?m h i \<and> VUndef ty \<in> set (operands (mcode ?m i))"
    if "in_fun ?m' h i" "VUndef ty \<in> set (operands (mcode ?m' i))" for h i
  proof -
    have "VUndef ty \<in> set (operands (mcode m2 i))"
      using that(2) s(4) replaced_operands(2) [of "VUndef ty" x c "mcode m2 i"] by (auto split: if_splits)
    then show ?thesis using that(1) s(2,6) unfolding new_operands_def by metis
  qed
  have same: "is_term ?m' i = is_term m2 i" for i using s(4) by (simp add: is_term_def replaceUses_frame)
  have "i < next_ptr ?m" if "i \<in> set (mbody m2 b)" "is_term ?m' i" for i
  proof -
    have "in_fun m2 g i" using that(1) b s(1) by (auto simp: in_fun_def grown_def)
    moreover have "is_terminator (opcode (mcode m2 i))" using that(2) by (simp add: same) (simp add: is_term_def)
    ultimately show ?thesis using s(2) in_fun_block [OF inv] by blast
  qed
  then have "filter (is_term ?m') (mbody m2 b) = filter (is_term ?m') (filter (\<lambda>i. i < next_ptr ?m) (mbody m2 b))"
    unfolding filter_filter by (intro filter_cong) auto
  also have "filter (\<lambda>i. i < next_ptr ?m) (mbody m2 b) = mbody ?m b" using s(1) by (simp add: grown_def)
  also have "filter (is_term ?m') (mbody ?m b) = filter (is_term ?m) (mbody ?m b)"
  proof (rule filter_cong [OF refl])
    fix i assume "i \<in> set (mbody ?m b)"
    then have "mcode m2 i = mcode ?m i" using store_inst [OF inv] s(3) by blast
    then have "is_term m2 i = is_term ?m i" by (simp add: is_term_def)
    then show "is_term ?m' i = is_term ?m i" by (simp only: same)
  qed
  finally show "filter (is_term ?m') (mbody ?m' b) = filter (is_term ?m) (mbody ?m b)" by (simp add: s(5))
qed

lemma sync_terms:
  assumes sa: "sources_assigned P" and ok: "clones_ok fs st" and nc: "no_channels (cmod st)"
    and run: "insertSynchronization P users en st = Ok (st', n)"
    and nt: "\<forall>pt \<in> set (sync_points P (instMap st)). \<exists>x. newToOld st (VInst (p_u pt)) = Some (VInst x)"
    and b: "b \<in> set (mblocks (cmod st) g)"
  shows "filter (is_term (cmod st')) (mbody (cmod st') b) = filter (is_term (cmod st)) (mbody (cmod st) b) \<and>
    (\<forall>h i. (\<forall>t < MAX_THREAD. h \<noteq> fs ! t) \<and> in_fun (cmod st') h i \<longrightarrow> in_fun (cmod st) h i) \<and>
    (\<forall>h i ty. in_fun (cmod st') h i \<and> VUndef ty \<in> set (operands (mcode (cmod st') i)) \<longrightarrow>
      in_fun (cmod st) h i \<and> VUndef ty \<in> set (operands (mcode (cmod st) i)))"
proof -
  let ?pts = "sync_points P (instMap st)"
  let ?I = "\<lambda>dn acc. paired fs st dn acc \<and>
    filter (is_term (cmod (fst acc))) (mbody (cmod (fst acc)) b) = filter (is_term (cmod st)) (mbody (cmod st) b) \<and>
    (\<forall>h i. (\<forall>t < MAX_THREAD. h \<noteq> fs ! t) \<and> in_fun (cmod (fst acc)) h i \<longrightarrow> in_fun (cmod st) h i) \<and>
    (\<forall>h i ty. in_fun (cmod (fst acc)) h i \<and> VUndef ty \<in> set (operands (mcode (cmod (fst acc)) i)) \<longrightarrow>
      in_fun (cmod st) h i \<and> VUndef ty \<in> set (operands (mcode (cmod st) i)))"
  have "?I ?pts (st', n)"
  proof (rule ofold_Ok_invariant [where I = ?I])
    show "ofold (insert_point users en) ?pts (st, 0) = Ok (st', n)" using run sync_as_points [OF sa] by simp
    show "?I [] (st, 0)" using paired_start [OF ok nc] by simp
  next
    fix dn pt rest s s'
    assume split: "?pts = dn @ pt # rest" and I: "?I dn s" and step: "insert_point users en s pt = Ok s'"
    have mem: "pt \<in> set ?pts" by (simp add: split)
    have P: "paired fs st dn s" using I by blast
    then have oks: "clones_ok fs (fst s)" and tabs: "same_tables st (fst s)" and gr: "grown (cmod st) (cmod (fst s))" by (simp_all add: paired_def)
    note M = sync_points_mem [OF mem]
    have tt: "p_from pt < MAX_THREAD" "p_to pt < MAX_THREAD" using M by linarith+
    obtain x where x: "newToOld st (VInst (p_u pt)) = Some (VInst x)" using nt mem by blast
    have tb: "instMap (fst s) = instMap st" "newToOld (fst s) = newToOld st" using tabs by (simp_all add: same_tables_def)
    have maps: "instMap (fst s) (p_from pt) (VInst (eu (p_edge pt))) = Some (VInst (p_u pt))"
      "instMap (fst s) (p_to pt) (VInst (ev (p_edge pt))) = Some (VInst (p_v pt))"
      "newToOld (fst s) (VInst (p_u pt)) = Some (VInst x)"
      unfolding tb using M x by blast+
    have b': "b \<in> set (mblocks (cmod (fst s)) g)" using b gr by (simp add: grown_def)
    note T = insert_point_terms [OF oks tt maps(1,2) step maps(3) b']
    have "\<forall>h i. (\<forall>t < MAX_THREAD. h \<noteq> fs ! t) \<and> in_fun (cmod (fst s')) h i \<longrightarrow> in_fun (cmod st) h i"
      using T(2) I tt by blast
    moreover have "\<forall>h i ty. in_fun (cmod (fst s')) h i \<and> VUndef ty \<in> set (operands (mcode (cmod (fst s')) i)) \<longrightarrow>
        in_fun (cmod st) h i \<and> VUndef ty \<in> set (operands (mcode (cmod st) i))"
      using T(3) I by blast
    ultimately show "?I (dn @ [pt]) s'" using T(1) I paired_next [OF P ok step mem] by simp
  qed
  then show ?thesis unfolding fst_conv by blast
qed

section \<open>One terminator in each block of a worker\<close>

definition one_term_blocks :: "loop_ir \<Rightarrow> module_ir \<Rightarrow> bool" where
  "one_term_blocks L m \<longleftrightarrow> (\<forall>b. contains L b \<longrightarrow> one_end (is_term m) (mbody m b))"

lemma worker_one_end:
  assumes ok: "env_ok E m" "t < MAX_THREAD" and d: "thread_done E m t p st" and one: "one_term_blocks (floop E) m"
    and b: "b \<in> set (mblocks (cmod st) (fworkers E ! t))"
  shows "one_end (is_term (cmod st)) (mbody (cmod st) b)"
proof -
  let ?rel = "rel_blocks m (fplan E) t" and ?D = "thread_insts E m t" and ?q = "copies_ptr E m t p" and ?c = "entry_ptr E m t p"
  let ?x = "exit_ptr E m t p" and ?xc = "exit_code E t (thread_tab E m t p) (Suc (entry_ptr E m t p)) (exit_ptr E m t p)"
  let ?ec = "entry_code E (Some (FunTy [] VoidTy)) (hd (margs m (fworkers E ! t))) ?c"
  note dd = thread_doneD [OF d] and e = env_okD [OF ok(1)]
  have loc: "mcode (cmod st) i \<in> set inss" if "located (cmod st) n inss" "n \<le> i" "i < n + length inss" for n inss i
    using that unfolding located_def by (metis add_diff_inverse_nat less_diff_conv2 add.commute not_less nth_mem)
  have xe: "?x = ?c + length ?ec" by (simp add: exit_ptr_def)
  have plain: "filter (is_term (cmod st)) [?c..<?x] = []" "filter (is_term (cmod st)) [?x..<?x + length ?xc] = []"
    using loc [OF dd(7)] loc [OF dd(8)] entry_exit_plain xe unfolding filter_empty_conv is_term_def by (metis atLeastLessThan_iff set_upt)+
  consider "b = p" | "b = Suc p" | j where "j < length ?rel" "b = p + 2 + j" using b unfolding dd(3) by (auto simp: le_iff_add)
  then show ?thesis
  proof cases
    case 3
    let ?ks = "filter (\<lambda>k. mparent m (?D ! k) = ?rel ! j) [0..<length ?D]" and ?a = "?rel ! j"
    have a: "?a \<in> set ?rel" using 3(1) by simp
    have ks: "map ((!) ?D) ?ks = kept (fplan E) m t ?a" using nth_filter [of ?D "\<lambda>i. mparent m i = ?a"] kept_of_block [OF ok a] by simp
    have tm: "is_term (cmod st) (?q + k) = is_term m (?D ! k)" if "k \<in> set ?ks" for k
    proof -
      have k: "k < length ?D" using that by simp
      obtain ins where "copy_of (block_map E ?rel p) (mcode m (?D ! k)) ins" "mcode (cmod st) (?q + k) = replaceUses (thread_tab E m t p) ins"
        using copy_shape [OF ok d k] by blast
      then show ?thesis using copy_ofD(1) by (simp add: is_term_def replaceUses_frame)
    qed
    have "length (filter (is_term (cmod st)) (mbody (cmod st) b)) = length (filter (\<lambda>k. is_term (cmod st) (?q + k)) ?ks)"
      by (simp add: 3(2) dd(6) [OF 3(1), simplified] filter_map comp_def)
    also have "\<dots> = length (filter (\<lambda>k. is_term m (?D ! k)) ?ks)" by (rule arg_cong [OF filter_cong [OF refl tm]])
    also have "\<dots> = length (filter (is_term m) (map ((!) ?D) ?ks))" by (simp add: filter_map comp_def)
    also have "filter (is_term m) (map ((!) ?D) ?ks) = filter (is_term m) (mbody m ?a)"
      unfolding ks kept_def filter_filter by (rule filter_cong) (auto simp: keep_def is_term_def)
    also have "length \<dots> = 1" using one rel_blocks_in(1) [OF e(3) ok(2) a] by (simp add: one_term_blocks_def one_end_def)
    finally show ?thesis by (simp add: one_end_def)
  qed (use dd(4,5,9,10) plain in \<open>simp_all add: one_end_def is_term_def is_terminator_def\<close>)
qed

section \<open>The loop split, synchronized and deleted\<close>

lemma pipeline_function:
  assumes "pipeline_ok E m f"
  shows "f \<notin> set (fworkers E)"
proof
  note p = pipeline_okD [OF assms]
  have "0 < MAX_THREAD" by (simp add: MAX_THREAD_def)
  then have "contains (floop E) (lheader (floop E))" using p(2) rel_blocks_in(1) [OF env_okD(3) [OF p(1)]] by blast
  then have "mblocks m f \<noteq> []" using p(3) by fastforce
  moreover assume "f \<in> set (fworkers E)"
  ultimately show False using env_okD(9) [OF p(1)] by blast
qed

lemma pipeline_inst:
  assumes "pipeline_ok E m f"
  shows "\<exists>x. in_loop m (floop E) x"
proof -
  note p = pipeline_okD [OF assms]
  have "0 < MAX_THREAD" by (simp add: MAX_THREAD_def)
  then show ?thesis
    using p(2) rel_blocks_in(1) [OF env_okD(3) [OF p(1)]] env_okD(6) [OF p(1)] store_inst [OF env_okD(1) [OF p(1)]] unfolding in_loop_def
    by (metis last_in_set)
qed

lemma pipeline_sources:
  assumes "pipeline_ok E m f" "\<forall>t < MAX_THREAD. thread_done E m t (pt t) st"
  shows "\<forall>pp \<in> set (sync_points (fplan E) (instMap st)). \<exists>x. newToOld st (VInst (p_u pp)) = Some (VInst x)"
  using sync_sources [OF assms] pipeline_inst [OF assms(1)] by blast

lemma sync_leaves_loop:
  assumes ok: "env_ok E m" and f: "f \<notin> set (fworkers E)" "b \<in> set (mblocks m f)" "contains (floop E) b"
    and ext: "extended (set (fworkers E)) m (cmod st)" and inv: "store_inv (cmod st)" "store_inv M" and gr: "grown (cmod st) M"
    and old: "\<forall>h i. (\<forall>t < MAX_THREAD. h \<noteq> fworkers E ! t) \<and> in_fun M h i \<longrightarrow> in_fun (cmod st) h i"
    and i: "i \<in> set (mbody M b)"
  shows "in_loop m (floop E) i"
proof -
  have bl: "mblocks M f = mblocks m f" using gr extendedD(6) [OF ext f(1)] by (simp add: grown_def)
  then have "in_fun M f i" using f(2) i by (auto simp: in_fun_def)
  moreover have "\<forall>t < MAX_THREAD. f \<noteq> fworkers E ! t" using f(1) env_okD(7) [OF ok] by auto
  ultimately have "in_fun (cmod st) f i" using old by blast
  note ib = in_fun_block [OF inv(1) this]
  have "mparent M i = b" using store_inst [OF inv(2) i] by blast
  then have "mparent (cmod st) i = b" using gr ib by (simp add: grown_def)
  then have "i \<in> set (mbody m b)" using ib extendedD(4) [OF ext] env_okD(6) [OF ok f(3)] by simp
  then show ?thesis using f(3) store_inst [OF env_okD(1) [OF ok]] by (simp add: in_loop_def)
qed

text \<open>No copy has an undefined operand unless the instruction of the loop had it.\<close>

lemma split_undef:
  assumes ok: "env_ok E m" "t < MAX_THREAD" and d: "thread_done E m t p st" and i: "in_fun (cmod st) (fworkers E ! t) i"
    and v: "VUndef ty \<in> set (operands (mcode (cmod st) i))"
  shows "\<exists>x. in_loop m (floop E) x \<and> VUndef ty \<in> set (operands (mcode m x))"
proof -
  let ?tab = "thread_tab E m t p" and ?c = "entry_ptr E m t p" and ?x = "exit_ptr E m t p" and ?arg = "hd (margs m (fworkers E ! t))"
  have tab: "?tab op = Some w \<Longrightarrow> w \<noteq> VUndef ty" for op w using thread_tab_some [OF ok thread_doneD(1) [OF d]] by blast
  from worker_inst_cases [OF ok d i] show ?thesis
  proof (elim disjE exE bexE conjE)
    fix k assume k: "k < length (thread_insts E m t)" "i = copies_ptr E m t p + k"
    obtain ins where ins: "copy_of (block_map E (rel_blocks m (fplan E) t) p) (mcode m (thread_insts E m t ! k)) ins"
      "mcode (cmod st) i = replaceUses ?tab ins"
      using copy_shape [OF ok d k(1)] k(2) by blast
    have "VUndef ty \<in> set (operands ins)"
      using v tab unfolding ins(2) by (fastforce simp: replaceUses_def split: option.splits)
    then have "VUndef ty \<in> set (operands (mcode m (thread_insts E m t ! k)))" using copy_ofD(5) [OF ins(1)] by blast
    then show ?thesis using thread_insts_iff [OF ok] nth_mem [OF k(1)] by blast
  next
    fix ins assume ins: "ins \<in> set (entry_code E (Some (FunTy [] VoidTy)) ?arg ?c)" "mcode (cmod st) i = ins"
    have "VUndef ty \<notin> set (operands x)" if "x \<in> set (liveout_code (PointerTy (fargs E)) (Suc ?c) (?c + 2) 0 (lins E))" for x
      using liveout_code_operands [OF that] by blast
    then show ?thesis using ins v by (auto simp: entry_code_def)
  next
    fix ins assume ins: "ins \<in> set (exit_code E t ?tab (Suc ?c) ?x)" "mcode (cmod st) i = ins"
    let ?outs = "own_outs (fplan E) t ?tab (enumerate 0 (louts E))"
    have "VUndef ty \<notin> snd ` set ?outs" using own_outs_values [OF ok] tab by blast
    then have "VUndef ty \<notin> set (operands x)"
      if "x \<in> set (outs_code (PointerTy (field_ty (PointerTy (fargs E)) (length (lins E)))) ?x (Suc ?x) ?outs)" for x
      using outs_code_operands [OF that] by blast
    then show ?thesis using ins v by (auto simp: exit_code_def Let_def)
  qed (use v in simp_all)
qed

text \<open>
  What the three steps leave of a block of a worker in the module \<open>m'\<close>: the instructions it had in \<open>M\<close>, before the deletion,
  one terminator behind all others, the PHIs first, and no instruction with an operand the deletion could take away.
\<close>

definition block_survives :: "loop_ir \<Rightarrow> module_ir \<Rightarrow> module_ir \<Rightarrow> module_ir \<Rightarrow> BB \<Rightarrow> bool" where
  "block_survives L m M m' b = (mset (mbody m' b) = mset (mbody M b) \<and> mbody m' b \<noteq> [] \<and>
    is_term m' (last (mbody m' b)) \<and> one_end (is_term m') (mbody m' b) \<and>
    (\<exists>ys zs. mbody m' b = ys @ zs \<and> (\<forall>i \<in> set ys. is_phi m' i) \<and> (\<forall>i \<in> set zs. \<not> is_phi m' i)) \<and>
    (\<forall>i \<in> set (mbody m' b). mcode m' i = mcode M i \<and> (\<forall>x. in_loop m L x \<longrightarrow> VInst x \<notin> set (operands (mcode m' i))) \<and>
      (\<forall>ty. VUndef ty \<in> set (operands (mcode m' i)) \<longrightarrow> (\<exists>x. in_loop m L x \<and> VUndef ty \<in> set (operands (mcode m x))))))"

lemma split_sync_cleanup:
  assumes P: "pipeline_ok E m f" and us: "inst_users users" "users_found users"
    and one: "one_term_blocks (floop E) m" and dl: "distinct (lblocks (floop E))"
  shows "\<exists>st st' n m'. loopSplit E (no_clones m) = Ok st \<and> insertSynchronization (fplan E) users True st = Ok (st', n) \<and>
    cleanup (floop E) (fworkers E) (cmod st') = Ok m' \<and> (\<forall>b \<in> set (mblocks m' f). \<not> contains (floop E) b) \<and>
    (\<forall>t < MAX_THREAD. mblocks m' (fworkers E ! t) = mblocks (cmod st) (fworkers E ! t) \<and>
      (\<forall>b \<in> set (mblocks m' (fworkers E ! t)). block_survives (floop E) m (cmod st') m' b))"
proof -
  note p = pipeline_okD [OF P]
  let ?L = "floop E" and ?fs = "fworkers E"
  obtain st pt st' n where s: "loopSplit E (no_clones m) = Ok st" "extended (set ?fs) m (cmod st)" "store_inv (cmod st)"
    "\<forall>t < MAX_THREAD. thread_done E m t (pt t) st" "insertSynchronization (fplan E) users True st = Ok (st', n)"
    "sources_assigned (fplan E)" "clones_ok ?fs st" "no_channels (cmod st)" "runtime_declared (cmod st)"
    by (rule split_sync_states [OF P us(1)])
  let ?M = "cmod st'"
  have sync: "paired ?fs st (sync_points (fplan E) (instMap st)) (st', n)" by (rule sync_paired [OF s(6-8,5)])
  then have inv: "store_inv ?M" and gr: "grown (cmod st) ?M" by (simp_all add: paired_def clones_ok_def)
  have f: "f \<notin> set ?fs" by (rule pipeline_function [OF P])
  have bl: "mblocks ?M = mblocks (cmod st)" "mblocks ?M f = mblocks m f" using gr extendedD(6) [OF s(2) f] by (simp_all add: grown_def)
  obtain x0 where x0: "in_loop m ?L x0" using pipeline_inst [OF P] by blast
  note T = sync_terms [OF s(6-8,5) pipeline_sources [OF P s(4)]]
  have ends: "one_end (is_term ?M) (mbody ?M b)" if wb: "b \<in> set (worker_blocks ?M ?fs)" for b
  proof -
    obtain g where g: "g \<in> set ?fs" "b \<in> set (mblocks (cmod st) g)" using wb unfolding worker_block_iff bl(1) by blast
    then obtain t where t: "t < MAX_THREAD" "g = ?fs ! t" using env_okD(7) [OF p(1)] by (auto simp: in_set_conv_nth)
    from worker_one_end [OF p(1) t(1) s(4) [rule_format, OF t(1)] one] g(2) t(2) show ?thesis
      using T [OF g(2)] by (simp add: one_end_def)
  qed
  have ready: "cleanup_ready ?L f ?fs ?M"
    unfolding cleanup_ready_def using inv env_okD(7,8) [OF p(1)] f dl p(3) ends bl(2) by (auto simp: contains_def)
  obtain m' where m': "cleanup ?L ?fs ?M = Ok m'"
    "\<forall>b \<in> set (worker_blocks ?M ?fs). mset (mbody m' b) = mset (mbody ?M b) \<and> mbody m' b \<noteq> [] \<and> is_term m' (last (mbody m' b)) \<and>
      one_end (is_term m') (mbody m' b) \<and>
      (\<exists>ys zs. mbody m' b = ys @ zs \<and> (\<forall>i \<in> set ys. is_phi m' i) \<and> (\<forall>i \<in> set zs. \<not> is_phi m' i))"
    using cleaned_blocks [OF ready] by blast
  have del: "set (mblocks m' f) = set (mblocks ?M f) - set (lblocks ?L)" "\<forall>g. g \<noteq> f \<longrightarrow> mblocks m' g = mblocks ?M g"
    "\<forall>k. (\<forall>i \<in> set (deleted_insts ?L ?M). VInst i \<notin> set (operands (mcode ?M k))) \<longrightarrow> mcode m' k = mcode ?M k"
    using cleaned_loop [OF ready] m'(1) by auto
  obtain b0 where b0: "b0 \<in> set (mblocks m f)" using x0 p(3) by (auto simp: in_loop_def)
  then have "b0 \<in> set (mblocks (cmod st) f)" using bl by simp
  note old = conjunct1 [OF conjunct2 [OF T [OF this]]] and undef = conjunct2 [OF conjunct2 [OF T [OF this]]]
  have gone: "in_loop m ?L i" if "i \<in> set (deleted_insts ?L ?M)" for i
    using that sync_leaves_loop [OF p(1) f _ _ s(2,3) inv gr old] p(3) by (auto simp: deleted_insts_def contains_def)
  have kept: "mcode m' i = mcode ?M i" if t: "t < MAX_THREAD" and i: "in_fun ?M (?fs ! t) i" for t i
  proof -
    have "VInst x \<notin> set (operands (mcode ?M i))" if "in_loop m ?L x" for x
      using no_loop_users [OF P us(2) s(2-8) t that] i by (auto simp: users_in_def)
    then show ?thesis using del(3) gone by blast
  qed
  have "mblocks m' (?fs ! t) = mblocks (cmod st) (?fs ! t)" if "t < MAX_THREAD" for t
  proof -
    have "?fs ! t \<noteq> f" using f that env_okD(7) [OF p(1)] nth_mem by metis
    then show ?thesis using del(2) bl(1) by simp
  qed
  moreover have "\<forall>i \<in> set (mbody m' b). mcode m' i = mcode ?M i \<and>
      (\<forall>x. in_loop m ?L x \<longrightarrow> VInst x \<notin> set (operands (mcode m' i))) \<and>
      (\<forall>ty. VUndef ty \<in> set (operands (mcode m' i)) \<longrightarrow> (\<exists>x. in_loop m ?L x \<and> VUndef ty \<in> set (operands (mcode m x))))"
    if tb: "t < MAX_THREAD" "b \<in> set (mblocks (cmod st) (?fs ! t))" for t b
  proof
    fix i assume i: "i \<in> set (mbody m' b)"
    have "b \<in> set (worker_blocks ?M ?fs)" using tb env_okD(7) [OF p(1)] bl(1) by (auto simp: worker_block_iff)
    then have "set (mbody m' b) = set (mbody ?M b)" using m'(2) mset_eq_setD by blast
    then have fi: "in_fun ?M (?fs ! t) i" using i tb(2) bl(1) by (auto simp: in_fun_def)
    note c = kept [OF tb(1) fi]
    have "VInst x \<notin> set (operands (mcode ?M i))" if "in_loop m ?L x" for x
      using no_loop_users [OF P us(2) s(2-8) tb(1) that] fi by (auto simp: users_in_def)
    moreover have "\<exists>x. in_loop m ?L x \<and> VUndef ty \<in> set (operands (mcode m x))" if "VUndef ty \<in> set (operands (mcode ?M i))" for ty
    proof -
      have "in_fun (cmod st) (?fs ! t) i" "VUndef ty \<in> set (operands (mcode (cmod st) i))" using fi that undef by blast+
      then show ?thesis by (rule split_undef [OF p(1) tb(1) s(4) [rule_format, OF tb(1)]])
    qed
    ultimately show "mcode m' i = mcode ?M i \<and> (\<forall>x. in_loop m ?L x \<longrightarrow> VInst x \<notin> set (operands (mcode m' i))) \<and>
        (\<forall>ty. VUndef ty \<in> set (operands (mcode m' i)) \<longrightarrow> (\<exists>x. in_loop m ?L x \<and> VUndef ty \<in> set (operands (mcode m x))))"
      using c by simp
  qed
  moreover have "b \<in> set (worker_blocks ?M ?fs)" if "t < MAX_THREAD" "b \<in> set (mblocks (cmod st) (?fs ! t))" for t b
    using that env_okD(7) [OF p(1)] bl(1) by (auto simp: worker_block_iff)
  ultimately have "\<forall>t < MAX_THREAD. mblocks m' (?fs ! t) = mblocks (cmod st) (?fs ! t) \<and>
      (\<forall>b \<in> set (mblocks m' (?fs ! t)). block_survives ?L m ?M m' b)"
    unfolding block_survives_def using m'(2) by metis
  moreover have "\<forall>b \<in> set (mblocks m' f). \<not> contains ?L b" using del(1) by (auto simp: contains_def)
  ultimately show ?thesis using s(1,5) m'(1) by blast
qed

end
