(* ===== verification/Plan_Fits.thy ===== *)
theory Plan_Fits
  imports Split_Sync
begin

text \<open>
  The plan that the analyses make fits the loop: what \<open>loopSplit\<close> and \<open>insertSynchronization\<close> need of the components,
  the partition and the edges follows from the properties of the analyses.
\<close>

section \<open>The two views of a loop\<close>

text \<open>The function as the analyses read it, in the module that the transformation changes.\<close>

definition views :: "func_ir \<Rightarrow> module_ir \<Rightarrow> string \<Rightarrow> bool" where
  "views F m f \<longleftrightarrow> code F = mcode m \<and> body F = mbody m \<and> parent F = mparent m \<and> fblocks F = mblocks m f"

lemma in_loop_insts:
  assumes "views F m f" "store_inv m"
  shows "i \<in> set (loop_insts F L) \<longleftrightarrow> in_loop m L i"
proof -
  have "i \<in> set (loop_insts F L) \<longleftrightarrow> (\<exists>b. contains L b \<and> i \<in> set (mbody m b))" using assms(1) by (simp add: views_def loop_insts_iff)
  also have "\<dots> \<longleftrightarrow> in_loop m L i" unfolding in_loop_def using store_inst [OF assms(2)] by blast
  finally show ?thesis .
qed

section \<open>The components and the partition\<close>

lemma plan_assigned:
  assumes ok: "partition_ok opc is (sccs P) (threads_of P)" and i: "sccId (sccs P) i < sccNum (sccs P)"
  shows "assigned_inst P i" "thread_num P i < MAX_THREAD" "sccId (sccs P) i \<in> set (part (threads_of P) ! thread_num P i)"
proof -
  let ?a = "thread_of (threads_of P) ! sccId (sccs P) i"
  have a: "0 \<le> ?a" "?a < int MAX_THREAD" "length (thread_of (threads_of P)) = sccNum (sccs P)"
    and part: "part (threads_of P) = map (\<lambda>t. filter (\<lambda>k. thread_of (threads_of P) ! k = int t) [0..<sccNum (sccs P)]) [0..<MAX_THREAD]"
    using ok i unfolding partition_ok_def by blast+
  show "assigned_inst P i"
    using a i by (simp add: assigned_inst_def getInstAssigned_def arr_get_def in_bounds_def)
  show t: "thread_num P i < MAX_THREAD" using a by (simp add: thread_num_def nat_less_iff)
  show "sccId (sccs P) i \<in> set (part (threads_of P) ! thread_num P i)"
    using a(1) i t by (simp add: part thread_num_def)
qed

lemma plan_fits:
  assumes v: "views F m f" "store_inv m" and g: "graph_inv (pgraph P)" "edges_within (pgraph P) (loop_insts F L)"
    and s: "sccs P = scc_of (pgraph P) (loop_insts F L)"
    and ok: "partition_ok opc (loop_insts F L) (sccs P) (threads_of P)"
  shows "plan_ok m L P"
proof -
  let ?is = "loop_insts F L" and ?n = "sccNum (sccs P)"
  note S = scc_of_partition [OF g, folded s]
  have part: "part (threads_of P) = map (\<lambda>t. filter (\<lambda>k. thread_of (threads_of P) ! k = int t) [0..<?n]) [0..<MAX_THREAD]"
    using ok unfolding partition_ok_def by blast
  have len: "length (InstInSCC (sccs P)) = ?n"
    and mem: "k < ?n \<Longrightarrow> set (InstInSCC (sccs P) ! k) = {x \<in> set ?is. sccId (sccs P) x = k}" for k
    using S(2,4) unfolding members_inv_def by auto
  have id: "sccId (sccs P) i < ?n" if "i \<in> set ?is" for i using S(1,4) that unfolding partition_inv_def by blast
  have own: "assigned_inst P i \<and> i \<in> set (insts_of P (thread_num P i))" if i: "in_loop m L i" for i
  proof -
    have li: "i \<in> set ?is" using i in_loop_insts [OF v] by blast
    note A = plan_assigned [OF ok id [OF this]]
    have "i \<in> set (InstInSCC (sccs P) ! sccId (sccs P) i)" using mem [OF id [OF li]] li by blast
    then show ?thesis using A(1,3) unfolding insts_of_def by auto
  qed
  have parts: "in_loop m L i \<and> thread_num P i = t \<and> (\<forall>e \<in> set (edges_at (rev_graph_of (pgraph P)) i). in_loop m L (ev e))"
    if t: "t < MAX_THREAD" and i: "i \<in> set (insts_of P t)" for t i
  proof -
    obtain k where k: "k < ?n" "thread_of (threads_of P) ! k = int t" "i \<in> set (InstInSCC (sccs P) ! k)"
      using i t unfolding insts_of_def part by auto
    then have li: "i \<in> set ?is" "sccId (sccs P) i = k" using mem by blast+
    have "ev e \<in> set ?is" if e: "e \<in> set (edges_at (rev_graph_of (pgraph P)) i)" for e
    proof -
      have "has_edge (pgraph P) (ev e) i (dtype e)"
        using e g(1) unfolding graph_inv_def adj_inv_def by (metis mk_edge_collapse)
      then show ?thesis using g(2) dep_has_edge [OF g(1)] unfolding edges_within_def by blast
    qed
    then show ?thesis using li k(2) in_loop_insts [OF v] by (auto simp: thread_num_def)
  qed
  have "k < length (InstInSCC (sccs P))" if "t < MAX_THREAD" "k \<in> set (part (threads_of P) ! t)" for t k
    using that unfolding part len by auto
  then show ?thesis unfolding plan_ok_def using own parts by (simp add: part)
qed

section \<open>The edges\<close>

lemma edges_fit:
  assumes v: "views F m f" "store_inv m" and g: "graph_inv (pgraph (fplan E))" "edges_within (pgraph (fplan E)) (loop_insts F (floop E))"
    and s: "sccs (fplan E) = scc_of (pgraph (fplan E)) (loop_insts F (floop E))"
    and p: "threadPartition tie opc (loop_insts F (floop E)) (sccs (fplan E)) = Ok (threads_of (fplan E))"
    and rel: "\<forall>u v d. has_edge (pgraph (fplan E)) u v d \<longleftrightarrow> pdg_rel F (floop E) A u v d"
    and us: "\<forall>i x. in_loop m (floop E) i \<and> in_loop m (floop E) x \<and> VInst x \<in> set (operands (mcode m i)) \<longrightarrow> VInst i \<in> set (uses F x)"
  shows "edges_ok E m"
  unfolding edges_ok_def
proof (intro conjI ballI allI impI)
  show "graph_inv (pgraph (fplan E))" by (rule g(1))
next
  fix e assume "e \<in> set (allEdges (pgraph (fplan E)))"
  then have e: "has_edge (pgraph (fplan E)) (eu e) (ev e) (dtype e)" using g(1) unfolding graph_inv_def by (metis mk_edge_collapse)
  then have "(eu e, ev e) \<in> dep (pdg (pgraph (fplan E)))" using dep_has_edge [OF g(1)] by blast
  then show "in_loop m (floop E) (eu e)" "in_loop m (floop E) (ev e)"
    using g(2) in_loop_insts [OF v] unfolding edges_within_def by blast+
  have "\<exists>a b. getInstAssigned (thread_of (threads_of (fplan E))) (sccId (sccs (fplan E))) (VInst (eu e)) = Ok a \<and>
      getInstAssigned (thread_of (threads_of (fplan E))) (sccId (sccs (fplan E))) (VInst (ev e)) = Ok b \<and> a \<le> b"
    using partition_of_scc_pipeline [OF g p [unfolded s] e] unfolding s [symmetric] by blast
  then show "thread_num (fplan E) (eu e) \<le> thread_num (fplan E) (ev e)"
    using getInstAssigned_thread nat_mono by metis
next
  fix i x assume i: "in_loop m (floop E) i \<and> in_loop m (floop E) x \<and> VInst x \<in> set (operands (mcode m i))"
  then have "reg_rel F (floop E) x i"
    using us v(1) by (auto simp: reg_rel_def contains_inst_def views_def in_loop_def)
  moreover have "x \<in> set (loop_insts F (floop E))" using i in_loop_insts [OF v] by blast
  ultimately have "has_edge (pgraph (fplan E)) x i REG" using rel unfolding pdg_rel_def by blast
  then show "mk_edge x i REG \<in> set (allEdges (pgraph (fplan E)))" using g(1) unfolding graph_inv_def by blast
qed

end
