(* ===== verification/Same_Loop.thy ===== *)
theory Same_Loop
  imports Worker_Ends Plan_Fits Transform
begin

text \<open>
  From \<open>preLoopSplit\<close> to \<open>loopSplit\<close>: the first changes nothing inside the loop, so what the analyses found out about
  the loop holds in the module that the second one is run on.
\<close>

section \<open>Modules with the same loop\<close>

definition same_loop :: "loop_ir \<Rightarrow> module_ir \<Rightarrow> module_ir \<Rightarrow> bool" where
  "same_loop L m m' \<longleftrightarrow> store_inv m \<and> store_inv m' \<and>
     (\<forall>b. contains L b \<longrightarrow> mbody m' b = mbody m b \<and> (\<forall>i \<in> set (mbody m b). mcode m' i = mcode m i))"

lemma same_loopD:
  assumes "same_loop L m m'"
  shows "store_inv m" "store_inv m'" "contains L b \<Longrightarrow> mbody m' b = mbody m b"
    "contains L b \<Longrightarrow> i \<in> set (mbody m b) \<Longrightarrow> mcode m' i = mcode m i"
  using assms unfolding same_loop_def by blast+

lemma same_in_loop:
  assumes "same_loop L m m'"
  shows "in_loop m' L i \<longleftrightarrow> in_loop m L i" "in_loop m L i \<Longrightarrow> mparent m' i = mparent m i" "in_loop m L i \<Longrightarrow> mcode m' i = mcode m i"
proof -
  note s = same_loopD [OF assms]
  show "in_loop m' L i \<longleftrightarrow> in_loop m L i"
    using s(3) store_inst [OF s(1)] store_inst [OF s(2)] unfolding in_loop_def by metis
  show "in_loop m L i \<Longrightarrow> mparent m' i = mparent m i"
    using s(3) store_inst [OF s(2)] unfolding in_loop_def by metis
  show "in_loop m L i \<Longrightarrow> mcode m' i = mcode m i" using s(4) unfolding in_loop_def by blast
qed

lemma same_plan_ok: "same_loop L m m' \<Longrightarrow> plan_ok m L P \<Longrightarrow> plan_ok m' L P"
  unfolding plan_ok_def using same_in_loop(1) by simp

lemma same_rel_blocks:
  assumes "same_loop L m m'" "plan_ok m L P" "t < MAX_THREAD"
  shows "rel_blocks m' P t = rel_blocks m P t"
proof -
  note p = plan_okD(5) [OF assms(2,3)]
  have "mparent m' ` set (insts_of P t) = mparent m ` set (insts_of P t)"
    "{mparent m' (ev e) | i e. i \<in> set (insts_of P t) \<and> e \<in> set (edges_at (rev_graph_of (pgraph P)) i)} =
     {mparent m (ev e) | i e. i \<in> set (insts_of P t) \<and> e \<in> set (edges_at (rev_graph_of (pgraph P)) i)}"
    using p same_in_loop(2) [OF assms(1)] by (force intro!: image_cong)+
  then show ?thesis by (simp add: rel_blocks_def)
qed

lemma same_thread_insts:
  assumes "same_loop (floop E) m m'" "plan_ok m (floop E) (fplan E)" "t < MAX_THREAD"
  shows "thread_insts E m' t = thread_insts E m t"
proof -
  have "kept (fplan E) m' t b = kept (fplan E) m t b" if "b \<in> set (rel_blocks m (fplan E) t)" for b
  proof -
    have b: "contains (floop E) b" by (rule rel_blocks_in(1) [OF assms(2,3) that])
    have "keep (fplan E) m' t i = keep (fplan E) m t i" if "i \<in> set (mbody m b)" for i
      using same_loopD(4) [OF assms(1) b that] by (simp add: keep_def)
    then show ?thesis unfolding kept_def same_loopD(3) [OF assms(1) b] by (rule filter_cong [OF refl])
  qed
  then show ?thesis unfolding thread_insts_def same_rel_blocks [OF assms] by (simp cong: map_cong)
qed

lemma same_crosses:
  assumes "same_loop (floop E) m m'" "plan_ok m (floop E) (fplan E)"
  shows "crosses E m' e t \<longleftrightarrow> crosses E m e t"
  unfolding crosses_def using same_thread_insts [OF assms] by metis

lemma same_cfg_ok:
  assumes "same_loop (floop E) m m'" "cfg_ok E m"
  shows "cfg_ok E m'"
proof -
  note s = same_loopD(3,4) [OF assms(1)]
  show ?thesis using assms(2) unfolding cfg_ok_def by (metis s)
qed

section \<open>Loops that can be split\<close>

text \<open>The conditions on the plan and the trees, for a loop in a module.\<close>

definition splittable :: "split_env \<Rightarrow> module_ir \<Rightarrow> bool" where
  "splittable E m \<longleftrightarrow> cfg_ok E m \<and> plan_ok m (floop E) (fplan E) \<and>
     (\<forall>t < MAX_THREAD. lheader (floop E) \<in> set (rel_blocks m (fplan E) t)) \<and> edges_ok E m \<and>
     branches_related E m \<and> branches_early E m \<and> values_ok E m"

lemma same_splittable:
  assumes same: "same_loop (floop E) m m'" and s: "splittable E m"
  shows "splittable E m'"
proof -
  let ?L = "floop E"
  have s: "cfg_ok E m" "plan_ok m ?L (fplan E)" "\<forall>t < MAX_THREAD. lheader ?L \<in> set (rel_blocks m (fplan E) t)" "edges_ok E m"
    "branches_related E m" "branches_early E m" "values_ok E m"
    using s unfolding splittable_def by blast+
  note i = same_in_loop [OF same] and r = same_rel_blocks [OF same s(2)] and T = same_thread_insts [OF same s(2)]
    and C = same_crosses [OF same s(2)]
  have loop: "in_loop m ?L (eu e)" "in_loop m ?L (ev e)" "t < MAX_THREAD" if "crosses E m e t" for e t
    using that edges_okD(2) [OF s(4)] unfolding crosses_def by blast+
  have "edges_ok E m'" using s(4) unfolding edges_ok_def i(1) using i(3) by metis
  moreover have "branches_related E m'" using s(5) loop unfolding branches_related_def C by (metis i(2) r)
  moreover have "branches_early E m'"
    unfolding branches_early_def
  proof (intro allI ballI impI)
    fix t j x assume t: "t < MAX_THREAD" and j: "j \<in> set (thread_insts E m' t)" "thread_num (fplan E) j \<noteq> t"
      and x: "in_loop m' ?L x \<and> VInst x \<in> set (operands (mcode m' j))"
    have jm: "j \<in> set (thread_insts E m t)" using j(1) T [OF t] by simp
    then obtain b where b: "b \<in> set (rel_blocks m (fplan E) t)" "j \<in> set (mbody m b)" by (auto simp: thread_insts_def kept_def)
    have "mcode m' j = mcode m j" by (rule same_loopD(4) [OF same rel_blocks_in(1) [OF s(2) t b(1)] b(2)])
    then show "thread_num (fplan E) x \<le> t" using s(6) t jm j(2) x i(1) unfolding branches_early_def by metis
  qed
  moreover have "values_ok E m'" using s(7) loop unfolding values_ok_def C by (metis i(3))
  ultimately show ?thesis
    unfolding splittable_def using same_cfg_ok [OF same s(1)] same_plan_ok [OF same s(2)] s(3) r by simp
qed

text \<open>The argument struct and the names of the workers do not matter for these conditions.\<close>

definition loop_env :: "loop_ir \<Rightarrow> BB \<Rightarrow> BB \<Rightarrow> plan \<Rightarrow> (BB \<Rightarrow> BB option) \<times> (BB \<Rightarrow> BB option) \<Rightarrow> split_env" where
  "loop_env L ex pr P doms = \<lparr>floop = L, fexit = ex, fpred = pr, fplan = P, fidom = fst doms, fpostidom = snd doms,
     fargs = VoidTy, fworkers = []\<rparr>"


lemma env_sel:
  "floop (split_env_of L ex pr P doms r) = L" "fexit (split_env_of L ex pr P doms r) = ex" "fpred (split_env_of L ex pr P doms r) = pr"
  "fplan (split_env_of L ex pr P doms r) = P" "fidom (split_env_of L ex pr P doms r) = fst doms"
  "fpostidom (split_env_of L ex pr P doms r) = snd doms" "fargs (split_env_of L ex pr P doms r) = argStructTy r"
  "fworkers (split_env_of L ex pr P doms r) = allFunc r"
  by (simp_all add: split_env_of_def)

lemma loop_env_sel:
  "floop (loop_env L ex pr P doms) = L" "fexit (loop_env L ex pr P doms) = ex" "fpred (loop_env L ex pr P doms) = pr"
  "fplan (loop_env L ex pr P doms) = P" "fidom (loop_env L ex pr P doms) = fst doms" "fpostidom (loop_env L ex pr P doms) = snd doms"
  by (simp_all add: loop_env_def)

lemma loop_env_of:
  "splittable (split_env_of L ex pr P doms r) m \<longleftrightarrow> splittable (loop_env L ex pr P doms) m"
proof -
  have T: "thread_insts (split_env_of L ex pr P doms r) m t = thread_insts (loop_env L ex pr P doms) m t" for t
    unfolding thread_insts_def env_sel loop_env_sel ..
  show ?thesis
    unfolding splittable_def cfg_ok_def edges_ok_def branches_related_def branches_early_def values_ok_def crosses_def T
      env_sel loop_env_sel ..
qed

end
