(* ===== verification/Split_Start.thy ===== *)
theory Split_Start
  imports Same_Loop Pre_Split_Result
begin

text \<open>
  \<open>preLoopSplit\<close> leaves a module on which \<open>loopSplit\<close> can be run: everything the later operations ask for follows from
  conditions on the module, the loop, the plan and the trees before the transformation.
\<close>

section \<open>The loop before the transformation\<close>

definition loop_shape :: "module_ir \<Rightarrow> string \<Rightarrow> loop_ir \<Rightarrow> BB \<Rightarrow> BB \<Rightarrow> bool" where
  "loop_shape m f L ex pr \<longleftrightarrow> store_inv m \<and> distinct (lblocks L) \<and> set (lblocks L) \<subseteq> set (mblocks m f) \<and>
     contains L (lheader L) \<and> \<not> contains L ex \<and> ex \<in> set (mblocks m f) \<and> \<not> contains L pr \<and>
     (\<forall>b. contains L b \<longrightarrow> mbody m b \<noteq> [] \<and> is_term m (last (mbody m b))) \<and> one_term_blocks L m"

definition live_fits :: "module_ir \<Rightarrow> loop_ir \<Rightarrow> live_info \<Rightarrow> bool" where
  "live_fits m L li \<longleftrightarrow>
     (\<forall>v \<in> set (livein li). is_variable v \<and> below (next_ptr m) v \<and> (\<forall>i. v = VInst i \<longrightarrow> \<not> in_loop m L i)) \<and>
     (\<forall>v \<in> set (liveout li). \<exists>i. v = VInst i \<and> in_loop m L i)"

definition workers_new :: "module_ir \<Rightarrow> int \<Rightarrow> bool" where
  "workers_new m lc \<longleftrightarrow> (\<forall>g \<in> set (workers lc). mdecl m g = None \<and> mblocks m g = [])"

lemma loop_shapeD:
  assumes "loop_shape m f L ex pr"
  shows "store_inv m" "distinct (lblocks L)" "contains L b \<Longrightarrow> b \<in> set (mblocks m f)" "contains L (lheader L)" "\<not> contains L ex"
    "ex \<in> set (mblocks m f)" "\<not> contains L pr" "contains L b \<Longrightarrow> mbody m b \<noteq> [] \<and> is_terminator (opcode (mcode m (last (mbody m b))))"
    "one_term_blocks L m" "contains L b \<Longrightarrow> b < next_ptr m"
proof -
  note s = assms [unfolded loop_shape_def]
  show "store_inv m" "distinct (lblocks L)" "contains L (lheader L)" "\<not> contains L ex" "ex \<in> set (mblocks m f)" "\<not> contains L pr"
    "one_term_blocks L m" using s by blast+
  show b: "contains L b \<Longrightarrow> b \<in> set (mblocks m f)" using s by (auto simp: contains_def)
  show "contains L b \<Longrightarrow> mbody m b \<noteq> [] \<and> is_terminator (opcode (mcode m (last (mbody m b))))" using s by (auto simp: is_term_def)
  show "contains L b \<Longrightarrow> b < next_ptr m" using b store_block s by blast
qed

lemma distinct_workers: "distinct (workers lc)"
  by (auto simp: workers_def distinct_map inj_on_def worker_name_def itoa_roundtrip)

lemma live_split_ready:
  assumes s: "loop_shape m f L ex pr" and rt: "runtime_declared m" and wn: "workers_new m lc" and li: "live_fits m L li"
  shows "split_ready m f L ex lc li"
proof -
  note sh = loop_shapeD [OF s]
  have "workers_free m lc" using wn worker_not_runtime by (auto simp: workers_new_def workers_free_def workers_def)
  moreover have "\<forall>v \<in> set (livein li @ liveout li). is_variable v \<and> below (next_ptr m) v"
    using li in_loop_ptr [OF sh(1)] by (fastforce simp: live_fits_def is_variable_def)
  moreover have "set (livein li) \<inter> set (liveout li) = {}" using li unfolding live_fits_def by blast
  ultimately show ?thesis using sh(1,4-6,10) rt unfolding split_ready_def by blast
qed

lemma comm_call: "comm_instr g k (mk_call t h as) \<Longrightarrow> g = h"
  by (auto simp: comm_instr_def)

lemma split_code_comm:
  assumes "ins \<in> set (split_code sty fs li p)" "g = ''sync_produce'' \<or> g = ''sync_consume''"
  shows "\<not> comm_instr g k ins"
proof -
  have l: "x \<in> set (livein_code ty a q j vs) \<Longrightarrow> opcode x \<in> {GetElementPtr, Store}" for x ty a q j vs
    by (induction ty a q j vs rule: livein_code.induct) auto
  have o: "x \<in> set (liveout_code ty a q j vs) \<Longrightarrow> opcode x \<in> {GetElementPtr, Load}" for x ty a q j vs
    by (induction ty a q j vs rule: liveout_code.induct) auto
  have "opcode ins = Call \<Longrightarrow> \<exists>t h as. ins = mk_call t h as \<and> h \<notin> {''sync_produce'', ''sync_consume''}"
    using assms(1) by (auto simp: split_code_def spawn_code_def collect_code_def delegate_code_def Let_def split: if_splits dest: l o)
  then show ?thesis using assms(2) comm_call comm_instr_not_call by blast
qed

section \<open>The module that the threads are made in\<close>

lemma pre_split_no_channels:
  assumes s: "loop_shape m f L ex pr" and nc: "no_channels m" and inv: "store_inv M"
    and bl: "mblocks M = (mblocks m)(f := ins_before (next_ptr m) (Some ex) (mblocks m f))"
    and bd: "mbody M = (mbody m)(next_ptr m := [p..<p + length inss] @ [Suc (next_ptr m)])"
    and br: "mcode M (Suc (next_ptr m)) = mk_branch ex" and loc: "located M p inss"
    and new: "\<And>g k ins. ins \<in> set inss \<Longrightarrow> g = ''sync_produce'' \<or> g = ''sync_consume'' \<Longrightarrow> \<not> comm_instr g k ins"
    and code: "\<And>g k i. i < next_ptr m \<Longrightarrow> comm_instr g k (mcode M i) \<Longrightarrow> comm_instr g k (mcode m i)"
  shows "no_channels M"
proof -
  note sh = loop_shapeD [OF s]
  have none: "\<not> comm_instr g k (mcode m i)" if "in_fun m h i" "g = ''sync_produce'' \<or> g = ''sync_consume''" for g k h i
    using nc that by (auto simp: no_channels_def comms_def)
  have "\<not> comm_instr g k (mcode M i)" if i: "in_fun M h i" and g: "g = ''sync_produce'' \<or> g = ''sync_consume''" for g k h i
  proof -
    obtain b where b: "b \<in> set (mblocks M h)" "i \<in> set (mbody M b)" using i by (auto simp: in_fun_def)
    show ?thesis
    proof (cases "b = next_ptr m")
      case True
      then have "(p \<le> i \<and> i < p + length inss) \<or> i = Suc (next_ptr m)" using b(2) by (auto simp: bd)
      moreover have "mcode M i \<in> set inss" if "p \<le> i" "i < p + length inss"
        using loc that unfolding located_def by (metis add_diff_inverse_nat less_diff_conv2 add.commute not_less nth_mem)
      ultimately show ?thesis using new [OF _ g] br by (auto simp: comm_instr_not_call)
    next
      case False
      then have m: "b \<in> set (mblocks m h)" "i \<in> set (mbody m b)" using b by (auto simp: bl bd split: if_splits)
      then have "in_fun m h i" by (auto simp: in_fun_def)
      then show ?thesis using none [OF _ g] code store_inst [OF sh(1) m(2)] by blast
    qed
  qed
  then show ?thesis by (auto simp: no_channels_def comms_def)
qed

lemma entry_ends_outside:
  assumes "store_inv m" "k \<in> entry_ends m f L" "k \<in> set (mbody m b)"
  shows "\<not> contains L b"
proof -
  obtain c where c: "k = last (mbody m c)" "c \<in> set (block_preds m f (lheader L))" "\<not> contains L c"
    using assms(2) by (auto simp: entry_ends_def)
  then have "k \<in> set (mbody m c)" by (simp add: block_preds_def)
  then show ?thesis using assms(1,3) c(3) store_inst by metis
qed

lemma pre_split_pipeline:
  assumes s: "loop_shape m f L ex pr" and rt: "runtime_declared m" and nc: "no_channels m" and wn: "workers_new m lc"
    and li: "live_fits m L (live P)" and sp: "splittable (loop_env L ex pr P doms) m"
  shows "\<exists>r. preLoopSplit f L ex lc (live P) gen m = Ok r \<and> allFunc r = workers lc \<and> pgenerated r = gen \<union> set (workers lc) \<and>
    same_loop L m (pmodule r) \<and>
    pipeline_ok (split_env_of L ex pr P doms r) (pmodule r) f \<and> one_term_blocks L (pmodule r)"
proof -
  note sh = loop_shapeD [OF s]
  let ?n = "next_ptr m"
  obtain r p where r: "preLoopSplit f L ex lc (live P) gen m = Ok r" "Suc ?n < p" "allFunc r = workers lc"
    "pgenerated r = gen \<union> set (workers lc)" "argStructTy r = sp_ty (pre_split_spec m f L ex lc (live P) p)" "store_inv (pmodule r)"
    "next_ptr (pmodule r) = p + length (sp_code (pre_split_spec m f L ex lc (live P) p))"
    "mdecl (pmodule r) = (\<lambda>g. if g \<in> set (workers lc) then Some (FunTy [i8p] i8p) else mdecl m g)"
    "mblocks (pmodule r) = (mblocks m)(f := ins_before ?n (Some ex) (mblocks m f))" "\<forall>a < ?n. marg_ty (pmodule r) a = marg_ty m a"
    "\<forall>g \<in> set (workers lc). mdecl m g = None \<longrightarrow> (\<exists>a \<ge> ?n. margs (pmodule r) g = [a])"
    "mbody (pmodule r) = (mbody m)(?n := [p..<p + length (sp_code (pre_split_spec m f L ex lc (live P) p))] @ [Suc ?n])"
    "mcode (pmodule r) (Suc ?n) = mk_branch ex" "located (pmodule r) p (sp_code (pre_split_spec m f L ex lc (live P) p))"
    "\<forall>k < ?n. mcode (pmodule r) k =
       (if outside_inst m f L k then replaceUses (sp_rep (pre_split_spec m f L ex lc (live P) p)) else id)
         ((if k \<in> entry_ends m f L then retarget (lheader L) ?n else id) (mcode m k))"
    using preLoopSplit_result [OF live_split_ready [OF s rt wn li], of gen] by blast
  let ?S = "pre_split_spec m f L ex lc (live P) p" and ?M = "pmodule r" and ?E = "split_env_of L ex pr P doms r"
  have loop: "mbody ?M b = mbody m b \<and> (\<forall>i \<in> set (mbody m b). mcode ?M i = mcode m i)" if b: "contains L b" for b
  proof
    show "mbody ?M b = mbody m b" using sh(10) [OF b] by (simp add: r(12))
    show "\<forall>i \<in> set (mbody m b). mcode ?M i = mcode m i"
    proof
      fix i assume i: "i \<in> set (mbody m b)"
      have "\<not> outside_inst m f L i" using store_inst [OF sh(1)] i b unfolding outside_inst_def by metis
      moreover have "i \<notin> entry_ends m f L" using entry_ends_outside [OF sh(1) _ i] b by blast
      ultimately show "mcode ?M i = mcode m i" using r(15) store_inst [OF sh(1) i] by simp
    qed
  qed
  then have same: "same_loop L m ?M" using sh(1) r(6) unfolding same_loop_def by blast
  have kinds: "ity (mcode ?M k) = ity (mcode m k)" if "k < ?n" for k
    using r(15) that by (simp add: replaceUses_frame retarget_def)
  have rep: "\<exists>n. w = VInst n" if "sp_rep ?S v = Some w" for v w
    using that liveout_map_range by (fastforce simp: pre_split_spec_def Let_def)
  have nc': "no_channels ?M"
  proof (rule pre_split_no_channels [OF s nc r(6,9,12-14)])
    show "ins \<in> set (sp_code ?S) \<Longrightarrow> g = ''sync_produce'' \<or> g = ''sync_consume'' \<Longrightarrow> \<not> comm_instr g k ins" for g k ins
      using split_code_comm by (simp add: pre_split_spec_def Let_def)
    show "comm_instr g k (mcode m i)" if "i < ?n" "comm_instr g k (mcode ?M i)" for g k i
    proof -
      define X where "X = (if i \<in> entry_ends m f L then retarget (lheader L) ?n else id) (mcode m i)"
      have "mcode ?M i = replaceUses (sp_rep ?S) X \<or> mcode ?M i = X" using r(15) that(1) by (simp add: X_def)
      moreover have "comm_instr g k (replaceUses (sp_rep ?S) X) \<Longrightarrow> comm_instr g k X"
        by (rule comm_instr_replace_insts) (use rep in blast)+
      ultimately have "comm_instr g k X" using that(2) by metis
      then show ?thesis by (cases "i \<in> entry_ends m f L") (simp_all add: X_def comm_instr_def retarget_def)
    qed
  qed
  have fw: "f \<notin> set (workers lc)" using wn sh(6) by (auto simp: workers_new_def)
  have blocks: "\<forall>b. contains L b \<longrightarrow> b \<in> set (mblocks ?M f)" using sh(3) by (simp add: r(9))
  have "splittable ?E ?M" using same_splittable [of ?E m ?M] same sp unfolding env_sel loop_env_of by blast
  then have E: "cfg_ok ?E ?M" "plan_ok ?M L P" "\<forall>t < MAX_THREAD. lheader L \<in> set (rel_blocks ?M P t)" "edges_ok ?E ?M"
    "branches_related ?E ?M" "branches_early ?E ?M" "values_ok ?E ?M"
    unfolding splittable_def env_sel by blast+
  have one: "one_term_blocks L ?M"
    unfolding one_term_blocks_def
  proof (intro allI impI)
    fix b assume b: "contains L b"
    have "filter (is_term ?M) (mbody m b) = filter (is_term m) (mbody m b)"
      using loop [OF b] by (intro filter_cong) (auto simp: is_term_def)
    then show "one_end (is_term ?M) (mbody ?M b)" using sh(9) loop [OF b] b by (simp add: one_term_blocks_def one_end_def)
  qed
  have "\<forall>g \<in> runtime_names. g \<notin> set (workers lc)" using worker_not_runtime by (auto simp: workers_def)
  then have rtM: "runtime_declared ?M" using rt unfolding runtime_declared_def runtime_names_def r(8) by simp
  have ty: "value_ty ?M v = value_ty m v" if "is_variable v" "below ?n v" for v
    using that kinds r(10) by (cases v) (simp_all add: is_variable_def)
  have field: "field_ty (PointerTy (argStructTy r)) k = value_ty ?M (livein (live P) ! k)" if "k < length (livein (live P))" for k
    using that li ty nth_mem [OF that] by (simp add: r(5) pre_split_spec_def Let_def nth_append live_fits_def)
  have len: "length (workers lc) = MAX_THREAD" by (simp add: workers_def)
  have ws: "mblocks ?M g = [] \<and> (\<exists>a. margs ?M g = [a] \<and> VArg a \<notin> set (livein (live P)))" if g: "g \<in> set (workers lc)" for g
  proof -
    obtain a where "margs ?M g = [a]" "?n \<le> a" using r(11) wn g by (auto simp: workers_new_def)
    moreover have "VArg a \<notin> set (livein (live P))" if "?n \<le> a" for a using li that by (fastforce simp: live_fits_def)
    moreover have "mblocks ?M g = []" using wn g fw by (auto simp: r(9) workers_new_def)
    ultimately show ?thesis by blast
  qed
  have live: "\<forall>v \<in> set (livein (live P)). is_variable v \<and> below (next_ptr ?M) v \<and> (\<forall>i. v = VInst i \<longrightarrow> \<not> in_loop ?M L i)"
    "\<forall>v \<in> set (liveout (live P)). \<exists>i. v = VInst i \<and> in_loop ?M L i"
  proof -
    have "below ?n v \<Longrightarrow> below (next_ptr ?M) v" for v using r(2,7) by (cases v) auto
    then show "\<forall>v \<in> set (livein (live P)). is_variable v \<and> below (next_ptr ?M) v \<and> (\<forall>i. v = VInst i \<longrightarrow> \<not> in_loop ?M L i)"
      "\<forall>v \<in> set (liveout (live P)). \<exists>i. v = VInst i \<and> in_loop ?M L i"
      using li same_in_loop(1) [OF same] unfolding live_fits_def by blast+
  qed
  have np: "b < next_ptr ?M" if "contains L b" for b using sh(10) [OF that] r(2,7) by simp
  have ends: "mbody ?M b \<noteq> [] \<and> is_terminator (opcode (mcode ?M (last (mbody ?M b))))" if "contains L b" for b
    using sh(8) [OF that] loop [OF that] by simp
  have "env_ok ?E ?M"
    unfolding env_ok_def env_sel
    using r(6) E(1,2) sh(5,7) np ends len distinct_workers ws field live rtM
    by (simp add: r(3) runtime_declared_def)
  then have "pipeline_ok ?E ?M f"
    unfolding pipeline_ok_def env_sel using E(3-7) blocks rtM nc' by blast
  then show ?thesis using r(1,3,4) same one by blast
qed

end
