(* ===== verification/Pipe_Analysis.thy ===== *)
theory Pipe_Analysis
  imports Split_Start
begin

text \<open>
  The analyses on the loop in two stages, evaluated: the plan that \<open>analyse_loop\<close> finds for it is one that the threads can
  carry out.
\<close>

section \<open>LLVM's answers\<close>

definition pipe_uses :: "module_ir \<Rightarrow> Inst \<Rightarrow> Value list" where
  "pipe_uses m i = (if i = 10 then [VInst 11, VInst 13] else if i = 11 then [VInst 10, VInst 12] else if i = 13 then [VInst 20] else [])"

definition pipe_all :: "unit llvm_all" where
  "pipe_all = \<lparr>analyses_of = small_llvm, dom_of = (\<lambda>b. Some (if b = 0 then None else Some (b - 1))),
     postdom_of = (\<lambda>b. Some (if b = 2 then None else Some (b + 1))), uses_of = pipe_uses, users_of = listed_users, end_node = True\<rparr>"

definition pipe_func :: func_ir where
  "pipe_func = func_view ''f'' pipe_uses pipe_module"

lemma pipe_views: "views pipe_func pipe_module ''f''" "uses pipe_func = pipe_uses pipe_module"
  by (simp_all add: pipe_func_def views_def func_view_def)

lemma pipe_small: "pipe_loop = small_loop"
  by (simp add: pipe_loop_def small_loop_def)

lemma pipe_parts:
  "code pipe_func = pipe_code" "body pipe_func = mbody pipe_module" "parent pipe_func = mparent pipe_module" "fblocks pipe_func = [0, 1, 2]"
  by (simp_all add: pipe_func_def func_view_def pipe_module_def)

lemma pipe_loop_insts: "loop_insts pipe_func pipe_loop = [10, 11, 13, 12]"
  by (simp add: loop_insts_def pipe_parts) (simp add: pipe_loop_def pipe_module_def)

lemma pipe_return: "1 \<in> returnblocks pipe_func small_loop"
  unfolding returnblocks_iff small_contains
  by (simp add: small_loop_def preds_def block_succs_def terminator_def pipe_parts) (simp add: pipe_module_def pipe_code_def)

lemma pipe_llvm_ok: "llvm_ok small_llvm pipe_func pipe_loop"
proof -
  have "attached pipe_func pipe_loop"
    unfolding attached_def pipe_contains by (simp add: pipe_parts) (auto simp: pipe_loop_def pipe_module_def split: if_splits)
  moreover have "all_known pipe_func pipe_loop no_memory" "block_local pipe_func no_memory"
    by (simp_all add: all_known_def unknown_location_def block_local_def no_memory_def)
  moreover have "branches_inside pipe_func pipe_loop"
    using pipe_return by (simp add: branches_inside_def pipe_small) (simp add: small_loop_def)
  moreover have "inst_uses_only pipe_func [10, 11, 13, 12]"
    by (simp add: inst_uses_only_def pipe_views pipe_uses_def)
  ultimately show ?thesis
    using one_block_tree [OF pipe_return] by (simp add: llvm_ok_def pipe_loop_insts small_llvm_def) (simp add: pipe_small)
qed

section \<open>The plan\<close>

declare control_walk.simps [code]

lemma pipe_analysed:
  "(case analyse_loop (\<lambda>_. 0) small_llvm ''f'' pipe_func pipe_loop pass_start of
     Ok (Some P, ps) \<Rightarrow> allEdges (pgraph P) = [mk_edge 10 11 REG, mk_edge 10 13 REG, mk_edge 11 10 REG, mk_edge 11 12 REG,
         mk_edge 12 10 CONTROL, mk_edge 12 11 CONTROL, mk_edge 12 13 CONTROL, mk_edge 12 12 CONTROL] \<and>
       map (thread_num P) [10, 11, 12, 13] = [0, 0, 0, 1] \<and> map (insts_of P) [0, 1] = [[12, 11, 10], [13]] \<and>
       liveout (live P) = [VInst 13] \<and> livein (live P) = [VArg 0]
   | _ \<Rightarrow> False)"
  by code_simp

lemma pipe_found:
  assumes "analyse_loop (\<lambda>_. 0) small_llvm ''f'' pipe_func pipe_loop pass_start = Ok (Some P, ps')"
  shows "set (allEdges (pgraph P)) = {mk_edge 10 11 REG, mk_edge 10 13 REG, mk_edge 11 10 REG, mk_edge 11 12 REG,
      mk_edge 12 10 CONTROL, mk_edge 12 11 CONTROL, mk_edge 12 13 CONTROL, mk_edge 12 12 CONTROL}"
    "i \<in> {10, 11, 12, 13} \<Longrightarrow> thread_num P i = (if i = 13 then 1 else 0)" "insts_of P 0 = [12, 11, 10]" "insts_of P (Suc 0) = [13]"
  using pipe_analysed [unfolded assms] by auto

end
