(* ===== verification/Transform_Result.thy ===== *)
theory Transform_Result
  imports Pipe_Analysis
begin

text \<open>
  \<open>runOnLoop\<close> as a whole: on a loop in the shape LLVM guarantees, with a plan that the threads can carry out, the
  transformation returns, the blocks of the loop are gone and the functions of the threads are well formed.
\<close>

section \<open>The dominator tables\<close>

definition dom_tables :: "'l llvm_all \<Rightarrow> BB list \<Rightarrow> (BB \<Rightarrow> BB option) \<times> (BB \<Rightarrow> BB option)" where
  "dom_tables A bs = ((\<lambda>b. if b \<in> set bs then the (dom_of A b) else None), (\<lambda>b. if b \<in> set bs then the (postdom_of A b) else None))"

lemma getDominators_run:
  assumes "\<forall>b \<in> set bs. dom_of A b \<noteq> None \<and> postdom_of A b \<noteq> None"
  shows "getDominators (dom_of A) (postdom_of A) bs = Ok (dom_tables A bs)"
proof -
  let ?step = "\<lambda>tabs b. case dom_of A b of None \<Rightarrow> Undef | Some d \<Rightarrow>
    (case postdom_of A b of None \<Rightarrow> Undef | Some p \<Rightarrow> Ok ((fst tabs)(b := d), (snd tabs)(b := p)))"
  have "ofold ?step bs (D, Q) = Ok ((\<lambda>b. if b \<in> set bs then the (dom_of A b) else D b),
      (\<lambda>b. if b \<in> set bs then the (postdom_of A b) else Q b))" for D Q
    using assms by (induction bs arbitrary: D Q) (auto simp: fun_eq_iff)
  then show ?thesis by (simp add: getDominators_def dom_tables_def)
qed

section \<open>The transformation\<close>

text \<open>The loop, the module and LLVM's answers, apart from the plan.\<close>

definition loop_input :: "'l llvm_all \<Rightarrow> string \<Rightarrow> loop_ir \<Rightarrow> BB \<Rightarrow> BB \<Rightarrow> int \<Rightarrow> module_ir \<Rightarrow> bool" where
  "loop_input A f L ex pr lc m \<longleftrightarrow> loop_shape m f L ex pr \<and> runtime_declared m \<and> no_channels m \<and> workers_new m lc \<and>
     (\<forall>b \<in> set (mblocks m f). dom_of A b \<noteq> None \<and> postdom_of A b \<noteq> None) \<and>
     end_node A \<and> inst_users (users_of A) \<and> users_found (users_of A)"

text \<open>A block of a worker in the module the pass leaves.\<close>

definition worker_block_ok :: "loop_ir \<Rightarrow> module_ir \<Rightarrow> module_ir \<Rightarrow> BB \<Rightarrow> bool" where
  "worker_block_ok L m m' b \<longleftrightarrow> mbody m' b \<noteq> [] \<and> is_term m' (last (mbody m' b)) \<and> one_end (is_term m') (mbody m' b) \<and>
     (\<exists>ys zs. mbody m' b = ys @ zs \<and> (\<forall>i \<in> set ys. is_phi m' i) \<and> (\<forall>i \<in> set zs. \<not> is_phi m' i)) \<and>
     (\<forall>i \<in> set (mbody m' b). (\<forall>x. in_loop m L x \<longrightarrow> VInst x \<notin> set (operands (mcode m' i))) \<and>
       (\<forall>ty. VUndef ty \<in> set (operands (mcode m' i)) \<longrightarrow> (\<exists>x. in_loop m L x \<and> VUndef ty \<in> set (operands (mcode m x)))))"

lemma transform_run:
  assumes I: "loop_input A f L ex pr (loopCounter ps) m" and li: "live_fits m L (live P)"
    and sp: "splittable (loop_env L ex pr P (dom_tables A (mblocks m f))) m"
  shows "\<exists>m'. transform_loop A f L ex pr P ps m = Ok (ps\<lparr>generated := generated ps \<union> set (workers (loopCounter ps))\<rparr>, m') \<and>
    (\<forall>b \<in> set (mblocks m' f). \<not> contains L b) \<and>
    (\<forall>g \<in> set (workers (loopCounter ps)). mblocks m' g \<noteq> [] \<and> (\<forall>b \<in> set (mblocks m' g). worker_block_ok L m m' b))"
proof -
  let ?doms = "dom_tables A (mblocks m f)" and ?ws = "workers (loopCounter ps)"
  have i: "loop_shape m f L ex pr" "runtime_declared m" "no_channels m" "workers_new m (loopCounter ps)"
    "\<forall>b \<in> set (mblocks m f). dom_of A b \<noteq> None \<and> postdom_of A b \<noteq> None" "end_node A" "inst_users (users_of A)" "users_found (users_of A)"
    using I unfolding loop_input_def by blast+
  obtain r where r: "preLoopSplit f L ex (loopCounter ps) (live P) (generated ps) m = Ok r" "allFunc r = ?ws"
    "pgenerated r = generated ps \<union> set ?ws" "same_loop L m (pmodule r)"
    "pipeline_ok (split_env_of L ex pr P ?doms r) (pmodule r) f" "one_term_blocks L (pmodule r)"
    using pre_split_pipeline [OF i(1-4) li sp] by blast
  let ?E = "split_env_of L ex pr P ?doms r"
  have one: "one_term_blocks (floop ?E) (pmodule r)" "distinct (lblocks (floop ?E))"
    using r(6) loop_shapeD(2) [OF i(1)] unfolding env_sel by blast+
  obtain st st' n m' where s: "loopSplit ?E (no_clones (pmodule r)) = Ok st"
    "insertSynchronization P (users_of A) True st = Ok (st', n)" "cleanup L (allFunc r) (cmod st') = Ok m'"
    "\<forall>b \<in> set (mblocks m' f). \<not> contains L b"
    "\<forall>t < MAX_THREAD. mblocks m' (allFunc r ! t) = mblocks (cmod st) (allFunc r ! t) \<and>
      (\<forall>b \<in> set (mblocks m' (allFunc r ! t)). block_survives L (pmodule r) (cmod st') m' b)"
    using split_sync_cleanup [OF r(5) i(7,8) one] unfolding env_sel by blast
  note p = pipeline_okD [OF r(5)]
  obtain pt where d: "\<forall>t < MAX_THREAD. thread_done ?E (pmodule r) t (pt t) st"
    by (rule split_done [OF p(1,2) s(1)])
  have "mblocks m' g \<noteq> [] \<and> (\<forall>b \<in> set (mblocks m' g). worker_block_ok L m m' b)" if g: "g \<in> set ?ws" for g
  proof -
    obtain t where t: "t < MAX_THREAD" "g = ?ws ! t" using g by (auto simp: in_set_conv_nth workers_def)
    have "mblocks (cmod st) g \<noteq> []" using thread_doneD(3) [OF d [rule_format, OF t(1)]] r(2) t(2) unfolding env_sel by simp
    moreover have "worker_block_ok L m m' b" if "block_survives L (pmodule r) (cmod st') m' b" for b
      using that same_in_loop(1,3) [OF r(4)] unfolding block_survives_def worker_block_ok_def by metis
    ultimately show ?thesis using s(5) t r(2) by metis
  qed
  moreover have "transform_loop A f L ex pr P ps m = Ok (ps\<lparr>generated := generated ps \<union> set ?ws\<rparr>, m')"
    using getDominators_run [OF i(5)] r(1,3) s(1-3) i(6) by (simp add: transform_loop_def)
  ultimately show ?thesis using s(4) by blast
qed

section \<open>The plan\<close>

text \<open>
  What the conditions on the plan leave to the analyses: the operands in the loop that the analyses see, and the branches
  that the threads share.
\<close>

definition operands_ok :: "(Inst \<Rightarrow> Value list) \<Rightarrow> module_ir \<Rightarrow> loop_ir \<Rightarrow> bool" where
  "operands_ok users m L \<longleftrightarrow> (\<forall>i. in_loop m L i \<longrightarrow> (\<forall>v \<in> set (operands (mcode m i)). (is_variable v \<longrightarrow> below (next_ptr m) v) \<and>
     (\<forall>x. v = VInst x \<and> in_loop m L x \<longrightarrow> ity (mcode m x) \<noteq> VoidTy \<and> VInst i \<in> set (users x))))"

definition branches_fit :: "split_env \<Rightarrow> module_ir \<Rightarrow> bool" where
  "branches_fit E m \<longleftrightarrow> cfg_ok E m \<and> (\<forall>t < MAX_THREAD. lheader (floop E) \<in> set (rel_blocks m (fplan E) t)) \<and>
     branches_related E m \<and> branches_early E m \<and> values_ok E m"

lemma store_loop_insts:
  assumes v: "views F m f" and inv: "store_inv m" and d: "distinct (lblocks L)"
  shows "distinct (loop_insts F L)"
proof -
  have "distinct (concat (map (mbody m) bs))" if "distinct bs" for bs
    using that
  proof (induction bs)
    case (Cons b bs)
    have "set (mbody m b) \<inter> set (mbody m c) = {}" if "c \<in> set bs" for c
    proof -
      have "b \<noteq> c" using that Cons.prems by auto
      then show ?thesis using store_inst [OF inv] by blast
    qed
    then show ?case using Cons inv by (auto simp: store_inv_def)
  qed simp
  from this [OF d] show ?thesis using v by (simp add: views_def loop_insts_def)
qed

lemma plan_live:
  assumes v: "views F m f" "store_inv m" and li: "getLiveinfo F L = Ok li" and u: "inst_uses_only F (loop_insts F L)"
    and d: "distinct (loop_insts F L)" and ops: "operands_ok (uses F) m L"
  shows "live_fits m L li"
proof -
  note I = in_loop_insts [OF v]
  have s: "liveout li = map VInst (filter (used_outside F L) (loop_insts F L))"
    "set (livein li) = {v. is_variable v \<and> (\<exists>i \<in> set (loop_insts F L). v \<in> set (operands (code F i)))} - set (defined_vars F (loop_insts F L))"
    using getLiveinfo_sets [OF u d] li by auto
  have c: "code F = mcode m" using v(1) by (simp add: views_def)
  have "is_variable v \<and> below (next_ptr m) v \<and> (\<forall>i. v = VInst i \<longrightarrow> \<not> in_loop m L i)" if lv: "v \<in> set (livein li)" for v
  proof -
    obtain i where i: "is_variable v" "in_loop m L i" "v \<in> set (operands (mcode m i))" "v \<notin> set (defined_vars F (loop_insts F L))"
      using lv unfolding s(2) c by (auto simp: I)
    have "\<not> in_loop m L x" if "v = VInst x" for x
      using i that ops I c unfolding operands_ok_def defined_vars_def by fastforce
    then show ?thesis using i(1-3) ops unfolding operands_ok_def by blast
  qed
  moreover have "\<exists>i. v = VInst i \<and> in_loop m L i" if "v \<in> set (liveout li)" for v
    using that I unfolding s(1) by auto
  ultimately show ?thesis unfolding live_fits_def by blast
qed

lemma plan_splittable:
  fixes F :: func_ir and L :: loop_ir
  assumes ok: "llvm_ok A F L" and v: "views F m f" "store_inv m" and ops: "operands_ok (uses F) m L"
    and run: "analyse_loop tie A f F L ps = Ok (Some P, ps')" and d: "distinct (loop_insts F L)"
    and bf: "branches_fit (loop_env L ex pr P doms) m"
  shows "splittable (loop_env L ex pr P doms) m" "live_fits m L (live P)"
proof -
  note p = plan_parts [OF ok run]
  have g: "graph_inv (pgraph P)" "edges_within (pgraph P) (loop_insts F L)" "\<forall>u v d. has_edge (pgraph P) u v d \<longleftrightarrow> pdg_rel F L (memory A) u v d"
    "sccs P = scc_of (pgraph P) (loop_insts F L)" "threadPartition tie (opcode_of F) (loop_insts F L) (sccs P) = Ok (threads_of P)"
    "getLiveinfo F L = Ok (live P)"
    using p by blast+
  have "partition_ok (opcode_of F) (loop_insts F L) (sccs P) (threads_of P)"
    using partition_of_scc_ok [OF g(1,2)] g(5) unfolding g(4) by blast
  then have "plan_ok m L P" by (rule plan_fits [OF v g(1,2,4)])
  moreover have "edges_ok (loop_env L ex pr P doms) m"
    by (rule edges_fit [OF v, of "loop_env L ex pr P doms"], unfold loop_env_sel)
      (use g ops in \<open>auto simp: operands_ok_def\<close>)
  ultimately show "splittable (loop_env L ex pr P doms) m"
    using bf unfolding splittable_def branches_fit_def loop_env_sel by blast
  show "live_fits m L (live P)"
    by (rule plan_live [OF v g(6) _ d ops]) (use ok in \<open>simp add: llvm_ok_def\<close>)
qed

section \<open>The pass on a loop\<close>

text \<open>The two cases: no plan, or a plan that the transformation carries out.\<close>

lemma run_on_loop_cases:
  fixes m :: module_ir and L :: loop_ir
  assumes ok: "llvm_ok (analyses_of A) (func_view f (uses_of A) m) L"
    and I: "loop_input A f L ex pr (loopCounter ps + 1) m" "lexit L = Some ex" "lpred L = Some pr"
    and ops: "operands_ok (uses_of A m) m L"
    and plan: "\<forall>P ps'. analyse_loop tie (analyses_of A) f (func_view f (uses_of A) m) L ps = Ok (Some P, ps') \<longrightarrow>
      branches_fit (loop_env L ex pr P (dom_tables A (mblocks m f))) m"
  shows "(\<exists>ps'. runOnLoop tie A f L ps m = Ok (False, ps', m) \<and> generated ps' = generated ps \<and>
      (\<nexists>P ps1. analyse_loop tie (analyses_of A) f (func_view f (uses_of A) m) L ps = Ok (Some P, ps1))) \<or>
    (\<exists>ps' m' P ps1. runOnLoop tie A f L ps m = Ok (True, ps', m') \<and>
      analyse_loop tie (analyses_of A) f (func_view f (uses_of A) m) L ps = Ok (Some P, ps1) \<and>
      transform_loop A f L ex pr P ps1 m = Ok (ps', m') \<and> loopCounter ps1 = loopCounter ps + 1 \<and>
      splittable (loop_env L ex pr P (dom_tables A (mblocks m f))) m \<and> live_fits m L (live P) \<and>
      generated ps' = generated ps \<union> set (workers (loopCounter ps + 1)) \<and> (\<forall>b \<in> set (mblocks m' f). \<not> contains L b) \<and>
      (\<forall>g \<in> set (workers (loopCounter ps + 1)). mblocks m' g \<noteq> [] \<and> (\<forall>b \<in> set (mblocks m' g). worker_block_ok L m m' b)))"
proof -
  let ?F = "func_view f (uses_of A) m"
  have v: "views ?F m f" "uses ?F = uses_of A m" by (simp_all add: views_def func_view_def)
  have s: "loop_shape m f L ex pr" using I(1) unfolding loop_input_def by blast
  note sh = loop_shapeD [OF s]
  have d: "distinct (loop_insts ?F L)" by (rule store_loop_insts [OF v(1) sh(1,2)])
  show ?thesis
  proof (cases "candidate f L ps")
    case False
    then obtain ps' where "analyse_loop tie (analyses_of A) f ?F L ps = Ok (None, ps')" "generated ps' = generated ps"
      using not_candidate by blast
    then show ?thesis by (simp add: runOnLoop_def)
  next
    case True
    obtain plan ps1 where a: "analyse_loop tie (analyses_of A) f ?F L ps = Ok (plan, ps1)" "loopCounter ps1 = loopCounter ps + 1"
      "generated ps1 = generated ps"
      using analyse_candidate [OF ok True, of tie] by auto
    show ?thesis
    proof (cases plan)
      case None
      then show ?thesis using a by (simp add: runOnLoop_def)
    next
      case (Some P)
      note run = a(1) [unfolded Some]
      have sp: "splittable (loop_env L ex pr P (dom_tables A (mblocks m f))) m" "live_fits m L (live P)"
        using plan_splittable [OF ok v(1) sh(1) _ run d plan [rule_format, OF run]] ops v(2) by simp_all
      from transform_run [of A f L ex pr ps1 m P] sp I(1) a(2) obtain m' where
        "transform_loop A f L ex pr P ps1 m = Ok (ps1\<lparr>generated := generated ps1 \<union> set (workers (loopCounter ps1))\<rparr>, m')"
        "\<forall>b \<in> set (mblocks m' f). \<not> contains L b"
        "\<forall>g \<in> set (workers (loopCounter ps1)). mblocks m' g \<noteq> [] \<and> (\<forall>b \<in> set (mblocks m' g). worker_block_ok L m m' b)"
        by auto
      then show ?thesis using run I(2,3) a(2,3) sp by (simp add: runOnLoop_def)
    qed
  qed
qed

text \<open>
  C1. The pass on a loop: when LLVM's answers are about the loop, the loop is the shape LLVM guarantees for a single
  predecessor and a single exit, and the branches that a thread copies from another one are where that thread can follow
  them, \<open>runOnLoop\<close> returns. If the analyses find no plan it leaves the module as it is; otherwise it removes the blocks of the
  loop from the function, and the functions it adds for the threads consist of well-formed blocks that use no value of the
  removed loop.
\<close>

theorem run_on_loop:
  fixes m :: module_ir and L :: loop_ir
  assumes ok: "llvm_ok (analyses_of A) (func_view f (uses_of A) m) L"
    and I: "loop_input A f L ex pr (loopCounter ps + 1) m" "lexit L = Some ex" "lpred L = Some pr"
    and ops: "operands_ok (uses_of A m) m L"
    and plan: "\<And>P ps'. analyse_loop tie (analyses_of A) f (func_view f (uses_of A) m) L ps = Ok (Some P, ps') \<Longrightarrow>
      branches_fit (loop_env L ex pr P (dom_tables A (mblocks m f))) m"
  shows "\<exists>done ps' m'. runOnLoop tie A f L ps m = Ok (done, ps', m') \<and>
    (done \<longleftrightarrow> (\<exists>P ps1. analyse_loop tie (analyses_of A) f (func_view f (uses_of A) m) L ps = Ok (Some P, ps1))) \<and>
    (\<not> done \<longrightarrow> m' = m \<and> generated ps' = generated ps) \<and>
    (done \<longrightarrow> generated ps' = generated ps \<union> set (workers (loopCounter ps + 1)) \<and>
      (\<forall>b \<in> set (mblocks m' f). \<not> contains L b) \<and>
      (\<forall>g \<in> set (workers (loopCounter ps + 1)). mblocks m' g \<noteq> [] \<and> (\<forall>b \<in> set (mblocks m' g). worker_block_ok L m m' b)))"
proof -
  have "\<forall>P ps'. analyse_loop tie (analyses_of A) f (func_view f (uses_of A) m) L ps = Ok (Some P, ps') \<longrightarrow>
      branches_fit (loop_env L ex pr P (dom_tables A (mblocks m f))) m" using plan by blast
  from run_on_loop_cases [OF ok I ops this] show ?thesis
  proof (elim disjE exE conjE)
    fix ps' assume "runOnLoop tie A f L ps m = Ok (False, ps', m)" "generated ps' = generated ps"
      "\<nexists>P ps1. analyse_loop tie (analyses_of A) f (func_view f (uses_of A) m) L ps = Ok (Some P, ps1)"
    then show ?thesis by (intro exI [of _ False]) auto
  qed (intro exI [of _ True], auto)
qed

lemma pipe_input: "loop_input pipe_all ''f'' pipe_loop 2 0 1 pipe_module"
proof -
  have one: "one_term_blocks pipe_loop pipe_module"
    by (simp add: one_term_blocks_def pipe_sel pipe_contains one_end_def is_term_def) (simp add: pipe_code_def is_terminator_def)
  have "loop_shape pipe_module ''f'' pipe_loop 2 0"
    unfolding loop_shape_def using pipe_inv one
    by (simp add: pipe_contains pipe_sel is_term_def) (simp add: pipe_loop_def pipe_module_def pipe_code_def is_terminator_def)
  moreover have "workers_new pipe_module 1"
    using worker_not_runtime by (auto simp: workers_new_def workers_def worker_name_def pipe_module_def small_module_decl)
  ultimately show ?thesis
    using pipeline_okD(8,9) [OF pipe_pipeline] listed_users_ok by (simp add: loop_input_def pipe_all_def)
qed

lemma pipe_operands: "operands_ok (uses_of pipe_all pipe_module) pipe_module pipe_loop"
  unfolding operands_ok_def pipe_in_loop
  by (simp add: pipe_all_def pipe_uses_def pipe_sel) (simp add: pipe_code_def pipe_module_def is_variable_def)

lemma pipe_branches:
  assumes run: "analyse_loop (\<lambda>_. 0) small_llvm ''f'' pipe_func pipe_loop pass_start = Ok (Some P, ps')"
  shows "branches_fit (loop_env pipe_loop 2 0 P (dom_tables pipe_all (mblocks pipe_module ''f''))) pipe_module"
proof -
  let ?E = "loop_env pipe_loop 2 0 P (dom_tables pipe_all (mblocks pipe_module ''f''))"
  note F = pipe_found [OF run]
  have N: "thread_num P 10 = 0" "thread_num P 11 = 0" "thread_num P 12 = 0" "thread_num P 13 = 1" by (simp_all add: F(2))
  note p = plan_parts [OF pipe_llvm_ok run]
  have plan: "plan_ok pipe_module pipe_loop P"
    by (rule plan_fits [OF pipe_views(1) pipe_inv, where opc = "opcode_of pipe_func"])
      (use p partition_of_scc_ok in \<open>metis\<close>)+
  have rel: "1 \<in> set (rel_blocks pipe_module P t)" if "t < MAX_THREAD" for t
  proof -
    have "t = 0 \<or> t = 1" using that by (auto simp: MAX_THREAD_def)
    then obtain i where "i \<in> {10, 13}" "thread_num P i = t" using N by force
    moreover from this have "in_loop pipe_module pipe_loop i" "mparent pipe_module i = 1"
      by (auto simp: pipe_in_loop) (simp_all add: pipe_module_def)
    ultimately show ?thesis using rel_blocks_in(2) [OF plan that] by metis
  qed
  have cr: "crosses ?E pipe_module e t \<Longrightarrow> t = Suc 0 \<and> eu e \<in> {10, 11, 12} \<and> (dtype e = REG \<longrightarrow> eu e \<in> {10, 11})" for e t
    unfolding crosses_def loop_env_sel F(1) by (auto simp: MAX_THREAD_def mk_edge_def N)
  have "cfg_ok ?E pipe_module"
  proof -
    have "(1, 2) \<in> (up_rel (fpostidom ?E))\<^sup>*" "(1, 0) \<in> (up_rel (fidom ?E))\<^sup>*"
      by (auto intro!: r_into_rtrancl simp: up_rel_def loop_env_sel dom_tables_def pipe_all_def pipe_module_def)
    then show ?thesis
      by (auto simp: cfg_ok_def loop_env_sel pipe_contains pipe_module_def pipe_code_def is_terminator_def)
  qed
  moreover have "\<forall>t < MAX_THREAD. lheader pipe_loop \<in> set (rel_blocks pipe_module P t)"
    using rel by (simp add: pipe_loop_def)
  moreover have "branches_related ?E pipe_module"
    unfolding branches_related_def loop_env_sel
    using cr rel [of 1] by (fastforce simp: pipe_module_def MAX_THREAD_def)
  moreover have "values_ok ?E pipe_module"
    unfolding values_ok_def using cr by (fastforce simp: pipe_sel pipe_code_def is_terminator_def sendable_def)
  moreover have "branches_early ?E pipe_module"
    unfolding branches_early_def all_threads loop_env_sel pipe_in_loop
  proof (intro conjI ballI impI allI)
    fix i x assume i: "i \<in> set (thread_insts ?E pipe_module 0)" "thread_num P i \<noteq> 0"
      and x: "x \<in> {10, 11, 12, 13} \<and> VInst x \<in> set (operands (mcode pipe_module i))"
    obtain b where b: "b \<in> set (rel_blocks pipe_module P 0)" "i \<in> set (mbody pipe_module b)" "keep P pipe_module 0 i"
      using i(1) by (auto simp: thread_insts_def kept_def loop_env_sel)
    have "contains pipe_loop b" by (rule rel_blocks_in(1) [OF plan _ b(1)]) (simp add: MAX_THREAD_def)
    then have "i \<in> {10, 11, 13, 12}" using b(2) by (simp add: pipe_contains pipe_sel)
    with b(3) show "thread_num P x \<le> 0"
      using i(2) by (auto simp: N keep_def pipe_sel pipe_code_def is_terminator_def)
  qed (auto simp: N)
  ultimately show ?thesis unfolding branches_fit_def loop_env_sel by blast
qed

theorem run_on_loop_witness:
  "\<exists>ps' m'. runOnLoop (\<lambda>_. 0) pipe_all ''f'' pipe_loop pass_start pipe_module = Ok (True, ps', m') \<and>
    1 \<notin> set (mblocks m' ''f'') \<and> generated ps' = set (workers 1) \<and>
    (\<forall>g \<in> set (workers 1). mblocks m' g \<noteq> [] \<and> (\<forall>b \<in> set (mblocks m' g). worker_block_ok pipe_loop pipe_module m' b))"
proof -
  have A: "analyses_of pipe_all = small_llvm" "func_view ''f'' (uses_of pipe_all) pipe_module = pipe_func"
    by (simp_all add: pipe_all_def pipe_func_def)
  have start: "loopCounter pass_start + 1 = 1" "generated pass_start = {}" by (simp_all add: pass_start_def)
  have "lexit pipe_loop = Some 2" "lpred pipe_loop = Some 0" by (simp_all add: pipe_loop_def)
  note R = run_on_loop [where tie = "\<lambda>_. 0" and ps = pass_start and A = pipe_all and f = "''f''" and m = pipe_module and L = pipe_loop,
      OF _ _ this pipe_operands, unfolded A start]
  obtain P ps1 where "analyse_loop (\<lambda>_. 0) small_llvm ''f'' pipe_func pipe_loop pass_start = Ok (Some P, ps1)"
    using pipe_analysed by (auto split: outcome.splits option.splits prod.splits)
  moreover have "\<exists>done ps' m'. runOnLoop (\<lambda>_. 0) pipe_all ''f'' pipe_loop pass_start pipe_module = Ok (done, ps', m') \<and>
    (done \<longleftrightarrow> (\<exists>P ps1. analyse_loop (\<lambda>_. 0) small_llvm ''f'' pipe_func pipe_loop pass_start = Ok (Some P, ps1))) \<and>
    (\<not> done \<longrightarrow> m' = pipe_module \<and> generated ps' = {}) \<and>
    (done \<longrightarrow> generated ps' = {} \<union> set (workers 1) \<and> (\<forall>b \<in> set (mblocks m' ''f''). \<not> contains pipe_loop b) \<and>
      (\<forall>g \<in> set (workers 1). mblocks m' g \<noteq> [] \<and> (\<forall>b \<in> set (mblocks m' g). worker_block_ok pipe_loop pipe_module m' b)))"
    by (rule R [OF pipe_llvm_ok pipe_input]) (rule pipe_branches)
  ultimately show ?thesis unfolding pipe_contains by auto
qed

end
