(* ===== verification/Worker_Path.thy ===== *)
theory Worker_Path
  imports Loop_Split_Result
begin

text \<open>
  The paths of the workers. \<open>loopSplit\<close> leads a branch to a block that a thread has not copied to the next copied
  block up the post-dominator tree (the comment in the code asks whether this is right). Here: it is, for a set of blocks
  that is closed under control dependence. Then a worker passes through the copies of its blocks exactly as the loop
  passes through the blocks.
\<close>

section \<open>Runs\<close>

text \<open>The targets of the terminator of a block; a run is a list of blocks with the branch that is taken at the end of each.\<close>

definition next_blocks :: "module_ir \<Rightarrow> BB \<Rightarrow> BB list" where
  "next_blocks m b = succs (mcode m (last (mbody m b)))"

definition loop_step :: "split_env \<Rightarrow> module_ir \<Rightarrow> BB \<Rightarrow> nat \<Rightarrow> BB option" where
  "loop_step E m b j = (if contains (floop E) b \<and> j < length (next_blocks m b) then Some (next_blocks m b ! j) else None)"

text \<open>A terminator with a single target goes there for whatever reason.\<close>

definition branch :: "module_ir \<Rightarrow> BB \<Rightarrow> nat \<Rightarrow> BB option" where
  "branch m b j = (case next_blocks m b of [] \<Rightarrow> None | [s] \<Rightarrow> Some s | ss \<Rightarrow> if j < length ss then Some (ss ! j) else None)"

fun follows :: "(BB \<Rightarrow> nat \<Rightarrow> BB option) \<Rightarrow> (BB \<times> nat) list \<Rightarrow> bool" where
  "follows step ((b, j) # (c, k) # r) \<longleftrightarrow> step b j = Some c \<and> follows step ((c, k) # r)"
| "follows step _ \<longleftrightarrow> True"

definition lflow :: "split_env \<Rightarrow> module_ir \<Rightarrow> (BB \<times> BB) set" where
  "lflow E m = {(b, c). \<exists>j. loop_step E m b j = Some c}"

lemma lflow_source: "(b, c) \<in> lflow E m \<Longrightarrow> contains (floop E) b"
  by (auto simp: lflow_def loop_step_def split: if_splits)

text \<open>\<open>p\<close> is on every way from \<open>b\<close> to the exit.\<close>

definition must_pass :: "split_env \<Rightarrow> module_ir \<Rightarrow> BB \<Rightarrow> BB \<Rightarrow> bool" where
  "must_pass E m p b \<longleftrightarrow> p = b \<or> (b, fexit E) \<notin> {(x, y) \<in> lflow E m. x \<noteq> p \<and> y \<noteq> p}\<^sup>*"

section \<open>What the tree and the blocks have to be\<close>

text \<open>LLVM's answer: the chain of immediate post-dominators of a block are the blocks no way out of the loop avoids.\<close>

definition exit_tree :: "split_env \<Rightarrow> module_ir \<Rightarrow> bool" where
  "exit_tree E m \<longleftrightarrow> (\<forall>b. contains (floop E) b \<longrightarrow> (b, fexit E) \<in> (lflow E m)\<^sup>* \<and> (fexit E, b) \<notin> (up_rel (fpostidom E))\<^sup>* \<and>
     (\<forall>p. fpostidom E b = Some p \<longrightarrow> contains (floop E) p \<or> p = fexit E) \<and>
     (\<forall>p. contains (floop E) p \<or> p = fexit E \<longrightarrow> ((b, p) \<in> (up_rel (fpostidom E))\<^sup>* \<longleftrightarrow> must_pass E m p b)))"

text \<open>The blocks that decide whether a block of the set is reached are in the set.\<close>

definition control_closed :: "split_env \<Rightarrow> module_ir \<Rightarrow> BB set \<Rightarrow> bool" where
  "control_closed E m R \<longleftrightarrow> (\<forall>q \<in> R. \<forall>(x, y) \<in> lflow E m. must_pass E m q y \<and> \<not> must_pass E m q x \<longrightarrow> x \<in> R)"

text \<open>Ways that meet no block of the set before their end.\<close>

definition free_flow :: "split_env \<Rightarrow> module_ir \<Rightarrow> BB set \<Rightarrow> (BB \<times> BB) set" where
  "free_flow E m R = {(x, y) \<in> lflow E m. x \<notin> R}"

section \<open>The next copied block\<close>

lemma must_pass_self [simp]: "must_pass E m b b"
  by (simp add: must_pass_def)

lemma must_pass_exit: "contains (floop E) b \<Longrightarrow> must_pass E m (fexit E) b"
proof (cases "b = fexit E")
  case False
  have "(b, fexit E) \<notin> {(x, y) \<in> lflow E m. x \<noteq> fexit E \<and> y \<noteq> fexit E}\<^sup>*"
  proof
    assume "(b, fexit E) \<in> {(x, y) \<in> lflow E m. x \<noteq> fexit E \<and> y \<noteq> fexit E}\<^sup>*"
    then show False by (cases rule: rtrancl.cases) (use False in auto)
  qed
  then show ?thesis by (simp add: must_pass_def)
qed simp

text \<open>Two blocks that are both on every way of the other to the exit are the same.\<close>

lemma must_pass_antisym:
  assumes pq: "must_pass E m p q" "must_pass E m q p" and out: "(p, fexit E) \<in> (lflow E m)\<^sup>*" and ex: "p \<noteq> fexit E" "q \<noteq> fexit E"
  shows "p = q"
proof (rule ccontr)
  assume ne: "p \<noteq> q"
  have "\<not> (p, fexit E) \<in> lflow E m ^^ n \<and> \<not> (q, fexit E) \<in> lflow E m ^^ n" for n
  proof (induction n rule: less_induct)
    case (less n)
    have step: "\<not> (a, fexit E) \<in> lflow E m ^^ n" if mp: "must_pass E m z a" "z \<noteq> a" "z \<noteq> fexit E"
      and no: "\<forall>k < n. \<not> (z, fexit E) \<in> lflow E m ^^ k" for a z
    proof
      assume "(a, fexit E) \<in> lflow E m ^^ n"
      moreover have "(x, fexit E) \<in> {(x, y) \<in> lflow E m. x \<noteq> z \<and> y \<noteq> z}\<^sup>*" if "(x, fexit E) \<in> lflow E m ^^ k" "k \<le> n" "x \<noteq> z" for x k
        using that
      proof (induction k arbitrary: x)
        case (Suc k)
        then obtain y where y: "(x, y) \<in> lflow E m" "(y, fexit E) \<in> lflow E m ^^ k" by (meson relpow_Suc_E2)
        then have "y \<noteq> z" using no Suc.prems(2) by (metis Suc_le_lessD)
        then have "(x, y) \<in> {(x, y) \<in> lflow E m. x \<noteq> z \<and> y \<noteq> z}" using y(1) Suc.prems(3) by simp
        moreover have "(y, fexit E) \<in> {(x, y) \<in> lflow E m. x \<noteq> z \<and> y \<noteq> z}\<^sup>*" using Suc.IH y(2) Suc.prems(2) \<open>y \<noteq> z\<close> by simp
        ultimately show ?case by (rule converse_rtrancl_into_rtrancl)
      qed simp
      ultimately show False using mp unfolding must_pass_def by blast
    qed
    have "\<forall>k < n. \<not> (q, fexit E) \<in> lflow E m ^^ k" "\<forall>k < n. \<not> (p, fexit E) \<in> lflow E m ^^ k" using less by blast+
    then show ?case using step [of q p] step [of p q] pq ne ex by blast
  qed
  then show False using out by (meson rtrancl_imp_relpow)
qed

text \<open>The first block of a closed set on a way is on every way.\<close>

lemma first_must_pass:
  assumes cl: "control_closed E m R" and q: "q \<in> R \<or> q = fexit E" and w: "(s, q) \<in> (free_flow E m R)\<^sup>*"
  shows "must_pass E m q s"
  using w
proof (induction rule: converse_rtrancl_induct)
  case (step x y)
  have f: "(x, y) \<in> lflow E m" "x \<notin> R" using step.hyps(1) by (auto simp: free_flow_def)
  from q show ?case
  proof
    assume "q \<in> R"
    then show ?thesis using cl f step.IH unfolding control_closed_def by blast
  next
    assume "q = fexit E"
    then show ?thesis using must_pass_exit lflow_source [OF f(1)] by simp
  qed
qed simp

text \<open>A climb from a block of the loop stops at the nearest block with a copy, in the loop or at its exit.\<close>

lemma exit_treeD:
  assumes "exit_tree E m" "contains (floop E) b"
  shows "(b, fexit E) \<in> (lflow E m)\<^sup>*" "(fexit E, b) \<notin> (up_rel (fpostidom E))\<^sup>*"
    "fpostidom E b = Some p \<Longrightarrow> contains (floop E) p \<or> p = fexit E"
    "contains (floop E) p \<or> p = fexit E \<Longrightarrow> (b, p) \<in> (up_rel (fpostidom E))\<^sup>* \<longleftrightarrow> must_pass E m p b"
  using assms unfolding exit_tree_def by blast+

lemma climb_nearest:
  assumes tree: "exit_tree E m" and ex: "bbm (fexit E) \<noteq> None"
    and up: "(b, c) \<in> (up_rel (fpostidom E))\<^sup>*" "bbm c \<noteq> None" "contains (floop E) b"
  shows "\<exists>d nb. climb bbm (fpostidom E) msg b = Some (Ok nb) \<and> bbm d = Some nb \<and> (contains (floop E) d \<or> d = fexit E) \<and>
    (b, d) \<in> (up_rel (fpostidom E))\<^sup>* \<and> (d, c) \<in> (up_rel (fpostidom E))\<^sup>*"
  using up
proof (induction rule: converse_rtrancl_induct)
  case base
  then obtain nb where "bbm c = Some nb" by blast
  then show ?case using base by (subst climb.simps) auto
next
  case (step x y)
  have xc: "(x, c) \<in> (up_rel (fpostidom E))\<^sup>*" by (rule converse_rtrancl_into_rtrancl [OF step.hyps(1,2)])
  have up: "fpostidom E x = Some y" using step.hyps(1) by (simp add: up_rel_def)
  show ?case
  proof (cases "bbm x")
    case None
    then have go: "climb bbm (fpostidom E) msg x = climb bbm (fpostidom E) msg y" using up by (subst climb.simps) simp
    have "\<exists>d nb. climb bbm (fpostidom E) msg y = Some (Ok nb) \<and> bbm d = Some nb \<and> (contains (floop E) d \<or> d = fexit E) \<and>
        (y, d) \<in> (up_rel (fpostidom E))\<^sup>* \<and> (d, c) \<in> (up_rel (fpostidom E))\<^sup>*"
    proof (cases "y = fexit E")
      case True
      obtain nb where "bbm (fexit E) = Some nb" using ex by blast
      then show ?thesis using True step.hyps(2) by (intro exI [of _ y] exI [of _ nb]) (subst climb.simps, simp)
    next
      case False
      then show ?thesis using step.IH step.prems exit_treeD(3) [OF tree step.prems(2) up] by blast
    qed
    then obtain d nb where d: "climb bbm (fpostidom E) msg y = Some (Ok nb)" "bbm d = Some nb" "contains (floop E) d \<or> d = fexit E"
      "(y, d) \<in> (up_rel (fpostidom E))\<^sup>*" "(d, c) \<in> (up_rel (fpostidom E))\<^sup>*" by blast
    then show ?thesis using go converse_rtrancl_into_rtrancl [OF step.hyps(1) d(4)] by (intro exI [of _ d] exI [of _ nb]) simp
  next
    case (Some nb)
    then show ?thesis using xc step.prems(2) by (subst climb.simps) auto
  qed
qed

lemma climb_first:
  assumes tree: "exit_tree E m" and cl: "control_closed E m R" and R: "\<forall>b \<in> R. contains (floop E) b"
    and bbm: "\<And>x. bbm x \<noteq> None \<longleftrightarrow> x \<in> R \<or> x = fexit E \<or> x = fpred E" and out: "\<not> contains (floop E) (fpred E)" "\<not> contains (floop E) (fexit E)"
    and s: "contains (floop E) s \<or> s = fexit E" and q: "q \<in> R \<or> q = fexit E" and w: "(s, q) \<in> (free_flow E m R)\<^sup>*"
  shows "climb bbm (fpostidom E) msg s = Some (Ok (the (bbm q)))"
proof (cases "s = fexit E")
  case True
  have "q = s"
    using w
  proof (cases rule: converse_rtranclE)
    case (step y)
    then show ?thesis using lflow_source out(2) True by (auto simp: free_flow_def)
  qed simp
  moreover have "bbm q \<noteq> None" using bbm q by blast
  ultimately show ?thesis by (subst climb.simps) auto
next
  case False
  then have sl: "contains (floop E) s" using s by blast
  have ql: "contains (floop E) q \<or> q = fexit E" using q R by blast
  have mq: "must_pass E m q s" by (rule first_must_pass [OF cl q w])
  then have "(s, q) \<in> (up_rel (fpostidom E))\<^sup>*" using exit_treeD(4) [OF tree sl ql] by blast
  moreover have "bbm q \<noteq> None" "bbm (fexit E) \<noteq> None" using bbm q by blast+
  ultimately obtain d nb where d: "climb bbm (fpostidom E) msg s = Some (Ok nb)" "bbm d = Some nb" "contains (floop E) d \<or> d = fexit E"
    "(s, d) \<in> (up_rel (fpostidom E))\<^sup>*" "(d, q) \<in> (up_rel (fpostidom E))\<^sup>*"
    using climb_nearest [OF tree _ _ _ sl] by blast
  have "d = q"
  proof (rule ccontr)
    assume ne: "d \<noteq> q"
    have "q \<noteq> fexit E \<Longrightarrow> d \<noteq> fexit E" using d(5) ql exit_treeD(2) [OF tree] by blast
    have md: "must_pass E m d s" using d(3,4) exit_treeD(4) [OF tree sl] by blast
    show False
    proof (cases "d = fexit E")
      case True
      then show False using d(5) ql ne exit_treeD(2) [OF tree] by blast
    next
      case dl: False
      then have dl': "contains (floop E) d" using d(3) by blast
      have dR: "d \<in> R" using bbm [of d] d(2) dl dl' out(1) by auto
      let ?A = "{(x, y) \<in> lflow E m. x \<noteq> d \<and> y \<noteq> d}"
      have "(s, q) \<in> ?A\<^sup>* \<and> s \<noteq> d"
        using w
      proof (induction rule: converse_rtrancl_induct)
        case (step x y)
        then have "(x, y) \<in> ?A" using dR by (auto simp: free_flow_def)
        then show ?case using step.IH converse_rtrancl_into_rtrancl [of x y ?A q] by blast
      qed (use ne in simp)
      then have "must_pass E m d q" using md rtrancl_trans [of s q ?A] unfolding must_pass_def by blast
      moreover have "q \<noteq> fexit E" using calculation ne unfolding must_pass_def by auto
      moreover have "must_pass E m q d" using d(5) exit_treeD(4) [OF tree dl'] ql by blast
      ultimately show False using must_pass_antisym [of E m d q] exit_treeD(1) [OF tree dl'] dl ne by blast
    qed
  qed
  then show ?thesis using d(1,2) by simp
qed

section \<open>The path of a worker\<close>

text \<open>The part of a run that a thread takes part in.\<close>

definition visits :: "split_env \<Rightarrow> BB set \<Rightarrow> (BB \<times> nat) list \<Rightarrow> (BB \<times> nat) list" where
  "visits E R run = filter (\<lambda>bj. fst bj \<in> R \<or> fst bj = fexit E) run"

text \<open>The first copied block on a run is reached without meeting another one.\<close>

lemma run_free:
  assumes "follows (loop_step E m) ((s, j) # r)" "visits E R ((s, j) # r) = (q, k) # r'"
  shows "(s, q) \<in> (free_flow E m R)\<^sup>*"
  using assms
proof (induction r arbitrary: s j)
  case Nil
  then show ?case by (auto simp: visits_def split: if_splits)
next
  case (Cons c r)
  obtain t l where c: "c = (t, l)" by fastforce
  show ?case
  proof (cases "s \<in> R \<or> s = fexit E")
    case True
    then show ?thesis using Cons.prems by (auto simp: visits_def)
  next
    case False
    then have "(t, q) \<in> (free_flow E m R)\<^sup>*" using Cons.IH [of t l] Cons.prems by (auto simp: c visits_def)
    moreover have "(s, t) \<in> free_flow E m R" using Cons.prems(1) False by (auto simp: c free_flow_def lflow_def)
    ultimately show ?thesis by (rule converse_rtrancl_into_rtrancl [rotated])
  qed
qed

text \<open>
  If the branches of the copies lead to the copies of the first copied blocks on the ways from the original targets, the
  copies are run through as the originals are.
\<close>

lemma visits_follow:
  assumes "\<And>b j s q. b \<in> R \<Longrightarrow> loop_step E m b j = Some s \<Longrightarrow> q \<in> R \<or> q = fexit E \<Longrightarrow> (s, q) \<in> (free_flow E m R)\<^sup>* \<Longrightarrow>
      step (cp b) j = Some (cp q)"
    and "follows (loop_step E m) run" and "\<not> contains (floop E) (fexit E)"
  shows "follows step (map (apfst cp) (visits E R run))"
  using assms(2)
proof (induction run)
  case (Cons c run)
  obtain b j where c: "c = (b, j)" by fastforce
  have tail: "follows (loop_step E m) run" using Cons.prems c by (cases run) (auto simp: c)
  show ?case
  proof (cases "b \<in> R \<or> b = fexit E")
    case False
    then show ?thesis using Cons.IH [OF tail] by (simp add: visits_def c)
  next
    case True
    then have v: "visits E R (c # run) = (b, j) # visits E R run" by (simp add: visits_def c)
    show ?thesis
    proof (cases "visits E R run")
      case Nil
      then show ?thesis unfolding v by simp
    next
      case (Cons d rest)
      obtain q k where d: "d = (q, k)" by fastforce
      obtain s l r where run: "run = (s, l) # r" using Cons by (cases run) (auto simp: visits_def)
      have st: "loop_step E m b j = Some s" using Cons.prems by (simp add: c run)
      then have "b \<in> R" using True assms(3) by (auto simp: loop_step_def split: if_splits)
      moreover have "q \<in> R \<or> q = fexit E" 
      proof -
        have "(q, k) \<in> set (visits E R run)" using Cons d by simp
        then show ?thesis by (auto simp: visits_def)
      qed
      moreover have "(s, q) \<in> (free_flow E m R)\<^sup>*" by (rule run_free [of E m s l r R q k rest]) (use tail Cons run d in auto)
      ultimately have "step (cp b) j = Some (cp q)" using assms(1) st by blast
      then show ?thesis using Cons.IH [OF tail] unfolding v Cons d by simp
    qed
  qed
qed (simp add: visits_def)

section \<open>The branches of the copies\<close>

lemma omap_nth:
  assumes "omap f xs = Ok ys"
  shows "length ys = length xs \<and> (\<forall>j < length xs. f (xs ! j) = Ok (ys ! j))"
proof -
  have "\<exists>zs. ys = acc @ zs \<and> length zs = length xs \<and> (\<forall>j < length xs. f (xs ! j) = Ok (zs ! j))"
    if "ofold (\<lambda>ys x. obind (f x) (\<lambda>y. Ok (ys @ [y]))) xs acc = Ok ys" for acc
    using that
  proof (induction xs arbitrary: acc)
    case (Cons x xs)
    then obtain y where y: "f x = Ok y" "ofold (\<lambda>ys x. obind (f x) (\<lambda>y. Ok (ys @ [y]))) xs (acc @ [y]) = Ok ys"
      by (auto simp: obind_eq_Ok)
    obtain zs where "ys = (acc @ [y]) @ zs" "length zs = length xs" "\<forall>j < length xs. f (xs ! j) = Ok (zs ! j)"
      using Cons.IH [OF y(2)] by blast
    then show ?case using y(1) by (intro exI [of _ "y # zs"]) (auto simp: nth_Cons split: nat.split)
  qed simp
  then show ?thesis using assms unfolding omap_def by force
qed

text \<open>The simplification of branches changes nothing for the path.\<close>

lemma simplify_branch_target:
  assumes "j < length ss"
  shows "(case succs (simplify_branch (ins\<lparr>succs := ss\<rparr>)) of [] \<Rightarrow> None | [s] \<Rightarrow> Some s | ss \<Rightarrow> if j < length ss then Some (ss ! j) else None) =
    Some (ss ! j)"
proof -
  obtain s ts where ss: "ss = s # ts" using assms by (cases ss) auto
  show ?thesis
  proof (cases "opcode ins \<noteq> Invoke \<and> (\<forall>t \<in> set ts. t = s)")
    case True
    then have "ss ! j = s" using assms nth_mem [OF assms] by (auto simp: ss)
    then show ?thesis using True by (simp add: simplify_branch_def ss)
  next
    case False
    then have "succs (simplify_branch (ins\<lparr>succs := ss\<rparr>)) = ss" by (auto simp: simplify_branch_def ss)
    then show ?thesis using assms by (auto simp: ss split: list.split)
  qed
qed

lemma worker_branch:
  assumes ok: "env_ok E m" "t < MAX_THREAD" and d: "thread_done E m t p st"
    and tree: "exit_tree E m" and cl: "control_closed E m (set (rel_blocks m (fplan E) t))"
    and b: "b \<in> set (rel_blocks m (fplan E) t)" and st: "loop_step E m b j = Some s"
    and q: "q \<in> set (rel_blocks m (fplan E) t) \<or> q = fexit E" and w: "(s, q) \<in> (free_flow E m (set (rel_blocks m (fplan E) t)))\<^sup>*"
  shows "branch (cmod st) (the (block_map E (rel_blocks m (fplan E) t) p b)) j = Some (the (block_map E (rel_blocks m (fplan E) t) p q))"
proof -
  let ?rel = "rel_blocks m (fplan E) t" and ?D = "thread_insts E m t" and ?M = "cmod st"
  let ?bbm = "block_map E ?rel p"
  note e = env_okD [OF ok(1)]
  have inl: "\<forall>b \<in> set ?rel. contains (floop E) b" using rel_blocks_in(1) [OF e(3) ok(2)] by blast
  have "distinct ?rel" "fpred E \<notin> set ?rel" "fexit E \<notin> set ?rel"
    using relbb_is(2) [OF plan_okD(1,2) [OF e(3)]] inl e(4,5) ok(2) by blast+
  note bm = block_map_facts [OF this, where p = p]
  have dom: "?bbm x \<noteq> None \<longleftrightarrow> x \<in> set ?rel \<or> x = fexit E \<or> x = fpred E" for x
    using bm(1,2) bm(5) [of x] block_map_ran(4) [OF ok d, of x] by (cases "?bbm x") force+
  obtain i where i: "i < length ?rel" "?rel ! i = b" using b by (auto simp: in_set_conv_nth)
  obtain k where k: "k < length ?D" "last (mbody ?M (p + 2 + i)) = copies_ptr E m t p + k" "?D ! k = last (mbody m b)"
    using worker_block_last [OF ok d i(1)] i(2) by blast
  obtain ins where ins: "clone_instr E ?bbm (mcode m (?D ! k)) = Ok ins" "mcode ?M (copies_ptr E m t p + k) = replaceUses (thread_tab E m t p) ins"
    using thread_doneD(11) [OF d k(1)] by blast
  have L: "contains (floop E) b" "is_terminator (opcode (mcode m (?D ! k)))" "mbody m b \<noteq> []"
    using inl b e(6) [of b] k(3) by auto
  then obtain ss where ss: "omap (repoint_succ E ?bbm) (succs (mcode m (?D ! k))) = Ok ss"
    "ins = simplify_branch ((mcode m (?D ! k))\<lparr>succs := ss\<rparr>)"
    using ins(1) by (auto simp: clone_instr_def outcome_simps)
  have j: "j < length (succs (mcode m (?D ! k)))" "succs (mcode m (?D ! k)) ! j = s"
    using st k(3) by (auto simp: loop_step_def next_blocks_def split: if_splits)
  have sj: "j < length ss" "repoint_succ E ?bbm s = Ok (ss ! j)" using omap_nth [OF ss(1)] j by auto
  have "last (mbody m b) \<in> set (mbody m b)" using L(3) by simp
  then have "contains (floop E) s \<or> s = fexit E" using e(2) L(1,2) k(3) j nth_mem [OF j(1)] unfolding cfg_ok_def by metis
  from climb_first [OF tree cl inl dom e(5,4) this q w, of "''postdominator info seems broken :(''"]
  have "ss ! j = the (?bbm q)" using sj(2) by (simp add: repoint_succ_def run_walk_def split: if_splits)
  moreover have "branch ?M (p + 2 + i) j = Some (ss ! j)"
    unfolding branch_def next_blocks_def k(2) ins(2) replaceUses_frame ss(2) by (rule simplify_branch_target [OF sj(1)])
  moreover have "?bbm b = Some (p + 2 + i)" using bm(3) [OF i(1)] i(2) by simp
  ultimately show ?thesis by simp
qed

section \<open>Runs of the loop and of the worker\<close>

text \<open>Ways without a block of the set, as runs; there is one from every block of the loop.\<close>

lemma free_run:
  assumes "(s, q) \<in> (free_flow E m R)\<^sup>*" "\<not> contains (floop E) (fexit E)"
  shows "\<exists>r. follows (loop_step E m) (r @ [(q, k)]) \<and> fst (hd (r @ [(q, k)])) = s \<and> visits E R r = []"
  using assms(1)
proof (induction rule: converse_rtrancl_induct)
  case base
  then show ?case by (intro exI [of _ "[]"]) (simp add: visits_def)
next
  case (step x y)
  obtain r where r: "follows (loop_step E m) (r @ [(q, k)])" "fst (hd (r @ [(q, k)])) = y" "visits E R r = []" using step.IH by blast
  have f: "(x, y) \<in> lflow E m" "x \<notin> R" using step.hyps(1) by (auto simp: free_flow_def)
  then obtain j where j: "loop_step E m x j = Some y" "x \<notin> R" "contains (floop E) x"
    using lflow_source [OF f(1)] unfolding lflow_def by blast
  obtain l r' where l: "r @ [(q, k)] = (y, l) # r'" using r(2) by (cases "r @ [(q, k)]") auto
  have "follows (loop_step E m) (((x, j) # r) @ [(q, k)])" using r(1) j(1) unfolding append_Cons l by simp
  moreover have "visits E R ((x, j) # r) = []" using r(3) j(2,3) assms(2) by (auto simp: visits_def)
  ultimately show ?case by (intro exI [of _ "(x, j) # r"]) simp
qed

lemma next_free:
  assumes "(s, fexit E) \<in> (lflow E m)\<^sup>*"
  shows "\<exists>q. (q \<in> R \<or> q = fexit E) \<and> (s, q) \<in> (free_flow E m R)\<^sup>*"
  using assms
proof (induction rule: converse_rtrancl_induct)
  case (step x y)
  then obtain q where q: "q \<in> R \<or> q = fexit E" "(y, q) \<in> (free_flow E m R)\<^sup>*" by blast
  show ?case
  proof (cases "x \<in> R")
    case False
    then have "(x, y) \<in> free_flow E m R" using step.hyps(1) by (simp add: free_flow_def)
    then show ?thesis using q converse_rtrancl_into_rtrancl [of x y "free_flow E m R"] by blast
  qed auto
qed auto

lemma follows_append:
  "follows step (r @ [(q, k)]) \<Longrightarrow> follows step ((q, k) # r') \<Longrightarrow> follows step (r @ (q, k) # r')"
proof (induction r)
  case (Cons c r)
  obtain b j where c: "c = (b, j)" by fastforce
  obtain d l where d: "hd (r @ [(q, k)]) = (d, l)" by fastforce
  then obtain r1 where r1: "r @ [(q, k)] = (d, l) # r1" by (cases "r @ [(q, k)]") auto
  then obtain r2 where r2: "r @ (q, k) # r' = (d, l) # r2" by (cases r) auto
  have "follows step (r @ (q, k) # r')" "step b j = Some d" using Cons c r1 by simp_all
  then show ?case by (simp add: c r2)
qed simp

text \<open>A run of the blocks with copies is part of a run of the loop.\<close>

lemma follow_visits:
  assumes cp: "inj_on cp (R \<union> {fexit E})" and out: "\<not> contains (floop E) (fexit E)"
    and br: "\<And>b j s q. b \<in> R \<Longrightarrow> loop_step E m b j = Some s \<Longrightarrow> q \<in> R \<or> q = fexit E \<Longrightarrow> (s, q) \<in> (free_flow E m R)\<^sup>* \<Longrightarrow>
      step (cp b) j = Some (cp q)"
    and go: "\<And>b j. b \<in> R \<Longrightarrow> j < length (next_blocks m b) \<Longrightarrow>
      \<exists>s. loop_step E m b j = Some s \<and> (s, fexit E) \<in> (lflow E m)\<^sup>*"
    and stop: "\<And>j. step (cp (fexit E)) j = None"
    and wr: "\<forall>(b, j) \<in> set wr. b \<in> R \<and> j < length (next_blocks m b) \<or> b = fexit E" "follows step (map (apfst cp) wr)"
  shows "\<exists>run. follows (loop_step E m) run \<and> visits E R run = wr \<and> (wr \<noteq> [] \<longrightarrow> run \<noteq> [] \<and> hd run = hd wr)"
  using wr
proof (induction wr)
  case (Cons c wr)
  obtain b j where c: "c = (b, j)" by fastforce
  have "follows step (map (apfst cp) wr)" using Cons.prems(2) by (cases wr) (auto simp: c)
  then obtain run where run: "follows (loop_step E m) run" "visits E R run = wr" "wr \<noteq> [] \<longrightarrow> run \<noteq> [] \<and> hd run = hd wr"
    using Cons.IH Cons.prems(1) by auto
  have b: "b \<in> R \<or> b = fexit E" using Cons.prems(1) by (auto simp: c)
  show ?case
  proof (cases wr)
    case Nil
    then show ?thesis using b by (intro exI [of _ "[c]"]) (auto simp: visits_def c)
  next
    case (Cons d wr')
    obtain q k where d: "d = (q, k)" by fastforce
    have st: "step (cp b) j = Some (cp q)" using Cons.prems(2) by (simp add: c Cons d)
    then have bR: "b \<in> R" "j < length (next_blocks m b)" using b stop Cons.prems(1) by (auto simp: c)
    have q: "q \<in> R \<or> q = fexit E" using Cons.prems(1) by (auto simp: Cons d)
    obtain s q' where s: "loop_step E m b j = Some s" and q': "q' \<in> R \<or> q' = fexit E" "(s, q') \<in> (free_flow E m R)\<^sup>*"
      using go [OF bR] next_free [of _ E m R] by blast
    have "cp q' = cp q" using br [OF bR(1) s q'] st by simp
    then have "q' = q" using cp q q'(1) unfolding inj_on_def by blast
    then obtain r where r: "follows (loop_step E m) (r @ [(q, k)])" "fst (hd (r @ [(q, k)])) = s" "visits E R r = []"
      using free_run [OF q'(2) out, of k] by blast
    obtain run' where run': "run = (q, k) # run'" using run(3) by (cases run) (auto simp: Cons d)
    have tail: "follows (loop_step E m) (r @ run)" unfolding run' by (rule follows_append [OF r(1)]) (use run(1) run' in simp)
    obtain l r' where "r @ run = (s, l) # r'" using r(2) run' by (cases r) (auto simp: prod_eq_iff)
    then have "follows (loop_step E m) (c # r @ run)" using tail s by (simp add: c)
    moreover have "visits E R (c # r @ run) = c # wr" using r(3) run(2) bR(1) by (simp add: visits_def c)
    ultimately show ?thesis by (intro exI [of _ "c # r @ run"]) simp
  qed
qed (auto simp: visits_def intro: exI [of _ "[]"])

section \<open>The workers pass through their blocks as the loop does\<close>

text \<open>
  The table of the blocks of a thread, as a function; a run of blocks with copies takes at the end of each a branch that
  the original block has.
\<close>

abbreviation (input) block_copy :: "split_env \<Rightarrow> module_ir \<Rightarrow> nat \<Rightarrow> nat \<Rightarrow> BB \<Rightarrow> BB" where
  "block_copy E m t p b \<equiv> the (block_map E (rel_blocks m (fplan E) t) p b)"

definition block_run :: "split_env \<Rightarrow> module_ir \<Rightarrow> BB set \<Rightarrow> (BB \<times> nat) list \<Rightarrow> bool" where
  "block_run E m R wr \<longleftrightarrow> (\<forall>(b, j) \<in> set wr. b \<in> R \<and> j < length (next_blocks m b) \<or> b = fexit E)"

section \<open>The table of the blocks of a thread\<close>

lemma worker_table:
  assumes "env_ok E m" "t < MAX_THREAD"
  shows "distinct (rel_blocks m (fplan E) t)" "fpred E \<notin> set (rel_blocks m (fplan E) t)" "fexit E \<notin> set (rel_blocks m (fplan E) t)"
proof -
  note e = env_okD [OF assms(1)]
  have "\<forall>b \<in> set (rel_blocks m (fplan E) t). contains (floop E) b" using rel_blocks_in(1) [OF e(3) assms(2)] by blast
  then show "distinct (rel_blocks m (fplan E) t)" "fpred E \<notin> set (rel_blocks m (fplan E) t)" "fexit E \<notin> set (rel_blocks m (fplan E) t)"
    using relbb_is(2) [OF plan_okD(1,2) [OF e(3)]] e(4,5) assms(2) by blast+
qed

lemma worker_copy_inj:
  assumes "env_ok E m" "t < MAX_THREAD"
  shows "inj_on (block_copy E m t p) (set (rel_blocks m (fplan E) t) \<union> {fexit E})"
proof -
  note bm = block_map_facts [OF worker_table [OF assms], where p = p]
  let ?rel = "rel_blocks m (fplan E) t"
  have at: "\<exists>i < length ?rel. b = ?rel ! i \<and> block_copy E m t p b = p + 2 + i" if "b \<in> set ?rel" for b
    using that bm(3) by (fastforce simp: in_set_conv_nth)
  show ?thesis
  proof (rule inj_onI)
    fix x y assume x: "x \<in> set ?rel \<union> {fexit E}" and y: "y \<in> set ?rel \<union> {fexit E}" and eq: "block_copy E m t p x = block_copy E m t p y"
    from x y show "x = y" using at [of x] at [of y] bm(1) eq by auto
  qed
qed

lemma worker_copy_block:
  assumes "env_ok E m" "t < MAX_THREAD" and d: "thread_done E m t p st" and b: "b \<in> set (rel_blocks m (fplan E) t)"
  shows "block_copy E m t p b \<in> set (mblocks (cmod st) (fworkers E ! t)) \<and>
    newToOld st (VInst (last (mbody (cmod st) (block_copy E m t p b)))) = Some (VInst (last (mbody m b)))"
proof -
  obtain j where j: "j < length (rel_blocks m (fplan E) t)" "rel_blocks m (fplan E) t ! j = b" using b by (auto simp: in_set_conv_nth)
  have c: "block_copy E m t p b = p + 2 + j" using block_map_facts(3) [OF worker_table [OF assms(1,2)] j(1), where p = p] j(2) by simp
  show ?thesis
    using worker_block_last [OF assms(1,2) d j(1)] thread_doneD(13) [OF d] j unfolding c thread_doneD(3) [OF d]
    by (auto simp del: upt_Suc)
qed

lemma worker_copy_entry:
  assumes "env_ok E m" "t < MAX_THREAD" and d: "thread_done E m t p st"
  shows "next_blocks (cmod st) (hd (mblocks (cmod st) (fworkers E ! t))) = [block_copy E m t p (lheader (floop E))]"
  unfolding next_blocks_def thread_doneD(3) [OF d] using thread_doneD(4,9) [OF d] by (simp add: mk_branch_def mk_instr_def)

lemma worker_copy_exit:
  assumes "env_ok E m" "t < MAX_THREAD" and d: "thread_done E m t p st"
  shows "block_copy E m t p (fexit E) = last (mblocks (cmod st) (fworkers E ! t)) \<and>
    next_blocks (cmod st) (block_copy E m t p (fexit E)) = []"
  unfolding next_blocks_def thread_doneD(3) [OF d] block_map_facts(1) [OF worker_table [OF assms(1,2)]]
  using thread_doneD(5,10) [OF d] by (simp add: mk_ret_null_def mk_instr_def)

lemma worker_runs:
  assumes ok: "env_ok E m" "t < MAX_THREAD" and d: "thread_done E m t p st"
    and tree: "exit_tree E m" and cl: "control_closed E m (set (rel_blocks m (fplan E) t))"
    and wr: "block_run E m (set (rel_blocks m (fplan E) t)) wr"
  shows "follows (branch (cmod st)) (map (apfst (block_copy E m t p)) wr) \<longleftrightarrow>
    (\<exists>run. follows (loop_step E m) run \<and> visits E (set (rel_blocks m (fplan E) t)) run = wr)"
proof -
  let ?rel = "rel_blocks m (fplan E) t" and ?cp = "block_copy E m t p"
  note e = env_okD [OF ok(1)] and br = worker_branch [OF ok d tree cl] and dd = thread_doneD [OF d]
  have inl: "\<forall>b \<in> set ?rel. contains (floop E) b" using rel_blocks_in(1) [OF e(3) ok(2)] by blast
  have inj: "inj_on ?cp (set ?rel \<union> {fexit E})" using worker_copy_inj [OF ok] by blast
  have "next_blocks (cmod st) (?cp (fexit E)) = []" using worker_copy_exit [OF ok d] by blast
  then have stop: "branch (cmod st) (?cp (fexit E)) j = None" for j by (simp add: branch_def)
  have go: "\<exists>s. loop_step E m b j = Some s \<and> (s, fexit E) \<in> (lflow E m)\<^sup>*" if b: "b \<in> set ?rel" "j < length (next_blocks m b)" for b j
  proof -
    let ?i = "last (mbody m b)"
    have l: "contains (floop E) b" using b(1) inl by blast
    have i: "?i \<in> set (mbody m b)" "is_terminator (opcode (mcode m ?i))" using e(6) [OF l] by simp_all
    have "next_blocks m b ! j \<in> set (succs (mcode m ?i))" using b(2) by (simp add: next_blocks_def)
    then have "next_blocks m b ! j = fexit E \<or> contains (floop E) (next_blocks m b ! j)" using e(2) l i unfolding cfg_ok_def by blast
    then have "(next_blocks m b ! j, fexit E) \<in> (lflow E m)\<^sup>*" using exit_treeD(1) [OF tree] by auto
    then show ?thesis using l b(2) by (simp add: loop_step_def)
  qed
  show ?thesis
  proof
    assume "follows (branch (cmod st)) (map (apfst ?cp) wr)"
    then show "\<exists>run. follows (loop_step E m) run \<and> visits E (set ?rel) run = wr"
      using follow_visits [where cp = ?cp and m = m and R = "set ?rel" and E = E and step = "branch (cmod st)", OF inj e(4) _ go stop] br wr unfolding block_run_def by blast
  next
    assume "\<exists>run. follows (loop_step E m) run \<and> visits E (set ?rel) run = wr"
    then show "follows (branch (cmod st)) (map (apfst ?cp) wr)" using visits_follow [where cp = ?cp and m = m and R = "set ?rel", OF _ _ e(4)] br by blast
  qed
qed

text \<open>
  How the function \<open>g\<close> of a thread with the blocks \<open>R\<close> runs: it starts at the copy of the header, ends at the copy of the
  exit, and a sequence of copies with the branches taken is a run of it if and only if it is what is left of some run of the
  loop when the blocks without copies are left out.
\<close>

definition worker_follows :: "split_env \<Rightarrow> module_ir \<Rightarrow> BB set \<Rightarrow> module_ir \<Rightarrow> string \<Rightarrow> (BB \<Rightarrow> BB) \<Rightarrow> bool" where
  "worker_follows E m R M g cp \<longleftrightarrow> inj_on cp (R \<union> {fexit E}) \<and> (\<forall>b \<in> R. cp b \<in> set (mblocks M g)) \<and>
     next_blocks M (hd (mblocks M g)) = [cp (lheader (floop E))] \<and>
     cp (fexit E) = last (mblocks M g) \<and> next_blocks M (cp (fexit E)) = [] \<and>
     (\<forall>wr. block_run E m R wr \<longrightarrow> (follows (branch M) (map (apfst cp) wr) \<longleftrightarrow>
       (\<exists>run. follows (loop_step E m) run \<and> visits E R run = wr)))"

lemma worker_followsD:
  assumes "worker_follows E m R M g cp"
  shows "inj_on cp (R \<union> {fexit E})" "b \<in> R \<Longrightarrow> cp b \<in> set (mblocks M g)" "next_blocks M (hd (mblocks M g)) = [cp (lheader (floop E))]"
    "cp (fexit E) = last (mblocks M g)" "next_blocks M (cp (fexit E)) = []"
    "block_run E m R wr \<Longrightarrow> follows (branch M) (map (apfst cp) wr) \<longleftrightarrow> (\<exists>run. follows (loop_step E m) run \<and> visits E R run = wr)"
  using assms unfolding worker_follows_def by blast+

lemma worker_follows_done:
  assumes "env_ok E m" "t < MAX_THREAD" "thread_done E m t p st" "exit_tree E m" "control_closed E m (set (rel_blocks m (fplan E) t))"
  shows "worker_follows E m (set (rel_blocks m (fplan E) t)) (cmod st) (fworkers E ! t) (block_copy E m t p)"
  unfolding worker_follows_def
  using worker_copy_inj [OF assms(1,2)] worker_copy_block [OF assms(1-3)] worker_copy_entry [OF assms(1-3)]
    worker_copy_exit [OF assms(1-3)] worker_runs [OF assms]
  by blast

text \<open>Only the targets of the terminators matter.\<close>

lemma follows_cong:
  assumes "\<forall>(b, j) \<in> set r. step b = step' b"
  shows "follows step r \<longleftrightarrow> follows step' r"
  using assms by (induction step r rule: follows.induct) auto

lemma worker_follows_cong:
  assumes "worker_follows E m R M g cp" "mblocks M' g = mblocks M g" "mblocks M g \<noteq> []"
    and "\<forall>b \<in> set (mblocks M g). next_blocks M' b = next_blocks M b"
  shows "worker_follows E m R M' g cp"
proof -
  note w = worker_followsD [OF assms(1)]
  have ex: "cp (fexit E) \<in> set (mblocks M g)" using w(4) assms(3) by simp
  have "follows (branch M') (map (apfst cp) wr) \<longleftrightarrow> follows (branch M) (map (apfst cp) wr)" if "block_run E m R wr" for wr
  proof (rule follows_cong)
    have "cp b \<in> set (mblocks M g)" if "(b, j) \<in> set wr" for b j
      using w(2) [of b] ex that \<open>block_run E m R wr\<close> unfolding block_run_def by blast
    then show "\<forall>(b, j) \<in> set (map (apfst cp) wr). branch M' b = branch M b"
      using assms(4) by (auto simp: branch_def [abs_def])
  qed
  then show ?thesis using w assms(2-4) ex unfolding worker_follows_def by auto
qed

text \<open>
  C3. Let the post-dominator tree be right and the blocks of the threads closed under control dependence. Then every worker
  runs through the copies of its blocks exactly as the loop runs through the blocks.
\<close>

theorem worker_paths:
  assumes "env_ok E m" "\<forall>t < MAX_THREAD. lheader (floop E) \<in> set (rel_blocks m (fplan E) t)"
    and "exit_tree E m" "\<forall>t < MAX_THREAD. control_closed E m (set (rel_blocks m (fplan E) t))"
  shows "\<exists>st. loopSplit E (no_clones m) = Ok st \<and> (\<forall>t < MAX_THREAD. \<exists>cp.
    worker_follows E m (set (rel_blocks m (fplan E) t)) (cmod st) (fworkers E ! t) cp \<and>
    (\<forall>b \<in> set (rel_blocks m (fplan E) t).
      newToOld st (VInst (last (mbody (cmod st) (cp b)))) = Some (VInst (last (mbody m b)))))"
proof -
  obtain st pt where st: "loopSplit E (no_clones m) = Ok st" "\<forall>t < MAX_THREAD. thread_done E m t (pt t) st"
    using loopSplit_run [OF assms(1,2)] by blast
  have "worker_follows E m (set (rel_blocks m (fplan E) t)) (cmod st) (fworkers E ! t) (block_copy E m t (pt t)) \<and>
    (\<forall>b \<in> set (rel_blocks m (fplan E) t).
      newToOld st (VInst (last (mbody (cmod st) (block_copy E m t (pt t) b)))) = Some (VInst (last (mbody m b))))"
    if t: "t < MAX_THREAD" for t
    using worker_follows_done [OF assms(1) t _ assms(3)] worker_copy_block [OF assms(1) t] st(2) assms(4) t by blast
  then show ?thesis using st(1) by (intro exI [of _ st]) blast
qed

lemma pipe_flow: "loop_step pipe_env pipe_module b j = Some c \<longleftrightarrow> b = 1 \<and> (j = 0 \<and> c = 1 \<or> j = 1 \<and> c = 2)"
  by (auto simp: loop_step_def next_blocks_def pipe_env_def pipe_contains pipe_module_def pipe_code_def less_Suc_eq)

lemma pipe_exit_tree: "exit_tree pipe_env pipe_module"
proof -
  have "(1, 2) \<in> (lflow pipe_env pipe_module)\<^sup>*" by (rule r_into_rtrancl) (auto simp: lflow_def pipe_flow)
  moreover have "(2, 1) \<notin> (up_rel (fpostidom pipe_env))\<^sup>*"
  proof
    assume "(2, 1) \<in> (up_rel (fpostidom pipe_env))\<^sup>*"
    then show False by (cases rule: converse_rtranclE) (auto simp: up_rel_def pipe_env_def)
  qed
  moreover have "(1, 2) \<in> (up_rel (fpostidom pipe_env))\<^sup>*" by (rule r_into_rtrancl) (simp add: up_rel_def pipe_env_def)
  moreover have "must_pass pipe_env pipe_module 2 1"
    using must_pass_exit [of pipe_env 1 pipe_module] by (simp add: pipe_env_def pipe_contains)
  ultimately show ?thesis by (auto simp: exit_tree_def) (auto simp: pipe_env_def pipe_contains)
qed

lemma pipe_closed: "\<forall>t < MAX_THREAD. control_closed pipe_env pipe_module (set (rel_blocks pipe_module (fplan pipe_env) t))"
  using pipe_blocks by (auto simp: pipe_sel control_closed_def lflow_def pipe_flow)

theorem worker_paths_witness:
  "\<exists>st b ex. loopSplit pipe_env (no_clones pipe_module) = Ok st \<and> ex = last (mblocks (cmod st) ''w1'') \<and> b \<noteq> ex \<and>
    next_blocks (cmod st) (hd (mblocks (cmod st) ''w1'')) = [b] \<and> follows (branch (cmod st)) [(b, 0), (b, 0), (b, 1), (ex, 0)] \<and>
    \<not> follows (branch (cmod st)) [(b, 1), (b, 0)]"
proof -
  have one: "Suc 0 < MAX_THREAD" "set (rel_blocks pipe_module (fplan pipe_env) (Suc 0)) = {1}" "fexit pipe_env = 2" "lheader (floop pipe_env) = 1"
    using pipe_blocks [of "Suc 0"] by (simp_all add: MAX_THREAD_def pipe_env_def pipe_loop_def)
  obtain st where st: "loopSplit pipe_env (no_clones pipe_module) = Ok st" and "\<forall>t < MAX_THREAD. \<exists>cp.
    worker_follows pipe_env pipe_module (set (rel_blocks pipe_module (fplan pipe_env) t)) (cmod st) (fworkers pipe_env ! t) cp \<and>
    (\<forall>b \<in> set (rel_blocks pipe_module (fplan pipe_env) t).
      newToOld st (VInst (last (mbody (cmod st) (cp b)))) = Some (VInst (last (mbody pipe_module b))))"
    using worker_paths [OF pipe_env_ok pipe_header pipe_exit_tree pipe_closed] by blast
  from this(2) [rule_format, OF one(1)]
  obtain cp where "worker_follows pipe_env pipe_module {1} (cmod st) ''w1'' cp" unfolding pipe_sel(4) one(2) by blast
  note c = worker_followsD(1,3,4,6) [OF this, unfolded one(3,4)]
  have run: "block_run pipe_env pipe_module {1} [(1, 0), (1, 0), (1, 1), (2, 0)]" "block_run pipe_env pipe_module {1} [(1, 1), (1, 0)]"
    by (simp_all add: block_run_def next_blocks_def one(3)) (simp_all add: pipe_module_def pipe_code_def)
  have "follows (loop_step pipe_env pipe_module) [(1, 0), (1, 0), (1, 1), (2, 0)]" by (simp add: pipe_flow)
  moreover have "visits pipe_env {1} [(1, 0), (1, 0), (1, 1), (2, 0)] = [(1, 0), (1, 0), (1, 1), (2, 0)]" by (simp add: visits_def one(3))
  ultimately have yes: "follows (branch (cmod st)) (map (apfst cp) [(1, 0), (1, 0), (1, 1), (2, 0)])" using c(4) [OF run(1)] by blast
  have "\<not> follows (branch (cmod st)) (map (apfst cp) [(1, 1), (1, 0)])"
  proof
    assume "follows (branch (cmod st)) (map (apfst cp) [(1, 1), (1, 0)])"
    moreover have "follows (branch (cmod st)) (map (apfst cp) [(1, 1), (2, 0)])" using yes by simp
    ultimately have "cp 1 = cp 2" by simp
    then show False using c(1) by (simp add: inj_on_def)
  qed
  then show ?thesis using yes c st by (intro exI [of _ st] exI [of _ "cp 1"] exI [of _ "cp 2"]) (auto simp: inj_on_def)
qed

end
