(* ===== verification/Control_Closed.thy ===== *)
theory Control_Closed
  imports Worker_Path Split_Sync_Result Plan_Fits
begin

text \<open>
  Why the blocks of a thread are closed under control dependence: a thread copies the branch at the end of each of its
  blocks, the graph has an edge to it from every branch that decides whether the block is reached, and the thread knows the
  block of the source of every dependence of its branches. That the graph has these edges is shown from what \<open>buildPDG\<close>
  computes on the peeled loop: the second copies of the blocks are the loop.
\<close>

section \<open>The branches that decide\<close>

definition control_covered :: "split_env \<Rightarrow> module_ir \<Rightarrow> bool" where
  "control_covered E m \<longleftrightarrow> (\<forall>(x, y) \<in> lflow E m. \<forall>q. contains (floop E) q \<and> must_pass E m q y \<and> \<not> must_pass E m q x \<longrightarrow>
     (\<forall>v \<in> set (mbody m q). mk_edge (last (mbody m x)) v CONTROL \<in> set (allEdges (pgraph (fplan E)))))"

lemma block_end:
  assumes ok: "env_ok E m" and b: "contains (floop E) b"
  shows "in_loop m (floop E) (last (mbody m b)) \<and> mparent m (last (mbody m b)) = b \<and> is_terminator (opcode (mcode m (last (mbody m b))))"
proof -
  have l: "last (mbody m b) \<in> set (mbody m b)" "is_terminator (opcode (mcode m (last (mbody m b))))" using env_okD(6) [OF ok b] by simp_all
  then have "mparent m (last (mbody m b)) = b" using store_inst [OF env_okD(1) [OF ok]] by blast
  then show ?thesis using l b by (simp add: in_loop_def)
qed

text \<open>A block of a thread holds an instruction of this thread or of an earlier one.\<close>

lemma related_early:
  assumes ok: "env_ok E m" and eo: "edges_ok E m" and t: "t < MAX_THREAD" and q: "q \<in> set (rel_blocks m (fplan E) t)"
  shows "\<exists>j. in_loop m (floop E) j \<and> mparent m j = q \<and> thread_num (fplan E) j \<le> t"
proof -
  note po = env_okD(3) [OF ok]
  note S = relbb_is(3) [OF plan_okD(1,2) [OF po], OF t t, of m]
  from q consider i where "i \<in> set (insts_of (fplan E) t)" "q = mparent m i"
    | i d where "i \<in> set (insts_of (fplan E) t)" "d \<in> set (edges_at (rev_graph_of (pgraph (fplan E))) i)" "q = mparent m (ev d)"
    unfolding S by auto
  then show ?thesis
  proof cases
    case (1 i)
    then show ?thesis using plan_okD(5) [OF po t, of i] by auto
  next
    case (2 i d)
    have "mk_edge (ev d) i (dtype d) \<in> set (allEdges (pgraph (fplan E)))"
      using edges_okD(1) [OF eo] 2(2) unfolding graph_inv_def adj_inv_def by (metis mk_edge_collapse)
    from edges_okD(2) [OF eo this] have "thread_num (fplan E) (ev d) \<le> thread_num (fplan E) i" by (simp add: mk_edge_def)
    moreover have "thread_num (fplan E) i = t" "in_loop m (floop E) (ev d)" using plan_okD(5) [OF po t 2(1)] 2(2) by blast+
    ultimately show ?thesis using 2(3) by auto
  qed
qed

lemma control_closed_pipeline:
  assumes P: "pipeline_ok E m f" and cov: "control_covered E m" and t: "t < MAX_THREAD"
  shows "control_closed E m (set (rel_blocks m (fplan E) t))"
  unfolding control_closed_def
proof (intro ballI, clarify)
  fix q x y assume q: "q \<in> set (rel_blocks m (fplan E) t)" and f: "(x, y) \<in> lflow E m" and mp: "must_pass E m q y" "\<not> must_pass E m q x"
  note p = pipeline_okD [OF P] and po = env_okD(3) [OF pipeline_okD(1) [OF P]]
  have ql: "contains (floop E) q" by (rule rel_blocks_in(1) [OF po t q])
  have xl: "contains (floop E) x" by (rule lflow_source [OF f])
  let ?w = "last (mbody m x)" and ?z = "last (mbody m q)"
  note X = block_end [OF p(1) xl] and Q = block_end [OF p(1) ql]
  have e: "mk_edge ?w v CONTROL \<in> set (allEdges (pgraph (fplan E)))" if "in_loop m (floop E) v" "mparent m v = q" for v
    using cov f ql mp that unfolding control_covered_def in_loop_def by blast
  have le: "thread_num (fplan E) ?w \<le> t"
  proof -
    obtain j where j: "in_loop m (floop E) j" "mparent m j = q" "thread_num (fplan E) j \<le> t"
      using related_early [OF p(1,4) t q] by blast
    from edges_okD(2) [OF p(4) e [OF j(1,2)]] j(3) show ?thesis by (simp add: mk_edge_def)
  qed
  show "x \<in> set (rel_blocks m (fplan E) t)"
  proof (cases "thread_num (fplan E) ?w = t")
    case True
    then show ?thesis using rel_blocks_in(2) [OF po t, of ?w] X by simp
  next
    case False
    have "?z \<in> set (thread_insts E m t)" using thread_insts_iff [OF p(1) t] Q q by (simp add: keep_def)
    moreover have "mk_edge ?w ?z CONTROL \<in> set (allEdges (pgraph (fplan E)))" using e Q by blast
    ultimately have "crosses E m (mk_edge ?w ?z CONTROL) t" using le False t by (simp add: crosses_def mk_edge_def)
    from source_related [OF p(1,4,5) this] X show ?thesis by (simp add: mk_edge_def)
  qed
qed

section \<open>The second copies are the loop\<close>

definition second :: "split_env \<Rightarrow> BB \<Rightarrow> dblock" where
  "second E b = (if b = fexit E then ExitBlock else Bottom b)"

text \<open>The two views of the loop, and that its only exit is the one LLVM names.\<close>

definition one_exit :: "func_ir \<Rightarrow> split_env \<Rightarrow> module_ir \<Rightarrow> string \<Rightarrow> bool" where
  "one_exit F E m f \<longleftrightarrow> views F m f \<and> cfg_ok E m \<and> set (lexits (floop E)) = {fexit E} \<and> \<not> contains (floop E) (fexit E) \<and>
     (\<forall>b. contains (floop E) b \<longrightarrow> b \<in> set (mblocks m f) \<and> mbody m b \<noteq> [] \<and> is_terminator (opcode (mcode m (last (mbody m b)))))"

lemma one_exit_succs:
  assumes "one_exit F E m f" "contains (floop E) b" "c \<in> set (next_blocks m b)"
  shows "c = fexit E \<or> contains (floop E) c"
  using assms last_in_set [of "mbody m b"] unfolding one_exit_def cfg_ok_def next_blocks_def by metis

lemma lflow_iff: "(b, c) \<in> lflow E m \<longleftrightarrow> contains (floop E) b \<and> c \<in> set (next_blocks m b)"
  by (auto simp: lflow_def loop_step_def in_set_conv_nth)

lemma second_flow:
  assumes ok: "one_exit F E m f" and b: "contains (floop E) b"
  shows "(Bottom b, z) \<in> dflow F (floop E) \<longleftrightarrow> (\<exists>c. (b, c) \<in> lflow E m \<and> z = second E c)"
proof -
  note o = ok [unfolded one_exit_def]
  have bs: "block_succs F b = next_blocks m b" using o by (simp add: block_succs_def terminator_def next_blocks_def views_def)
  have "b \<in> returnblocks F (floop E) \<longleftrightarrow> fexit E \<in> set (next_blocks m b)"
    using o b bs by (auto simp: returnblocks_iff preds_def views_def)
  moreover have "s \<in> set (loop_succs F (floop E) b) \<longleftrightarrow> s \<in> set (next_blocks m b) \<and> s \<noteq> fexit E" for s
    using one_exit_succs [OF ok b, of s] o by (auto simp: loop_succs_def bs)
  ultimately show ?thesis
    using b unfolding dflow_iff(2) lflow_iff second_def by auto
qed

lemma second_postdominates:
  assumes ok: "one_exit F E m f" and b: "contains (floop E) b" and q: "contains (floop E) q"
  shows "postdominates F (floop E) (Bottom q) (Bottom b) \<longleftrightarrow> must_pass E m q b"
proof -
  let ?A = "{(x, y) \<in> lflow E m. x \<noteq> q \<and> y \<noteq> q}" and ?D = "avoiding F (floop E) (Bottom q)"
  have qe: "q \<noteq> fexit E" "\<not> contains (floop E) (fexit E)" using q ok by (auto simp: one_exit_def)
  have sq: "second E x = Bottom q \<longleftrightarrow> x = q" for x using qe by (simp add: second_def)
  have move: "(x, y) \<in> ?A \<Longrightarrow> (second E x, second E y) \<in> ?D" for x y
  proof -
    assume a: "(x, y) \<in> ?A"
    then have "contains (floop E) x" using lflow_source by blast
    then have "second E x = Bottom x" "(Bottom x, second E y) \<in> dflow F (floop E)"
      using second_flow [OF ok] a qe(2) by (auto simp: second_def)
    then show ?thesis using a sq by (simp add: avoiding_def)
  qed
  have "(b, fexit E) \<in> ?A\<^sup>* \<longleftrightarrow> (Bottom b, ExitBlock) \<in> ?D\<^sup>*"
  proof
    have go: "(b, c) \<in> ?A\<^sup>* \<Longrightarrow> (second E b, second E c) \<in> ?D\<^sup>*" for c
    proof (induction rule: rtrancl_induct)
      case (step y z)
      then show ?case using move [OF step.hyps(2)] by (meson rtrancl_into_rtrancl)
    qed simp
    have ends: "second E b = Bottom b" "second E (fexit E) = ExitBlock" using b qe(2) by (auto simp: second_def)
    show "(b, fexit E) \<in> ?A\<^sup>* \<Longrightarrow> (Bottom b, ExitBlock) \<in> ?D\<^sup>*" by (rule go [of "fexit E", unfolded ends])
  next
    have go: "(Bottom b, z) \<in> ?D\<^sup>* \<Longrightarrow> \<exists>c. (b, c) \<in> ?A\<^sup>* \<and> z = second E c \<and> (c = fexit E \<or> contains (floop E) c)" for z
    proof (induction rule: rtrancl_induct)
      case base
      then show ?case using b qe(2) by (intro exI [of _ b]) (auto simp: second_def)
    next
      case (step y z)
      then obtain c where c: "(b, c) \<in> ?A\<^sup>*" "y = second E c" "c = fexit E \<or> contains (floop E) c" by blast
      have yz: "(y, z) \<in> dflow F (floop E)" "y \<noteq> Bottom q" "z \<noteq> Bottom q" using step.hyps(2) by (auto simp: avoiding_def)
      then have cl: "contains (floop E) c" "y = Bottom c" using c(2,3) dflow_iff(3) by (auto simp: second_def split: if_splits)
      then obtain d where d: "(c, d) \<in> lflow E m" "z = second E d" using second_flow [OF ok, of c z] yz(1) by auto
      then have "(c, d) \<in> ?A" using yz(2,3) cl(2) sq by auto
      with c(1) have "(b, d) \<in> ?A\<^sup>*" by (rule rtrancl_into_rtrancl)
      moreover have "d = fexit E \<or> contains (floop E) d" using one_exit_succs [OF ok cl(1)] d(1) by (simp add: lflow_iff)
      ultimately show ?case using d(2) by (intro exI [of _ d] conjI)
    qed
    assume "(Bottom b, ExitBlock) \<in> ?D\<^sup>*"
    then obtain c where "(b, c) \<in> ?A\<^sup>*" "ExitBlock = second E c" using go by blast
    moreover from this have "c = fexit E" by (simp add: second_def split: if_splits)
    ultimately show "(b, fexit E) \<in> ?A\<^sup>*" by simp
  qed
  then show ?thesis by (auto simp: postdominates_def must_pass_def)
qed

text \<open>So the graph that \<open>buildPDG\<close> makes has the edges.\<close>

lemma control_covered_pdg:
  assumes ok: "one_exit F E m f" and inv: "graph_inv (pgraph (fplan E))"
    and rel: "\<forall>u v d. has_edge (pgraph (fplan E)) u v d \<longleftrightarrow> pdg_rel F (floop E) A u v d"
  shows "control_covered E m"
  unfolding control_covered_def
proof (clarify)
  fix x y q v assume f: "(x, y) \<in> lflow E m" and q: "contains (floop E) q" and mp: "must_pass E m q y" "\<not> must_pass E m q x"
    and v: "v \<in> set (mbody m q)"
  have x: "contains (floop E) x" by (rule lflow_source [OF f])
  have qe: "q \<noteq> fexit E" using q ok by (auto simp: one_exit_def)
  have "y \<noteq> fexit E" using mp(1) qe by (auto simp: must_pass_def)
  then have y: "contains (floop E) y" "second E y = Bottom y" using one_exit_succs [OF ok x, of y] f by (auto simp: lflow_iff second_def)
  have "(Bottom x, Bottom y) \<in> dflow F (floop E)" using second_flow [OF ok x] f y(2) by metis
  moreover have "postdominates F (floop E) (Bottom q) (Bottom y)" "\<not> postdominates F (floop E) (Bottom q) (Bottom x)"
    using second_postdominates [OF ok _ q] x y(1) mp by blast+
  ultimately have "control_rel F (floop E) (terminator F x) v CONTROL"
    unfolding control_rel_def copies_def using x q v ok by (auto simp: one_exit_def views_def)
  then have "has_edge (pgraph (fplan E)) (terminator F x) v CONTROL" using rel unfolding pdg_rel_def by blast
  moreover have "terminator F x = last (mbody m x)" using ok by (simp add: one_exit_def views_def terminator_def)
  ultimately show "mk_edge (last (mbody m x)) v CONTROL \<in> set (allEdges (pgraph (fplan E)))"
    using inv unfolding graph_inv_def by metis
qed

end
