(* ===== verification/Channel_Net.thy ===== *)
theory Channel_Net
  imports Simple_Sync Fifo_Interface
begin

text \<open>
  The threads of a pipeline and the queues between them. Every thread has a list of calls to make, and each call carries
  the number of the visit of a block it belongs to. A send blocks while the queue is full and a receive while it is empty.
  When every channel leads from a thread to a later one and is used once by either of them in the same block, then no
  order of the steps comes to a stop before all calls are made, and a receive gets what was sent in the same visit.
\<close>

section \<open>The net\<close>

datatype comm = Send int | Recv int

record net =
  rest :: "nat \<Rightarrow> (nat \<times> comm) list"
  queues :: "int \<Rightarrow> nat list"

text \<open>The queues are those of the runtime: \<open>NUM_QUEUES\<close> of them, with room for \<open>QUEUE_MAXLEN\<close> elements each.\<close>

inductive net_step :: "net \<Rightarrow> net \<Rightarrow> bool" where
  send: "rest s t = (i, Send c) # r \<Longrightarrow> channel c \<Longrightarrow> spec_push (nat QUEUE_MAXLEN) (queues s c) i = Ok q \<Longrightarrow>
    net_step s (s\<lparr>rest := (rest s)(t := r), queues := (queues s)(c := q)\<rparr>)"
| recv: "rest s t = (i, Recv c) # r \<Longrightarrow> channel c \<Longrightarrow> spec_pop (queues s c) = Ok (j, q) \<Longrightarrow>
    net_step s (s\<lparr>rest := (rest s)(t := r), queues := (queues s)(c := q)\<rparr>)"

text \<open>The calls of a thread that visits the blocks of a list, with the calls it makes in a block.\<close>

definition program :: "('b \<Rightarrow> comm list) \<Rightarrow> 'b list \<Rightarrow> (nat \<times> comm) list" where
  "program ops run = concat (map (\<lambda>(i, b). map (Pair i) (ops b)) (enumerate 0 run))"

definition net_start :: "nat \<Rightarrow> (nat \<Rightarrow> 'b \<Rightarrow> comm list) \<Rightarrow> 'b list \<Rightarrow> net" where
  "net_start T ops run = \<lparr>rest = (\<lambda>t. if t < T then program (ops t) run else []), queues = (\<lambda>_. [])\<rparr>"

definition calls :: "nat \<Rightarrow> net \<Rightarrow> nat" where
  "calls T s = (\<Sum>t < T. length (rest s t))"

text \<open>Each channel is sent to once in a visit of its block by its source, and received from once by a later thread.\<close>

definition channel_layout :: "nat \<Rightarrow> (nat \<Rightarrow> 'b \<Rightarrow> comm list) \<Rightarrow> int \<Rightarrow> (int \<Rightarrow> nat) \<Rightarrow> (int \<Rightarrow> nat) \<Rightarrow> (int \<Rightarrow> 'b) \<Rightarrow> bool" where
  "channel_layout T ops n src dst home \<longleftrightarrow> (\<forall>t < T. \<forall>b c.
     count_list (ops t b) (Send c) = (if 0 \<le> c \<and> c < n \<and> t = src c \<and> b = home c then 1 else 0) \<and>
     count_list (ops t b) (Recv c) = (if 0 \<le> c \<and> c < n \<and> t = dst c \<and> b = home c then 1 else 0)) \<and>
     (\<forall>c. 0 \<le> c \<and> c < n \<longrightarrow> src c < dst c \<and> dst c < T)"

section \<open>The visits a channel is still used in\<close>

definition left :: "comm \<Rightarrow> (nat \<times> comm) list \<Rightarrow> nat list" where
  "left x p = map fst (filter (\<lambda>e. snd e = x) p)"

lemma left_simps [simp]:
  "left x [] = []" "left x ((i, y) # p) = (if x = y then i # left x p else left x p)" "left x (p @ p') = left x p @ left x p'"
  by (simp_all add: left_def)

lemma left_mem: "i \<in> set (left x p) \<longleftrightarrow> (i, x) \<in> set p"
  by (force simp: left_def)

lemma left_block: "left x (map (Pair i) xs) = replicate (count_list xs x) i"
  by (induction xs) auto

lemma left_enumerate:
  "left x (concat (map (\<lambda>(i, b). map (Pair i) (ops b)) (enumerate k run))) =
    concat (map (\<lambda>(i, b). replicate (count_list (ops b) x) i) (enumerate k run))"
  by (induction run arbitrary: k) (simp_all add: left_block)

lemma left_program: "left x (program ops run) = concat (map (\<lambda>(i, b). replicate (count_list (ops b) x) i) (enumerate 0 run))"
  unfolding program_def by (rule left_enumerate)

lemma program_sorted: "sorted (map fst (program ops run))"
proof -
  have "sorted (map fst (concat (map (\<lambda>(i, b). map (Pair i) (ops b)) (enumerate k run)))) \<and>
    (\<forall>e \<in> set (concat (map (\<lambda>(i, b). map (Pair i) (ops b)) (enumerate k run))). k \<le> fst e)" for k
  proof (induction run arbitrary: k)
    case (Cons b run)
    have "sorted (map fst (map (Pair k) (ops b)))" by (simp add: comp_def map_replicate_const)
    then show ?case using Cons.IH [of "Suc k"] by (fastforce simp: sorted_append dest: Suc_leD)
  qed simp
  then show ?thesis by (simp add: program_def)
qed

lemma left_increasing:
  assumes "\<forall>b. count_list (ops b) x \<le> 1"
  shows "sorted_wrt (<) (left x (program ops run))"
proof -
  let ?l = "\<lambda>k run. concat (map (\<lambda>(i, b). replicate (count_list (ops b) x) i) (enumerate k run))"
  have "sorted_wrt (<) (?l k run) \<and> (\<forall>i \<in> set (?l k run). k \<le> i)" for k
  proof (induction run arbitrary: k)
    case (Cons b run)
    have "replicate (count_list (ops b) x) k = [] \<or> replicate (count_list (ops b) x) k = [k]"
      using assms [rule_format, of b] by (cases "count_list (ops b) x") auto
    then show ?case using Cons.IH [of "Suc k"] by (fastforce dest: Suc_leD)
  qed simp
  then show ?thesis by (simp add: left_program)
qed

lemma program_count: "(i, x) \<in> set (program ops run) \<Longrightarrow> \<exists>b. count_list (ops b) x \<noteq> 0"
  by (auto simp: program_def count_list_0_iff)

section \<open>No deadlock\<close>

lemma layoutD:
  assumes "channel_layout T ops n src dst home"
  shows "t < T \<Longrightarrow> (i, Send c) \<in> set (program (ops t) run) \<Longrightarrow> 0 \<le> c \<and> c < n \<and> t = src c"
    "t < T \<Longrightarrow> (i, Recv c) \<in> set (program (ops t) run) \<Longrightarrow> 0 \<le> c \<and> c < n \<and> t = dst c"
    "0 \<le> c \<Longrightarrow> c < n \<Longrightarrow> src c < dst c \<and> dst c < T"
    "0 \<le> c \<Longrightarrow> c < n \<Longrightarrow> left (Recv c) (program (ops (dst c)) run) = left (Send c) (program (ops (src c)) run)"
    "t < T \<Longrightarrow> sorted_wrt (<) (left x (program (ops t) run))"
proof -
  note L = assms [unfolded channel_layout_def]
  show ends: "0 \<le> c \<Longrightarrow> c < n \<Longrightarrow> src c < dst c \<and> dst c < T" using L by blast
  show "t < T \<Longrightarrow> (i, Send c) \<in> set (program (ops t) run) \<Longrightarrow> 0 \<le> c \<and> c < n \<and> t = src c"
    using program_count [of i "Send c" "ops t" run] L by (auto split: if_splits)
  show "t < T \<Longrightarrow> (i, Recv c) \<in> set (program (ops t) run) \<Longrightarrow> 0 \<le> c \<and> c < n \<and> t = dst c"
    using program_count [of i "Recv c" "ops t" run] L by (auto split: if_splits)
  show "left (Recv c) (program (ops (dst c)) run) = left (Send c) (program (ops (src c)) run)" if c: "0 \<le> c" "c < n"
  proof -
    have "count_list (ops (dst c) b) (Recv c) = count_list (ops (src c) b) (Send c)" for b
      using conjunct1 [OF L, rule_format, of "dst c" b c] conjunct1 [OF L, rule_format, of "src c" b c] ends [OF c] c by simp
    then show ?thesis by (simp add: left_program)
  qed
  show "t < T \<Longrightarrow> sorted_wrt (<) (left x (program (ops t) run))"
    by (rule left_increasing) (use L in \<open>cases x; simp\<close>)
qed

text \<open>What is still to be received from a channel is what is in its queue and what is still to be sent.\<close>

definition net_inv :: "nat \<Rightarrow> (nat \<Rightarrow> 'b \<Rightarrow> comm list) \<Rightarrow> int \<Rightarrow> (int \<Rightarrow> nat) \<Rightarrow> (int \<Rightarrow> nat) \<Rightarrow> 'b list \<Rightarrow> net \<Rightarrow> bool" where
  "net_inv T ops n src dst run s \<longleftrightarrow> (\<forall>t. if t < T then \<exists>d. program (ops t) run = d @ rest s t else rest s t = []) \<and>
     (\<forall>c. 0 \<le> c \<and> c < n \<longrightarrow> left (Recv c) (rest s (dst c)) = queues s c @ left (Send c) (rest s (src c)))"

lemma net_invD:
  assumes "net_inv T ops n src dst run s"
  shows "rest s t \<noteq> [] \<Longrightarrow> t < T" "t < T \<Longrightarrow> \<exists>d. program (ops t) run = d @ rest s t"
    "0 \<le> c \<Longrightarrow> c < n \<Longrightarrow> left (Recv c) (rest s (dst c)) = queues s c @ left (Send c) (rest s (src c))"
  using assms unfolding net_inv_def by (metis+)

lemma net_inv_start:
  assumes "channel_layout T ops n src dst home"
  shows "net_inv T ops n src dst run (net_start T ops run)"
  unfolding net_inv_def net_start_def using layoutD(3,4) [OF assms] by (auto dest: less_trans)

lemma queue_head:
  assumes "net_inv T ops n src dst run s" "0 \<le> c" "c < n" "rest s (dst c) = (i, Recv c) # r" "queues s c = j # q"
  shows "j = i"
  using net_invD(3) [OF assms(1-3)] assms(4,5) by simp

lemma net_inv_step:
  assumes L: "channel_layout T ops n src dst home" and I: "net_inv T ops n src dst run s" and st: "net_step s s'"
  shows "net_inv T ops n src dst run s' \<and> calls T s = Suc (calls T s')"
  using st
proof (cases rule: net_step.cases)
  have dec: "calls T s = Suc (calls T (s\<lparr>rest := (rest s)(t := r), queues := qs\<rparr>))" if "rest s t = e # r" for t e r qs
  proof -
    have t: "t < T" using net_invD(1) [OF I] that by simp
    then have "(\<Sum>u < T. length (rest s u)) = length (rest s t) + (\<Sum>u \<in> {..<T} - {t}. length (rest s u))" by (simp add: sum.remove)
    moreover have "(\<Sum>u < T. length (((rest s)(t := r)) u)) = length r + (\<Sum>u \<in> {..<T} - {t}. length (rest s u))"
      using t by (simp add: sum.remove)
    ultimately show ?thesis using that by (simp add: calls_def)
  qed
  have pre: "if u < T then \<exists>d. program (ops u) run = d @ ((rest s)(t := r)) u else ((rest s)(t := r)) u = []" if hd: "rest s t = e # r" for t e r u
  proof (cases "u = t")
    case True
    have "t < T" using net_invD(1) [OF I] hd by simp
    moreover obtain d where "program (ops t) run = d @ e # r" using net_invD(2) [OF I calculation] hd by auto
    ultimately show ?thesis using True by (auto intro: exI [of _ "d @ [e]"])
  qed (use I in \<open>simp add: net_inv_def\<close>)
  have mem: "t < T" "e \<in> set (program (ops t) run)" if "rest s t = e # r" for t e r
    using net_invD(1,2) [OF I, of t] that by auto
  {
    case (send t i c r q)
    then have c: "0 \<le> c" "c < n" "t = src c" using layoutD(1) [OF L mem(1) [OF send(2)]] mem(2) [OF send(2)] by blast+
    have q: "q = queues s c @ [i]" using send(4) by (simp add: spec_push_def split: if_splits)
    have "left (Recv d) (((rest s)(t := r)) (dst d)) = ((queues s)(c := q)) d @ left (Send d) (((rest s)(t := r)) (src d))"
      if d: "0 \<le> d" "d < n" for d
    proof -
      have "src d \<noteq> dst d" using layoutD(3) [OF L d] by simp
      moreover have "dst c \<noteq> src c" using layoutD(3) [OF L c(1,2)] by simp
      ultimately show ?thesis
        using net_invD(3) [OF I d] send(2) c(3) q by (cases "d = c"; cases "dst d = t"; cases "src d = t") auto
    qed
    then show ?thesis using dec [OF send(2)] pre [OF send(2)] by (simp add: send(1) net_inv_def del: fun_upd_apply)
  next
    case (recv t i c r j q)
    then have c: "0 \<le> c" "c < n" "t = dst c" using layoutD(2) [OF L mem(1) [OF recv(2)]] mem(2) [OF recv(2)] by blast+
    have q: "queues s c = j # q" using recv(4) by (cases "queues s c") simp_all
    have "left (Recv d) (((rest s)(t := r)) (dst d)) = ((queues s)(c := q)) d @ left (Send d) (((rest s)(t := r)) (src d))"
      if d: "0 \<le> d" "d < n" for d
    proof -
      have "src d \<noteq> dst d" using layoutD(3) [OF L d] by simp
      moreover have "dst c \<noteq> src c" using layoutD(3) [OF L c(1,2)] by simp
      ultimately show ?thesis
        using net_invD(3) [OF I d] recv(2) c(3) q by (cases "d = c"; cases "dst d = t"; cases "src d = t") auto
    qed
    then show ?thesis using dec [OF recv(2)] pre [OF recv(2)] by (simp add: recv(1) net_inv_def del: fun_upd_apply)
  }
qed

text \<open>The thread that lags behind most, and of these the first one, can go on.\<close>

lemma net_progress:
  assumes L: "channel_layout T ops n src dst home" and n: "n \<le> int NUM_QUEUES" and I: "net_inv T ops n src dst run s"
    and more: "rest s t0 \<noteq> []"
  shows "\<exists>s'. net_step s s'"
proof -
  define at where "at = (\<lambda>t. fst (hd (rest s t)))"
  obtain i where i: "\<exists>t. rest s t \<noteq> [] \<and> at t = i" "\<forall>j < i. \<not> (\<exists>t. rest s t \<noteq> [] \<and> at t = j)"
    using more exists_least_iff [of "\<lambda>i. \<exists>t. rest s t \<noteq> [] \<and> at t = i"] by blast
  obtain t where t: "rest s t \<noteq> []" "at t = i" "\<forall>u < t. \<not> (rest s u \<noteq> [] \<and> at u = i)"
    using i(1) exists_least_iff [of "\<lambda>t. rest s t \<noteq> [] \<and> at t = i"] by blast
  have lt: "t < T" using net_invD(1) [OF I t(1)] .
  have early: "i \<le> j \<and> (j = i \<longrightarrow> at u = i)" if "(j, x) \<in> set (rest s u)" for j x u
  proof -
    have u: "rest s u \<noteq> []" using that by auto
    obtain d where d: "program (ops u) run = d @ rest s u" using net_invD(2) [OF I net_invD(1) [OF I u]] by blast
    have "sorted (map fst (rest s u))" using program_sorted [of "ops u" run] unfolding d by (simp add: sorted_append)
    then have "at u \<le> j" using that u by (cases "rest s u") (auto simp: at_def)
    moreover have "i \<le> at u" using i(2) u not_le by blast
    ultimately show ?thesis by auto
  qed
  obtain x r where r: "rest s t = (i, x) # r" using t(1,2) by (cases "rest s t") (auto simp: at_def)
  obtain d where d: "program (ops t) run = d @ (i, x) # r" using net_invD(2) [OF I lt] r by auto
  then have mem: "(i, x) \<in> set (program (ops t) run)" by simp
  show ?thesis
  proof (cases x)
    case (Send c)
    then have c: "0 \<le> c" "c < n" "t = src c" using layoutD(1) [OF L lt, of i c run] mem by blast+
    have "queues s c = []"
    proof (rule ccontr)
      assume "queues s c \<noteq> []"
      then obtain j q where q: "queues s c = j # q" by (cases "queues s c") auto
      have e: "left (Recv c) (rest s (dst c)) = (j # q) @ i # left (Send c) r" using net_invD(3) [OF I c(1,2)] r c(3) Send q by simp
      have ds: "dst c < T" using layoutD(3) [OF L c(1,2)] by simp
      obtain d' where "program (ops (dst c)) run = d' @ rest s (dst c)" using net_invD(2) [OF I ds] by blast
      then have "sorted_wrt (<) (left (Recv c) (rest s (dst c)))"
        using layoutD(5) [OF L ds, of "Recv c" run] by (simp add: sorted_wrt_append)
      then have "j < i" unfolding e by simp
      moreover have "(j, Recv c) \<in> set (rest s (dst c))" unfolding left_mem [symmetric] e by simp
      ultimately show False using early [of j "Recv c" "dst c"] by simp
    qed
    then have "spec_push (nat QUEUE_MAXLEN) (queues s c) i = Ok [i]" by (simp add: spec_push_def QUEUE_MAXLEN_def)
    then show ?thesis using net_step.send [of s t i c r "[i]"] r c n Send by (auto simp: channel_def)
  next
    case (Recv c)
    then have c: "0 \<le> c" "c < n" "t = dst c" using layoutD(2) [OF L lt, of i c run] mem by blast+
    have "queues s c \<noteq> []"
    proof
      assume q: "queues s c = []"
      have e: "left (Send c) (rest s (src c)) = i # left (Recv c) r" using net_invD(3) [OF I c(1,2)] r c(3) Recv q by simp
      then have "(i, Send c) \<in> set (rest s (src c))" unfolding left_mem [symmetric] by simp
      then have "at (src c) = i" "rest s (src c) \<noteq> []" using early [of i "Send c" "src c"] by auto
      moreover have "src c < t" using layoutD(3) [OF L c(1,2)] c(3) by simp
      ultimately show False using t(3) by blast
    qed
    then obtain j q where "spec_pop (queues s c) = Ok (j, q)" by (cases "queues s c") auto
    then show ?thesis using net_step.recv [of s t i c r j q] r c n Recv by (auto simp: channel_def)
  qed
qed

lemma calls_left: "net_inv T ops n src dst run s \<Longrightarrow> calls T s \<noteq> 0 \<Longrightarrow> \<exists>t. rest s t \<noteq> []"
  by (auto simp: calls_def)

text \<open>Everything together, for the executions from the start.\<close>

definition never_stuck :: "nat \<Rightarrow> net \<Rightarrow> bool" where
  "never_stuck T s0 \<longleftrightarrow> (\<forall>k s. (net_step ^^ k) s0 s \<longrightarrow> k \<le> calls T s0 \<and> (k < calls T s0 \<longrightarrow> (\<exists>s'. net_step s s')) \<and>
     (\<forall>t i c r j q. rest s t = (i, Recv c) # r \<and> queues s c = j # q \<longrightarrow> j = i))"

lemma net_never_stuck:
  assumes L: "channel_layout T ops n src dst home" and n: "n \<le> int NUM_QUEUES"
  shows "never_stuck T (net_start T ops run)"
  unfolding never_stuck_def
proof (intro allI impI)
  let ?s0 = "net_start T ops run"
  fix k s assume "(net_step ^^ k) ?s0 s"
  then have I: "net_inv T ops n src dst run s \<and> k + calls T s = calls T ?s0"
  proof (induction k arbitrary: s)
    case 0
    then show ?case using net_inv_start [OF L, of run] by simp
  next
    case (Suc k)
    then obtain s1 where "(net_step ^^ k) ?s0 s1" "net_step s1 s" by auto
    then show ?case using Suc.IH [of s1] net_inv_step [OF L] by fastforce
  qed
  have "\<exists>s'. net_step s s'" if "k < calls T ?s0"
  proof -
    have "calls T s \<noteq> 0" using I that by simp
    then obtain t where "rest s t \<noteq> []" using calls_left I by blast
    then show ?thesis using net_progress [OF L n] I by blast
  qed
  moreover have "j = i" if "rest s t = (i, Recv c) # r" "queues s c = j # q" for t i c r j q
  proof -
    have t: "t < T" using net_invD(1) [OF conjunct1 [OF I], of t] that(1) by simp
    obtain d where "program (ops t) run = d @ rest s t" using net_invD(2) [OF conjunct1 [OF I] t] by blast
    then have "(i, Recv c) \<in> set (program (ops t) run)" using that(1) by simp
    then have "0 \<le> c" "c < n" "t = dst c" using layoutD(2) [OF L t] by blast+
    then show ?thesis using queue_head [OF conjunct1 [OF I]] that by simp
  qed
  ultimately show "k \<le> calls T ?s0 \<and> (k < calls T ?s0 \<longrightarrow> (\<exists>s'. net_step s s')) \<and>
      (\<forall>t i c r j q. rest s t = (i, Recv c) # r \<and> queues s c = j # q \<longrightarrow> j = i)"
    using I by auto
qed

end
