(* ===== verification/Worker_Net.thy ===== *)
theory Worker_Net
  imports Control_Closed Channel_Net Worker_Ends
begin

text \<open>
  The workers of a finished loop as a net: the calls to the runtime in the blocks of the workers, where the synchronization
  has put them, and that the workers cannot block each other.
\<close>

section \<open>The calls in a block\<close>

definition comm_of :: "instr \<Rightarrow> comm option" where
  "comm_of ins = (if opcode ins \<noteq> Call then None else
     (case rev (operands ins) of VFun g # VInt w k # _ \<Rightarrow>
        if w \<noteq> 32 then None else if g = ''sync_produce'' then Some (Send k)
        else if g = ''sync_consume'' then Some (Recv k) else None
      | _ \<Rightarrow> None))"

definition block_comms :: "module_ir \<Rightarrow> BB \<Rightarrow> comm list" where
  "block_comms m b = List.map_filter (\<lambda>i. comm_of (mcode m i)) (mbody m b)"

lemma comm_of_iff:
  "comm_of ins = Some (Send k) \<longleftrightarrow> comm_instr ''sync_produce'' k ins"
  "comm_of ins = Some (Recv k) \<longleftrightarrow> comm_instr ''sync_consume'' k ins"
proof -
  have "(\<exists>pre. operands ins = pre @ [VInt 32 k, VFun g]) \<longleftrightarrow> (\<exists>r. rev (operands ins) = VFun g # VInt 32 k # r)" for g
    by (metis append.assoc append_Cons append_Nil rev.simps(2) rev_append rev_rev_ident)
  then show "comm_of ins = Some (Send k) \<longleftrightarrow> comm_instr ''sync_produce'' k ins"
    "comm_of ins = Some (Recv k) \<longleftrightarrow> comm_instr ''sync_consume'' k ins"
    by (auto simp: comm_of_def comm_instr_def split: list.splits Value.splits if_splits)
qed

lemma count_block_comms: "count_list (block_comms m b) x = length (filter (\<lambda>i. comm_of (mcode m i) = Some x) (mbody m b))"
proof -
  have "count_list (List.map_filter f xs) x = length (filter (\<lambda>i. f i = Some x) xs)" for f :: "Inst \<Rightarrow> comm option" and xs
    by (induction xs) (auto simp: List.map_filter_def)
  then show ?thesis by (simp add: block_comms_def)
qed

lemma count_block_comms_same:
  assumes "mset (mbody m' b) = mset (mbody m b)" "\<forall>i \<in> set (mbody m' b). mcode m' i = mcode m i"
  shows "count_list (block_comms m' b) x = count_list (block_comms m b) x"
proof -
  let ?P = "\<lambda>m i. comm_of (mcode m i) = Some x"
  have "filter (?P m') (mbody m' b) = filter (?P m) (mbody m' b)" using assms(2) by (auto intro: filter_cong)
  moreover have "mset (filter (?P m) (mbody m' b)) = mset (filter (?P m) (mbody m b))" using assms(1) by simp
  then have "length (filter (?P m) (mbody m' b)) = length (filter (?P m) (mbody m b))" by (rule mset_eq_length)
  ultimately show ?thesis by (simp add: count_block_comms)
qed

text \<open>A channel with a single call is used in the block of this call only.\<close>

lemma count_comms:
  assumes "store_inv m" "b \<in> set (mblocks m f)"
    and c: "\<And>i. comm_of (mcode m i) = Some x \<longleftrightarrow> comm_instr g k (mcode m i)"
  shows "comms g m k = {} \<Longrightarrow> count_list (block_comms m b) x = 0"
    "comms g m k = {p} \<Longrightarrow> count_list (block_comms m b) x = (if mparent m p = b then 1 else 0)"
proof -
  let ?is = "filter (\<lambda>i. comm_of (mcode m i) = Some x) (mbody m b)"
  have sis: "set ?is = {i \<in> comms g m k. mparent m i = b}"
  proof -
    have "i \<in> set (mbody m b) \<longleftrightarrow> mparent m i = b" if "in_fun m h i" for h i
      using in_fun_block [OF assms(1) that] store_inst [OF assms(1)] by blast
    moreover have "i \<in> set (mbody m b) \<Longrightarrow> in_fun m f i" for i using assms(2) by (auto simp: in_fun_def)
    ultimately show ?thesis unfolding comms_def c [symmetric] by auto
  qed
  have len: "length ?is = card (set ?is)" by (rule distinct_card [OF distinct_filter [OF store_distinct(1) [OF assms(1)]], symmetric])
  show "comms g m k = {} \<Longrightarrow> count_list (block_comms m b) x = 0" using sis by (simp add: count_block_comms filter_empty_conv)
  assume p: "comms g m k = {p}"
  have "set ?is = (if mparent m p = b then {p} else {})" using sis p by auto
  then show "count_list (block_comms m b) x = (if mparent m p = b then 1 else 0)" unfolding count_block_comms len by simp
qed

section \<open>Where the calls are\<close>

lemma copy_block_of:
  assumes ok: "env_ok E m" "t < MAX_THREAD" and d: "thread_done E m t p st" and inv: "store_inv (cmod st)"
    and k: "k < length (thread_insts E m t)"
  shows "mparent m (thread_insts E m t ! k) \<in> set (rel_blocks m (fplan E) t) \<and>
    mparent (cmod st) (copies_ptr E m t p + k) = block_copy E m t p (mparent m (thread_insts E m t ! k))"
proof -
  let ?rel = "rel_blocks m (fplan E) t" and ?D = "thread_insts E m t"
  have r: "mparent m (?D ! k) \<in> set ?rel" using thread_insts_iff [OF ok] nth_mem [OF k] by blast
  then obtain j where j: "j < length ?rel" "?rel ! j = mparent m (?D ! k)" by (auto simp: in_set_conv_nth)
  have "copies_ptr E m t p + k \<in> set (mbody (cmod st) (p + 2 + j))" unfolding thread_doneD(6) [OF d j(1)] using k j(2) by simp
  then have "mparent (cmod st) (copies_ptr E m t p + k) = p + 2 + j" using store_inst [OF inv] by blast
  then show ?thesis using r block_map_facts(3) [OF worker_table [OF ok] j(1), where p = p] j(2) by simp
qed

lemma channel_blocks:
  assumes ok: "env_ok E m" and eo: "edges_ok E m" and d: "\<forall>t < MAX_THREAD. thread_done E m t (pt t) st" and inv: "store_inv (cmod st)"
    and pp: "pp \<in> set (sync_points (fplan E) (instMap st))" and ce: "channel_ends (fworkers E) st pp M p c"
  shows "mparent m (eu (p_edge pp)) \<in> set (rel_blocks m (fplan E) (p_from pp)) \<and>
    mparent m (eu (p_edge pp)) \<in> set (rel_blocks m (fplan E) (p_to pp)) \<and> p_from pp < p_to pp \<and> p_to pp < MAX_THREAD \<and>
    mparent M p = block_copy E m (p_from pp) (pt (p_from pp)) (mparent m (eu (p_edge pp))) \<and>
    mparent M c = block_copy E m (p_to pp) (pt (p_to pp)) (mparent m (eu (p_edge pp)))"
proof -
  let ?s = "p_from pp" and ?t = "p_to pp" and ?u = "eu (p_edge pp)"
  note M = sync_points_mem [OF pp]
  have t: "?s < MAX_THREAD" "?t < MAX_THREAD" using M by linarith+
  note ds = d [rule_format, OF t(1)] and dt = d [rule_format, OF t(2)]
  have u: "in_loop m (floop E) ?u" using edges_okD(2) [OF eo] M by blast
  have up: "?u < next_ptr m" by (rule in_loop_ptr [OF env_okD(1) [OF ok] u])
  obtain k where k: "k < length (thread_insts E m ?s)" "thread_insts E m ?s ! k = ?u" "p_u pp = copies_ptr E m ?s (pt ?s) + k"
    using table_copy [OF ok t(1) ds u] M by auto
  have old: "newToOld st (VInst (p_u pp)) = Some (VInst ?u)" using thread_doneD(13) [OF ds k(1)] k(2,3) by simp
  obtain q where q: "consume_place st ?t ?u = Ok q" "mparent M c = mparent (cmod st) q" "mparent M p = mparent (cmod st) (p_u pp)"
    using ce old unfolding channel_ends_def by auto
  have "\<exists>k < length (thread_insts E m ?t). q = copies_ptr E m ?t (pt ?t) + k \<and> mparent m (thread_insts E m ?t ! k) = mparent m ?u"
  proof (cases "placeEquivalents st ?t ?u")
    case None
    then have "instMap st ?t (VInst ?u) = Some (VInst q)" using q(1) by (auto simp: consume_place_def split: option.splits Value.splits)
    then show ?thesis using table_copy [OF ok t(2) dt u] by auto
  next
    case (Some n)
    then have "n = q" using q(1) by (simp add: consume_place_def)
    then have "copies_ptr E m ?t (pt ?t) \<le> q" "q < copies_ptr E m ?t (pt ?t) + length (thread_insts E m ?t)"
      "mparent m (thread_insts E m ?t ! (q - copies_ptr E m ?t (pt ?t))) = mparent m ?u"
      using thread_doneD(14) [OF dt Some] up by (simp_all add: entry_ptr_def)
    then show ?thesis by (intro exI [of _ "q - copies_ptr E m ?t (pt ?t)"]) auto
  qed
  then obtain k' where k': "k' < length (thread_insts E m ?t)" "q = copies_ptr E m ?t (pt ?t) + k'"
    "mparent m (thread_insts E m ?t ! k') = mparent m ?u" by blast
  show ?thesis
    using M copy_block_of [OF ok t(1) ds inv k(1)] copy_block_of [OF ok t(2) dt inv k'(1)] k(2,3) k'(2,3) q(2,3) by simp
qed

text \<open>The copies of different blocks, or for different threads, are different.\<close>

lemma copies_apart:
  assumes ok: "env_ok E m" and d: "\<forall>t < MAX_THREAD. thread_done E m t (pt t) st" and inv: "store_inv (cmod st)"
    and t: "t < MAX_THREAD" "u < MAX_THREAD" and b: "b \<in> set (rel_blocks m (fplan E) t) \<union> {fexit E}" and c: "c \<in> set (rel_blocks m (fplan E) u)"
  shows "block_copy E m t (pt t) b = block_copy E m u (pt u) c \<longleftrightarrow> t = u \<and> b = c"
proof
  have w: "block_copy E m v (pt v) x \<in> set (mblocks (cmod st) (fworkers E ! v))"
    if "v < MAX_THREAD" "x \<in> set (rel_blocks m (fplan E) v) \<union> {fexit E}" for v x
    using worker_copy_block [OF ok that(1)] worker_copy_exit [OF ok that(1)] d that thread_doneD(3) [of E m v "pt v" st] by fastforce
  assume eq: "block_copy E m t (pt t) b = block_copy E m u (pt u) c"
  have "fworkers E ! t = fworkers E ! u"
    using store_block [OF inv w [OF t(1) b]] store_block [OF inv w [OF t(2), of c]] c eq by auto
  then have "t = u" using env_okD(7,8) [OF ok] t by (simp add: nth_eq_iff_index_eq)
  then show "t = u \<and> b = c" using worker_copy_inj [OF ok t(1), of "pt t"] b c eq by (auto simp: inj_on_def)
qed simp

lemma worker_block_in:
  assumes "env_ok E m" "t < MAX_THREAD" "thread_done E m t p st" "b \<in> set (rel_blocks m (fplan E) t) \<union> {fexit E}"
  shows "block_copy E m t p b \<in> set (mblocks (cmod st) (fworkers E ! t))"
  using assms(4) worker_copy_block [OF assms(1-3), of b] worker_copy_exit [OF assms(1-3)] thread_doneD(3) [OF assms(3)] by fastforce

text \<open>The calls a thread makes when the loop is in a block: those in the copy of the block, if it has one.\<close>

definition worker_comms :: "split_env \<Rightarrow> module_ir \<Rightarrow> module_ir \<Rightarrow> (nat \<Rightarrow> BB \<Rightarrow> BB) \<Rightarrow> nat \<Rightarrow> BB \<Rightarrow> comm list" where
  "worker_comms E m M cp t b =
     (if b \<in> set (rel_blocks m (fplan E) t) \<or> b = fexit E then block_comms M (cp t b) else [])"

lemma worker_layout:
  assumes ok: "env_ok E m" and eo: "edges_ok E m" and d: "\<forall>t < MAX_THREAD. thread_done E m t (pt t) st" and inv: "store_inv (cmod st)"
    and pd: "paired (fworkers E) st pts (st', n)" and pts: "pts = sync_points (fplan E) (instMap st)"
    and m': "\<forall>t < MAX_THREAD. \<forall>b \<in> set (mblocks (cmod st') (fworkers E ! t)).
      mset (mbody m' b) = mset (mbody (cmod st') b) \<and> (\<forall>i \<in> set (mbody m' b). mcode m' i = mcode (cmod st') i)"
  shows "channel_layout MAX_THREAD (worker_comms E m m' (\<lambda>t. block_copy E m t (pt t))) n
    (\<lambda>c. p_from (pts ! nat c)) (\<lambda>c. p_to (pts ! nat c)) (\<lambda>c. mparent m (eu (p_edge (pts ! nat c))))"
proof -
  let ?M = "cmod st'" and ?ops = "worker_comms E m m' (\<lambda>t. block_copy E m t (pt t))"
  let ?src = "\<lambda>c. p_from (pts ! nat c)" and ?dst = "\<lambda>c. p_to (pts ! nat c)" and ?home = "\<lambda>c. mparent m (eu (p_edge (pts ! nat c)))"
  let ?R = "\<lambda>t. set (rel_blocks m (fplan E) t)" and ?cp = "\<lambda>t. block_copy E m t (pt t)"
  have invM: "store_inv ?M" and bl: "mblocks ?M = mblocks (cmod st)" and n: "n = int (length pts)"
    using pd by (simp_all add: paired_def clones_ok_def grown_def)
  have K: "if 0 \<le> c \<and> c < n
      then \<exists>p q. comms ''sync_produce'' ?M c = {p} \<and> comms ''sync_consume'' ?M c = {q} \<and> channel_ends (fworkers E) st (pts ! nat c) ?M p q
      else comms ''sync_produce'' ?M c = {} \<and> comms ''sync_consume'' ?M c = {}" for c
    using pd unfolding paired_def n fst_conv snd_conv by blast
  have used: "\<exists>p q. comms ''sync_produce'' ?M c = {p} \<and> comms ''sync_consume'' ?M c = {q} \<and>
      ?home c \<in> ?R (?src c) \<and> ?home c \<in> ?R (?dst c) \<and> ?src c < ?dst c \<and> ?dst c < MAX_THREAD \<and>
      mparent ?M p = ?cp (?src c) (?home c) \<and> mparent ?M q = ?cp (?dst c) (?home c)" if c: "0 \<le> c" "c < n" for c
  proof -
    have "nat c < length pts" using c n by (simp add: nat_less_iff)
    then have mem: "pts ! nat c \<in> set (sync_points (fplan E) (instMap st))" using pts by simp
    obtain p q where pq: "comms ''sync_produce'' ?M c = {p}" "comms ''sync_consume'' ?M c = {q}"
      "channel_ends (fworkers E) st (pts ! nat c) ?M p q"
      using K [of c] c by auto
    from channel_blocks [OF ok eo d inv mem pq(3)] pq(1,2) show ?thesis by blast
  qed
  have unused: "comms ''sync_produce'' ?M c = {}" "comms ''sync_consume'' ?M c = {}" if "\<not> (0 \<le> c \<and> c < n)" for c
    using K [of c] that by auto
  have "count_list (?ops t b) (Send c) = (if 0 \<le> c \<and> c < n \<and> t = ?src c \<and> b = ?home c then 1 else 0) \<and>
      count_list (?ops t b) (Recv c) = (if 0 \<le> c \<and> c < n \<and> t = ?dst c \<and> b = ?home c then 1 else 0)" if t: "t < MAX_THREAD" for t b c
  proof (cases "b \<in> ?R t \<or> b = fexit E")
    case False
    then have "0 \<le> c \<and> c < n \<Longrightarrow> \<not> (t = ?src c \<and> b = ?home c) \<and> \<not> (t = ?dst c \<and> b = ?home c)" using used by blast
    moreover have "?ops t b = []" using False by (simp add: worker_comms_def)
    ultimately show ?thesis by auto
  next
    case True
    then have "b \<in> ?R t \<union> {fexit E}" by blast
    from worker_block_in [OF ok t d [rule_format, OF t] this] have b: "?cp t b \<in> set (mblocks ?M (fworkers E ! t))" using bl by simp
    have ops: "count_list (?ops t b) x = count_list (block_comms ?M (?cp t b)) x" for x
    proof -
      have "count_list (block_comms m' (?cp t b)) x = count_list (block_comms ?M (?cp t b)) x"
        by (rule count_block_comms_same) (use m' t b in blast)+
      then show ?thesis using True by (simp only: worker_comms_def if_True)
    qed
    note send = count_comms [OF invM b comm_of_iff(1), of c] and recv = count_comms [OF invM b comm_of_iff(2), of c]
    show ?thesis
    proof (cases "0 \<le> c \<and> c < n")
      case False
      then show ?thesis unfolding ops using send(1) recv(1) unused by auto
    next
      case c: True
      then obtain p q where u: "comms ''sync_produce'' ?M c = {p}" "comms ''sync_consume'' ?M c = {q}"
        "?home c \<in> ?R (?src c)" "?home c \<in> ?R (?dst c)" "?src c < ?dst c" "?dst c < MAX_THREAD"
        "mparent ?M p = ?cp (?src c) (?home c)" "mparent ?M q = ?cp (?dst c) (?home c)"
        using used by blast
      have lt: "?src c < MAX_THREAD" using u(5,6) by simp
      have b': "b \<in> ?R t \<union> {fexit E}" using \<open>b \<in> ?R t \<or> b = fexit E\<close> by blast
      have at: "mparent ?M p = ?cp t b \<longleftrightarrow> t = ?src c \<and> b = ?home c" "mparent ?M q = ?cp t b \<longleftrightarrow> t = ?dst c \<and> b = ?home c"
        unfolding u(7,8) copies_apart [OF ok d inv t lt b' u(3), symmetric] copies_apart [OF ok d inv t u(6) b' u(4), symmetric]
        by (rule eq_commute)+
      show ?thesis unfolding ops send(2) [OF u(1)] recv(2) [OF u(2)] at by (simp only: c simp_thms)
    qed
  qed
  then show ?thesis using used unfolding channel_layout_def by blast
qed

section \<open>The branches of the finished workers\<close>

lemma one_end_last:
  assumes "one_end P xs" "xs \<noteq> []" "P (last xs)"
  shows "filter P xs = [last xs]"
proof -
  have "last xs \<in> set (filter P xs)" using assms(2,3) by simp
  moreover obtain y where "filter P xs = [y]" using assms(1) by (auto simp: one_end_def length_Suc_conv)
  ultimately show ?thesis by simp
qed

lemma survives_next_blocks:
  assumes bs: "block_survives L m (cmod st') m' b" and gr: "grown (cmod st) (cmod st')" and inv: "store_inv (cmod st)"
    and terms: "filter (is_term (cmod st')) (mbody (cmod st') b) = filter (is_term (cmod st)) (mbody (cmod st) b)"
    and one: "one_end (is_term (cmod st)) (mbody (cmod st) b)" "mbody (cmod st) b \<noteq> []" "is_term (cmod st) (last (mbody (cmod st) b))"
  shows "next_blocks m' b = next_blocks (cmod st) b"
proof -
  let ?l = "last (mbody (cmod st) b)"
  have s: "mset (mbody m' b) = mset (mbody (cmod st') b)" "mbody m' b \<noteq> []" "is_term m' (last (mbody m' b))"
    "one_end (is_term m') (mbody m' b)" "\<forall>i \<in> set (mbody m' b). mcode m' i = mcode (cmod st') i"
    using bs unfolding block_survives_def by blast+
  have l: "last (mbody m' b) \<in> set (mbody m' b)" using s(2) by simp
  then have "last (mbody m' b) \<in> set (mbody (cmod st') b)" using s(1) mset_eq_setD by blast
  moreover have "is_term (cmod st') (last (mbody m' b))" using s(3,5) l by (simp add: is_term_def)
  ultimately have "last (mbody m' b) \<in> set (filter (is_term (cmod st)) (mbody (cmod st) b))" unfolding terms [symmetric] by simp
  then have e: "last (mbody m' b) = ?l" unfolding one_end_last [OF one] by simp
  have "?l < next_ptr (cmod st)" using store_inst [OF inv] one(2) by (meson last_in_set)
  then have "succs (mcode (cmod st') ?l) = succs (mcode (cmod st) ?l)" using gr by (simp add: grown_def)
  then show ?thesis using s(5) l e by (simp add: next_blocks_def)
qed

section \<open>The finished workers run\<close>

text \<open>The calls of the program of a thread are those of the copies it passes.\<close>

lemma program_visits:
  "map snd (program (worker_comms E m M cp t) (map fst run)) =
    concat (map (\<lambda>bj. block_comms M (cp t (fst bj))) (visits E (set (rel_blocks m (fplan E) t)) run))"
proof -
  have "map snd (concat (map (\<lambda>(i, b). map (Pair i) (worker_comms E m M cp t b)) (enumerate k (map fst run)))) =
      concat (map (\<lambda>bj. block_comms M (cp t (fst bj))) (visits E (set (rel_blocks m (fplan E) t)) run))" for k
    by (induction run arbitrary: k) (simp_all add: visits_def worker_comms_def comp_def)
  then show ?thesis by (simp add: program_def)
qed

text \<open>
  What a pipeline \<open>gs\<close> in \<open>m'\<close> for a loop in \<open>m\<close> does. The workers follow the loop. Every channel is sent to once in the copy of
  one block by its thread, and received from once in the copy of the same block by a later thread. If there are not more
  channels than the runtime has, the workers never block each other for ever on a run of the loop.
\<close>

definition pipeline_works :: "split_env \<Rightarrow> module_ir \<Rightarrow> string list \<Rightarrow> module_ir \<Rightarrow> int \<Rightarrow> bool" where
  "pipeline_works E m gs m' n \<longleftrightarrow> (\<exists>cp src dst home.
     (\<forall>t < MAX_THREAD. worker_follows E m (set (rel_blocks m (fplan E) t)) m' (gs ! t) (cp t)) \<and>
     channel_layout MAX_THREAD (worker_comms E m m' cp) n src dst home \<and>
     (n \<le> int NUM_QUEUES \<longrightarrow> (\<forall>run. follows (loop_step E m) run \<longrightarrow>
       never_stuck MAX_THREAD (net_start MAX_THREAD (worker_comms E m m' cp) (map fst run)) \<and>
       (\<forall>t < MAX_THREAD. map snd (program (worker_comms E m m' cp t) (map fst run)) =
         concat (map (\<lambda>bj. block_comms m' (cp t (fst bj))) (visits E (set (rel_blocks m (fplan E) t)) run))))))"

text \<open>\<open>loopSplit\<close>, \<open>insertSynchronization\<close> and \<open>cleanup\<close> leave a pipeline that works.\<close>

lemma split_sync_works:
  assumes "pipeline_ok E m f" "inst_users users" "users_found users" "one_term_blocks (floop E) m" "distinct (lblocks (floop E))"
    and "exit_tree E m" "control_covered E m"
  shows "\<exists>st st' n m'. loopSplit E (no_clones m) = Ok st \<and> insertSynchronization (fplan E) users True st = Ok (st', n) \<and>
    cleanup (floop E) (fworkers E) (cmod st') = Ok m' \<and> n = int (length (sync_points (fplan E) (instMap st))) \<and>
    pipeline_works E m (fworkers E) m' n"
proof -
  note p = pipeline_okD [OF assms(1)]
  obtain st st' n m' where s: "loopSplit E (no_clones m) = Ok st" "insertSynchronization (fplan E) users True st = Ok (st', n)"
    "cleanup (floop E) (fworkers E) (cmod st') = Ok m'"
    "\<forall>t < MAX_THREAD. mblocks m' (fworkers E ! t) = mblocks (cmod st) (fworkers E ! t) \<and>
      (\<forall>b \<in> set (mblocks m' (fworkers E ! t)). block_survives (floop E) m (cmod st') m' b)"
    using split_sync_cleanup [OF assms(1-5)] by blast
  obtain pt where d: "\<forall>t < MAX_THREAD. thread_done E m t (pt t) st" and inv: "store_inv (cmod st)"
    and sy: "sources_assigned (fplan E)" "clones_ok (fworkers E) st" "no_channels (cmod st)"
    by (rule split_sync_states [OF assms(1,2)]) (use s(1) in auto)
  note pd = sync_paired [OF sy s(2)]
  have gr: "grown (cmod st) (cmod st')" using pd by (simp add: paired_def)
  let ?cp = "\<lambda>t. block_copy E m t (pt t)"
  have wf: "worker_follows E m (set (rel_blocks m (fplan E) t)) m' (fworkers E ! t) (?cp t)" if t: "t < MAX_THREAD" for t
  proof (rule worker_follows_cong)
    note dt = d [rule_format, OF t]
    show "worker_follows E m (set (rel_blocks m (fplan E) t)) (cmod st) (fworkers E ! t) (?cp t)"
      by (rule worker_follows_done [OF p(1) t dt assms(6) control_closed_pipeline [OF assms(1,7) t]])
    show "mblocks m' (fworkers E ! t) = mblocks (cmod st) (fworkers E ! t)" using s(4) t by blast
    show "mblocks (cmod st) (fworkers E ! t) \<noteq> []" unfolding thread_doneD(3) [OF dt] by simp
    show "\<forall>b \<in> set (mblocks (cmod st) (fworkers E ! t)). next_blocks m' b = next_blocks (cmod st) b"
    proof
      fix b assume b: "b \<in> set (mblocks (cmod st) (fworkers E ! t))"
      then have "block_survives (floop E) m (cmod st') m' b" using s(4) t by metis
      moreover have "mbody (cmod st) b \<noteq> []" "is_term (cmod st) (last (mbody (cmod st) b))"
        using worker_block_end [OF p(1) t dt b] by (simp_all add: is_term_def)
      ultimately show "next_blocks m' b = next_blocks (cmod st) b"
        using survives_next_blocks [OF _ gr inv conjunct1 [OF sync_terms [OF sy s(2) pipeline_sources [OF assms(1) d] b]]
          worker_one_end [OF p(1) t dt assms(4) b]] by blast
    qed
  qed
  have lay: "channel_layout MAX_THREAD (worker_comms E m m' ?cp) n (\<lambda>c. p_from (sync_points (fplan E) (instMap st) ! nat c))
      (\<lambda>c. p_to (sync_points (fplan E) (instMap st) ! nat c)) (\<lambda>c. mparent m (eu (p_edge (sync_points (fplan E) (instMap st) ! nat c))))"
  proof (rule worker_layout [OF p(1,4) d inv pd refl])
    show "\<forall>t < MAX_THREAD. \<forall>b \<in> set (mblocks (cmod st') (fworkers E ! t)).
      mset (mbody m' b) = mset (mbody (cmod st') b) \<and> (\<forall>i \<in> set (mbody m' b). mcode m' i = mcode (cmod st') i)"
      using s(4) gr unfolding block_survives_def grown_def by metis
  qed
  have "never_stuck MAX_THREAD (net_start MAX_THREAD (worker_comms E m m' ?cp) (map fst run))"
    if "n \<le> int NUM_QUEUES" for run :: "(BB \<times> nat) list" by (rule net_never_stuck [OF lay that])
  then have "pipeline_works E m (fworkers E) m' n"
    unfolding pipeline_works_def
    by - (rule exI [of _ ?cp], intro exI conjI allI impI, rule wf, assumption, rule lay, blast, rule program_visits)
  moreover have "n = int (length (sync_points (fplan E) (instMap st)))" using pd by (simp add: paired_def)
  ultimately show ?thesis using s(1-3) by blast
qed

end
