(* ===== verification/Pass_Runs.thy ===== *)
theory Pass_Runs
  imports Transform_Result Worker_Net
begin

text \<open>
  The pass and the paths of the workers together: \<open>preLoopSplit\<close> changes nothing that the paths depend on, and the control
  dependences of \<open>buildPDG\<close> are those the paths need, so the workers of the module that \<open>runOnLoop\<close> leaves follow the loop of
  the module it was given and never block each other for ever.
\<close>

section \<open>The same loop\<close>

definition same_view :: "split_env \<Rightarrow> split_env \<Rightarrow> bool" where
  "same_view E E' \<longleftrightarrow> floop E' = floop E \<and> fexit E' = fexit E \<and> fplan E' = fplan E \<and> fpostidom E' = fpostidom E"

lemma same_next_blocks:
  assumes "same_loop L m M" "contains L b" "mbody m b \<noteq> []"
  shows "next_blocks M b = next_blocks m b"
  using same_loopD(3,4) [OF assms(1,2)] assms(3) by (simp add: next_blocks_def)

lemma same_loop_step:
  assumes "same_loop (floop E) m M" "same_view E E'" "\<forall>b. contains (floop E) b \<longrightarrow> mbody m b \<noteq> []"
  shows "loop_step E' M = loop_step E m" "lflow E' M = lflow E m" "must_pass E' M = must_pass E m"
proof -
  show s: "loop_step E' M = loop_step E m"
    using same_next_blocks [OF assms(1)] assms(2,3) by (auto simp: fun_eq_iff loop_step_def same_view_def)
  then show f: "lflow E' M = lflow E m" by (simp add: lflow_def)
  show "must_pass E' M = must_pass E m" using assms(2) f by (simp add: fun_eq_iff must_pass_def same_view_def)
qed

lemma same_paths:
  assumes "same_loop (floop E) m M" "same_view E E'" "\<forall>b. contains (floop E) b \<longrightarrow> mbody m b \<noteq> []"
  shows "exit_tree E' M \<longleftrightarrow> exit_tree E m" "control_covered E m \<Longrightarrow> control_covered E' M"
proof -
  note s = same_loop_step [OF assms] and v = assms(2) [unfolded same_view_def]
  show "exit_tree E' M \<longleftrightarrow> exit_tree E m" unfolding exit_tree_def s using v by simp
  assume c: "control_covered E m"
  show "control_covered E' M"
    unfolding control_covered_def s
  proof (clarify)
    fix x y q u assume h: "(x, y) \<in> lflow E m" "contains (floop E') q" "must_pass E m q y" "\<not> must_pass E m q x" "u \<in> set (mbody M q)"
    have "mbody M x = mbody m x" "mbody M q = mbody m q"
      using same_loopD(3) [OF assms(1)] lflow_source [OF h(1)] h(2) v by simp_all
    then show "mk_edge (last (mbody M x)) u CONTROL \<in> set (allEdges (pgraph (fplan E')))"
      using c h v unfolding control_covered_def by auto
  qed
qed

lemma same_pipeline_works:
  assumes "same_loop (floop E) m M" "same_view E E'" "\<forall>b. contains (floop E) b \<longrightarrow> mbody m b \<noteq> []"
    and plan: "plan_ok m (floop E) (fplan E)" and works: "pipeline_works E' M gs m' n"
  shows "pipeline_works E m gs m' n"
proof -
  note s = same_loop_step [OF assms(1-3)] and v = assms(2) [unfolded same_view_def]
  have R: "rel_blocks M (fplan E) t = rel_blocks m (fplan E) t" if "t < MAX_THREAD" for t
    by (rule same_rel_blocks [OF assms(1) plan that])
  have nb: "next_blocks M b = next_blocks m b" if "b \<in> set (rel_blocks m (fplan E) t)" "t < MAX_THREAD" for b t
    using same_next_blocks [OF assms(1)] rel_blocks_in(1) [OF plan that(2,1)] assms(3) by blast
  have br: "block_run E' M (set (rel_blocks m (fplan E) t)) wr \<longleftrightarrow> block_run E m (set (rel_blocks m (fplan E) t)) wr"
    if "t < MAX_THREAD" for t wr
    unfolding block_run_def using nb [OF _ that] v by fastforce
  have vis: "visits E' R run = visits E R run" for R run using v by (simp add: visits_def)
  have wf: "worker_follows E' M (set (rel_blocks M (fplan E') t)) m' g cp \<longleftrightarrow>
      worker_follows E m (set (rel_blocks m (fplan E) t)) m' g cp" if "t < MAX_THREAD" for t g cp
    unfolding worker_follows_def s by (simp only: v R [OF that] br [OF that] vis)
  have wc: "worker_comms E' M m' cp t = worker_comms E m m' cp t" if "t < MAX_THREAD" for cp t
    using R [OF that] v by (simp add: fun_eq_iff worker_comms_def)
  have lay: "channel_layout MAX_THREAD (worker_comms E' M m' cp) n src dst home \<Longrightarrow>
      channel_layout MAX_THREAD (worker_comms E m m' cp) n src dst home" for cp src dst home
    using wc unfolding channel_layout_def by simp
  have start: "net_start MAX_THREAD (worker_comms E' M m' cp) run = net_start MAX_THREAD (worker_comms E m m' cp) run" for cp run
    unfolding net_start_def by (simp add: wc cong: if_cong)
  obtain cp src dst home where w: "\<forall>t < MAX_THREAD. worker_follows E' M (set (rel_blocks M (fplan E') t)) m' (gs ! t) (cp t)"
    "channel_layout MAX_THREAD (worker_comms E' M m' cp) n src dst home"
    "n \<le> int NUM_QUEUES \<longrightarrow> (\<forall>run. follows (loop_step E' M) run \<longrightarrow>
       never_stuck MAX_THREAD (net_start MAX_THREAD (worker_comms E' M m' cp) (map fst run)))"
    using works unfolding pipeline_works_def by blast
  show ?thesis
    unfolding pipeline_works_def
    by (rule exI [of _ cp], intro exI conjI allI impI)
      (use w wf in blast, rule lay [OF w(2)], use w(3) in \<open>unfold s start, blast\<close>, rule program_visits)
qed

section \<open>The transformation\<close>

text \<open>Every dependence gets at most one channel to each later thread.\<close>

lemma sync_points_bound: "length (sync_points P tab) \<le> (MAX_THREAD - 1) * length (allEdges (pgraph P))"
proof -
  have point: "length (point_of tab e s t) \<le> 1" for e s t by (simp add: point_of_def split: option.splits Value.splits)
  have points: "length (points_of P tab e) \<le> MAX_THREAD - 1" for e
  proof -
    have "length (concat (map (point_of tab e s) ts)) \<le> length ts" for s ts
    proof (induction ts)
      case (Cons t ts)
      then show ?case using point [of e s t] by simp
    qed simp
    from this [of "thread_num P (eu e)" "[Suc (thread_num P (eu e))..<MAX_THREAD]"] show ?thesis
      unfolding points_of_def length_upt by linarith
  qed
  have "length (concat (map (points_of P tab) es)) \<le> (MAX_THREAD - 1) * length es" for es
  proof (induction es)
    case (Cons e es)
    then show ?case using points [of e] by simp
  qed simp
  then show ?thesis by (simp add: sync_points_def)
qed

lemma transform_works:
  assumes I: "loop_input A f L ex pr (loopCounter ps) m" and li: "live_fits m L (live P)"
    and sp: "splittable (loop_env L ex pr P (dom_tables A (mblocks m f))) m"
    and tree: "exit_tree (loop_env L ex pr P (dom_tables A (mblocks m f))) m"
    and cov: "control_covered (loop_env L ex pr P (dom_tables A (mblocks m f))) m"
    and run: "transform_loop A f L ex pr P ps m = Ok (ps', m')"
  shows "\<exists>n. n \<le> int ((MAX_THREAD - 1) * length (allEdges (pgraph P))) \<and>
    pipeline_works (loop_env L ex pr P (dom_tables A (mblocks m f))) m (workers (loopCounter ps)) m' n"
proof -
  let ?doms = "dom_tables A (mblocks m f)" and ?ws = "workers (loopCounter ps)"
  have i: "loop_shape m f L ex pr" "runtime_declared m" "no_channels m" "workers_new m (loopCounter ps)"
    "\<forall>b \<in> set (mblocks m f). dom_of A b \<noteq> None \<and> postdom_of A b \<noteq> None" "end_node A" "inst_users (users_of A)" "users_found (users_of A)"
    using I unfolding loop_input_def by blast+
  obtain r where r: "preLoopSplit f L ex (loopCounter ps) (live P) (generated ps) m = Ok r" "allFunc r = ?ws"
    "same_loop L m (pmodule r)" "pipeline_ok (split_env_of L ex pr P ?doms r) (pmodule r) f" "one_term_blocks L (pmodule r)"
    using pre_split_pipeline [OF i(1-4) li sp] by blast
  let ?E = "loop_env L ex pr P ?doms" and ?E' = "split_env_of L ex pr P ?doms r"
  have v: "same_view ?E ?E'" by (simp add: same_view_def env_sel loop_env_sel)
  have sm: "same_loop (floop ?E) m (pmodule r)" using r(3) by (simp add: loop_env_sel)
  have ne: "\<forall>b. contains (floop ?E) b \<longrightarrow> mbody m b \<noteq> []" using loop_shapeD(8) [OF i(1)] by (simp add: loop_env_sel)
  note same = same_paths [OF sm v ne]
  have one: "one_term_blocks (floop ?E') (pmodule r)" "distinct (lblocks (floop ?E'))"
    using r(5) loop_shapeD(2) [OF i(1)] unfolding env_sel by blast+
  obtain st st' n m2 where s: "loopSplit ?E' (no_clones (pmodule r)) = Ok st"
    "insertSynchronization P (users_of A) True st = Ok (st', n)" "cleanup L (allFunc r) (cmod st') = Ok m2"
    "n = int (length (sync_points P (instMap st)))" "pipeline_works ?E' (pmodule r) (allFunc r) m2 n"
    using split_sync_works [OF r(4) i(7,8) one] same tree cov unfolding env_sel by blast
  have "m2 = m'"
    using run getDominators_run [OF i(5)] r(1) s(1-3) i(6) by (simp add: transform_loop_def)
  moreover have "plan_ok m (floop ?E) (fplan ?E)" using sp unfolding splittable_def by blast
  moreover have "n \<le> int ((MAX_THREAD - 1) * length (allEdges (pgraph P)))" unfolding s(4) of_nat_le_iff by (rule sync_points_bound)
  ultimately show ?thesis using same_pipeline_works [OF sm v ne] s(5) r(2) by metis
qed

section \<open>The pass\<close>

text \<open>
  C2. The pass makes pipelines that work. Under the conditions of the theorem before, and with the tree of post-dominators
  that LLVM documents for a loop with one exit, \<open>runOnLoop\<close> either leaves the module as it is or returns a module in which
  every worker follows the loop through the copies of its blocks, every channel is sent to once and received from once in a
  visit of the block of its source, by an earlier and by a later thread, and, if the runtime has enough queues, no order of
  the threads' steps comes to a stop before all calls of a run are made; every consumer gets the value of the same visit.
\<close>

theorem pass_pipelines:
  fixes m :: module_ir and L :: loop_ir
  assumes ok: "llvm_ok (analyses_of A) (func_view f (uses_of A) m) L"
    and I: "loop_input A f L ex pr (loopCounter ps + 1) m" "lexit L = Some ex" "lpred L = Some pr" "set (lexits L) = {ex}"
    and ops: "operands_ok (uses_of A m) m L"
    and plan: "\<And>P ps'. analyse_loop tie (analyses_of A) f (func_view f (uses_of A) m) L ps = Ok (Some P, ps') \<Longrightarrow>
      branches_fit (loop_env L ex pr P (dom_tables A (mblocks m f))) m \<and> exit_tree (loop_env L ex pr P (dom_tables A (mblocks m f))) m"
  shows "(\<exists>ps'. runOnLoop tie A f L ps m = Ok (False, ps', m)) \<or>
    (\<exists>ps' m' P ps1 n. runOnLoop tie A f L ps m = Ok (True, ps', m') \<and>
      analyse_loop tie (analyses_of A) f (func_view f (uses_of A) m) L ps = Ok (Some P, ps1) \<and>
      n \<le> int ((MAX_THREAD - 1) * length (allEdges (pgraph P))) \<and>
      pipeline_works (loop_env L ex pr P (dom_tables A (mblocks m f))) m (workers (loopCounter ps + 1)) m' n)"
proof -
  let ?F = "func_view f (uses_of A) m"
  have "\<forall>P ps'. analyse_loop tie (analyses_of A) f ?F L ps = Ok (Some P, ps') \<longrightarrow>
      branches_fit (loop_env L ex pr P (dom_tables A (mblocks m f))) m" using plan by blast
  from run_on_loop_cases [OF ok I(1-3) ops this] show ?thesis
  proof (elim disjE exE conjE)
    fix ps' m' P ps1
    let ?E = "loop_env L ex pr P (dom_tables A (mblocks m f))"
    assume a: "runOnLoop tie A f L ps m = Ok (True, ps', m')" "analyse_loop tie (analyses_of A) f ?F L ps = Ok (Some P, ps1)"
      "transform_loop A f L ex pr P ps1 m = Ok (ps', m')" "loopCounter ps1 = loopCounter ps + 1" "splittable ?E m" "live_fits m L (live P)"
    note pl = plan [OF a(2)] and p = plan_parts [OF ok a(2)]
    have s: "loop_shape m f L ex pr" using I(1) unfolding loop_input_def by blast
    have one: "one_exit ?F ?E m f"
      using loop_shapeD(3,5,8) [OF s] pl I(4) unfolding one_exit_def branches_fit_def loop_env_sel by (simp add: views_def func_view_def)
    have "control_covered ?E m"
      by (rule control_covered_pdg [OF one, where A = "memory (analyses_of A)"], unfold loop_env_sel) (use p in blast)+
    then have "\<exists>n. n \<le> int ((MAX_THREAD - 1) * length (allEdges (pgraph P))) \<and> pipeline_works ?E m (workers (loopCounter ps1)) m' n"
      using transform_works [OF _ a(6,5) conjunct2 [OF pl] _ a(3)] I(1) a(4) by simp
    then show ?thesis using a(1,2,4) by auto
  qed auto
qed

theorem pass_pipelines_witness:
  "\<exists>ps' m' P n cp. runOnLoop (\<lambda>_. 0) pipe_all ''f'' pipe_loop pass_start pipe_module = Ok (True, ps', m') \<and> n \<le> int NUM_QUEUES \<and>
    pipeline_works (loop_env pipe_loop 2 0 P (dom_tables pipe_all (mblocks pipe_module ''f''))) pipe_module (workers 1) m' n \<and>
    never_stuck MAX_THREAD (net_start MAX_THREAD
      (worker_comms (loop_env pipe_loop 2 0 P (dom_tables pipe_all (mblocks pipe_module ''f''))) pipe_module m' cp) [1, 1, 1, 2])"
proof -
  let ?E = "\<lambda>P. loop_env pipe_loop 2 0 P (dom_tables pipe_all (mblocks pipe_module ''f''))"
  have A: "analyses_of pipe_all = small_llvm" "func_view ''f'' (uses_of pipe_all) pipe_module = pipe_func"
    by (simp_all add: pipe_all_def pipe_func_def)
  have start: "loopCounter pass_start + 1 = 1" by (simp add: pass_start_def)
  have L: "lexit pipe_loop = Some 2" "lpred pipe_loop = Some 0" "set (lexits pipe_loop) = {2}" by (simp_all add: pipe_loop_def)
  have step: "loop_step (?E P) pipe_module = loop_step pipe_env pipe_module" for P
    by (simp add: fun_eq_iff loop_step_def loop_env_sel pipe_sel)
  have tree: "exit_tree (?E P) pipe_module" for P
  proof -
    have f: "lflow (?E P) pipe_module = lflow pipe_env pipe_module" by (simp add: lflow_def step)
    have ex: "fexit (?E P) = fexit pipe_env" by (simp add: loop_env_sel) (simp add: pipe_env_def)
    have mp: "must_pass (?E P) pipe_module = must_pass pipe_env pipe_module" by (simp add: fun_eq_iff must_pass_def f ex)
    have up: "fpostidom (?E P) = fpostidom pipe_env"
      by (simp add: loop_env_sel dom_tables_def pipe_all_def pipe_module_def fun_eq_iff) (simp add: pipe_env_def)
    show ?thesis using pipe_exit_tree unfolding exit_tree_def f mp up ex by (simp add: loop_env_sel pipe_sel)
  qed
  obtain P0 ps0 where found: "analyse_loop (\<lambda>_. 0) small_llvm ''f'' pipe_func pipe_loop pass_start = Ok (Some P0, ps0)"
    using pipe_analysed by (auto split: outcome.splits option.splits prod.splits)
  note R = pass_pipelines [where tie = "\<lambda>_. 0" and ps = pass_start and A = pipe_all and f = "''f''" and m = pipe_module and L = pipe_loop,
      OF _ _ L pipe_operands, unfolded A start]
  have "(\<exists>ps'. runOnLoop (\<lambda>_. 0) pipe_all ''f'' pipe_loop pass_start pipe_module = Ok (False, ps', pipe_module)) \<or>
    (\<exists>ps' m' P ps1 n. runOnLoop (\<lambda>_. 0) pipe_all ''f'' pipe_loop pass_start pipe_module = Ok (True, ps', m') \<and>
      analyse_loop (\<lambda>_. 0) small_llvm ''f'' pipe_func pipe_loop pass_start = Ok (Some P, ps1) \<and>
      n \<le> int ((MAX_THREAD - 1) * length (allEdges (pgraph P))) \<and> pipeline_works (?E P) pipe_module (workers 1) m' n)"
    by (rule R [OF pipe_llvm_ok pipe_input]) (use pipe_branches tree in blast)
  moreover have "\<nexists>ps'. runOnLoop (\<lambda>_. 0) pipe_all ''f'' pipe_loop pass_start pipe_module = Ok (False, ps', pipe_module)"
    using found by (auto simp: runOnLoop_def A L obind_eq_Ok)
  ultimately obtain ps' m' P ps1 n where r: "runOnLoop (\<lambda>_. 0) pipe_all ''f'' pipe_loop pass_start pipe_module = Ok (True, ps', m')"
      "analyse_loop (\<lambda>_. 0) small_llvm ''f'' pipe_func pipe_loop pass_start = Ok (Some P, ps1)"
      "n \<le> int ((MAX_THREAD - 1) * length (allEdges (pgraph P)))" "pipeline_works (?E P) pipe_module (workers 1) m' n" by blast
  have n: "n \<le> int NUM_QUEUES" using pipe_analysed [unfolded r(2)] r(3) by (simp add: MAX_THREAD_def NUM_QUEUES_def)
  obtain cp where "\<forall>run. follows (loop_step (?E P) pipe_module) run \<longrightarrow>
       never_stuck MAX_THREAD (net_start MAX_THREAD (worker_comms (?E P) pipe_module m' cp) (map fst run))"
    using r(4) n unfolding pipeline_works_def by blast
  moreover have "follows (loop_step (?E P) pipe_module) [(1, 0), (1, 0), (1, 1), (2, 0)]"
    by (simp add: step pipe_flow)
  ultimately have "never_stuck MAX_THREAD (net_start MAX_THREAD (worker_comms (?E P) pipe_module m' cp) [1, 1, 1, 2])" by fastforce
  then show ?thesis using r(1,4) n by blast
qed

end
