(* ===== verification/Debug_Output.thy ===== *)
theory Debug_Output
  imports Driver "HOL-Library.Word"
begin

text \<open>
  \<^verbatim>\<open>DSWP_DEBUG.cpp\<close> and \<^verbatim>\<open>runtime_debug.c\<close>: what the pass writes about a loop, to the files \<^verbatim>\<open>showgraph\<close>, \<^verbatim>\<open>dag\<close> and \<^verbatim>\<open>partition\<close> and to the
  terminal, as functions from the tables to text. LLVM's printing of an instruction and the names of values and blocks are
  arguments. The files can be read back: nothing of the components and of the partition is lost.
\<close>

section \<open>The texts\<close>

definition nl :: string where "nl = [CHR 0x0A]"
definition tab :: string where "tab = [CHR 0x09]"

text \<open>An \<open>enum\<close> is written as its number.\<close>

fun dtype_number :: "DType \<Rightarrow> int" where
  "dtype_number REG = 0" | "dtype_number DTRUE = 1" | "dtype_number DANTI = 2" | "dtype_number DOUT = 3"
| "dtype_number DSYN = 4" | "dtype_number CONTROL = 5" | "dtype_number CONTROL_LC = 6"

definition show_edges :: "(Inst \<Rightarrow> string) \<Rightarrow> Edge list \<Rightarrow> string" where
  "show_edges nm es = concat (map (\<lambda>e. nm (ev e) @ ''['' @ itoa (dtype_number (dtype e)) @ '']'' @ tab) es)"

definition showGraph :: "(Inst \<Rightarrow> string) \<Rightarrow> (Inst \<Rightarrow> string) \<Rightarrow> func_ir \<Rightarrow> loop_ir \<Rightarrow> dep_graph \<Rightarrow> string" where
  "showGraph print nm F L g =
     concat (map (\<lambda>i. nm i @ '' '' @ print i @ '':'' @ nl @ tab @ show_edges nm (edges_at (pdg g) i) @ nl @ nl) (loop_insts F L))"

text \<open>The lines on the terminal; the exit block is dereferenced.\<close>

definition showGraph_console :: "(BB \<Rightarrow> string) \<Rightarrow> loop_ir \<Rightarrow> string outcome" where
  "showGraph_console name L = (case lexit L of None \<Rightarrow> Undef
     | Some ex \<Rightarrow> Ok (''header:'' @ name (lheader L) @ nl @ ''exit:'' @ name ex @ nl @
         ''num of blocks:'' @ itoa (int (length (lblocks L))) @ nl))"

definition show_scc :: "(Inst \<Rightarrow> string) \<Rightarrow> scc_state \<Rightarrow> nat \<Rightarrow> string" where
  "show_scc nm st i =
     ''SCC '' @ itoa (int i) @ '':'' @ concat (map (\<lambda>inst. nm inst @ '' '') (InstInSCC st ! i)) @ nl @
     tab @ ''dependent scc'' @ '':'' @ concat (map (\<lambda>k. itoa (int k) @ '' '') (scc_dependents st i)) @ nl"

definition showDAG :: "(Inst \<Rightarrow> string) \<Rightarrow> scc_state \<Rightarrow> string" where
  "showDAG nm st = ''num:'' @ itoa (int (sccNum st)) @ nl @ concat (map (show_scc nm st) [0..<sccNum st])"

definition show_latency :: "partition \<Rightarrow> nat \<Rightarrow> string" where
  "show_latency p i = itoa (int i) @ '' '' @ itoa (sccLatency p ! i) @ nl"

definition show_part :: "partition \<Rightarrow> nat \<Rightarrow> string" where
  "show_part p i = ''partition '' @ itoa (int i) @ '':'' @ nl @
     tab @ concat (map (\<lambda>k. itoa (int k) @ '' '') (part p ! i)) @ nl"

definition showPartition :: "nat \<Rightarrow> partition \<Rightarrow> string" where
  "showPartition n p = ''latency: '' @ nl @ concat (map (show_latency p) [0..<n]) @ concat (map (show_part p) [0..<MAX_THREAD])"

definition showLiveInfo :: "(Value \<Rightarrow> string) \<Rightarrow> live_info \<Rightarrow> string" where
  "showLiveInfo name li =
     ''live variable information'' @ nl @
     ''livein:   '' @ concat (map (\<lambda>v. name v @ tab) (livein li)) @ nl @
     ''liveout:  '' @ concat (map (\<lambda>v. name v @ tab) (liveout li)) @ nl"

text \<open>
  The debugging calls of the runtime. \<open>showValue\<close> prints its argument as a signed number and, next to it, the \<open>int\<close> at that
  address: the argument has to be the address of one.
\<close>

definition showPlace :: string where
  "showPlace = ''I'' @ [CHR 0x27] @ ''m here!'' @ nl"

definition showPtr :: "(64 word \<Rightarrow> string) \<Rightarrow> 64 word \<Rightarrow> string" where
  "showPtr pointer elem = ''show pointer: '' @ pointer elem @ nl"

definition showValue :: "(64 word \<Rightarrow> 32 word option) \<Rightarrow> 64 word \<Rightarrow> string outcome" where
  "showValue mem elem = (case mem elem of None \<Rightarrow> Undef
     | Some v \<Rightarrow> Ok (''show value: '' @ itoa (sint elem) @ '' '' @ tab @ '' '' @ itoa (sint v) @ nl))"

text \<open>The exit block is there when \<open>showGraph\<close> is called.\<close>

lemma showGraph_console_Ok: "candidate f L ps \<Longrightarrow> \<exists>s. showGraph_console name L = Ok s"
  by (auto simp: candidate_def showGraph_console_def)

section \<open>Reading them back\<close>

text \<open>A text cut at a character that ends each of its pieces.\<close>

fun pieces :: "char \<Rightarrow> string \<Rightarrow> string \<Rightarrow> string list" where
  "pieces c acc [] = []"
| "pieces c acc (x # xs) = (if x = c then rev acc # pieces c [] xs else pieces c (x # acc) xs)"

definition read_lines :: "string \<Rightarrow> string list" where
  "read_lines = pieces (CHR 0x0A) []"

definition read_words :: "string \<Rightarrow> string list" where
  "read_words = pieces (CHR '' '') []"

text \<open>The rest of a line behind the first colon.\<close>

definition behind_colon :: "string \<Rightarrow> string" where
  "behind_colon l = tl (dropWhile (\<lambda>c. c \<noteq> CHR '':'') l)"

definition read_partition :: "nat \<Rightarrow> string \<Rightarrow> int list \<times> int list list" where
  "read_partition n file = (let ls = read_lines file in
     (map (\<lambda>i. atoi (tl (dropWhile (\<lambda>c. c \<noteq> CHR '' '') (ls ! Suc i)))) [0..<n],
      map (\<lambda>t. map atoi (read_words (tl (ls ! (Suc n + 2 * t + 1))))) [0..<MAX_THREAD]))"

definition read_dag :: "string \<Rightarrow> (string list \<times> int list) list" where
  "read_dag file = (let ls = read_lines file in
     map (\<lambda>i. (read_words (behind_colon (ls ! (2 * i + 1))), map atoi (read_words (behind_colon (ls ! (2 * i + 2))))))
       [0..<nat (atoi (behind_colon (ls ! 0)))])"

section \<open>Lines and words\<close>

lemma pieces_end: "c \<notin> set w \<Longrightarrow> pieces c acc (w @ c # xs) = (rev acc @ w) # pieces c [] xs"
  by (induction w arbitrary: acc) auto

lemma pieces_concat: "\<forall>w \<in> set ws. c \<notin> set w \<Longrightarrow> pieces c [] (concat (map (\<lambda>w. w @ [c]) ws)) = ws"
  by (induction ws) (simp_all add: pieces_end)

lemma itoa_chars: "c \<in> set (itoa i) \<Longrightarrow> c = CHR ''-'' \<or> is_digit c"
  using decimal_digits by (auto simp: itoa_def split: if_splits)

lemma itoa_clear [simp]:
  "CHR 0x0A \<notin> set (itoa i)" "CHR '' '' \<notin> set (itoa i)" "CHR 0x09 \<notin> set (itoa i)" "CHR '':'' \<notin> set (itoa i)"
  using itoa_chars [of _ i] by (force simp: is_digit_def)+

lemma read_numbers: "map atoi (read_words (concat (map (\<lambda>k. itoa (int k) @ '' '') ks))) = map int ks"
proof -
  have "concat (map (\<lambda>k. itoa (int k) @ '' '') ks) = concat (map (\<lambda>w. w @ '' '') (map (\<lambda>k. itoa (int k)) ks))" (is "?a = ?b")
    by (simp add: comp_def)
  then have "read_words ?a = read_words ?b" by (rule arg_cong)
  also have "read_words ?b = map (\<lambda>k. itoa (int k)) ks" unfolding read_words_def by (rule pieces_concat) simp
  finally show ?thesis by (simp add: atoi_itoa comp_def)
qed

lemma behind_first: "c \<notin> set w \<Longrightarrow> tl (dropWhile (\<lambda>x. x \<noteq> c) (w @ c # r)) = r"
  by (induction w) auto

text \<open>A file as its lines.\<close>

lemma read_lines_concat: "\<forall>l \<in> set ls. CHR 0x0A \<notin> set l \<Longrightarrow> read_lines (concat (map (\<lambda>l. l @ nl) ls)) = ls"
  by (simp add: read_lines_def nl_def pieces_concat)

lemma pair_nth:
  "i < m \<Longrightarrow> concat (map (\<lambda>i. [f i, g i]) [0..<m]) ! (2 * i) = f i \<and> concat (map (\<lambda>i. [f i, g i]) [0..<m]) ! Suc (2 * i) = g i"
proof (induction m)
  case (Suc m)
  have len: "length (concat (map (\<lambda>i. [f i, g i]) [0..<k])) = 2 * k" for k by (induction k) simp_all
  show ?case
  proof (cases "i = m")
    case True
    then show ?thesis by (simp add: nth_append len)
  next
    case False
    then have "i < m" using Suc.prems by simp
    then show ?thesis using Suc.IH by (simp add: nth_append len)
  qed
qed simp

lemma concat_pairs: "concat (map (\<lambda>l. l @ c) (concat (map (\<lambda>i. [f i, g i]) xs))) = concat (map (\<lambda>i. f i @ c @ g i @ c) xs)"
  by (induction xs) simp_all

section \<open>The partition\<close>

definition partition_lines :: "nat \<Rightarrow> partition \<Rightarrow> string list" where
  "partition_lines n p = ''latency: '' # map (\<lambda>i. itoa (int i) @ '' '' @ itoa (sccLatency p ! i)) [0..<n] @
     concat (map (\<lambda>i. [''partition '' @ itoa (int i) @ '':'', tab @ concat (map (\<lambda>k. itoa (int k) @ '' '') (part p ! i))]) [0..<MAX_THREAD])"

lemma showPartition_lines: "showPartition n p = concat (map (\<lambda>l. l @ nl) (partition_lines n p))"
proof -
  have "concat (map (show_latency p) xs) = concat (map (\<lambda>l. l @ nl) (map (\<lambda>i. itoa (int i) @ '' '' @ itoa (sccLatency p ! i)) xs))" for xs
    by (induction xs) (simp_all add: show_latency_def)
  moreover have "concat (map (show_part p) xs) = concat (map (\<lambda>i. (''partition '' @ itoa (int i) @ '':'') @ nl @
      (tab @ concat (map (\<lambda>k. itoa (int k) @ '' '') (part p ! i))) @ nl) xs)" for xs
    by (induction xs) (simp_all add: show_part_def)
  ultimately show ?thesis unfolding partition_lines_def showPartition_def by (simp add: concat_pairs del: append_assoc upt_Suc)
qed

lemma numbers_clear [simp]: "CHR 0x0A \<notin> set (concat (map (\<lambda>k. itoa (int k) @ '' '') ks))"
  by simp

text \<open>
  The file \<^verbatim>\<open>partition\<close> holds the whole partition: reading it back gives the latency of every component and the
  components of every thread, in their order.
\<close>

theorem partition_file:
  assumes "n = length (sccLatency p)" "length (part p) = MAX_THREAD"
  shows "read_partition n (showPartition n p) = (sccLatency p, map (map int) (part p))"
proof -
  let ?ls = "partition_lines n p"
  have ls: "read_lines (showPartition n p) = ?ls"
    unfolding showPartition_lines by (rule read_lines_concat) (auto simp: partition_lines_def tab_def split: if_splits)
  have "atoi (tl (dropWhile (\<lambda>c. c \<noteq> CHR '' '') (?ls ! Suc i))) = sccLatency p ! i" if "i < n" for i
    using that behind_first [of "CHR '' ''" "itoa (int i)"] by (simp add: partition_lines_def nth_append atoi_itoa)
  then have lat: "map (\<lambda>i. atoi (tl (dropWhile (\<lambda>c. c \<noteq> CHR '' '') (?ls ! Suc i)))) [0..<n] = sccLatency p"
    by (intro nth_equalityI) (simp_all add: assms(1) del: upt_Suc)
  have "?ls ! (Suc n + 2 * t + 1) = tab @ concat (map (\<lambda>k. itoa (int k) @ '' '') (part p ! t))" if "t < MAX_THREAD" for t
    by (simp add: partition_lines_def nth_append conjunct2 [OF pair_nth [OF that]])
  then have "map atoi (read_words (tl (?ls ! (Suc n + 2 * t + 1)))) = map int (part p ! t)" if "t < MAX_THREAD" for t
    using that by (simp only: tab_def append_Cons append_Nil list.sel read_numbers)
  then have parts: "map (\<lambda>t. map atoi (read_words (tl (?ls ! (Suc n + 2 * t + 1))))) [0..<MAX_THREAD] = map (map int) (part p)"
    by (intro nth_equalityI) (simp_all add: assms(2) del: upt_Suc)
  show ?thesis unfolding read_partition_def Let_def ls lat parts ..
qed

theorem partition_file_witness:
  "read_partition 2 (showPartition 2 \<lparr>sccLatency = [3, -4], thread_of = [0, 1], part = [[0], [1]], load = [3, -4]\<rparr>) =
    ([3, -4], [[0], [1]])"
  using partition_file [of 2 "\<lparr>sccLatency = [3, -4], thread_of = [0, 1], part = [[0], [1]], load = [3, -4]\<rparr>"]
  by (simp add: MAX_THREAD_def)

section \<open>The graph of components\<close>

definition dag_lines :: "(Inst \<Rightarrow> string) \<Rightarrow> scc_state \<Rightarrow> string list" where
  "dag_lines nm st = (''num:'' @ itoa (int (sccNum st))) #
     concat (map (\<lambda>i. [''SCC '' @ itoa (int i) @ '':'' @ concat (map (\<lambda>x. nm x @ '' '') (InstInSCC st ! i)),
       tab @ ''dependent scc'' @ '':'' @ concat (map (\<lambda>k. itoa (int k) @ '' '') (scc_dependents st i))]) [0..<sccNum st])"

lemma showDAG_lines: "showDAG nm st = concat (map (\<lambda>l. l @ nl) (dag_lines nm st))"
proof -
  have "concat (map (show_scc nm st) xs) =
      concat (map (\<lambda>i. (''SCC '' @ itoa (int i) @ '':'' @ concat (map (\<lambda>x. nm x @ '' '') (InstInSCC st ! i))) @ nl @
        (tab @ ''dependent scc'' @ '':'' @ concat (map (\<lambda>k. itoa (int k) @ '' '') (scc_dependents st i))) @ nl) xs)" for xs
    by (induction xs) (simp_all add: show_scc_def)
  then show ?thesis unfolding dag_lines_def showDAG_def by (simp add: concat_pairs del: append_assoc upt_Suc)
qed

lemma read_names:
  "\<forall>x \<in> set xs. CHR '' '' \<notin> set (nm x) \<Longrightarrow> read_words (concat (map (\<lambda>x. nm x @ '' '') xs)) = map nm xs"
  using pieces_concat [of "map nm xs" "CHR '' ''"] by (simp add: read_words_def comp_def)

text \<open>
  C40. The file \<^verbatim>\<open>dag\<close> holds the components and the graph of components: reading it back gives, for every component, the
  names of its instructions and the components that depend on it, in their order.
\<close>

theorem dag_file:
  assumes "length (InstInSCC st) = sccNum st"
    and "\<forall>xs \<in> set (InstInSCC st). \<forall>x \<in> set xs. CHR '' '' \<notin> set (nm x) \<and> CHR 0x0A \<notin> set (nm x)"
  shows "read_dag (showDAG nm st) = map (\<lambda>i. (map nm (InstInSCC st ! i), map int (scc_dependents st i))) [0..<sccNum st]"
proof -
  let ?ls = "dag_lines nm st" and ?n = "sccNum st"
  let ?f = "\<lambda>i. ''SCC '' @ itoa (int i) @ '':'' @ concat (map (\<lambda>x. nm x @ '' '') (InstInSCC st ! i))"
  let ?g = "\<lambda>i. tab @ ''dependent scc'' @ '':'' @ concat (map (\<lambda>k. itoa (int k) @ '' '') (scc_dependents st i))"
  have names: "CHR '' '' \<notin> set (nm x) \<and> CHR 0x0A \<notin> set (nm x)" if "i < ?n" "x \<in> set (InstInSCC st ! i)" for i x
    using assms nth_mem [of i "InstInSCC st"] that by auto
  have ls: "read_lines (showDAG nm st) = ?ls"
    unfolding showDAG_lines
    by (rule read_lines_concat) (auto simp: dag_lines_def tab_def split: if_splits dest: names)
  have 0: "atoi (behind_colon (?ls ! 0)) = int ?n"
    using behind_first [of "CHR '':''" "''num''" "itoa (int ?n)"] by (simp add: dag_lines_def behind_colon_def atoi_itoa)
  have f: "behind_colon (?ls ! (2 * i + 1)) = concat (map (\<lambda>x. nm x @ '' '') (InstInSCC st ! i))" if "i < ?n" for i
  proof -
    have "?ls ! (2 * i + 1) = ?f i" using conjunct1 [OF pair_nth [OF that, of ?f ?g]] by (simp add: dag_lines_def)
    then show ?thesis using behind_first [of "CHR '':''" "''SCC '' @ itoa (int i)"] by (simp add: behind_colon_def)
  qed
  have g: "behind_colon (?ls ! (2 * i + 2)) = concat (map (\<lambda>k. itoa (int k) @ '' '') (scc_dependents st i))" if "i < ?n" for i
  proof -
    have "?ls ! (2 * i + 2) = ?g i" using conjunct2 [OF pair_nth [OF that, of ?f ?g]] by (simp add: dag_lines_def)
    then show ?thesis using behind_first [of "CHR '':''" "tab @ ''dependent scc''"] by (simp add: behind_colon_def tab_def)
  qed
  have "read_words (concat (map (\<lambda>x. nm x @ '' '') (InstInSCC st ! i))) = map nm (InstInSCC st ! i)" if "i < ?n" for i
    by (rule read_names) (use names that in blast)
  then show ?thesis unfolding read_dag_def Let_def ls 0 nat_int by (simp add: f [simplified] g [simplified] read_numbers)
qed

theorem dag_file_witness:
  "read_dag (showDAG (\<lambda>i. ''t'' @ itoa (int i)) (scc_clear\<lparr>sccNum := 2, InstInSCC := [[4, 7], [5]], scc_dependents := (\<lambda>k. if k = 0 then [1] else [])\<rparr>)) =
    [([''t'' @ itoa 4, ''t'' @ itoa 7], [1]), ([''t'' @ itoa 5], [])]"
  using dag_file [of "scc_clear\<lparr>sccNum := 2, InstInSCC := [[4, 7], [5]], scc_dependents := (\<lambda>k. if k = 0 then [1] else [])\<rparr>" "\<lambda>i. ''t'' @ itoa (int i)"]
  by (simp add: scc_clear_def numeral_2_eq_2)

end
