(* ===== verification/Spec2Isabelle.thy ===== *)
theory Spec2Isabelle
  imports Runtime_Conc Simple_Sync Driver Transform Pre_Split_Result Sync_Result Peeled_Result Sync_Delivery Transform_Result Pass_Runs Debug_Output
begin

text \<open>
  The program is an LLVM pass for decoupled software pipelining, and the runtime its output is linked with. The pass
  takes a loop, builds the graph of the dependences between its instructions, condenses the graph to its strongly
  connected components, distributes the components over \<open>MAX_THREAD\<close> = 2 threads such that every dependence goes to
  the same or a later thread, moves each thread's instructions into a function of its own, and connects the functions
  by channels. The runtime keeps the channels, bounded queues in shared memory, and the threads.

  \<^bold>\<open>Parts and theories.\<close> The theories follow the order of the calls in \<open>runOnLoop\<close> (\<^verbatim>\<open>DSWP_0.cpp\<close>).

  \<^item> \<open>DSWP_Prelude\<close>: the outcomes of an operation (\<open>Ok\<close>; \<open>Exit\<close> for a call of \<open>error\<close> or a failed assertion;
    \<open>Undef\<close> for undefined behaviour; \<open>Blocked\<close> for a call that does not return), their composition \<open>obind\<close>, \<open>ofold\<close>,
    \<open>omap\<close>, arrays, and lemmas about lists that the parts share. \<open>Utils\<close>: \<^verbatim>\<open>Utils.cpp\<close>.
  \<^item> \<open>LLVM_IR\<close>: a loop as the analyses read it. Instructions and blocks are numbers, which stand for their addresses;
    opcodes, operands, users and successors are functions of them.
  \<^item> \<open>Dep_Graph\<close> (\<open>addEdge\<close>, \<open>checkEdge\<close>), \<open>PDG_Data\<close>, \<open>Block_Order\<close>, \<open>Peeled_CFG\<close>, \<open>Control_Dep\<close>,
    \<open>PDG_Build\<close>: \<open>buildPDG\<close> of \<^verbatim>\<open>DSWP_1.cpp\<close>, one group of definitions per loop of that function: register and memory
    dependences, depth-first order of the blocks, the control flow graph of two iterations on dummy blocks, and the climb
    in the post-dominator tree that adds the control dependences. \<open>Peeled_Result\<close> says what the two iterations are.
  \<^item> \<open>SCC_Search\<close>, with \<open>SCC_Forward\<close>, \<open>SCC_Reverse\<close>, \<open>SCC_Correct\<close>, \<open>SCC_Result\<close>: \<open>findSCC\<close> of
    \<^verbatim>\<open>DSWP_2.cpp\<close>, the two searches of Kosaraju's algorithm on the maps of the object, and the graph of components.
  \<^item> \<open>Thread_Partition\<close>, \<open>Partition_Correct\<close>, \<open>Partition_Result\<close>: \<open>threadPartition\<close>, \<open>getLatency\<close> and the lookups
    of \<^verbatim>\<open>DSWP_3.cpp\<close>. \<open>Small_Loop\<close>: the loop on which most theorems about the analyses are applied.
  \<^item> \<open>Live_Info\<close>: \<open>getLiveinfo\<close> of \<^verbatim>\<open>DSWP_4.cpp\<close>.
  \<^item> \<open>IR_Module\<close>, \<open>IR_Build\<close>: the module as the transformation changes it, a store \<open>module_ir\<close> from addresses to
    instructions and blocks, where a new object gets the next free number, with the operations of LLVM's interface that the
    code uses (insert before, append, \<open>replaceUses\<close>, move a block), their types, and the invariant \<open>store_inv\<close>. LLVM's
    own checks of casts and of the types of operands are \<open>cast_ok\<close> and \<open>instr_ok\<close>.
  \<^item> \<open>Module_Init\<close>: \<open>doInitialization\<close>. \<open>Driver\<close>: \<open>initialize\<close> and \<open>runOnLoop\<close> over the analyses; the
    transformation is an argument there, which \<open>Transform\<close> instantiates with the operations of the next three items.
  \<^item> \<open>Pre_Split\<close>, \<open>Pre_Split_Correct\<close>, \<open>Pre_Split_Result\<close>: \<open>preLoopSplit\<close> of \<^verbatim>\<open>DSWP_4.cpp\<close>, the block that
    replaces the loop. \<open>Small_Module\<close>: the module on which its theorems are applied.
  \<^item> \<open>Loop_Split\<close>, with \<open>Loop_Split_Copy\<close>, \<open>Loop_Split_Thread\<close>, \<open>Loop_Split_Run\<close>, \<open>Loop_Split_Finish\<close>,
    \<open>Loop_Split_Result\<close>: \<open>getDominators\<close> and \<open>loopSplit\<close> of \<^verbatim>\<open>DSWP_4.cpp\<close>, the functions of the threads; the tables
    \<open>instMap\<close>, \<open>placeEquivalents\<close>, \<open>newToOld\<close> and \<open>newInstAssigned\<close> are the record \<open>clones\<close>. \<open>Pipe_Loop\<close>: a loop with two
    threads on which its theorems are applied.
  \<^item> \<open>Sync_Insert\<close>, \<open>Sync_Correct\<close>, \<open>Sync_Pairing\<close>, \<open>Sync_Result\<close>: \<open>insertSynchronization\<close>, \<open>insertProduce\<close>,
    \<open>insertConsume\<close> of \<^verbatim>\<open>DSWP_5.cpp\<close>. \<open>Cleanup\<close>, \<open>Cleanup_Correct\<close>: \<open>cleanup\<close> of the same file.
  \<^item> The composition: \<open>Split_Sync\<close>, \<open>Sync_Values\<close>, \<open>Split_Sync_Result\<close> follow a value of the loop through \<open>loopSplit\<close> and
    \<open>insertSynchronization\<close>, and \<open>Sync_Delivery\<close> says where each use gets its value from; \<open>Worker_Ends\<close> adds \<open>cleanup\<close>; \<open>Plan_Fits\<close> shows that the plan the analyses make meets
    what these operations need; \<open>Same_Loop\<close> and \<open>Split_Start\<close> carry this over \<open>preLoopSplit\<close>; \<open>Transform_Result\<close> puts the
    calls of \<open>runOnLoop\<close> together. \<open>Pipe_Analysis\<close> evaluates the analyses on the loop of \<open>Pipe_Loop\<close>.
  \<^item> The execution of the workers: \<open>Worker_Path\<close> relates the paths through the copies to the paths through the loop,
    \<open>Control_Closed\<close> gets the condition for it from the control dependences of \<open>buildPDG\<close>, \<open>Channel_Net\<close> is the net of threads
    and bounded queues that block each other, \<open>Worker_Net\<close> shows that the calls the synchronization inserts form such a net
    without a deadlock, and \<open>Pass_Runs\<close> states the result for \<open>runOnLoop\<close>.
  \<^item> \<open>Debug_Output\<close>: the files and messages of \<^verbatim>\<open>DSWP_DEBUG.cpp\<close> and \<^verbatim>\<open>runtime/runtime_debug.c\<close>.
  \<^item> \<open>Fifo_Interface\<close>: the interface of a bounded queue as a locale, with what clients may conclude from its laws.
    \<open>Runtime_Queue\<close>: \<^verbatim>\<open>runtime/queue.c\<close> as sequential operations on the circular buffer. \<open>Runtime_Conc\<close>: the same
    functions statement by statement, as steps of any number of threads that share the queue, its mutex and its two
    condition variables. \<open>Simple_Sync\<close>: \<^verbatim>\<open>runtime/simple_sync.c\<close>, the channels and the threads.

  \<^bold>\<open>What the lemmas show.\<close> The graph has exactly the dependences of the loop (\<open>pdg_edges\<close>). The components are
  the classes of mutually dependent instructions, numbered in a topological order; the graph of components has the dependences
  between them and, by a defect of the search, an edge from component 0 to every later component with a cycle
  (\<open>dag_edges_exact\<close>). The partition always ends, puts every
  component into one thread, and no dependence goes back to an earlier thread; \<open>plan_pipeline\<close>, below, is the same in terms
  of the program: a value is never computed in a later thread than the one that uses it. The block that replaces the loop
  is given as a list of instructions and is well typed. A worker has copies of exactly its own instructions, its control
  flow stays in it, and it reads and writes the fields of the struct that the replacement block writes and reads. Each channel
  has one producer and one consumer in a later thread; a value survives the casts around it, and a use of a value of another
  thread becomes the value received on the channel on which that thread sends its copy (\<open>operands_delivered\<close>). After \<open>cleanup\<close> the blocks
  of the workers are well formed and the loop is gone. \<open>run_on_loop\<close> states the result of all calls: under conditions on
  the module before the pass, on LLVM's answers and on the branches that threads copy from each other (\<open>branches_fit\<close>),
  \<open>runOnLoop\<close> returns, and when it changes the module, the threads use no value of the loop it deletes. \<open>pass_pipelines\<close> is
  about the execution of this module: a worker passes the copies of its blocks in the order in which the loop passes the blocks,
  which answers the question in a comment of \<open>loopSplit\<close> whether a branch may go to the next copied post-dominator
  (\<open>worker_paths\<close>); the calls of a channel are in the copies of the same block, once for each of its two threads; so the threads
  never wait for each other for ever, with the queues of the runtime, and what a consumer receives was sent in
  the same visit. The hypothesis \<open>exit_tree\<close> is what LLVM documents of the post-dominators of a loop with one exit. In the runtime
  the queue is a bounded first-in first-out queue for every interleaving of the threads, its functions exclude each other and
  lose no wakeup. The file \<^verbatim>\<open>dag\<close> of the debugging output can be read back.

  \<^bold>\<open>Termination and bounds.\<close> There is no fuel. Recursions over the loop's tables are \<open>function\<close>s with a measure,
  such as the number of instructions that are not yet marked. Loops that end only when the tables are consistent
  (the climbs in the dominator trees, the loop of \<open>cleanup\<close> that moves instructions)
  are \<open>partial_function (option)\<close>s, where \<open>None\<close>, as the outcome \<open>Blocked\<close>, is a loop that does not end; the theorems
  \<open>analysis_total\<close>, \<open>partition_total\<close>, \<open>worker_copies\<close>, \<open>sync_total\<close>, \<open>cleanup_shape\<close>, \<open>pass_pipelines\<close> and \<open>run_on_loop\<close> show that they do end. The
  numbers of components, blocks and threads are far below the bound of \<open>int\<close> and are unbounded here; the indices of the circular
  buffer, the elements of the queue and the casts to 64 bits are kept at their widths.

  \<^bold>\<open>Parameters.\<close> The results of LLVM's analyses (memory dependences, aliases, dominator and post-dominator trees, loop
  information) are arguments, with hypotheses that say that they are about the loop at hand (\<open>llvm_ok\<close>, \<open>env_ok\<close>, \<open>plan_ok\<close>).
  The order of equal elements in \<open>std::priority_queue\<close>, the order in which the uses of a value are visited while they are being
  changed, and what \<open>getNextNode\<close> yields at the end of a block are arguments without hypotheses where that is possible.
  A \<open>set\<close> or \<open>map\<close> over pointers is iterated in the order of the addresses.

  \<^bold>\<open>Not modelled.\<close> \<^verbatim>\<open>raw_os_ostream.cpp\<close> is LLVM's adapter between two kinds of streams, and the other messages on
  \<open>cout\<close> only report progress; \<^verbatim>\<open>Example\<close> and \<^verbatim>\<open>runtime/tests\<close> hold inputs. The names of values, alignments, attributes and calling
  conventions do not matter to any decision of the pass. \<open>getAnalysisUsage\<close> registers the analyses. What the
  instructions compute is not modelled either: the theorems are about dependences, control flow, operands, types and the
  calls of the runtime; a run is given by the branches that are taken, the same for all threads, and a value in a channel by
  the visit it was sent in. The
  functions of \<^verbatim>\<open>pthread.h\<close> are modelled by their documented effect on the mutex and the sets of waiting threads.
\<close>

section \<open>Properties of the analyses together\<close>

text \<open>
  C12. The analyses of a loop never fail: on a loop for which LLVM's data are consistent, and whose memory
  accesses have known locations, \<open>runOnLoop\<close> gets through the construction of the graph, the components,
  the partition and the live values. It makes a plan exactly if the loop is at top level, not in generated code, has a
  unique exit and predecessor, and has more than one component, so that some instruction of the loop does not reach
  another one through the dependences of the program; else it leaves the loop alone.
\<close>

theorem analysis_total:
  assumes "llvm_ok A F L"
  shows "\<exists>r ps'. analyse_loop tie A f F L ps = Ok (r, ps') \<and> generated ps' = generated ps \<and>
    (r \<noteq> None \<longleftrightarrow> candidate f L ps \<and>
      (\<exists>x \<in> set (loop_insts F L). \<exists>y \<in> set (loop_insts F L). (x, y) \<notin> {(u, v). \<exists>d. pdg_rel F L (memory A) u v d}\<^sup>*))"
proof (cases "candidate f L ps")
  case True
  then show ?thesis using analyse_plans [OF assms True, of tie] by simp
next
  case False
  then show ?thesis using not_candidate [OF False, of tie A F] by blast
qed

theorem analysis_total_witness:
  "\<exists>r ps'. analyse_loop (\<lambda>_. 0) small_llvm ''f'' small_func small_loop pass_start = Ok (r, ps') \<and> generated ps' = {} \<and> r \<noteq> None"
proof -
  let ?R = "{(u, v). \<exists>d. pdg_rel small_func small_loop (memory small_llvm) u v d}"
  have "(10, y) \<in> ?R\<^sup>* \<Longrightarrow> y = 10 \<or> y = 11" for y
    by (induction rule: rtrancl_induct) (auto simp: small_llvm_def small_pdg)
  then have "(10, 12) \<notin> ?R\<^sup>*" by fastforce
  then have "\<exists>x \<in> set (loop_insts small_func small_loop). \<exists>y \<in> set (loop_insts small_func small_loop). (x, y) \<notin> ?R\<^sup>*"
    unfolding small_insts by (intro bexI [of _ 10] bexI [of _ 12]) simp_all
  then show ?thesis
    using analysis_total [OF small_llvm_ok, of "\<lambda>_. 0" "''f''" pass_start] small_candidate by (simp add: pass_start_def)
qed

text \<open>
  C4. The plan is a pipeline for the program's own dependences: whenever an instruction of the loop uses the
  result of another one, touches memory after it in a way the analyses report, or is executed depending on
  its outcome, the thread of the second is the thread of the first or a later one.
\<close>

theorem plan_pipeline:
  assumes "llvm_ok A F L" "analyse_loop tie A f F L ps = Ok (Some pl, ps')" "pdg_rel F L (memory A) u v d"
  shows "\<exists>a b. getInstAssigned (thread_of (threads_of pl)) (sccId (sccs pl)) (VInst u) = Ok a \<and>
    getInstAssigned (thread_of (threads_of pl)) (sccId (sccs pl)) (VInst v) = Ok b \<and>
    0 \<le> a \<and> a \<le> b \<and> b < int MAX_THREAD"
proof -
  note p = plan_parts [OF assms(1,2)]
  then have "threadPartition tie (opcode_of F) (loop_insts F L) (scc_of (pgraph pl) (loop_insts F L)) = Ok (threads_of pl)"
    "has_edge (pgraph pl) u v d"
    using assms(3) by auto
  then show ?thesis
    using partition_of_scc_pipeline [of "pgraph pl" "loop_insts F L" tie "opcode_of F" "threads_of pl" u v d] p by simp
qed

theorem plan_pipeline_witness:
  "\<exists>pl ps' a b. analyse_loop (\<lambda>_. 0) small_llvm ''f'' small_func small_loop pass_start = Ok (Some pl, ps') \<and>
    getInstAssigned (thread_of (threads_of pl)) (sccId (sccs pl)) (VInst 12) = Ok a \<and>
    getInstAssigned (thread_of (threads_of pl)) (sccId (sccs pl)) (VInst 10) = Ok b \<and> a \<le> b"
proof -
  obtain pl ps' where p: "analyse_loop (\<lambda>_. 0) small_llvm ''f'' small_func small_loop pass_start = Ok (Some pl, ps')"
    using small_plan by blast
  have "pdg_rel small_func small_loop (memory small_llvm) 12 10 CONTROL" by (simp add: small_llvm_def small_pdg)
  from plan_pipeline [OF small_llvm_ok p this] p show ?thesis by blast
qed

end
